(* ===== verification/Prelude.thy ===== *)
theory Prelude
  imports Main "HOL-Library.Word" "HOL-Library.List_Lexorder" "HOL-Library.Product_Lexorder"
    "HOL-Library.Char_ord"
begin

text \<open>
  Shared vocabulary of the development: the machine types of the Rust code as words and byte
  lists, the crate-wide error type, the little helpers of the Rust standard library the sources
  use, the theorem collections, and the generic lemmas on lists, words and linear orders that
  the component theories rest on.
\<close>

unbundle bit_operations_syntax

section \<open>Machine types\<close>

type_synonym byte = "8 word"
type_synonym u16 = "16 word"
type_synonym u32 = "32 word"
type_synonym u64 = "64 word"
type_synonym u128 = "128 word"
type_synonym bytes = "byte list"

text \<open>
  A Rust \<^verbatim>\<open>String\<close> is its UTF-8 byte sequence, held as a list of \<^typ>\<open>char\<close> (a HOL character is
  one byte); \<open>as_bytes\<close> is Rust's \<^verbatim>\<open>str::as_bytes\<close>. Fixed-size arrays \<^verbatim>\<open>[u8; N]\<close> are byte lists; the
  length is stated where a theorem needs it.
\<close>

definition byte_of :: "char \<Rightarrow> byte" where
  "byte_of c = word_of_nat (of_char c)"

definition as_bytes :: "string \<Rightarrow> bytes" where
  "as_bytes s = map byte_of s"

text \<open>
  The crate's \<^verbatim>\<open>MemError\<close> (\<^verbatim>\<open>error.rs\<close>). Message payloads keep the fixed text that names the fault;
  interpolated run-time values, wrapped foreign errors and the floating-point similarity of
  \<open>NearDuplicate\<close> are left out.
\<close>

datatype mem_error =
    NotFound string
  | Storage string
  | Serialize
  | Crypto
  | Io
  | Identity string
  | Malformed string
  | Unauthorized string
  | KeyUnavailable "64 word"
  | Embedding string
  | AnchorNotFinalized string
  | Conflict string string
  | NearDuplicate "128 word"
  | NothingToRotate string
  | ManifestUnavailable string
  | BlobTooLarge string nat

section \<open>Result combinators\<close>

text \<open>\<open>r_bind\<close> is Rust's \<^verbatim>\<open>?\<close>: an error leaves the function, a success value goes on.\<close>

definition r_bind :: "'e + 'a \<Rightarrow> ('a \<Rightarrow> 'e + 'b) \<Rightarrow> 'e + 'b" where
  "r_bind r f = (case r of Inl e \<Rightarrow> Inl e | Inr a \<Rightarrow> f a)"

named_theorems result_simps
named_theorems wire_simps

lemma r_bind_simps [simp, result_simps]:
  "r_bind (Inl e) f = Inl e"
  "r_bind (Inr a) f = f a"
  by (simp_all add: r_bind_def)

lemma r_bind_Inr_iff [result_simps]:
  "r_bind r f = Inr b \<longleftrightarrow> (\<exists>a. r = Inr a \<and> f a = Inr b)"
  by (cases r) auto

lemma r_bind_Inl_iff [result_simps]:
  "r_bind r f = Inl e \<longleftrightarrow> r = Inl e \<or> (\<exists>a. r = Inr a \<and> f a = Inl e)"
  by (cases r) auto

section \<open>Bytes and characters\<close>

lemma unat_byte_of [wire_simps]: "unat (byte_of c) = of_char c"
  using nat_of_char_less_256 [of c] by (simp add: byte_of_def unat_of_nat)

lemma byte_of_inject [simp]: "byte_of c = byte_of d \<longleftrightarrow> c = d"
  by (metis unat_byte_of of_char_eq_iff)

lemma length_as_bytes [simp]: "length (as_bytes s) = length s"
  by (simp add: as_bytes_def)

lemma as_bytes_append [simp]: "as_bytes (s @ t) = as_bytes s @ as_bytes t"
  by (simp add: as_bytes_def)

lemma as_bytes_Nil [simp]: "as_bytes [] = []"
  and as_bytes_Cons [simp]: "as_bytes (c # s) = byte_of c # as_bytes s"
  by (simp_all add: as_bytes_def)

lemma inj_byte_of: "inj byte_of"
  by (simp add: inj_def)

lemma as_bytes_inject [simp]: "as_bytes s = as_bytes t \<longleftrightarrow> s = t"
  using inj_byte_of by (simp add: as_bytes_def inj_map_eq_map)

text \<open>A property of every byte is checked by running through the 256 values.\<close>

lemma all_bytes_iff: "(\<forall>c::byte. P c) \<longleftrightarrow> list_all (\<lambda>n. P (word_of_nat n)) [0..<256]"
proof
  assume *: "list_all (\<lambda>n. P (word_of_nat n)) [0..<256]"
  show "\<forall>c. P c"
  proof
    fix c :: byte
    have "unat c < 256" using unsigned_less [of c] by simp
    then have "unat c \<in> set [0..<256]" by simp
    with * have "P (word_of_nat (unat c))" unfolding list_all_iff by blast
    then show "P c" by simp
  qed
qed (simp add: list_all_iff)

lemma all_bytesI: "list_all (\<lambda>n. P (word_of_nat n)) [0..<256] \<Longrightarrow> P (c::byte)"
  using all_bytes_iff [of P] by blast

lemma byte_rangeI:
  "lo \<le> c \<Longrightarrow> c \<le> hi \<Longrightarrow> list_all (\<lambda>n. P (word_of_nat n)) [unat lo..<Suc (unat hi)] \<Longrightarrow> P (c::byte)"
proof -
  assume "lo \<le> c" "c \<le> hi" and all: "list_all (\<lambda>n. P (word_of_nat n)) [unat lo..<Suc (unat hi)]"
  then have "unat c \<in> set [unat lo..<Suc (unat hi)]" by (auto simp: word_le_nat_alt le_less)
  with all have "P (word_of_nat (unat c))" unfolding list_all_iff by blast
  then show ?thesis by simp
qed

lemma below_as_nat: "unat (w :: 'a::len word) < k \<Longrightarrow> \<exists>n < k. w = word_of_nat n"
  by (rule exI [of _ "unat w"]) simp

section \<open>Integers as bytes\<close>

text \<open>Rust's \<^verbatim>\<open>to_le_bytes\<close> and \<^verbatim>\<open>to_be_bytes\<close>: byte \<open>i\<close> of a word from the low end.\<close>

definition byte_at :: "'a::len word \<Rightarrow> nat \<Rightarrow> byte" where
  "byte_at w i = ucast (drop_bit (8 * i) w)"

definition u64_le_bytes :: "u64 \<Rightarrow> bytes" where
  "u64_le_bytes w = map (byte_at w) [0..<8]"

definition u128_be_bytes :: "u128 \<Rightarrow> bytes" where
  "u128_be_bytes w = map (byte_at w) (rev [0..<16])"

lemma length_u64_le_bytes [simp]: "length (u64_le_bytes w) = 8"
  by (simp add: u64_le_bytes_def)

lemma length_u128_be_bytes [simp]: "length (u128_be_bytes w) = 16"
  by (simp add: u128_be_bytes_def)

lemma bit_byte_at: "bit (byte_at w i) j \<longleftrightarrow> j < 8 \<and> bit w (8 * i + j)"
  by (auto simp: byte_at_def bit_simps)

lemma word_eq_by_bytes:
  fixes v w :: "'a::len word"
  assumes "\<And>i. i < n \<Longrightarrow> byte_at v i = byte_at w i" and "LENGTH('a) \<le> 8 * n"
  shows "v = w"
proof (rule bit_word_eqI)
  fix k assume k: "k < LENGTH('a)"
  with assms(2) have "k div 8 < n" by (simp add: less_mult_imp_div_less mult.commute)
  then have "bit (byte_at v (k div 8)) (k mod 8) = bit (byte_at w (k div 8)) (k mod 8)"
    using assms(1) by simp
  then show "bit v k = bit w k" by (simp add: bit_byte_at)
qed

lemma u64_le_bytes_inject [simp]: "u64_le_bytes v = u64_le_bytes w \<longleftrightarrow> v = w"
proof
  assume "u64_le_bytes v = u64_le_bytes w"
  then have "\<And>i. i < 8 \<Longrightarrow> byte_at v i = byte_at w i"
    by (auto simp: u64_le_bytes_def)
  then show "v = w" using word_eq_by_bytes [of 8 v w] by simp
qed simp

text \<open>Rust's \<^verbatim>\<open>saturating_add(1)\<close> on \<^verbatim>\<open>u64\<close>.\<close>

definition u64_saturating_succ :: "u64 \<Rightarrow> u64" where
  "u64_saturating_succ w = (if w = - 1 then w else w + 1)"

lemma u64_not_max_iff: "w \<noteq> - 1 \<longleftrightarrow> unat w + 1 < 2 ^ 64" for w :: u64
proof -
  have "w = - 1 \<longleftrightarrow> unat w = unat (- 1 :: u64)" by (rule word_unat_eq_iff)
  moreover have "unat w < 2 ^ 64" using unsigned_less [of w] by simp
  moreover have "unat (- 1 :: u64) = 2 ^ 64 - 1" by (simp add: unsigned_minus_1_eq_mask mask_eq_exp_minus_1)
  ultimately show ?thesis by linarith
qed

lemma u64_saturating_succ_gt: "w \<noteq> - 1 \<Longrightarrow> w < u64_saturating_succ w"
  by (simp add: u64_saturating_succ_def u64_not_max_iff word_less_nat_alt unat_word_ariths)

lemma u64_saturating_succ_ge: "w \<le> u64_saturating_succ w"
  using u64_saturating_succ_gt [of w] by (cases "w = - 1") (auto simp: u64_saturating_succ_def)

section \<open>Chunks\<close>

text \<open>Rust's \<^verbatim>\<open>chunks(n)\<close>: consecutive slices of length \<open>n\<close>, the last one possibly shorter.\<close>

function chunks :: "nat \<Rightarrow> 'a list \<Rightarrow> 'a list list" where
  "chunks n xs = (if xs = [] \<or> n = 0 then [] else take n xs # chunks n (drop n xs))"
  by pat_completeness auto
termination
  by (relation "measure (\<lambda>(n, xs). length xs)") auto

declare chunks.simps [simp del]

lemma chunks_Nil [simp]: "chunks n [] = []"
  by (subst chunks.simps) simp

lemma chunks_two [simp]: "chunks 2 (a # b # xs) = [a, b] # chunks 2 xs"
  by (subst chunks.simps) simp

lemma chunks_four [simp]: "chunks 4 (a # b # c # d # xs) = [a, b, c, d] # chunks 4 xs"
  by (subst chunks.simps) (simp add: numeral_eq_Suc)

lemma chunks_one_two [simp]: "chunks 2 [a] = [[a]]"
  by (subst chunks.simps) simp

end
