(* ===== verification/Hex.thy ===== *)
theory Hex
  imports Prelude
begin

text \<open>
  The lowercase hex codec: \<^verbatim>\<open>hex.rs\<close> (encoder, lenient decoder), and the two strict decoders of the
  same format, \<^verbatim>\<open>Blake3Hash::from_hex\<close> in \<^verbatim>\<open>domain.rs\<close> and \<^verbatim>\<open>decode_hex\<close> in \<^verbatim>\<open>oplog/op.rs\<close>. The three
  decoders share one loop and differ in the nibble function; the round-trip law is proved once,
  in a locale over that function.
\<close>

section \<open>Encoder\<close>

definition HEX :: string where
  "HEX = ''0123456789abcdef''"

fun hex_encode :: "bytes \<Rightarrow> string" where
  "hex_encode [] = []"
| "hex_encode (b # bs) = HEX ! unat (drop_bit 4 b) # HEX ! unat (b AND 0x0f) # hex_encode bs"

section \<open>Decoders\<close>

datatype hex_decode_error = OddLength | InvalidChar

text \<open>\<^verbatim>\<open>nibble\<close> of \<^verbatim>\<open>hex.rs\<close>: either letter case.\<close>

definition nibble :: "byte \<Rightarrow> hex_decode_error + byte" where
  "nibble c =
     (if 0x30 \<le> c \<and> c \<le> 0x39 then Inr (c - 0x30)
      else if 0x61 \<le> c \<and> c \<le> 0x66 then Inr (c - 0x61 + 10)
      else if 0x41 \<le> c \<and> c \<le> 0x46 then Inr (c - 0x41 + 10)
      else Inl InvalidChar)"

text \<open>
  The loop over \<^verbatim>\<open>as_chunks::<2>().0\<close> (an odd trailing byte is not visited), parametrised by the
  nibble function; the high nibble is decoded first, so its error is the one reported.
\<close>

fun hex_pairs :: "(byte \<Rightarrow> 'e + byte) \<Rightarrow> bytes \<Rightarrow> 'e + bytes" where
  "hex_pairs nib (hi # lo # rest) =
     r_bind (nib hi) (\<lambda>h. r_bind (nib lo) (\<lambda>l.
       r_bind (hex_pairs nib rest) (\<lambda>out. Inr ((push_bit 4 h OR l) # out))))"
| "hex_pairs nib _ = Inr []"

definition hex_decode :: "bytes \<Rightarrow> hex_decode_error + bytes" where
  "hex_decode raw = (if length raw mod 2 \<noteq> 0 then Inl OddLength else hex_pairs nibble raw)"

text \<open>The strict decoders: exact width, lowercase only, the offending byte in the error.\<close>

datatype hex_error = BadLength nat nat | IllegalDigit byte

definition hex_nibble :: "byte \<Rightarrow> hex_error + byte" where
  "hex_nibble c =
     (if 0x30 \<le> c \<and> c \<le> 0x39 then Inr (c - 0x30)
      else if 0x61 \<le> c \<and> c \<le> 0x66 then Inr (c - 0x61 + 10)
      else Inl (IllegalDigit c))"

definition decode_hex :: "nat \<Rightarrow> string \<Rightarrow> hex_error + bytes" where
  "decode_hex n s =
     (let raw = as_bytes s
      in if length raw \<noteq> n * 2 then Inl (BadLength (n * 2) (length raw))
         else hex_pairs hex_nibble raw)"

datatype blake3_hex_error = BadHashLength nat | IllegalHexDigit byte

definition blake3_hex_nibble :: "byte \<Rightarrow> blake3_hex_error + byte" where
  "blake3_hex_nibble c =
     (if 0x30 \<le> c \<and> c \<le> 0x39 then Inr (c - 0x30)
      else if 0x61 \<le> c \<and> c \<le> 0x66 then Inr (c - 0x61 + 10)
      else Inl (IllegalHexDigit c))"

definition blake3_from_hex :: "string \<Rightarrow> blake3_hex_error + bytes" where
  "blake3_from_hex s =
     (let raw = as_bytes s
      in if length raw \<noteq> 64 then Inl (BadHashLength (length raw))
         else hex_pairs blake3_hex_nibble raw)"

section \<open>Lemmas\<close>

lemma length_hex_encode [simp]: "length (hex_encode bs) = 2 * length bs"
  by (induction bs) auto

lemma hex_encode_append [simp]: "hex_encode (xs @ ys) = hex_encode xs @ hex_encode ys"
  by (induction xs) auto

lemma and_15_eq: "b AND 0x0f = take_bit 4 b" for b :: byte
  by (simp add: take_bit_eq_mask mask_eq_exp_minus_1)

lemma high_nibble_bound: "unat (drop_bit 4 b) < 16" for b :: byte
proof -
  have "unat b < 256" using unsigned_less [of b] by simp
  then show ?thesis by (simp add: unat_drop_bit_eq drop_bit_eq_div [where 'a = nat])
qed

lemma low_nibble_bound: "unat (b AND 0x0f) < 16" for b :: byte
  unfolding and_15_eq by (simp add: unsigned_take_bit_eq take_bit_eq_mod [where 'a = nat])

lemma join_nibbles: "push_bit 4 (drop_bit 4 b) OR (b AND 0x0f) = b" for b :: byte
  unfolding and_15_eq by (rule bit_word_eqI) (auto simp: bit_simps)

lemma nibble_high_bits: "unat h < 16 \<Longrightarrow> bit h n \<Longrightarrow> n < 4" for h :: byte
proof -
  assume "unat h < 16" and b: "bit h n"
  then have "take_bit 4 h = h"
    by (simp add: word_unat_eq_iff unsigned_take_bit_eq take_bit_eq_mod [where 'a = nat])
  with b show ?thesis by (metis bit_take_bit_iff)
qed

lemma split_joined_nibbles:
  fixes h l :: byte
  assumes "unat h < 16" and "unat l < 16"
  shows "drop_bit 4 (push_bit 4 h OR l) = h \<and> (push_bit 4 h OR l) AND 0x0f = l"
  unfolding and_15_eq
  by (intro conjI bit_word_eqI)
    (use assms nibble_high_bits [of h] nibble_high_bits [of l] in \<open>auto simp: bit_simps\<close>)

locale nibble_decoder =
  fixes nib :: "byte \<Rightarrow> 'e + byte"
  assumes nib_digit: "n < 16 \<Longrightarrow> nib (byte_of (HEX ! n)) = Inr (word_of_nat n)"
begin

lemma pairs_encode: "hex_pairs nib (as_bytes (hex_encode bs)) = Inr bs"
proof (induction bs)
  case Nil
  show ?case by simp
next
  case (Cons b bs)
  then show ?case
    by (simp add: nib_digit high_nibble_bound low_nibble_bound join_nibbles)
qed

end

text \<open>A canonical decoder accepts nothing but the digits the encoder prints.\<close>

locale canonical_nibble_decoder = nibble_decoder +
  assumes nib_canonical: "nib c = Inr v \<Longrightarrow> unat v < 16 \<and> c = byte_of (HEX ! unat v)"
begin

lemma pairs_canonical:
  "even (length raw) \<Longrightarrow> hex_pairs nib raw = Inr bs \<Longrightarrow> raw = as_bytes (hex_encode bs)"
proof (induction raw arbitrary: bs rule: induct_list012)
  case (3 hi lo rest)
  from "3.prems" obtain h l out where ok: "nib hi = Inr h" "nib lo = Inr l"
    "hex_pairs nib rest = Inr out" and bs: "bs = (push_bit 4 h OR l) # out"
    by (auto simp: r_bind_Inr_iff)
  from "3.prems" ok have "rest = as_bytes (hex_encode out)" by (intro "3.IH") auto
  moreover have "unat h < 16" "unat l < 16" "hi = byte_of (HEX ! unat h)" "lo = byte_of (HEX ! unat l)"
    using ok(1,2) nib_canonical by blast+
  ultimately show ?case using split_joined_nibbles [of h l] by (simp add: bs del: drop_bit_or)
qed auto

end

lemma digits_ok: "list_all (\<lambda>n. nibble (byte_of (HEX ! n)) = Inr (word_of_nat n) \<and>
    hex_nibble (byte_of (HEX ! n)) = Inr (word_of_nat n) \<and>
    blake3_hex_nibble (byte_of (HEX ! n)) = Inr (word_of_nat n)) [0..<16]"
  by code_simp

interpretation lenient_hex: nibble_decoder nibble
  using digits_ok by unfold_locales (simp add: list_all_iff)

interpretation op_hex: canonical_nibble_decoder hex_nibble
proof unfold_locales
  show "hex_nibble (byte_of (HEX ! n)) = Inr (word_of_nat n)" if "n < 16" for n
    using digits_ok that by (simp add: list_all_iff)
  show "unat v < 16 \<and> c = byte_of (HEX ! unat v)" if "hex_nibble c = Inr v" for c v
  proof -
    from that consider "0x30 \<le> c" "c \<le> 0x39" | "0x61 \<le> c" "c \<le> 0x66"
      by (auto simp: hex_nibble_def split: if_splits)
    then have "case hex_nibble c of Inl _ \<Rightarrow> True | Inr v \<Rightarrow> unat v < 16 \<and> c = byte_of (HEX ! unat v)"
    proof cases
      case 1 then show ?thesis by (rule byte_rangeI) code_simp
    next
      case 2 then show ?thesis by (rule byte_rangeI) code_simp
    qed
    with that show ?thesis by simp
  qed
qed

text \<open>The hash decoder reports under its own error type and accepts the same digits.\<close>

lemma blake3_hex_nibble_eq:
  "blake3_hex_nibble c = Inr v \<longleftrightarrow> hex_nibble c = Inr v"
  by (auto simp: blake3_hex_nibble_def hex_nibble_def)

interpretation hash_hex: canonical_nibble_decoder blake3_hex_nibble
proof unfold_locales
  show "blake3_hex_nibble (byte_of (HEX ! n)) = Inr (word_of_nat n)" if "n < 16" for n
    using digits_ok that by (simp add: list_all_iff)
  show "unat v < 16 \<and> c = byte_of (HEX ! unat v)" if "blake3_hex_nibble c = Inr v" for c v
    using that op_hex.nib_canonical [of c v] by (simp add: blake3_hex_nibble_eq)
qed

lemma hex_encode_inject [simp]: "hex_encode xs = hex_encode ys \<longleftrightarrow> xs = ys"
  by (metis lenient_hex.pairs_encode sum.inject(2))

text \<open>Decoding what the encoder printed gives the bytes back.\<close>

theorem hex_roundtrip: "hex_decode (as_bytes (hex_encode bs)) = Inr bs"
  by (simp add: hex_decode_def lenient_hex.pairs_encode)

text \<open>The strict decoder accepts a string exactly when it is the encoder's own rendering of
  the result: one canonical lowercase form per byte string.\<close>

theorem decode_hex_canonical: "decode_hex n s = Inr bs \<longleftrightarrow> length bs = n \<and> s = hex_encode bs"
proof
  assume "decode_hex n s = Inr bs"
  then have len: "length (as_bytes s) = n * 2" and ok: "hex_pairs hex_nibble (as_bytes s) = Inr bs"
    by (auto simp: decode_hex_def Let_def split: if_splits)
  from len have "even (length (as_bytes s))" by simp
  from op_hex.pairs_canonical [OF this ok] have "s = hex_encode bs" by simp
  with len show "length bs = n \<and> s = hex_encode bs" by simp
qed (auto simp: decode_hex_def op_hex.pairs_encode)

lemma blake3_from_hex_canonical:
  "blake3_from_hex s = Inr bs \<longleftrightarrow> length bs = 32 \<and> s = hex_encode bs"
proof
  assume "blake3_from_hex s = Inr bs"
  then have len: "length (as_bytes s) = 64" and ok: "hex_pairs blake3_hex_nibble (as_bytes s) = Inr bs"
    by (auto simp: blake3_from_hex_def Let_def split: if_splits)
  from len have "even (length (as_bytes s))" by simp
  from hash_hex.pairs_canonical [OF this ok] have "s = hex_encode bs" by simp
  with len show "length bs = 32 \<and> s = hex_encode bs" by simp
qed (auto simp: blake3_from_hex_def hash_hex.pairs_encode)

end
