(* ===== verification/Ulid.thy ===== *)
theory Ulid
  imports Prelude
begin

text \<open>
  The first-party ULID of \<^verbatim>\<open>ulid.rs\<close>: a 128-bit id (48-bit millisecond timestamp, 80 random bits),
  its 26-character Crockford base32 text form, and the lenient decoder. \<open>getrandom\<close> and the clock
  are arguments of the model.
\<close>

section \<open>Definitions\<close>

type_synonym ulid = u128

definition ULID_LEN :: nat where "ULID_LEN = 26"
definition TIME_BITS :: nat where "TIME_BITS = 48"
definition RAND_BITS :: nat where "RAND_BITS = 80"
definition TIME_MASK :: u64 where "TIME_MASK = push_bit TIME_BITS 1 - 1"
definition RAND_MASK :: u128 where "RAND_MASK = push_bit RAND_BITS 1 - 1"

definition ULID_ALPHABET :: string where
  "ULID_ALPHABET = ''0123456789ABCDEFGHJKMNPQRSTVWXYZ''"

definition NO_VALUE :: byte where "NO_VALUE = 0xff"

definition to_ascii_lowercase :: "byte \<Rightarrow> byte" where
  "to_ascii_lowercase c = (if 0x41 \<le> c \<and> c \<le> 0x5a then c OR 0x20 else c)"

text \<open>\<^verbatim>\<open>build_lookup\<close>: the loop over the alphabet that fills the 256-entry table in both cases.\<close>

definition build_lookup :: "byte list" where
  "build_lookup =
     fold (\<lambda>i table.
         let upper = byte_of (ULID_ALPHABET ! i)
         in (table[unat upper := word_of_nat i])[unat (to_ascii_lowercase upper) := word_of_nat i])
       [0..<length ULID_ALPHABET] (replicate 256 NO_VALUE)"

definition LOOKUP :: "byte list" where "LOOKUP = build_lookup"

definition ulid_from_parts :: "u64 \<Rightarrow> u128 \<Rightarrow> ulid" where
  "ulid_from_parts timestamp_ms rnd =
     push_bit RAND_BITS (ucast (timestamp_ms AND TIME_MASK)) OR (rnd AND RAND_MASK)"

text \<open>\<^verbatim>\<open>Ulid::new\<close>: the clock (\<open>None\<close> before the epoch, else the elapsed milliseconds) and the ten
  random bytes are given; the bytes fill the low end of a zeroed 16-byte buffer.\<close>

definition u128_from_be_bytes :: "bytes \<Rightarrow> u128" where
  "u128_from_be_bytes bs = foldl (\<lambda>acc b. push_bit 8 acc OR ucast b) 0 bs"

definition ulid_new :: "nat option \<Rightarrow> bytes \<Rightarrow> ulid" where
  "ulid_new elapsed_ms rnd =
     (let millis = (case elapsed_ms of None \<Rightarrow> 0 | Some e \<Rightarrow> if e < 2 ^ 64 then word_of_nat e else - 1)
      in ulid_from_parts millis (u128_from_be_bytes (replicate 6 0 @ rnd)))"

definition ulid_timestamp_ms :: "ulid \<Rightarrow> u64" where
  "ulid_timestamp_ms u =
     (let shifted = drop_bit RAND_BITS u
      in if unat shifted < 2 ^ 64 then ucast shifted else - 1)"

definition ulid_random :: "ulid \<Rightarrow> u128" where
  "ulid_random u = u AND RAND_MASK"

text \<open>\<^verbatim>\<open>encode\<close> fills the slots from the last one: the low five bits first.\<close>

fun ulid_encode_loop :: "nat \<Rightarrow> u128 \<Rightarrow> string \<Rightarrow> string" where
  "ulid_encode_loop 0 v out = out"
| "ulid_encode_loop (Suc n) v out =
     ulid_encode_loop n (drop_bit 5 v) (ULID_ALPHABET ! unat (v AND 0x1f) # out)"

definition ulid_to_string :: "ulid \<Rightarrow> string" where
  "ulid_to_string u = ulid_encode_loop ULID_LEN u []"

datatype ulid_decode_error = InvalidLength | InvalidUlidChar

fun ulid_parse_loop :: "bytes \<Rightarrow> u128 \<Rightarrow> ulid_decode_error + u128" where
  "ulid_parse_loop [] v = Inr v"
| "ulid_parse_loop (c # cs) v =
     (let digit = LOOKUP ! unat c
      in if digit = NO_VALUE then Inl InvalidUlidChar
         else ulid_parse_loop cs (push_bit 5 v OR ucast digit))"

definition ulid_from_str :: "string \<Rightarrow> ulid_decode_error + ulid" where
  "ulid_from_str text =
     (let bs = as_bytes text
      in if length bs \<noteq> ULID_LEN then Inl InvalidLength else ulid_parse_loop bs 0)"

section \<open>The lookup table\<close>

lemma lookup_table:
  "LOOKUP = replicate 48 NO_VALUE @ [0, 1, 2, 3, 4, 5, 6, 7, 8, 9] @ replicate 7 NO_VALUE @
     [10, 11, 12, 13, 14, 15, 16, 17, NO_VALUE, 18, 19, NO_VALUE, 20, 21, NO_VALUE, 22, 23, 24, 25, 26,
      NO_VALUE, 27, 28, 29, 30, 31] @ replicate 6 NO_VALUE @
     [10, 11, 12, 13, 14, 15, 16, 17, NO_VALUE, 18, 19, NO_VALUE, 20, 21, NO_VALUE, 22, 23, 24, 25, 26,
      NO_VALUE, 27, 28, 29, 30, 31] @ replicate 133 NO_VALUE"
  by code_simp

lemma lookup_alphabet: "n < 32 \<Longrightarrow> LOOKUP ! unat (byte_of (ULID_ALPHABET ! n)) = word_of_nat n"
proof -
  assume n: "n < 32"
  have "list_all (\<lambda>n. LOOKUP ! unat (byte_of (ULID_ALPHABET ! n)) = word_of_nat n) [0..<32]"
    unfolding lookup_table by code_simp
  with n show ?thesis by (simp add: list_all_iff)
qed

section \<open>Text form\<close>

lemma ulid_encode_loop_acc: "ulid_encode_loop n v out = ulid_encode_loop n v [] @ out"
  by (induction n arbitrary: v out) (simp, metis ulid_encode_loop.simps(2) append.assoc append_Cons append_Nil)

lemma ulid_encode_loop_Suc:
  "ulid_encode_loop (Suc n) v [] = ulid_encode_loop n (drop_bit 5 v) [] @ [ULID_ALPHABET ! unat (v AND 0x1f)]"
  by (simp add: ulid_encode_loop_acc [of n _ "[_]"])

lemma length_ulid_encode_loop [simp]: "length (ulid_encode_loop n v out) = n + length out"
  by (induction n arbitrary: v out) auto

lemma length_ulid_to_string [simp]: "length (ulid_to_string u) = 26"
  by (simp add: ulid_to_string_def ULID_LEN_def)

lemma and_31_eq: "v AND 0x1f = take_bit 5 v" for v :: u128
  by (simp add: take_bit_eq_mask mask_eq_exp_minus_1)

lemma unat_and_31: "unat (v AND 0x1f) = unat v mod 32" for v :: u128
  unfolding and_31_eq by (simp add: unsigned_take_bit_eq take_bit_eq_mod [where 'a = nat])

lemma unat_drop_5: "unat (drop_bit 5 v) = unat v div 32" for v :: u128
  by (simp add: unat_drop_bit_eq drop_bit_eq_div [where 'a = nat])

lemma digit_not_no_value: "n < 32 \<Longrightarrow> word_of_nat n \<noteq> NO_VALUE"
proof
  assume "n < 32" and "word_of_nat n = NO_VALUE"
  then have "unat (word_of_nat n :: byte) = unat NO_VALUE" by simp
  with \<open>n < 32\<close> show False by (simp add: NO_VALUE_def unat_of_nat)
qed

lemma ucast_digit: "n < 32 \<Longrightarrow> (ucast (word_of_nat n :: byte) :: u128) = word_of_nat n"
  by (simp add: word_unat_eq_iff unsigned_ucast_eq take_bit_eq_mod [where 'a = nat] unat_of_nat)

lemma ulid_parse_loop_append:
  "ulid_parse_loop (xs @ ys) v = r_bind (ulid_parse_loop xs v) (ulid_parse_loop ys)"
  by (induction xs arbitrary: v) (auto simp: Let_def)

lemma ulid_parse_digit:
  "ulid_parse_loop [byte_of (ULID_ALPHABET ! unat (v AND 0x1f))] acc = Inr (push_bit 5 acc OR take_bit 5 v)"
proof -
  have "unat (v AND 0x1f) < 32" by (simp add: unat_and_31)
  then show ?thesis
    using lookup_alphabet [of "unat (v AND 0x1f)"] digit_not_no_value [of "unat (v AND 0x1f)"]
      ucast_digit [of "unat (v AND 0x1f)"]
    by (simp add: and_31_eq)
qed

lemma ulid_parse_encode:
  "ulid_parse_loop (as_bytes (ulid_encode_loop n v [])) acc =
     Inr (push_bit (5 * n) acc OR take_bit (5 * n) v)"
proof (induction n arbitrary: v)
  case 0
  show ?case by simp
next
  case (Suc n)
  have "push_bit 5 (push_bit (5 * n) acc OR take_bit (5 * n) (drop_bit 5 v)) OR take_bit 5 v =
      push_bit (5 * Suc n) acc OR take_bit (5 * Suc n) v"
    by (rule bit_word_eqI) (auto simp: bit_simps)
  then show ?case
    by (simp add: ulid_encode_loop_Suc ulid_parse_loop_append Suc.IH ulid_parse_digit
        del: ulid_encode_loop.simps ulid_parse_loop.simps)
qed

lemma ulid_roundtrip_aux: "ulid_from_str (ulid_to_string u) = Inr u"
  using ulid_parse_encode [of 26 u 0]
  by (simp add: ulid_from_str_def ulid_to_string_def ULID_LEN_def take_bit_word_eq_self)

lemma ulid_to_string_inject [simp]: "ulid_to_string u = ulid_to_string v \<longleftrightarrow> u = v"
  by (metis ulid_roundtrip_aux sum.inject(2))

section \<open>Order\<close>

lemma snoc_less_iff:
  fixes xs ys :: "'a::linorder list"
  shows "length xs = length ys \<Longrightarrow> xs @ [a] < ys @ [b] \<longleftrightarrow> xs < ys \<or> xs = ys \<and> a < b"
  by (induction xs ys rule: list_induct2) auto

lemma alphabet_mono: "m < 32 \<Longrightarrow> n < 32 \<Longrightarrow> ULID_ALPHABET ! m < ULID_ALPHABET ! n \<longleftrightarrow> m < n"
proof -
  assume mn: "m < 32" "n < 32"
  have "sorted_wrt (<) ULID_ALPHABET" by (simp add: ULID_ALPHABET_def less_char_def)
  moreover have "length ULID_ALPHABET = 32" by (simp add: ULID_ALPHABET_def)
  ultimately have "i < j \<Longrightarrow> j < 32 \<Longrightarrow> ULID_ALPHABET ! i < ULID_ALPHABET ! j" for i j
    by (simp add: sorted_wrt_iff_nth_less)
  with mn show ?thesis by (metis linorder_less_linear order_less_asym order_less_irrefl)
qed

lemma less_by_div_mod: "a < b \<longleftrightarrow> a div k < b div k \<or> a div k = b div k \<and> a mod k < b mod k"
  if "0 < k" for a b k :: nat
proof (cases "a div k = b div k")
  case True
  then show ?thesis
    by (metis add_less_cancel_left div_mult_mod_eq order_less_irrefl)
next
  case False
  then show ?thesis
    by (metis div_le_mono div_less_iff_less_mult leD linorder_not_less nat_less_le that)
qed

lemma less_by_digits:
  "v < w \<longleftrightarrow> drop_bit 5 v < drop_bit 5 w \<or> drop_bit 5 v = drop_bit 5 w \<and> unat (v AND 0x1f) < unat (w AND 0x1f)"
  for v w :: u128
proof -
  have "unat v < unat w \<longleftrightarrow> unat v div 32 < unat w div 32 \<or>
      unat v div 32 = unat w div 32 \<and> unat v mod 32 < unat w mod 32"
    by (rule less_by_div_mod) simp
  then show ?thesis
    by (simp add: word_less_nat_alt word_unat_eq_iff [of "drop_bit 5 v"] unat_drop_5 unat_and_31)
qed

lemma ulid_encode_loop_less:
  "unat v < 32 ^ n \<Longrightarrow> unat w < 32 ^ n \<Longrightarrow>
   ulid_encode_loop n v [] < ulid_encode_loop n w [] \<longleftrightarrow> v < w"
proof (induction n arbitrary: v w)
  case 0
  then show ?case by (simp add: word_less_nat_alt)
next
  case (Suc n)
  have bounds: "unat (drop_bit 5 v) < 32 ^ n" "unat (drop_bit 5 w) < 32 ^ n"
    using Suc.prems by (simp_all add: unat_drop_5 less_mult_imp_div_less mult.commute)
  have eq: "ulid_encode_loop n (drop_bit 5 v) [] = ulid_encode_loop n (drop_bit 5 w) [] \<longleftrightarrow>
      drop_bit 5 v = drop_bit 5 w"
    using Suc.IH [OF bounds] Suc.IH [OF bounds(2,1)] by (metis linorder_less_linear order_less_irrefl)
  have "unat (v AND 0x1f) < 32" "unat (w AND 0x1f) < 32" by (simp_all add: unat_and_31)
  then show ?case
    by (simp add: ulid_encode_loop_Suc snoc_less_iff Suc.IH [OF bounds] eq alphabet_mono less_by_digits [of v w]
        del: ulid_encode_loop.simps)
qed

lemma ulid_to_string_less: "ulid_to_string u < ulid_to_string v \<longleftrightarrow> u < v"
proof -
  have "unat w < 32 ^ 26" for w :: u128
  proof -
    have "unat w < 2 ^ 128" using unsigned_less [of w] by simp
    then show ?thesis by simp
  qed
  then show ?thesis by (simp add: ulid_to_string_def ULID_LEN_def ulid_encode_loop_less del: ulid_encode_loop.simps)
qed

section \<open>Parts\<close>

lemma time_mask_eq: "TIME_MASK = mask 48" and rand_mask_eq: "RAND_MASK = mask 80"
  by (simp_all add: TIME_MASK_def RAND_MASK_def TIME_BITS_def RAND_BITS_def mask_eq_exp_minus_1 push_bit_eq_mult)

lemma ulid_from_parts_eq:
  "ulid_from_parts t r = push_bit 80 (ucast (take_bit 48 t)) OR take_bit 80 r"
  by (simp add: ulid_from_parts_def time_mask_eq rand_mask_eq RAND_BITS_def flip: take_bit_eq_mask)

lemma ulid_timestamp_from_parts: "ulid_timestamp_ms (ulid_from_parts t r) = t AND TIME_MASK"
proof -
  have shift: "drop_bit 80 (ulid_from_parts t r) = ucast (take_bit 48 t)"
    by (rule bit_word_eqI) (auto simp: ulid_from_parts_eq bit_simps)
  have "unat (ucast (take_bit 48 t) :: u128) < 2 ^ 64"
    by (simp add: unsigned_ucast_eq take_bit_eq_mod [where 'a = nat] unsigned_take_bit_eq take_bit_eq_mod [where 'a = nat])
  then have "ulid_timestamp_ms (ulid_from_parts t r) = ucast (ucast (take_bit 48 t) :: u128)"
    by (simp add: ulid_timestamp_ms_def RAND_BITS_def shift)
  also have "\<dots> = take_bit 48 t"
    by (rule bit_word_eqI) (auto simp: bit_simps)
  finally show ?thesis by (simp add: time_mask_eq take_bit_eq_mask)
qed

lemma ulid_random_from_parts: "ulid_random (ulid_from_parts t r) = r AND RAND_MASK"
  unfolding ulid_random_def ulid_from_parts_eq rand_mask_eq take_bit_eq_mask [symmetric]
  by (rule bit_word_eqI) (auto simp: bit_simps)

lemma lookalike_no_value: "c \<in> set ''ILOUilou'' \<Longrightarrow> LOOKUP ! unat (byte_of c) = NO_VALUE"
proof -
  have "list_all (\<lambda>c. LOOKUP ! unat (byte_of c) = NO_VALUE) ''ILOUilou''" unfolding lookup_table by code_simp
  then show "c \<in> set ''ILOUilou'' \<Longrightarrow> LOOKUP ! unat (byte_of c) = NO_VALUE" unfolding list_all_iff by blast
qed

lemma ulid_parse_loop_bad: "b \<in> set bs \<Longrightarrow> LOOKUP ! unat b = NO_VALUE \<Longrightarrow> ulid_parse_loop bs v = Inl InvalidUlidChar"
  by (induction bs arbitrary: v) (auto simp: Let_def)

section \<open>Properties\<close>

text \<open>The text form of a ULID loses nothing and sorts like the id: parsing the 26 characters gives the id
  back, and text order is numeric order, so keys that embed ULIDs list in time order.\<close>

theorem ulid_text_roundtrip_and_order:
  "ulid_from_str (ulid_to_string u) = Inr u \<and> (ulid_to_string u < ulid_to_string v \<longleftrightarrow> u < v)"
  by (simp add: ulid_roundtrip_aux ulid_to_string_less)

text \<open>The decoder takes no look-alike letters: a 26-character text with an I, L, O or U in either case is
  refused, never read as the digit it resembles.\<close>

theorem ulid_rejects_lookalikes:
  assumes "length s = 26" and "c \<in> set s" and "c \<in> set ''ILOUilou''"
  shows "ulid_from_str s = Inl InvalidUlidChar"
proof -
  have "byte_of c \<in> set (as_bytes s)" using assms(2) by (auto simp: as_bytes_def)
  from ulid_parse_loop_bad [OF this lookalike_no_value [OF assms(3)]] assms(1) show ?thesis
    by (simp add: ulid_from_str_def ULID_LEN_def)
qed

theorem ulid_rejects_lookalikes_witness:
  "ulid_from_str ''OIARZ3NDEKTSV4RRFFQ69G5FAV'' = Inl InvalidUlidChar"
  by (rule ulid_rejects_lookalikes [of _ "CHR ''O''"]) simp_all

end
