(* ===== verification/Domain.thy ===== *)
theory Domain
  imports Hex Ulid
begin

text \<open>
  The value types of \<^verbatim>\<open>domain.rs\<close> (note ids, SS58 addresses, network prefixes, note types, scopes)
  and the SS58 codec of \<^verbatim>\<open>identity/mod.rs\<close>. The record \<open>prims\<close> holds the third-party primitives the
  crate calls: BLAKE3, BLAKE2b-512, the \<^verbatim>\<open>bs58\<close> codec and schnorrkel's checks. Every definition that
  uses one takes the record as its first argument.
\<close>

section \<open>External primitives\<close>

record prims =
  blake3 :: "bytes \<Rightarrow> bytes"
  blake2b512 :: "bytes \<Rightarrow> bytes"
  bs58_encode :: "bytes \<Rightarrow> string"
  bs58_decode :: "string \<Rightarrow> bytes option"
  sr_public_ok :: "bytes \<Rightarrow> bool"
  sr_signature_ok :: "bytes \<Rightarrow> bool"
  sr_verify :: "bytes \<Rightarrow> bytes \<Rightarrow> bytes \<Rightarrow> bytes \<Rightarrow> bool"

text \<open>The documented behaviour of \<^verbatim>\<open>bs58\<close>: decoding an encoding gives the bytes back.\<close>

definition bs58_law :: "prims \<Rightarrow> bool" where
  "bs58_law P \<longleftrightarrow> (\<forall>bs. bs58_decode P (bs58_encode P bs) = Some bs)"

section \<open>Note ids\<close>

datatype note_id = NoteId (as_ulid: ulid)

definition NOTE_ID_PREFIX :: string where "NOTE_ID_PREFIX = ''mem_''"

definition note_id_to_string :: "note_id \<Rightarrow> string" where
  "note_id_to_string i = NOTE_ID_PREFIX @ ulid_to_string (as_ulid i)"

datatype parse_note_id_error = MissingPrefix | InvalidUlid ulid_decode_error

text \<open>Rust's \<^verbatim>\<open>strip_prefix\<close>.\<close>

definition strip_prefix :: "'a list \<Rightarrow> 'a list \<Rightarrow> 'a list option" where
  "strip_prefix p s = (if take (length p) s = p then Some (drop (length p) s) else None)"

definition note_id_from_str :: "string \<Rightarrow> parse_note_id_error + note_id" where
  "note_id_from_str s =
     (case strip_prefix NOTE_ID_PREFIX s of
        None \<Rightarrow> Inl MissingPrefix
      | Some crockford \<Rightarrow>
          (case ulid_from_str crockford of
             Inl e \<Rightarrow> Inl (InvalidUlid e)
           | Inr u \<Rightarrow> Inr (NoteId u)))"

text \<open>The derived \<^verbatim>\<open>Ord\<close> of \<^verbatim>\<open>NoteId\<close> is the order of its ULID.\<close>

instantiation note_id :: linorder
begin

definition less_eq_note_id :: "note_id \<Rightarrow> note_id \<Rightarrow> bool" where
  "less_eq_note_id a b \<longleftrightarrow> as_ulid a \<le> as_ulid b"

definition less_note_id :: "note_id \<Rightarrow> note_id \<Rightarrow> bool" where
  "less_note_id a b \<longleftrightarrow> as_ulid a < as_ulid b"

instance
  by standard (auto simp: less_eq_note_id_def less_note_id_def note_id.expand)

end

section \<open>SS58 addresses\<close>

type_synonym ss58 = string

definition BASE58_ALPHABET :: string where
  "BASE58_ALPHABET = ''123456789ABCDEFGHJKLMNPQRSTUVWXYZabcdefghijkmnopqrstuvwxyz''"

definition is_base58 :: "char \<Rightarrow> bool" where
  "is_base58 c \<longleftrightarrow> list_ex (\<lambda>b. b = c) BASE58_ALPHABET"

datatype invalid_ss58 = Ss58Empty | Ss58BadLength nat | Ss58IllegalChar char

definition ss58_new :: "string \<Rightarrow> invalid_ss58 + ss58" where
  "ss58_new v =
     (if v = [] then Inl Ss58Empty
      else if \<not> (47 \<le> length v \<and> length v \<le> 49) then Inl (Ss58BadLength (length v))
      else case find (\<lambda>c. \<not> is_base58 c) v of
             Some ch \<Rightarrow> Inl (Ss58IllegalChar ch)
           | None \<Rightarrow> Inr v)"

type_synonym network_prefix = u16

definition MAX_IDENT :: u16 where "MAX_IDENT = 16383"
definition HIPPIUS :: network_prefix where "HIPPIUS = 42"

definition network_prefix_new :: "u16 \<Rightarrow> u16 + network_prefix" where
  "network_prefix_new ident = (if ident \<le> MAX_IDENT then Inr ident else Inl ident)"

definition SS58_PRE :: bytes where "SS58_PRE = as_bytes ''SS58PRE''"
definition PUBKEY_LEN :: nat where "PUBKEY_LEN = 32"
definition CHECKSUM_LEN :: nat where "CHECKSUM_LEN = 2"

definition ss58_checksum :: "prims \<Rightarrow> bytes \<Rightarrow> bytes" where
  "ss58_checksum P body =
     (let digest = blake2b512 P (SS58_PRE @ body) in [digest ! 0, digest ! 1])"

definition encode_prefix :: "u16 \<Rightarrow> bytes" where
  "encode_prefix ident =
     (if ident < 64 then [byte_at ident 0]
      else let hi = byte_at ident 1; lo = byte_at ident 0;
               first = drop_bit 2 lo OR 0b01000000;
               second = hi OR push_bit 6 (lo AND 0b00000011)
           in [first, second])"

definition decode_prefix :: "bytes \<Rightarrow> mem_error + (nat \<times> u16)" where
  "decode_prefix data =
     (case data of
        [] \<Rightarrow> Inl (Identity ''ss58 address is empty'')
      | first # rest \<Rightarrow>
          (if first \<le> 63 then Inr (1, ucast first)
           else if first \<le> 127 then
             (case rest of
                [] \<Rightarrow> Inl (Identity ''ss58 address is truncated'')
              | second # _ \<Rightarrow>
                  (let lower = push_bit 2 first OR drop_bit 6 second;
                       upper = second AND 0b00111111
                   in Inr (2, ucast lower OR push_bit 8 (ucast upper))))
           else Inl (Identity ''ss58 address has a reserved prefix'')))"

definition ss58_encode :: "prims \<Rightarrow> bytes \<Rightarrow> network_prefix \<Rightarrow> ss58" where
  "ss58_encode P key prefix =
     (let body = encode_prefix prefix @ key
      in bs58_encode P (body @ ss58_checksum P body))"

definition ss58_decode :: "prims \<Rightarrow> ss58 \<Rightarrow> mem_error + (bytes \<times> network_prefix)" where
  "ss58_decode P address =
     (case bs58_decode P address of
        None \<Rightarrow> Inl (Identity ''ss58 address is not valid base58'')
      | Some data \<Rightarrow>
          r_bind (decode_prefix data) (\<lambda>(prefix_len, ident).
            if length data \<noteq> prefix_len + PUBKEY_LEN + CHECKSUM_LEN
            then Inl (Identity ''ss58 address has the wrong length'')
            else let body = take (prefix_len + PUBKEY_LEN) data
                 in if drop (prefix_len + PUBKEY_LEN) data \<noteq> ss58_checksum P body
                    then Inl (Identity ''ss58 checksum mismatch'')
                    else case network_prefix_new ident of
                           Inl _ \<Rightarrow> Inl (Identity ''ss58 address has an out-of-range network prefix'')
                         | Inr prefix \<Rightarrow> Inr (take PUBKEY_LEN (drop prefix_len data), prefix)))"

text \<open>The two-byte form of a one-byte prefix: \<open>[0x4a, 0x80]\<close> reads as ident 42.\<close>

definition ss58_alias :: "prims \<Rightarrow> bytes \<Rightarrow> ss58" where
  "ss58_alias P key =
     bs58_encode P ([0x4a, 0x80] @ key @ ss58_checksum P ([0x4a, 0x80] @ key))"

text \<open>
  One concrete instance of the primitives, on which the hypotheses of the theorems are exhibited: the
  digest is the padded tail of the input, the text codec maps bytes to characters one to one, and a
  signature passes when it starts with the key's first byte.
\<close>

definition demo_digest :: "bytes \<Rightarrow> bytes" where
  "demo_digest bs =
     (let k = length bs in if k < 32 then replicate (32 - k) 1 @ bs else drop (k - 32) bs)"

definition demo_prims :: prims where
  "demo_prims =
     \<lparr>blake3 = demo_digest,
      blake2b512 = (\<lambda>bs. demo_digest bs @ demo_digest bs),
      bs58_encode = map (\<lambda>b. char_of (unat b)),
      bs58_decode = (\<lambda>s. Some (as_bytes s)),
      sr_public_ok = (\<lambda>k. length k = 32),
      sr_signature_ok = (\<lambda>s. length s = 64),
      sr_verify = (\<lambda>ctx key msg sg. take 1 sg = take 1 key)\<rparr>"

section \<open>Scopes and note types\<close>

definition GLOBAL_SEGMENT :: string where "GLOBAL_SEGMENT = ''global''"

datatype repo_scope = Global | Repo string

record scope =
  scope_team :: string
  scope_repo :: repo_scope

definition repo_segment :: "scope \<Rightarrow> string" where
  "repo_segment s = (case scope_repo s of Global \<Rightarrow> GLOBAL_SEGMENT | Repo name \<Rightarrow> name)"

datatype note_type = Decision | Convention | Gotcha | Reference | Context

fun note_type_as_tag :: "note_type \<Rightarrow> string" where
  "note_type_as_tag Decision = ''decision''"
| "note_type_as_tag Convention = ''convention''"
| "note_type_as_tag Gotcha = ''gotcha''"
| "note_type_as_tag Reference = ''reference''"
| "note_type_as_tag Context = ''context''"

definition note_type_from_str :: "string \<Rightarrow> string + note_type" where
  "note_type_from_str s =
     (if s = ''decision'' then Inr Decision
      else if s = ''convention'' then Inr Convention
      else if s = ''gotcha'' then Inr Gotcha
      else if s = ''reference'' then Inr Reference
      else if s = ''context'' then Inr Context
      else Inl s)"

section \<open>Lemmas\<close>

lemma strip_prefix_append [simp]: "strip_prefix p (p @ s) = Some s"
  by (simp add: strip_prefix_def)

lemma length_note_id_to_string [simp]: "length (note_id_to_string i) = 30"
  by (simp add: note_id_to_string_def NOTE_ID_PREFIX_def)

lemma note_id_roundtrip_aux: "note_id_from_str (note_id_to_string i) = Inr i"
  by (simp add: note_id_from_str_def note_id_to_string_def ulid_roundtrip_aux)

lemma note_id_to_string_inject [simp]: "note_id_to_string i = note_id_to_string j \<longleftrightarrow> i = j"
  by (metis note_id_roundtrip_aux sum.inject(2))

lemma note_type_roundtrip_aux: "note_type_from_str (note_type_as_tag t) = Inr t"
  by (cases t) (simp_all add: note_type_from_str_def)

lemma length_ss58_checksum [simp]: "length (ss58_checksum P body) = 2"
  by (simp add: ss58_checksum_def Let_def)

lemma encode_prefix_first_range: "(63::byte) < drop_bit 2 lo OR 0b01000000 \<and> drop_bit 2 lo OR 0b01000000 \<le> (127::byte)"
  by (rule all_bytesI [of _ lo]) code_simp

lemma ident_bits: "ident \<le> MAX_IDENT \<Longrightarrow> bit ident n \<Longrightarrow> n < 14" for ident :: u16
proof -
  assume "ident \<le> MAX_IDENT" and b: "bit ident n"
  then have "take_bit 14 ident = ident"
    by (simp add: MAX_IDENT_def word_unat_eq_iff word_le_nat_alt unsigned_take_bit_eq
        take_bit_eq_mod [where 'a = nat])
  with b show ?thesis by (metis bit_take_bit_iff)
qed

lemma two_byte_prefix_join:
  fixes ident :: u16
  assumes "ident \<le> MAX_IDENT"
  defines "hi \<equiv> byte_at ident 1" and "lo \<equiv> byte_at ident 0"
  defines "first \<equiv> drop_bit 2 lo OR 0b01000000" and "second \<equiv> hi OR push_bit 6 (lo AND 0b00000011)"
  shows "ucast (push_bit 2 first OR drop_bit 6 second) OR push_bit 8 (ucast (second AND 0b00111111)) = ident"
proof (rule bit_word_eqI)
  have c: "(0b01000000 :: byte) = push_bit 6 1" "(0b00000011 :: byte) = mask 2" "(0b00111111 :: byte) = mask 6"
    by (simp_all add: mask_eq_exp_minus_1)
  have high: "\<not> bit ident 14" "\<not> bit ident 15"
    using ident_bits [OF assms(1)] by fastforce+
  fix n :: nat assume "n < LENGTH(16)"
  then have "n \<in> {0,1,2,3,4,5,6,7,8,9,10,11,12,13,14,15}"
    unfolding insert_iff empty_iff by simp presburger
  then show "bit (ucast (push_bit 2 first OR drop_bit 6 second) OR push_bit 8 (ucast (second AND 0b00111111)) :: u16) n = bit ident n"
    unfolding first_def second_def hi_def lo_def c take_bit_eq_mask [symmetric]
    using high by (elim insertE) (simp_all add: bit_simps bit_byte_at flip: numeral_2_eq_2)
qed

lemma prefix_roundtrip:
  assumes "ident \<le> MAX_IDENT"
  shows "decode_prefix (encode_prefix ident @ rest) = Inr (length (encode_prefix ident), ident)"
proof (cases "ident < 64")
  case True
  then have "unat ident < 64" by (simp add: word_less_nat_alt)
  then have "byte_at ident 0 \<le> 63 \<and> ucast (byte_at ident 0) = ident"
    by (simp add: byte_at_def word_le_nat_alt word_unat_eq_iff unsigned_ucast_eq unsigned_take_bit_eq
        take_bit_eq_mod [where 'a = nat])
  with True show ?thesis by (simp add: encode_prefix_def decode_prefix_def)
next
  case False
  then show ?thesis
    using encode_prefix_first_range [of "byte_at ident 0"] two_byte_prefix_join [OF assms]
    by (simp add: encode_prefix_def decode_prefix_def Let_def not_le)
qed

lemma ss58_decode_framed:
  assumes "bs58_law P" and "decode_prefix (pre @ key @ chk) = Inr (length pre, prefix)"
    and "length key = 32" and "chk = ss58_checksum P (pre @ key)" and "prefix \<le> MAX_IDENT"
  shows "ss58_decode P (bs58_encode P (pre @ key @ chk)) = Inr (key, prefix)"
  using assms
  by (simp add: ss58_decode_def bs58_law_def PUBKEY_LEN_def CHECKSUM_LEN_def network_prefix_new_def)

text \<open>An address printed for a 32-byte key and a legal network prefix decodes to exactly that key
  and prefix: the checksum, length and prefix checks all pass.\<close>

theorem ss58_roundtrip:
  assumes "bs58_law P" and "length key = 32" and "prefix \<le> MAX_IDENT"
  shows "ss58_decode P (ss58_encode P key prefix) = Inr (key, prefix)"
  using ss58_decode_framed [of P "encode_prefix prefix" key "ss58_checksum P (encode_prefix prefix @ key)" prefix]
    prefix_roundtrip [OF assms(3)] assms
  by (simp add: ss58_encode_def Let_def)

text \<open>Whatever the address decodes to, the key has 32 bytes and the prefix 14 bits.\<close>

lemma ss58_decode_shape:
  "ss58_decode P a = Inr (key, prefix) \<Longrightarrow> length key = 32 \<and> prefix \<le> MAX_IDENT"
  by (auto simp: ss58_decode_def r_bind_Inr_iff PUBKEY_LEN_def CHECKSUM_LEN_def network_prefix_new_def
      Let_def split: option.splits if_splits prod.splits)

text \<open>The decoder does not insist on the canonical prefix form: besides its canonical address every
  key has a second, different string that decodes to the same key under the Hippius prefix.\<close>

theorem ss58_decode_accepts_alias:
  assumes "bs58_law P" and "length key = 32"
  shows "ss58_decode P (ss58_alias P key) = Inr (key, HIPPIUS) \<and> ss58_alias P key \<noteq> ss58_encode P key HIPPIUS"
proof
  have pre: "decode_prefix ([0x4a, 0x80] @ rest) = Inr (2, HIPPIUS)" for rest
    by (simp add: decode_prefix_def HIPPIUS_def)
  show "ss58_decode P (ss58_alias P key) = Inr (key, HIPPIUS)"
    using ss58_decode_framed [of P "[0x4a, 0x80]" key _ HIPPIUS] pre assms
    by (simp add: ss58_alias_def HIPPIUS_def MAX_IDENT_def)
  have "length ([0x4a, 0x80] @ key @ ss58_checksum P ([0x4a, 0x80] @ key)) \<noteq>
      length (encode_prefix HIPPIUS @ key @ ss58_checksum P (encode_prefix HIPPIUS @ key))"
    by (simp add: encode_prefix_def HIPPIUS_def)
  then show "ss58_alias P key \<noteq> ss58_encode P key HIPPIUS"
    using assms(1) unfolding ss58_alias_def ss58_encode_def bs58_law_def Let_def
    by (metis append.assoc option.inject)
qed

lemma byte_of_char_of [simp]: "byte_of (char_of (unat b)) = b" for b :: byte
proof -
  have "unat b < 256" using unsigned_less [of b] by simp
  then have "of_char (char_of (unat b) :: char) = unat b" by (simp add: of_char_of)
  then show ?thesis by (simp add: byte_of_def)
qed

lemma demo_bs58_law [simp]: "bs58_law demo_prims"
  by (simp add: bs58_law_def demo_prims_def as_bytes_def comp_def)

theorem ss58_roundtrip_witness:
  "ss58_decode demo_prims (ss58_encode demo_prims (replicate 32 7) HIPPIUS) = Inr (replicate 32 7, HIPPIUS)"
  by (rule ss58_roundtrip) (simp_all add: HIPPIUS_def MAX_IDENT_def)

theorem ss58_decode_accepts_alias_witness:
  "ss58_decode demo_prims (ss58_alias demo_prims (replicate 32 7)) = Inr (replicate 32 7, HIPPIUS) \<and>
   ss58_alias demo_prims (replicate 32 7) \<noteq> ss58_encode demo_prims (replicate 32 7) HIPPIUS"
  by (rule ss58_decode_accepts_alias) simp_all

end
