(* ===== verification/Objkey.thy ===== *)
theory Objkey
  imports Domain
begin

text \<open>
  Object keys of note blobs (\<^verbatim>\<open>objkey.rs\<close>): component validation, the derivation
  \<open>{team}/{repo}/{mem_id}/ver_{version}\<close>, its parser, and the version prefix used by redaction.
\<close>

section \<open>Definitions\<close>

definition VER_PREFIX :: string where "VER_PREFIX = ''ver_''"

definition MAX_COMPONENT_LEN :: nat where "MAX_COMPONENT_LEN = 256"

definition is_ascii_alphanumeric :: "byte \<Rightarrow> bool" where
  "is_ascii_alphanumeric b \<longleftrightarrow>
     (0x30 \<le> b \<and> b \<le> 0x39) \<or> (0x41 \<le> b \<and> b \<le> 0x5a) \<or> (0x61 \<le> b \<and> b \<le> 0x7a)"

definition component_byte_ok :: "byte \<Rightarrow> bool" where
  "component_byte_ok b \<longleftrightarrow> is_ascii_alphanumeric b \<or> b = 0x2d \<or> b = 0x5f"

definition validate_component :: "string \<Rightarrow> mem_error + unit" where
  "validate_component v =
     (if v = [] then Inl (Malformed ''object-key component must not be empty'')
      else if length v > MAX_COMPONENT_LEN then Inl (Malformed ''object-key component exceeds the limit'')
      else if \<not> list_all component_byte_ok (as_bytes v)
        then Inl (Malformed ''object-key component must match [A-Za-z0-9_-]'')
      else Inr ())"

definition object_key :: "scope \<Rightarrow> note_id \<Rightarrow> ulid \<Rightarrow> mem_error + string" where
  "object_key sc i version =
     r_bind (validate_component (scope_team sc)) (\<lambda>_.
       r_bind (case scope_repo sc of
                 Global \<Rightarrow> Inr ()
               | Repo name \<Rightarrow>
                   (if name = GLOBAL_SEGMENT
                    then Inl (Malformed ''repo name is reserved for the team-global scope'')
                    else if take 1 name = ''_''
                    then Inl (Malformed ''repo name is reserved: a leading underscore names an internal store namespace'')
                    else validate_component name))
         (\<lambda>_. Inr (scope_team sc @ ''/'' @ repo_segment sc @ ''/'' @ note_id_to_string i @ ''/'' @
                   VER_PREFIX @ ulid_to_string version)))"

text \<open>Rust's \<^verbatim>\<open>split\<close> on one character: always at least one piece.\<close>

fun split_on :: "'a \<Rightarrow> 'a list \<Rightarrow> 'a list list" where
  "split_on d [] = [[]]"
| "split_on d (c # cs) =
     (if c = d then [] # split_on d cs
      else case split_on d cs of [] \<Rightarrow> [[c]] | w # ws \<Rightarrow> (c # w) # ws)"

definition parse_object_key :: "string \<Rightarrow> mem_error + (scope \<times> note_id \<times> ulid)" where
  "parse_object_key key =
     (case split_on (CHR ''/'') key of
        [tm, repo_seg, id_seg, ver_seg] \<Rightarrow>
          r_bind (validate_component tm) (\<lambda>_.
          r_bind (if repo_seg = GLOBAL_SEGMENT then Inr Global
                  else r_bind (validate_component repo_seg) (\<lambda>_. Inr (Repo repo_seg))) (\<lambda>rp.
          r_bind (case note_id_from_str id_seg of
                    Inl _ \<Rightarrow> Inl (Malformed ''object key has an invalid note id'')
                  | Inr i \<Rightarrow> Inr i) (\<lambda>i.
          r_bind (case strip_prefix VER_PREFIX ver_seg of
                    None \<Rightarrow> Inl (Malformed ''object key version segment must start with ver_'')
                  | Some v \<Rightarrow>
                      (case ulid_from_str v of
                         Inl _ \<Rightarrow> Inl (Malformed ''object key has an invalid version'')
                       | Inr version \<Rightarrow> Inr version)) (\<lambda>version.
          Inr (\<lparr>scope_team = tm, scope_repo = rp\<rparr>, i, version)))))
      | _ \<Rightarrow> Inl (Malformed ''object key must have 4 '/'-separated segments''))"

definition note_blob_prefix :: "string \<Rightarrow> mem_error + string" where
  "note_blob_prefix key =
     r_bind (parse_object_key key) (\<lambda>(sc, i, _).
       Inr (scope_team sc @ ''/'' @ repo_segment sc @ ''/'' @ note_id_to_string i @ ''/''))"

section \<open>Lemmas\<close>

lemma split_on_sep: "d \<notin> set w \<Longrightarrow> split_on d (w @ d # rest) = w # split_on d rest"
  by (induction w) auto

lemma split_on_last: "d \<notin> set w \<Longrightarrow> split_on d w = [w]"
  by (induction w) auto

lemma validate_component_ok:
  "validate_component v = Inr u \<longleftrightarrow>
     v \<noteq> [] \<and> length v \<le> 256 \<and> list_all component_byte_ok (as_bytes v)"
  by (auto simp: validate_component_def MAX_COMPONENT_LEN_def)

lemma slash_not_component: "\<not> component_byte_ok (byte_of (CHR ''/''))"
  by code_simp

lemma component_no_slash: "list_all component_byte_ok (as_bytes v) \<Longrightarrow> CHR ''/'' \<notin> set v"
  using slash_not_component by (auto simp: list_all_iff as_bytes_def)

lemma ulid_chars: "set (ulid_encode_loop n v out) \<subseteq> set ULID_ALPHABET \<union> set out"
proof (induction n arbitrary: v out)
  case (Suc n)
  have "unat (v AND 0x1f) < 32" by (simp add: unat_and_31)
  then have "ULID_ALPHABET ! unat (v AND 0x1f) \<in> set ULID_ALPHABET"
    by (simp add: ULID_ALPHABET_def nth_mem del: set_simps)
  with Suc.IH show ?case by fastforce
qed simp

lemma ulid_to_string_chars: "set (ulid_to_string u) \<subseteq> set ULID_ALPHABET"
  using ulid_chars [of 26 u "[]"] by (simp add: ulid_to_string_def ULID_LEN_def)

lemma ulid_no_slash: "CHR ''/'' \<notin> set (ulid_to_string u)"
  using ulid_to_string_chars [of u] by (auto simp: ULID_ALPHABET_def)

lemma note_id_no_slash: "CHR ''/'' \<notin> set (note_id_to_string i)"
  using ulid_no_slash by (auto simp: note_id_to_string_def NOTE_ID_PREFIX_def)

lemma global_segment_ok: "validate_component GLOBAL_SEGMENT = Inr ()"
  by code_simp

lemma object_key_Inr:
  "object_key sc i v = Inr k \<longleftrightarrow>
     validate_component (scope_team sc) = Inr () \<and> validate_component (repo_segment sc) = Inr () \<and>
     (\<forall>name. scope_repo sc = Repo name \<longrightarrow> name \<noteq> GLOBAL_SEGMENT \<and> take 1 name \<noteq> ''_'') \<and>
     k = scope_team sc @ ''/'' @ repo_segment sc @ ''/'' @ note_id_to_string i @ ''/'' @
         VER_PREFIX @ ulid_to_string v"
  using global_segment_ok
  by (auto simp: object_key_def r_bind_Inr_iff repo_segment_def split: repo_scope.splits if_splits)

lemma split_object_key:
  assumes "CHR ''/'' \<notin> set tm" and "CHR ''/'' \<notin> set rp"
  shows "split_on (CHR ''/'') (tm @ ''/'' @ rp @ ''/'' @ note_id_to_string i @ ''/'' @ VER_PREFIX @ ulid_to_string v) =
    [tm, rp, note_id_to_string i, VER_PREFIX @ ulid_to_string v]"
proof -
  have "CHR ''/'' \<notin> set (VER_PREFIX @ ulid_to_string v)"
    using ulid_no_slash by (auto simp: VER_PREFIX_def)
  then show ?thesis using assms note_id_no_slash [of i] by (simp add: split_on_sep split_on_last)
qed

lemma object_key_parse:
  assumes "object_key sc i v = Inr k"
  shows "parse_object_key k = Inr (sc, i, v)"
proof -
  from assms have ok: "validate_component (scope_team sc) = Inr ()" "validate_component (repo_segment sc) = Inr ()"
    and k: "k = scope_team sc @ ''/'' @ repo_segment sc @ ''/'' @ note_id_to_string i @ ''/'' @
      VER_PREFIX @ ulid_to_string v"
    and rp: "\<forall>name. scope_repo sc = Repo name \<longrightarrow> name \<noteq> GLOBAL_SEGMENT"
    by (simp_all add: object_key_Inr)
  have "CHR ''/'' \<notin> set (scope_team sc)" "CHR ''/'' \<notin> set (repo_segment sc)"
    using ok component_no_slash by (auto simp: validate_component_ok)
  from split_object_key [OF this, of i v] show ?thesis
    using ok rp
    by (cases sc) (auto simp: parse_object_key_def k note_id_roundtrip_aux ulid_roundtrip_aux repo_segment_def
        split: repo_scope.splits)
qed

text \<open>The parser is a left inverse of the key derivation: whatever key \<open>object_key\<close> mints parses
  back to the scope, note id and version it was minted from, so two different triples never share a key.\<close>

theorem object_key_roundtrip:
  assumes "object_key sc i v = Inr k"
  shows "parse_object_key k = Inr (sc, i, v) \<and> (\<forall>sc' i' v'. object_key sc' i' v' = Inr k \<longrightarrow> sc' = sc \<and> i' = i \<and> v' = v)"
  using object_key_parse assms by (metis prod.inject sum.inject(2))

theorem object_key_roundtrip_witness:
  "parse_object_key ''core/thebrain/mem_00000000000000000000000007/ver_00000000000000000000000009'' =
     Inr (\<lparr>scope_team = ''core'', scope_repo = Repo ''thebrain''\<rparr>, NoteId 7, 9)"
proof -
  have "object_key \<lparr>scope_team = ''core'', scope_repo = Repo ''thebrain''\<rparr> (NoteId 7) 9 =
      Inr ''core/thebrain/mem_00000000000000000000000007/ver_00000000000000000000000009''"
    by code_simp
  from object_key_roundtrip [OF this] show ?thesis by blast
qed

text \<open>A minted key stays inside the team's note keyspace: its second segment never starts with an
  underscore (the store's internal namespaces), and the whole key is at most 575 bytes, under S3's
  1024-byte limit.\<close>

theorem object_key_safe:
  assumes "object_key sc i v = Inr k"
  shows "length k \<le> 575 \<and> take (length (scope_team sc) + 2) k \<noteq> scope_team sc @ ''/_''"
proof
  from assms have ok: "length (scope_team sc) \<le> 256" "length (repo_segment sc) \<le> 256" "repo_segment sc \<noteq> []"
    and us: "\<forall>name. scope_repo sc = Repo name \<longrightarrow> take 1 name \<noteq> ''_''"
    and k: "k = scope_team sc @ ''/'' @ repo_segment sc @ ''/'' @ note_id_to_string i @ ''/'' @
      VER_PREFIX @ ulid_to_string v"
    by (auto simp: object_key_Inr validate_component_ok)
  show "length k \<le> 575" using ok by (simp add: k VER_PREFIX_def)
  have "take 1 (repo_segment sc) \<noteq> ''_''"
    using us by (auto simp: repo_segment_def GLOBAL_SEGMENT_def split: repo_scope.splits)
  then show "take (length (scope_team sc) + 2) k \<noteq> scope_team sc @ ''/_''"
    using ok(3) by (cases "repo_segment sc") (auto simp: k)
qed

theorem object_key_safe_witness:
  "length ''core/global/mem_00000000000000000000000007/ver_00000000000000000000000009'' \<le> 575"
proof -
  have "object_key \<lparr>scope_team = ''core'', scope_repo = Global\<rparr> (NoteId 7) 9 =
      Inr ''core/global/mem_00000000000000000000000007/ver_00000000000000000000000009''"
    by code_simp
  from object_key_safe [OF this] show ?thesis by blast
qed

text \<open>The redaction prefix of a minted key is a proper prefix of exactly that note's version keys: any
  two versions of one note share it, and a key of a different note never starts with it.\<close>

theorem note_blob_prefix_covers_versions:
  assumes "object_key sc i v = Inr k" and "object_key sc' i' v' = Inr k'"
  shows "\<exists>p. note_blob_prefix k = Inr p \<and> ((\<exists>rest. k' = p @ rest) \<longleftrightarrow> sc' = sc \<and> i' = i)"
proof -
  let ?p = "scope_team sc @ ''/'' @ repo_segment sc @ ''/'' @ note_id_to_string i @ ''/''"
  have p: "note_blob_prefix k = Inr ?p" using object_key_parse [OF assms(1)] by (simp add: note_blob_prefix_def)
  have k': "k' = scope_team sc' @ ''/'' @ repo_segment sc' @ ''/'' @ note_id_to_string i' @ ''/'' @
      VER_PREFIX @ ulid_to_string v'"
    using assms(2) by (simp add: object_key_Inr)
  have "sc' = sc \<and> i' = i" if "k' = ?p @ rest" for rest
  proof -
    have ns: "CHR ''/'' \<notin> set (scope_team s)" "CHR ''/'' \<notin> set (repo_segment s)"
      if "object_key s j w = Inr l" for s j w l
      using that component_no_slash by (auto simp: object_key_Inr validate_component_ok)
    have "split_on (CHR ''/'') k' = scope_team sc # repo_segment sc # note_id_to_string i # split_on (CHR ''/'') rest"
      using ns [OF assms(1)] note_id_no_slash [of i] by (simp add: that split_on_sep)
    moreover have "split_on (CHR ''/'') k' =
        [scope_team sc', repo_segment sc', note_id_to_string i', VER_PREFIX @ ulid_to_string v']"
      unfolding k' by (rule split_object_key) (rule ns [OF assms(2)])+
    ultimately have "scope_team sc = scope_team sc'" "repo_segment sc = repo_segment sc'" "i = i'" by auto
    moreover from this(2) have "scope_repo sc = scope_repo sc'"
      using assms by (auto simp: object_key_Inr repo_segment_def split: repo_scope.splits)
    ultimately show ?thesis by (cases sc; cases sc') simp
  qed
  with p k' show ?thesis by auto
qed

theorem note_blob_prefix_covers_versions_witness:
  "\<exists>p. note_blob_prefix ''core/global/mem_00000000000000000000000007/ver_00000000000000000000000009'' = Inr p \<and>
     ((\<exists>rest. ''core/global/mem_00000000000000000000000008/ver_00000000000000000000000009'' = p @ rest) \<longleftrightarrow> False)"
proof -
  have "object_key \<lparr>scope_team = ''core'', scope_repo = Global\<rparr> (NoteId 7) 9 =
      Inr ''core/global/mem_00000000000000000000000007/ver_00000000000000000000000009''"
    and "object_key \<lparr>scope_team = ''core'', scope_repo = Global\<rparr> (NoteId 8) 9 =
      Inr ''core/global/mem_00000000000000000000000008/ver_00000000000000000000000009''"
    by code_simp+
  from note_blob_prefix_covers_versions [OF this] show ?thesis by simp
qed

text \<open>Parsing is more lenient than minting: no key is ever minted with a repository segment that begins with
  an underscore, but such a key, shaped like one of the sibling namespaces, parses, and the prefix that a
  redaction lists and scrubs is then derived inside that namespace.\<close>

theorem note_blob_prefix_enters_reserved_namespace:
  assumes "validate_component tm = Inr ()"
  shows "object_key \<lparr>scope_team = tm, scope_repo = Repo ''_oplog''\<rparr> i v \<noteq> Inr k \<and>
    note_blob_prefix (tm @ ''/_oplog/'' @ note_id_to_string i @ ''/'' @ VER_PREFIX @ ulid_to_string v) =
      Inr (tm @ ''/_oplog/'' @ note_id_to_string i @ ''/'')"
proof
  show "object_key \<lparr>scope_team = tm, scope_repo = Repo ''_oplog''\<rparr> i v \<noteq> Inr k"
    by (simp add: object_key_Inr)
  have ns: "CHR ''/'' \<notin> set tm" using assms component_no_slash by (simp add: validate_component_ok)
  have val: "validate_component ''_oplog'' = Inr ()" by code_simp
  have "split_on (CHR ''/'') (tm @ ''/'' @ ''_oplog'' @ ''/'' @ note_id_to_string i @ ''/'' @ VER_PREFIX @ ulid_to_string v) =
      [tm, ''_oplog'', note_id_to_string i, VER_PREFIX @ ulid_to_string v]"
    by (rule split_object_key [OF ns]) simp
  then show "note_blob_prefix (tm @ ''/_oplog/'' @ note_id_to_string i @ ''/'' @ VER_PREFIX @ ulid_to_string v) =
      Inr (tm @ ''/_oplog/'' @ note_id_to_string i @ ''/'')"
    using assms val
    by (simp add: note_blob_prefix_def parse_object_key_def r_bind_def GLOBAL_SEGMENT_def note_id_roundtrip_aux
        ulid_roundtrip_aux repo_segment_def)
qed

theorem note_blob_prefix_enters_reserved_namespace_witness:
  "note_blob_prefix (''core/_oplog/'' @ note_id_to_string (NoteId 7) @ ''/'' @ VER_PREFIX @ ulid_to_string 9) =
     Inr (''core/_oplog/'' @ note_id_to_string (NoteId 7) @ ''/'')"
proof -
  have "validate_component ''core'' = Inr ()" by code_simp
  from note_blob_prefix_enters_reserved_namespace [OF this] show ?thesis by simp
qed

end
