(* ===== verification/Op.thy ===== *)
theory Op
  imports Domain
begin

text \<open>
  The signed, hash-chained op record of \<^verbatim>\<open>oplog/op.rs\<close> and the length framing of \<^verbatim>\<open>framing.rs\<close>: canonical
  signing bytes, the chain hash, signature and identity checks, the signing seam. BLAKE3, schnorrkel
  and \<^verbatim>\<open>bs58\<close> come from the record \<open>prims\<close>.
\<close>

section \<open>Framing\<close>

definition u64_of_len :: "nat \<Rightarrow> u64" where
  "u64_of_len n = (if n < 2 ^ 64 then word_of_nat n else - 1)"

definition push_framed :: "bytes \<Rightarrow> bytes \<Rightarrow> bytes" where
  "push_framed buf bs = buf @ u64_le_bytes (u64_of_len (length bs)) @ bs"

section \<open>Records\<close>

type_synonym verifying_key = bytes
type_synonym signature = bytes
type_synonym blake3_hash = bytes

definition blake3_zero :: blake3_hash where "blake3_zero = replicate 32 0"

definition is_identity_point :: "verifying_key \<Rightarrow> bool" where
  "is_identity_point k \<longleftrightarrow> k = replicate 32 0"

definition key_to_hex :: "verifying_key \<Rightarrow> string" where
  "key_to_hex k = hex_encode k"

datatype link_rel = Related | Supersedes | Contradicts | Refines | Duplicates

fun wire_tag :: "link_rel \<Rightarrow> byte" where
  "wire_tag Related = 0"
| "wire_tag Supersedes = 1"
| "wire_tag Contradicts = 2"
| "wire_tag Refines = 3"
| "wire_tag Duplicates = 4"

fun demotes_target :: "link_rel \<Rightarrow> bool" where
  "demotes_target Supersedes = True"
| "demotes_target Duplicates = True"
| "demotes_target _ = False"

text \<open>The derived \<^verbatim>\<open>Ord\<close> of \<^verbatim>\<open>LinkRel\<close> is declaration order, which the wire tags follow.\<close>

instantiation link_rel :: linorder
begin

definition less_eq_link_rel :: "link_rel \<Rightarrow> link_rel \<Rightarrow> bool" where
  "less_eq_link_rel a b \<longleftrightarrow> wire_tag a \<le> wire_tag b"

definition less_link_rel :: "link_rel \<Rightarrow> link_rel \<Rightarrow> bool" where
  "less_link_rel a b \<longleftrightarrow> wire_tag a < wire_tag b"

instance
proof
  fix a b :: link_rel
  show "a \<le> b \<Longrightarrow> b \<le> a \<Longrightarrow> a = b"
    by (cases a; cases b) (simp_all add: less_eq_link_rel_def word_le_nat_alt)
qed (auto simp: less_eq_link_rel_def less_link_rel_def)

end

datatype op_kind =
    Remember
  | Edit
  | Forget
  | Redact
  | Link note_id
  | Relate note_id link_rel
  | Reinforce

record op_content =
  oc_op_id :: ulid
  oc_lamport :: u64
  oc_key_epoch :: u64
  oc_kind :: op_kind
  oc_note_id :: note_id
  oc_object_key :: string
  oc_cid :: blake3_hash
  oc_prev_op_hash :: blake3_hash

record op =
  op_id :: ulid
  op_author :: ss58
  op_author_key :: verifying_key
  op_lamport :: u64
  op_key_epoch :: u64
  op_kind :: op_kind
  op_note_id :: note_id
  op_object_key :: string
  op_cid :: blake3_hash
  op_prev_op_hash :: blake3_hash
  op_sig :: signature

section \<open>Signing bytes, hash, checks\<close>

definition SIGNING_DOMAIN :: bytes where "SIGNING_DOMAIN = as_bytes ''hippius-memory-op/v2''"
definition SIGNING_CONTEXT :: bytes where "SIGNING_CONTEXT = as_bytes ''hippius-memory-oplog''"
definition HIPPIUS_SS58_PREFIX :: network_prefix where "HIPPIUS_SS58_PREFIX = HIPPIUS"

fun push_op_kind :: "bytes \<Rightarrow> op_kind \<Rightarrow> bytes" where
  "push_op_kind buf Remember = buf @ [0]"
| "push_op_kind buf Edit = buf @ [1]"
| "push_op_kind buf Forget = buf @ [2]"
| "push_op_kind buf (Link to) = push_framed (buf @ [3]) (as_bytes (note_id_to_string to))"
| "push_op_kind buf Redact = buf @ [4]"
| "push_op_kind buf (Relate to rel) =
     push_framed (buf @ [5]) (as_bytes (note_id_to_string to)) @ [wire_tag rel]"
| "push_op_kind buf Reinforce = buf @ [6]"

definition signing_bytes :: "op \<Rightarrow> bytes" where
  "signing_bytes o1 =
     (let buf = SIGNING_DOMAIN;
          buf = push_framed buf (as_bytes (ulid_to_string (op_id o1)));
          buf = push_framed buf (as_bytes (op_author o1));
          buf = buf @ op_author_key o1;
          buf = buf @ u64_le_bytes (op_lamport o1);
          buf = buf @ u64_le_bytes (op_key_epoch o1);
          buf = push_op_kind buf (op_kind o1);
          buf = push_framed buf (as_bytes (note_id_to_string (op_note_id o1)));
          buf = push_framed buf (as_bytes (op_object_key o1));
          buf = buf @ op_cid o1;
          buf = buf @ op_prev_op_hash o1
      in buf)"

definition content_hash :: "prims \<Rightarrow> bytes \<Rightarrow> blake3_hash" where
  "content_hash P bs = blake3 P bs"

definition op_hash :: "prims \<Rightarrow> op \<Rightarrow> blake3_hash" where
  "op_hash P o1 = content_hash P (signing_bytes o1 @ op_sig o1)"

text \<open>\<^verbatim>\<open>verify\<close>: the identity point is refused before schnorrkel is asked.\<close>

definition verify :: "prims \<Rightarrow> verifying_key \<Rightarrow> bytes \<Rightarrow> signature \<Rightarrow> bool" where
  "verify P key msg sg =
     (if is_identity_point key then False
      else if \<not> sr_public_ok P key then False
      else if \<not> sr_signature_ok P sg then False
      else sr_verify P SIGNING_CONTEXT key msg sg)"

definition verify_sig :: "prims \<Rightarrow> op \<Rightarrow> bool" where
  "verify_sig P o1 = verify P (op_author_key o1) (signing_bytes o1) (op_sig o1)"

text \<open>The check shared by ops and head pointers: the address decodes to the key, under the Hippius prefix.\<close>

definition address_names_key :: "prims \<Rightarrow> ss58 \<Rightarrow> verifying_key \<Rightarrow> bool" where
  "address_names_key P a k =
     (case ss58_decode P a of
        Inl _ \<Rightarrow> False
      | Inr (key, prefix) \<Rightarrow> key = k \<and> prefix = HIPPIUS_SS58_PREFIX)"

definition verify_identity :: "prims \<Rightarrow> op \<Rightarrow> bool" where
  "verify_identity P o1 = address_names_key P (op_author o1) (op_author_key o1)"

record signer =
  signer_sign :: "bytes \<Rightarrow> signature"
  signer_verifying_key :: verifying_key
  signer_author_ss58 :: ss58

text \<open>
  \<^verbatim>\<open>Sr25519Signer::from_seed_with_prefix\<close>: schnorrkel's key expansion (a public key and a signing
  function over context and message, or a rejected seed) is given; the address is derived.
\<close>

definition sr25519_signer ::
    "prims \<Rightarrow> (bytes \<Rightarrow> (verifying_key \<times> (bytes \<Rightarrow> bytes \<Rightarrow> signature)) option) \<Rightarrow> bytes \<Rightarrow>
     network_prefix \<Rightarrow> mem_error + signer" where
  "sr25519_signer P expand_seed seed prefix =
     (case expand_seed seed of
        None \<Rightarrow> Inl (Identity ''sr25519 seed could not be expanded'')
      | Some (pub, sign) \<Rightarrow>
          Inr \<lparr>signer_sign = sign SIGNING_CONTEXT, signer_verifying_key = pub,
               signer_author_ss58 = ss58_encode P pub prefix\<rparr>)"

definition create_signed :: "signer \<Rightarrow> op_content \<Rightarrow> op" where
  "create_signed sg c =
     (let o1 = \<lparr>op_id = oc_op_id c, op_author = signer_author_ss58 sg,
                op_author_key = signer_verifying_key sg, op_lamport = oc_lamport c,
                op_key_epoch = oc_key_epoch c, op_kind = oc_kind c, op_note_id = oc_note_id c,
                op_object_key = oc_object_key c, op_cid = oc_cid c,
                op_prev_op_hash = oc_prev_op_hash c, op_sig = replicate 64 0\<rparr>;
          msg = signing_bytes o1
      in o1\<lparr>op_sig := signer_sign sg msg\<rparr>)"

text \<open>The widths Rust's array types fix, and the size any in-memory string has.\<close>

definition op_wf :: "op \<Rightarrow> bool" where
  "op_wf o1 \<longleftrightarrow> length (op_author_key o1) = 32 \<and> length (op_cid o1) = 32 \<and>
     length (op_prev_op_hash o1) = 32 \<and> length (op_author o1) < 2 ^ 64 \<and> length (op_object_key o1) < 2 ^ 64"

text \<open>A concrete op, for witnesses: author key and signature start with the same byte.\<close>

definition demo_op :: "byte \<Rightarrow> byte \<Rightarrow> blake3_hash \<Rightarrow> op" where
  "demo_op a n prev =
     \<lparr>op_id = ucast n, op_author = ss58_encode demo_prims (replicate 32 a) HIPPIUS,
      op_author_key = replicate 32 a, op_lamport = ucast n, op_key_epoch = 0, op_kind = Remember,
      op_note_id = NoteId 1, op_object_key = ''t/r'', op_cid = replicate 32 n,
      op_prev_op_hash = prev, op_sig = replicate 32 a @ replicate 32 n\<rparr>"

definition demo_expand :: "bytes \<Rightarrow> (verifying_key \<times> (bytes \<Rightarrow> bytes \<Rightarrow> signature)) option" where
  "demo_expand seed = Some (replicate 32 7, \<lambda>ctx msg. replicate 64 7)"

definition demo_content :: op_content where
  "demo_content = \<lparr>oc_op_id = 1, oc_lamport = 1, oc_key_epoch = 0, oc_kind = Remember, oc_note_id = NoteId 1,
     oc_object_key = ''t/r'', oc_cid = replicate 32 1, oc_prev_op_hash = blake3_zero\<rparr>"

section \<open>Prefix-free encodings\<close>

text \<open>
  An encoder is prefix-free on the values it is used for when what follows an encoded value can be
  read off without knowing the value. The signed layouts are concatenations of such encoders.
\<close>

locale prefix_free =
  fixes enc :: "'a \<Rightarrow> bytes" and ok :: "'a \<Rightarrow> bool"
  assumes enc_unique: "ok a \<Longrightarrow> ok b \<Longrightarrow> enc a @ r = enc b @ s \<Longrightarrow> a = b \<and> r = s"
begin

lemma enc_append_iff: "ok a \<Longrightarrow> ok b \<Longrightarrow> enc a @ r = enc b @ s \<longleftrightarrow> a = b \<and> r = s"
  using enc_unique by blast

lemma enc_inject: "ok a \<Longrightarrow> ok b \<Longrightarrow> enc a = enc b \<longleftrightarrow> a = b"
  using enc_unique [of a b "[]" "[]"] by auto

end

definition framed :: "bytes \<Rightarrow> bytes" where
  "framed bs = u64_le_bytes (u64_of_len (length bs)) @ bs"

definition kind_bytes :: "op_kind \<Rightarrow> bytes" where
  "kind_bytes k = push_op_kind [] k"

lemma push_framed_eq: "push_framed buf bs = buf @ framed bs"
  by (simp add: push_framed_def framed_def)

lemma push_op_kind_eq: "push_op_kind buf k = buf @ kind_bytes k"
  by (cases k) (simp_all add: kind_bytes_def push_framed_eq)

lemma u64_of_len_inject: "m < 2 ^ 64 \<Longrightarrow> n < 2 ^ 64 \<Longrightarrow> u64_of_len m = u64_of_len n \<longleftrightarrow> m = n"
  by (auto simp: u64_of_len_def word_unat_eq_iff unat_of_nat)

interpretation frame: prefix_free framed "\<lambda>bs. length bs < 2 ^ 64"
proof
  fix a b r s :: bytes
  assume len: "length a < 2 ^ 64" "length b < 2 ^ 64" and eq: "framed a @ r = framed b @ s"
  then have "u64_le_bytes (u64_of_len (length a)) = u64_le_bytes (u64_of_len (length b))" and "a @ r = b @ s"
    by (auto simp: framed_def)
  with len show "a = b \<and> r = s" by (simp add: u64_of_len_inject)
qed

interpretation le64: prefix_free u64_le_bytes "\<lambda>_. True"
  by unfold_locales auto

interpretation array: prefix_free "\<lambda>x. x" "\<lambda>bs. length bs = n" for n
  by unfold_locales auto

lemma note_id_frame_ok: "length (as_bytes (note_id_to_string i)) < 2 ^ 64"
  by simp

lemma wire_tag_inject [simp]: "wire_tag a = wire_tag b \<longleftrightarrow> a = b"
  by (cases a; cases b) simp_all

lemma kind_bytes_simps:
  "kind_bytes Remember = [0]" "kind_bytes Edit = [1]" "kind_bytes Forget = [2]"
  "kind_bytes (Link to) = 3 # framed (as_bytes (note_id_to_string to))" "kind_bytes Redact = [4]"
  "kind_bytes (Relate to rel) = 5 # framed (as_bytes (note_id_to_string to)) @ [wire_tag rel]"
  "kind_bytes Reinforce = [6]"
  by (simp_all add: kind_bytes_def push_framed_eq)

interpretation kind: prefix_free kind_bytes "\<lambda>_. True"
proof
  fix a b r s
  assume "kind_bytes a @ r = kind_bytes b @ s"
  then show "a = b \<and> r = s"
    by (cases a; cases b) (auto simp: kind_bytes_simps frame.enc_append_iff [OF note_id_frame_ok note_id_frame_ok])
qed

lemma signing_bytes_eq:
  "signing_bytes o1 = SIGNING_DOMAIN @ framed (as_bytes (ulid_to_string (op_id o1))) @
     framed (as_bytes (op_author o1)) @ op_author_key o1 @ u64_le_bytes (op_lamport o1) @
     u64_le_bytes (op_key_epoch o1) @ kind_bytes (op_kind o1) @
     framed (as_bytes (note_id_to_string (op_note_id o1))) @ framed (as_bytes (op_object_key o1)) @
     op_cid o1 @ op_prev_op_hash o1"
  by (simp add: signing_bytes_def push_framed_eq push_op_kind_eq Let_def)

lemma signing_bytes_unique:
  assumes "op_wf a" and "op_wf b" and "signing_bytes a = signing_bytes b"
  shows "a = b\<lparr>op_sig := op_sig a\<rparr>"
proof -
  have ulid: "length (as_bytes (ulid_to_string u)) < 2 ^ 64" for u by simp
  have "op_id a = op_id b \<and> op_author a = op_author b \<and> op_author_key a = op_author_key b \<and>
      op_lamport a = op_lamport b \<and> op_key_epoch a = op_key_epoch b \<and> op_kind a = op_kind b \<and>
      op_note_id a = op_note_id b \<and> op_object_key a = op_object_key b \<and> op_cid a = op_cid b \<and>
      op_prev_op_hash a = op_prev_op_hash b"
    using assms unfolding signing_bytes_eq op_wf_def
    by (simp add: frame.enc_append_iff [OF ulid ulid] frame.enc_append_iff [OF note_id_frame_ok note_id_frame_ok]
        frame.enc_append_iff frame.enc_inject kind.enc_append_iff)
  then show ?thesis by (cases a; cases b) simp
qed

lemma hippius_ok [simp]: "HIPPIUS \<le> MAX_IDENT"
  by (simp add: HIPPIUS_def MAX_IDENT_def)

lemma address_names_key_encode:
  "bs58_law P \<Longrightarrow> length k = 32 \<Longrightarrow> address_names_key P (ss58_encode P k HIPPIUS) k"
  using ss58_decode_framed [of P "encode_prefix HIPPIUS" k "ss58_checksum P (encode_prefix HIPPIUS @ k)" HIPPIUS]
    prefix_roundtrip [OF hippius_ok]
  by (simp add: address_names_key_def HIPPIUS_SS58_PREFIX_def ss58_encode_def Let_def)

lemma address_names_key_length: "address_names_key P a k \<Longrightarrow> length k = 32"
  by (auto simp: address_names_key_def split: sum.splits prod.splits dest: ss58_decode_shape)

lemma demo_op_wf [simp]: "length prev = 32 \<Longrightarrow> op_wf (demo_op a n prev)"
  by (simp add: op_wf_def demo_op_def ss58_encode_def demo_prims_def Let_def encode_prefix_def HIPPIUS_def
      ss58_checksum_def)

lemma signing_bytes_sig_update [simp]: "signing_bytes (o1\<lparr>op_sig := s\<rparr>) = signing_bytes o1"
  by (simp add: signing_bytes_eq)

text \<open>On the concrete primitives the chain hash is the second half of the signature.\<close>

lemma demo_op_hash_eq: "length (op_sig o1) = 64 \<Longrightarrow> op_hash demo_prims o1 = drop 32 (op_sig o1)"
  by (simp add: op_hash_def content_hash_def demo_prims_def demo_digest_def Let_def)

lemma demo_op_hash [simp]: "op_hash demo_prims (demo_op a n prev) = replicate 32 n"
  by (subst demo_op_hash_eq) (simp_all add: demo_op_def)

text \<open>The signed bytes determine every signed field: two ops with the same signing bytes agree on
  all fields but the signature, so no field can be altered, moved across a field boundary or swapped
  with a neighbour under one signature.\<close>

theorem signing_bytes_injective:
  assumes "op_wf a" and "op_wf b" and "signing_bytes a = signing_bytes b"
  shows "a = b\<lparr>op_sig := op_sig a\<rparr>"
  using assms by (rule signing_bytes_unique)

theorem signing_bytes_injective_witness:
  "demo_op 1 2 blake3_zero = (demo_op 1 2 blake3_zero\<lparr>op_sig := []\<rparr>)\<lparr>op_sig := op_sig (demo_op 1 2 blake3_zero)\<rparr>"
proof (rule signing_bytes_injective)
  show "op_wf (demo_op 1 2 blake3_zero)" by (simp add: blake3_zero_def)
  then show "op_wf (demo_op 1 2 blake3_zero\<lparr>op_sig := []\<rparr>)" by (simp add: op_wf_def)
qed simp

text \<open>An op minted by a signer that was built from a seed under the Hippius prefix passes both
  checks of the read path, its signature and the binding of its address to its key; schnorrkel is
  taken to verify what it signed, with a key that is not the identity point.\<close>

theorem create_signed_verifies:
  assumes "bs58_law P" and "expand seed = Some (pub, sign)" and "length pub = 32"
    and "\<not> is_identity_point pub" and "sr_public_ok P pub"
    and "\<And>ctx msg. sr_signature_ok P (sign ctx msg) \<and> sr_verify P ctx pub msg (sign ctx msg)"
    and "sr25519_signer P expand seed HIPPIUS = Inr sg"
  shows "verify_sig P (create_signed sg c) \<and> verify_identity P (create_signed sg c)"
proof -
  from assms(2,7) have sg: "sg = \<lparr>signer_sign = sign SIGNING_CONTEXT, signer_verifying_key = pub,
      signer_author_ss58 = ss58_encode P pub HIPPIUS\<rparr>"
    by (simp add: sr25519_signer_def)
  have "verify_sig P (create_signed sg c)"
    using assms(4-6) by (simp add: verify_sig_def verify_def create_signed_def sg Let_def signing_bytes_eq)
  moreover have "verify_identity P (create_signed sg c)"
    using address_names_key_encode [OF assms(1,3)]
    by (simp add: verify_identity_def create_signed_def sg Let_def)
  ultimately show ?thesis by blast
qed

theorem create_signed_verifies_witness:
  "\<exists>sg. sr25519_signer demo_prims demo_expand [] HIPPIUS = Inr sg \<and>
     verify_sig demo_prims (create_signed sg demo_content) \<and> verify_identity demo_prims (create_signed sg demo_content)"
proof -
  obtain sg where sg: "sr25519_signer demo_prims demo_expand [] HIPPIUS = Inr sg"
    by (simp add: sr25519_signer_def demo_expand_def)
  have "verify_sig demo_prims (create_signed sg demo_content) \<and> verify_identity demo_prims (create_signed sg demo_content)"
    by (rule create_signed_verifies [OF demo_bs58_law _ _ _ _ _ sg,
          where pub = "replicate 32 7" and sign = "\<lambda>ctx msg. replicate 64 7"])
      (simp_all add: demo_expand_def demo_prims_def is_identity_point_def)
  with sg show ?thesis by blast
qed

text \<open>The all-zero public key authenticates nobody, whatever schnorrkel would answer.\<close>

lemma verify_refuses_identity_point: "\<not> verify P (replicate 32 0) msg sg"
  by (simp add: verify_def is_identity_point_def)

end
