(* ===== verification/Converge.thy ===== *)
theory Converge
  imports Op "HOL-Library.Mapping" "HOL-Library.AList_Mapping"
begin

text \<open>
  Convergence of an op set into per-note state (\<^verbatim>\<open>oplog/converge.rs\<close>) and the witness type of verified
  ops (\<^verbatim>\<open>oplog/verified.rs\<close>). \<^verbatim>\<open>BTreeMap\<close>s are \<^typ>\<open>('k, 'v) mapping\<close>s and \<^verbatim>\<open>BTreeSet\<close>s are sets: nothing here
  depends on their iteration order. The reductions are folds over the op list in the order the
  code visits it; the locale \<open>set_fold\<close> says when such a fold depends on the set of ops only.
\<close>

section \<open>Definitions\<close>

type_synonym timestamp = int

record note_pointer =
  np_object_key :: string
  np_cid :: blake3_hash
  np_lamport :: u64
  np_author :: ss58
  np_key_epoch :: u64

datatype typed_link = TypedLink (tl_to: note_id) (tl_rel: link_rel)

record note_state =
  ns_note_id :: note_id
  ns_pointer :: "note_pointer option"
  ns_tombstoned :: bool
  ns_redacted :: bool
  ns_links :: "note_id set"
  ns_relations :: "typed_link set"
  ns_reinforcers :: "ss58 set"
  ns_last_reinforced :: "timestamp option"

type_synonym converged_state = "(note_id, note_state) mapping"

text \<open>\<^verbatim>\<open>VerifiedOps\<close>: the private vector and its verified-preserving transforms.\<close>

datatype verified_ops = VerifiedOps (ops_of: "op list")

definition vo_filter :: "verified_ops \<Rightarrow> (op \<Rightarrow> bool) \<Rightarrow> verified_ops" where
  "vo_filter v keep = VerifiedOps (filter keep (ops_of v))"

definition vo_partition :: "verified_ops \<Rightarrow> (op \<Rightarrow> bool) \<Rightarrow> verified_ops \<times> verified_ops" where
  "vo_partition v left =
     (let (matching, rest) = partition left (ops_of v) in (VerifiedOps matching, VerifiedOps rest))"

definition vo_concat :: "verified_ops \<Rightarrow> verified_ops \<Rightarrow> verified_ops" where
  "vo_concat v w = VerifiedOps (ops_of v @ ops_of w)"

definition lamport_tip :: "op list \<Rightarrow> u64" where
  "lamport_tip ops = fold max (map op_lamport ops) 0"

definition next_lamport :: "op list \<Rightarrow> u64" where
  "next_lamport ops = u64_saturating_succ (lamport_tip ops)"

definition op_prefix :: "op \<Rightarrow> u64 \<times> ulid \<times> verifying_key" where
  "op_prefix o1 = (op_lamport o1, op_id o1, op_author_key o1)"

definition op_outranks :: "prims \<Rightarrow> op \<Rightarrow> op \<Rightarrow> bool" where
  "op_outranks P a b =
     (if op_prefix a > op_prefix b then True
      else if op_prefix a < op_prefix b then False
      else op_hash P a > op_hash P b)"

record note_accumulator =
  na_pointer :: "op option"
  na_lifecycle :: "(op \<times> bool) option"
  na_links :: "note_id set"
  na_relations :: "(note_id, op \<times> link_rel) mapping"
  na_reinforcers :: "ss58 set"
  na_last_reinforced :: "timestamp option"
  na_redacted :: bool

definition na_default :: note_accumulator where
  "na_default = \<lparr>na_pointer = None, na_lifecycle = None, na_links = {}, na_relations = Mapping.empty,
     na_reinforcers = {}, na_last_reinforced = None, na_redacted = False\<rparr>"

definition consider_pointer :: "prims \<Rightarrow> note_accumulator \<Rightarrow> op \<Rightarrow> note_accumulator" where
  "consider_pointer P acc o1 =
     (if (case na_pointer acc of None \<Rightarrow> True | Some cur \<Rightarrow> op_outranks P o1 cur)
      then acc\<lparr>na_pointer := Some o1\<rparr> else acc)"

definition consider_lifecycle :: "prims \<Rightarrow> note_accumulator \<Rightarrow> op \<Rightarrow> bool \<Rightarrow> note_accumulator" where
  "consider_lifecycle P acc o1 is_forget =
     (if (case na_lifecycle acc of None \<Rightarrow> True | Some (cur, _) \<Rightarrow> op_outranks P o1 cur)
      then acc\<lparr>na_lifecycle := Some (o1, is_forget)\<rparr> else acc)"

definition relate_entry ::
    "prims \<Rightarrow> (note_id, op \<times> link_rel) mapping \<Rightarrow> op \<Rightarrow> note_id \<Rightarrow> link_rel \<Rightarrow> (note_id, op \<times> link_rel) mapping" where
  "relate_entry P m o1 to rel =
     (case Mapping.lookup m to of
        Some winner \<Rightarrow> (if op_outranks P o1 (fst winner) then Mapping.update to (o1, rel) m else m)
      | None \<Rightarrow> Mapping.update to (o1, rel) m)"

text \<open>\<^verbatim>\<open>i64::try_from(u64).unwrap_or(i64::MAX)\<close>.\<close>

definition reinforced_at :: "op \<Rightarrow> timestamp" where
  "reinforced_at o1 =
     (let ms = unat (ulid_timestamp_ms (op_id o1)) in if ms < 2 ^ 63 then int ms else 2 ^ 63 - 1)"

text \<open>Rust's \<^verbatim>\<open>Option::max\<close>: \<^verbatim>\<open>None\<close> is below every \<^verbatim>\<open>Some\<close>.\<close>

definition option_max :: "timestamp option \<Rightarrow> timestamp \<Rightarrow> timestamp option" where
  "option_max cur t = (case cur of None \<Rightarrow> Some t | Some c \<Rightarrow> Some (max c t))"

definition observe :: "prims \<Rightarrow> note_accumulator \<Rightarrow> op \<Rightarrow> note_accumulator" where
  "observe P acc o1 =
     (case op_kind o1 of
        Remember \<Rightarrow> consider_lifecycle P (consider_pointer P acc o1) o1 False
      | Edit \<Rightarrow> consider_lifecycle P (consider_pointer P acc o1) o1 False
      | Forget \<Rightarrow> consider_lifecycle P acc o1 True
      | Redact \<Rightarrow> acc\<lparr>na_redacted := True\<rparr>
      | Link to \<Rightarrow> acc\<lparr>na_links := insert to (na_links acc)\<rparr>
      | Relate to rel \<Rightarrow>
          acc\<lparr>na_links := insert to (na_links acc),
              na_relations := relate_entry P (na_relations acc) o1 to rel\<rparr>
      | Reinforce \<Rightarrow>
          acc\<lparr>na_reinforcers := insert (op_author o1) (na_reinforcers acc),
              na_last_reinforced := option_max (na_last_reinforced acc) (reinforced_at o1)\<rparr>)"

definition pointer_of :: "op \<Rightarrow> note_pointer" where
  "pointer_of o1 =
     \<lparr>np_object_key = op_object_key o1, np_cid = op_cid o1, np_lamport = op_lamport o1,
      np_author = op_author o1, np_key_epoch = op_key_epoch o1\<rparr>"

definition into_state :: "note_accumulator \<Rightarrow> note_id \<Rightarrow> note_state" where
  "into_state acc i =
     (if na_redacted acc
      then \<lparr>ns_note_id = i, ns_pointer = None, ns_tombstoned = True, ns_redacted = True, ns_links = {},
            ns_relations = {}, ns_reinforcers = {}, ns_last_reinforced = None\<rparr>
      else \<lparr>ns_note_id = i, ns_pointer = map_option pointer_of (na_pointer acc),
            ns_tombstoned = (case na_lifecycle acc of None \<Rightarrow> False | Some (_, is_forget) \<Rightarrow> is_forget),
            ns_redacted = False, ns_links = na_links acc,
            ns_relations =
              (\<lambda>to. TypedLink to (snd (the (Mapping.lookup (na_relations acc) to)))) `
                Mapping.keys (na_relations acc),
            ns_reinforcers = na_reinforcers acc, ns_last_reinforced = na_last_reinforced acc\<rparr>)"

text \<open>\<^verbatim>\<open>groups.entry(op.note_id).or_default().observe(op)\<close>\<close>

definition group_step ::
    "prims \<Rightarrow> (note_id, note_accumulator) mapping \<Rightarrow> op \<Rightarrow> (note_id, note_accumulator) mapping" where
  "group_step P groups o1 =
     Mapping.update (op_note_id o1)
       (observe P (case Mapping.lookup groups (op_note_id o1) of None \<Rightarrow> na_default | Some acc \<Rightarrow> acc) o1)
       groups"

definition converge :: "prims \<Rightarrow> verified_ops \<Rightarrow> converged_state" where
  "converge P v =
     Mapping.map_values (\<lambda>i acc. into_state acc i) (foldl (group_step P) Mapping.empty (ops_of v))"

section \<open>Folds that depend on the set only\<close>

locale set_fold =
  fixes step :: "'s \<Rightarrow> 'a \<Rightarrow> 's" and compat :: "'a \<Rightarrow> 'a \<Rightarrow> bool"
  assumes step_commute: "compat a b \<Longrightarrow> step (step s a) b = step (step s b) a"
    and step_idem: "step (step s a) a = step s a"
begin

definition compatible :: "'a set \<Rightarrow> bool" where
  "compatible A \<longleftrightarrow> (\<forall>a\<in>A. \<forall>b\<in>A. compat a b)"

lemma foldl_step_commute:
  "\<forall>b\<in>set xs. compat a b \<Longrightarrow> foldl step (step s a) xs = step (foldl step s xs) a"
  by (induction xs arbitrary: s) (auto simp: step_commute)

lemma foldl_absorb:
  "compatible (set xs) \<Longrightarrow> a \<in> set xs \<Longrightarrow> step (foldl step s xs) a = foldl step s xs"
proof (induction xs arbitrary: s)
  case (Cons x xs)
  have "\<forall>b\<in>set xs. compat a b" using Cons.prems by (auto simp: compatible_def)
  then have "step (foldl step (step s x) xs) a = foldl step (step (step s x) a) xs"
    by (simp add: foldl_step_commute)
  moreover have "compatible (set xs)" using Cons.prems(1) by (auto simp: compatible_def)
  ultimately show ?case using Cons.IH [of "step s x"] Cons.prems(2) by (auto simp: step_idem)
qed simp

lemma foldl_absorb_list:
  "compatible (set xs) \<Longrightarrow> set ys \<subseteq> set xs \<Longrightarrow> foldl step s (xs @ ys) = foldl step s xs"
  by (induction ys rule: rev_induct) (auto simp: foldl_absorb simp flip: append_assoc)

lemma foldl_swap:
  "compatible (set (xs @ ys)) \<Longrightarrow> foldl step s (xs @ ys) = foldl step s (ys @ xs)"
proof (induction xs arbitrary: s)
  case (Cons x xs)
  then have "compatible (set (xs @ ys))" and "\<forall>b\<in>set ys. compat x b"
    by (auto simp: compatible_def)
  then have "foldl step (step s x) (xs @ ys) = foldl step (step (foldl step s ys) x) xs"
    using Cons.IH [of "step s x"] by (simp add: foldl_step_commute)
  then show ?case by simp
qed simp

lemma foldl_set_cong:
  assumes "compatible (set xs)" and "set xs = set ys"
  shows "foldl step s xs = foldl step s ys"
proof -
  have "foldl step s xs = foldl step s (xs @ ys)" using assms by (simp only: foldl_absorb_list)
  also have "\<dots> = foldl step s (ys @ xs)" using assms by (intro foldl_swap) simp
  also have "\<dots> = foldl step s ys" using assms by (simp only: foldl_absorb_list)
  finally show ?thesis .
qed

end

section \<open>The total order\<close>

definition op_key :: "prims \<Rightarrow> op \<Rightarrow> (u64 \<times> ulid \<times> verifying_key) \<times> blake3_hash" where
  "op_key P o1 = (op_prefix o1, op_hash P o1)"

lemma op_outranks_iff: "op_outranks P a b \<longleftrightarrow> op_key P b < op_key P a"
  by (auto simp: op_outranks_def op_key_def less_prod_def less_eq_prod_def)

text \<open>Two ops the order can tell apart: equal keys only for equal ops.\<close>

definition op_compat :: "prims \<Rightarrow> op \<Rightarrow> op \<Rightarrow> bool" where
  "op_compat P a b \<longleftrightarrow> (op_key P a = op_key P b \<longrightarrow> a = b)"

lemma fold_max_mono: "(a::'a::linorder) \<le> fold max xs a"
  by (induction xs arbitrary: a) (auto intro: order_trans [OF max.cobounded2])

lemma fold_max_ge: "x \<in> set xs \<Longrightarrow> (x::'a::linorder) \<le> fold max xs a"
proof (induction xs arbitrary: a)
  case (Cons y ys)
  then show ?case using order_trans [OF max.cobounded1 fold_max_mono] by auto
qed simp

section \<open>Leaders\<close>

text \<open>The running maximum under a key: the incumbent stays unless it is strictly outranked.\<close>

definition lead :: "('v \<Rightarrow> 'k::linorder) \<Rightarrow> 'v option \<Rightarrow> 'v \<Rightarrow> 'v option" where
  "lead key cur v = (case cur of None \<Rightarrow> Some v | Some c \<Rightarrow> if key c < key v then Some v else Some c)"

interpretation leading: set_fold "lead key" "\<lambda>a b. key a = key b \<longrightarrow> a = b" for key :: "'v \<Rightarrow> 'k::linorder"
  by unfold_locales (auto simp: lead_def split: option.splits)

lemma lead_Some_iff: "foldl (lead key) None xs = None \<longleftrightarrow> xs = []"
  by (induction xs rule: rev_induct) (auto simp: lead_def split: option.splits)

lemma foldl_lead_max:
  "foldl (lead key) None xs = Some m \<Longrightarrow> m \<in> set xs \<and> (\<forall>x\<in>set xs. key x \<le> key m)"
  by (induction xs arbitrary: m rule: rev_induct)
    (force simp: lead_def lead_Some_iff split: option.splits if_splits)+

lemma foldl_lead_eqI:
  assumes "m \<in> set xs" and "\<forall>x\<in>set xs. key x \<le> key m" and "\<forall>x\<in>set xs. key x = key m \<longrightarrow> x = m"
  shows "foldl (lead key) None xs = Some m"
proof -
  from assms(1) obtain m' where m': "foldl (lead key) None xs = Some m'"
    using lead_Some_iff [of key xs] by fastforce
  with foldl_lead_max [OF m'] assms show ?thesis by (metis order_antisym)
qed

section \<open>What one observation does to each field\<close>

definition is_content :: "op \<Rightarrow> bool" where
  "is_content o1 \<longleftrightarrow> op_kind o1 = Remember \<or> op_kind o1 = Edit"

definition is_lifecycle :: "op \<Rightarrow> bool" where
  "is_lifecycle o1 \<longleftrightarrow> is_content o1 \<or> op_kind o1 = Forget"

definition life :: "op \<Rightarrow> op \<times> bool" where
  "life o1 = (o1, op_kind o1 = Forget)"

fun link_target :: "op_kind \<Rightarrow> note_id option" where
  "link_target (Link to) = Some to"
| "link_target (Relate to rel) = Some to"
| "link_target _ = None"

definition relates :: "note_id \<Rightarrow> op \<Rightarrow> (op \<times> link_rel) option" where
  "relates to o1 = (case op_kind o1 of Relate t r \<Rightarrow> if t = to then Some (o1, r) else None | _ \<Rightarrow> None)"

abbreviation op_key1 :: "prims \<Rightarrow> op \<times> 'x \<Rightarrow> (u64 \<times> ulid \<times> verifying_key) \<times> blake3_hash" where
  "op_key1 P \<equiv> (\<lambda>p. op_key P (fst p))"

lemma na_pointer_observe:
  "na_pointer (observe P acc o1) = (if is_content o1 then lead (op_key P) (na_pointer acc) o1 else na_pointer acc)"
  by (cases "op_kind o1")
    (auto simp: observe_def is_content_def consider_pointer_def consider_lifecycle_def lead_def op_outranks_iff
      split: option.splits)

lemma na_lifecycle_observe:
  "na_lifecycle (observe P acc o1) =
     (if is_lifecycle o1 then lead (op_key1 P) (na_lifecycle acc) (life o1) else na_lifecycle acc)"
  by (cases "op_kind o1")
    (auto simp: observe_def is_lifecycle_def is_content_def life_def consider_pointer_def consider_lifecycle_def
      lead_def op_outranks_iff split: option.splits)

lemma na_links_observe:
  "na_links (observe P acc o1) =
     (case link_target (op_kind o1) of None \<Rightarrow> na_links acc | Some to \<Rightarrow> insert to (na_links acc))"
  by (cases "op_kind o1") (auto simp: observe_def consider_pointer_def consider_lifecycle_def)

lemma lookup_relate_entry:
  "Mapping.lookup (relate_entry P m o1 to rel) k =
     (if k = to then lead (op_key1 P) (Mapping.lookup m to) (o1, rel) else Mapping.lookup m k)"
  by (auto simp: relate_entry_def lead_def op_outranks_iff lookup_update' split: option.splits)

lemma na_relations_observe:
  "Mapping.lookup (na_relations (observe P acc o1)) k =
     (case relates k o1 of
        None \<Rightarrow> Mapping.lookup (na_relations acc) k
      | Some v \<Rightarrow> lead (op_key1 P) (Mapping.lookup (na_relations acc) k) v)"
  by (cases "op_kind o1")
    (auto simp: observe_def relates_def consider_pointer_def consider_lifecycle_def lookup_relate_entry)

lemma na_reinforcers_observe:
  "na_reinforcers (observe P acc o1) =
     (if op_kind o1 = Reinforce then insert (op_author o1) (na_reinforcers acc) else na_reinforcers acc)"
  by (cases "op_kind o1") (auto simp: observe_def consider_pointer_def consider_lifecycle_def)

lemma na_last_reinforced_observe:
  "na_last_reinforced (observe P acc o1) =
     (if op_kind o1 = Reinforce then option_max (na_last_reinforced acc) (reinforced_at o1)
      else na_last_reinforced acc)"
  by (cases "op_kind o1") (auto simp: observe_def consider_pointer_def consider_lifecycle_def)

lemma na_redacted_observe: "na_redacted (observe P acc o1) \<longleftrightarrow> na_redacted acc \<or> op_kind o1 = Redact"
  by (cases "op_kind o1") (auto simp: observe_def consider_pointer_def consider_lifecycle_def)

lemmas observe_fields = na_pointer_observe na_lifecycle_observe na_links_observe na_relations_observe
  na_reinforcers_observe na_last_reinforced_observe na_redacted_observe

lemma note_accumulator_eqI:
  assumes "na_pointer a = na_pointer b" "na_lifecycle a = na_lifecycle b" "na_links a = na_links b"
    "\<And>k. Mapping.lookup (na_relations a) k = Mapping.lookup (na_relations b) k"
    "na_reinforcers a = na_reinforcers b" "na_last_reinforced a = na_last_reinforced b"
    "na_redacted a = na_redacted b"
  shows "a = (b :: note_accumulator)"
  using assms by (cases a; cases b) (simp add: mapping_eqI)

lemma option_max_commute: "option_max (option_max c a) b = option_max (option_max c b) a"
  and option_max_idem: "option_max (option_max c a) a = option_max c a"
  by (auto simp: option_max_def max.commute max.left_commute split: option.splits)

lemma relates_fst: "relates k a = Some v \<Longrightarrow> fst v = a"
  by (auto simp: relates_def split: op_kind.splits if_splits)

lemma relates_Some_iff: "relates k a = Some v \<longleftrightarrow> (\<exists>r. op_kind a = Relate k r \<and> v = (a, r))"
  by (auto simp: relates_def split: op_kind.splits)

lemma relates_commute:
  assumes "op_compat P a b" and "relates k a = Some v" and "relates k b = Some w"
  shows "lead (op_key1 P) (lead (op_key1 P) c v) w = lead (op_key1 P) (lead (op_key1 P) c w) v"
  by (rule leading.step_commute) (use assms in \<open>auto simp: op_compat_def relates_Some_iff\<close>)

interpretation observing: set_fold "observe P" "op_compat P" for P
proof
  fix a b s
  assume c: "op_compat P a b"
  show "observe P (observe P s a) b = observe P (observe P s b) a"
  proof (rule note_accumulator_eqI)
    show "na_pointer (observe P (observe P s a) b) = na_pointer (observe P (observe P s b) a)"
      using c by (auto simp: observe_fields op_compat_def intro!: leading.step_commute)
    show "na_lifecycle (observe P (observe P s a) b) = na_lifecycle (observe P (observe P s b) a)"
      using c by (auto simp: observe_fields op_compat_def life_def intro!: leading.step_commute)
    show "Mapping.lookup (na_relations (observe P (observe P s a) b)) k =
        Mapping.lookup (na_relations (observe P (observe P s b) a)) k" for k
      using relates_commute [OF c] by (simp add: na_relations_observe split: option.splits)
  qed (auto simp: observe_fields option_max_commute split: option.splits)
next
  fix a s
  show "observe P (observe P s a) a = observe P s a"
    by (rule note_accumulator_eqI)
      (auto simp: observe_fields leading.step_idem option_max_idem split: option.splits)
qed

section \<open>Folding the whole op set\<close>

definition acc_of :: "prims \<Rightarrow> op list \<Rightarrow> note_accumulator" where
  "acc_of P ops = foldl (observe P) na_default ops"

lemma lookup_groups:
  "Mapping.lookup (foldl (group_step P) Mapping.empty ops) i =
     (let own = filter (\<lambda>x. op_note_id x = i) ops in if own = [] then None else Some (acc_of P own))"
proof (induction ops rule: rev_induct)
  case Nil
  show ?case by (simp add: lookup_empty)
next
  case (snoc x xs)
  then show ?case
    by (auto simp: group_step_def lookup_update' acc_of_def Let_def split: option.splits)
qed

lemma lookup_converge:
  "Mapping.lookup (converge P v) i =
     (let own = filter (\<lambda>x. op_note_id x = i) (ops_of v)
      in if own = [] then None else Some (into_state (acc_of P own) i))"
  by (simp add: converge_def lookup_map_values lookup_groups Let_def)

lemma acc_pointer: "na_pointer (acc_of P ops) = foldl (lead (op_key P)) None (filter is_content ops)"
  by (induction ops rule: rev_induct) (auto simp: acc_of_def na_default_def observe_fields)

lemma acc_lifecycle:
  "na_lifecycle (acc_of P ops) = foldl (lead (op_key1 P)) None (map life (filter is_lifecycle ops))"
  by (induction ops rule: rev_induct) (auto simp: acc_of_def na_default_def observe_fields)

lemma acc_links: "na_links (acc_of P ops) = {to. \<exists>x\<in>set ops. link_target (op_kind x) = Some to}"
  by (induction ops rule: rev_induct) (auto simp: acc_of_def na_default_def observe_fields split: option.splits)

lemma acc_relations:
  "Mapping.lookup (na_relations (acc_of P ops)) k = foldl (lead (op_key1 P)) None (List.map_filter (relates k) ops)"
  by (induction ops rule: rev_induct)
    (auto simp: acc_of_def na_default_def observe_fields lookup_empty List.map_filter_def split: option.splits)

lemma acc_reinforcers: "na_reinforcers (acc_of P ops) = op_author ` {x \<in> set ops. op_kind x = Reinforce}"
  by (induction ops rule: rev_induct) (auto simp: acc_of_def na_default_def observe_fields)

lemma acc_redacted: "na_redacted (acc_of P ops) \<longleftrightarrow> (\<exists>x\<in>set ops. op_kind x = Redact)"
  by (induction ops rule: rev_induct) (auto simp: acc_of_def na_default_def observe_fields)

lemma acc_last_reinforced:
  "na_last_reinforced (acc_of P ops) =
     (let R = {x \<in> set ops. op_kind x = Reinforce} in if R = {} then None else Some (Max (reinforced_at ` R)))"
proof (induction ops rule: rev_induct)
  case Nil
  show ?case by (simp add: acc_of_def na_default_def)
next
  case (snoc x xs)
  define R where "R = {y \<in> set xs. op_kind y = Reinforce}"
  have fin: "finite R" by (simp add: R_def)
  have R: "{y \<in> set (xs @ [x]). op_kind y = Reinforce} = (if op_kind x = Reinforce then insert x R else R)"
    by (auto simp: R_def)
  have acc: "acc_of P (xs @ [x]) = observe P (acc_of P xs) x" by (simp add: acc_of_def)
  show ?case
    unfolding R acc na_last_reinforced_observe snoc.IH R_def [symmetric]
    using fin by (simp add: Let_def option_max_def max.commute)
qed

lemma le_lamport_tip: "x \<in> set ops \<Longrightarrow> op_lamport x \<le> lamport_tip ops"
  unfolding lamport_tip_def by (rule fold_max_ge) simp

text \<open>Collision freedom of the chain hash on a set makes the order total on it.\<close>

lemma op_compat_if_inj: "inj_on (op_hash P) A \<Longrightarrow> a \<in> A \<Longrightarrow> b \<in> A \<Longrightarrow> op_compat P a b"
  by (auto simp: op_compat_def op_key_def inj_on_def)

lemma observing_compatible: "inj_on (op_hash P) A \<Longrightarrow> observing.compatible P A"
  by (auto simp: observing.compatible_def intro: op_compat_if_inj)

lemma acc_of_set_cong: "inj_on (op_hash P) (set xs) \<Longrightarrow> set xs = set ys \<Longrightarrow> acc_of P xs = acc_of P ys"
  unfolding acc_of_def by (rule observing.foldl_set_cong) (simp_all add: observing_compatible)

text \<open>An op that nothing of its class outranks.\<close>

definition leads :: "prims \<Rightarrow> (op \<Rightarrow> bool) \<Rightarrow> op list \<Rightarrow> op \<Rightarrow> bool" where
  "leads P cls ops o1 \<longleftrightarrow> o1 \<in> set ops \<and> cls o1 \<and> (\<forall>o2\<in>set ops. cls o2 \<longrightarrow> \<not> op_outranks P o2 o1)"

lemma leads_unique:
  assumes "inj_on (op_hash P) (set ops)" and "leads P cls ops a" and "leads P cls ops b"
  shows "a = b"
proof -
  from assms(2,3) have "op_key P a = op_key P b"
    by (auto simp: leads_def op_outranks_iff not_less intro: order_antisym)
  with assms show ?thesis by (auto simp: op_key_def leads_def inj_on_def)
qed

lemma acc_pointer_leads: "na_pointer (acc_of P ops) = Some m \<Longrightarrow> leads P is_content ops m"
  unfolding acc_pointer using foldl_lead_max [of "op_key P" "filter is_content ops" m]
  by (auto simp: leads_def op_outranks_iff not_less)

lemma acc_pointer_None: "na_pointer (acc_of P ops) = None \<longleftrightarrow> (\<forall>x\<in>set ops. \<not> is_content x)"
  by (auto simp: acc_pointer lead_Some_iff filter_empty_conv)

lemma acc_lifecycle_leads:
  "na_lifecycle (acc_of P ops) = Some (m, f) \<Longrightarrow> leads P is_lifecycle ops m \<and> f = (op_kind m = Forget)"
  unfolding acc_lifecycle using foldl_lead_max [of "op_key1 P" "map life (filter is_lifecycle ops)" "(m, f)"]
  by (auto simp: leads_def op_outranks_iff not_less life_def)

lemma acc_lifecycle_None: "na_lifecycle (acc_of P ops) = None \<longleftrightarrow> (\<forall>x\<in>set ops. \<not> is_lifecycle x)"
  by (auto simp: acc_lifecycle lead_Some_iff filter_empty_conv)

definition is_relate_to :: "note_id \<Rightarrow> op \<Rightarrow> bool" where
  "is_relate_to to o1 \<longleftrightarrow> (\<exists>rel. op_kind o1 = Relate to rel)"

lemma acc_relations_leads:
  "Mapping.lookup (na_relations (acc_of P ops)) k = Some (m, r) \<Longrightarrow>
     leads P (is_relate_to k) ops m \<and> op_kind m = Relate k r"
proof -
  assume "Mapping.lookup (na_relations (acc_of P ops)) k = Some (m, r)"
  then have fl: "foldl (lead (op_key1 P)) None (List.map_filter (relates k) ops) = Some (m, r)"
    by (simp add: acc_relations)
  have "set (List.map_filter (relates k) ops) = {v. \<exists>x\<in>set ops. relates k x = Some v}"
    by (force simp: List.map_filter_def)
  with foldl_lead_max [OF fl] show ?thesis
    by (auto simp: leads_def is_relate_to_def op_outranks_iff not_less relates_Some_iff)
qed

lemma acc_relations_None: "Mapping.lookup (na_relations (acc_of P ops)) k = None \<longleftrightarrow> (\<forall>x\<in>set ops. \<not> is_relate_to k x)"
  by (auto simp: acc_relations lead_Some_iff List.map_filter_def filter_empty_conv is_relate_to_def relates_Some_iff)

abbreviation own_ops :: "verified_ops \<Rightarrow> note_id \<Rightarrow> op list" where
  "own_ops v i \<equiv> filter (\<lambda>x. op_note_id x = i) (ops_of v)"

lemma lookup_converge_Some:
  "Mapping.lookup (converge P v) i = Some st \<longleftrightarrow> own_ops v i \<noteq> [] \<and> st = into_state (acc_of P (own_ops v i)) i"
  by (auto simp: lookup_converge Let_def)

lemma own_inj: "inj_on (op_hash P) (set (ops_of v)) \<Longrightarrow> inj_on (op_hash P) (set (own_ops v i))"
  by (auto simp: inj_on_def)

lemma converge_set_cong:
  assumes "inj_on (op_hash P) (set (ops_of v))" and "set (ops_of v) = set (ops_of w)"
  shows "converge P v = converge P w"
proof (rule mapping_eqI)
  fix i
  have "set (own_ops v i) = set (own_ops w i)" using assms(2) by auto
  moreover from this have "own_ops v i = [] \<longleftrightarrow> own_ops w i = []" by (metis set_empty)
  moreover have "acc_of P (own_ops v i) = acc_of P (own_ops w i)"
    using own_inj [OF assms(1)] calculation(1) by (rule acc_of_set_cong)
  ultimately show "Mapping.lookup (converge P v) i = Mapping.lookup (converge P w) i"
    by (simp add: lookup_converge)
qed

section \<open>Properties\<close>

text \<open>C14. Two machines that hold the same set of ops, in whatever order and with whatever repetitions,
  converge to the same state, as long as the chain hash does not collide on that set.\<close>

theorem converge_order_independent:
  assumes "inj_on (op_hash P) (set (ops_of v))" and "set (ops_of v) = set (ops_of w)"
  shows "converge P v = converge P w"
  using assms by (rule converge_set_cong)

theorem converge_order_independent_witness:
  "converge demo_prims (VerifiedOps [demo_op 1 1 blake3_zero, demo_op 1 2 (replicate 32 1)]) =
   converge demo_prims (VerifiedOps [demo_op 1 2 (replicate 32 1), demo_op 1 1 blake3_zero, demo_op 1 2 (replicate 32 1)])"
  by (rule converge_order_independent) (auto simp: inj_on_def)

text \<open>A note with no redaction points at its latest content op: the pointer is the projection of a
  \<open>Remember\<close>/\<open>Edit\<close> op of that note which no other one outranks in \<open>(lamport, op_id, author_key, hash)\<close>,
  and there is a pointer exactly when the note has such an op.\<close>

theorem converge_pointer_is_max:
  assumes "Mapping.lookup (converge P v) i = Some st"
    and "\<forall>x\<in>set (own_ops v i). op_kind x \<noteq> Redact"
  shows "(case ns_pointer st of
            None \<Rightarrow> \<forall>x\<in>set (own_ops v i). \<not> is_content x
          | Some p \<Rightarrow> \<exists>m. leads P is_content (own_ops v i) m \<and> p = pointer_of m)"
proof -
  let ?acc = "acc_of P (own_ops v i)"
  have "\<not> na_redacted ?acc" using assms(2) by (simp add: acc_redacted)
  with assms(1) have "ns_pointer st = map_option pointer_of (na_pointer ?acc)"
    by (simp add: lookup_converge_Some into_state_def)
  then show ?thesis
    using acc_pointer_leads [of P "own_ops v i"] acc_pointer_None [of P "own_ops v i"]
    by (auto split: option.splits)
qed

theorem converge_pointer_is_max_witness:
  "\<exists>st m. Mapping.lookup (converge demo_prims (VerifiedOps [demo_op 1 1 blake3_zero, demo_op 1 2 (replicate 32 1)])) (NoteId 1) = Some st \<and>
     leads demo_prims is_content [demo_op 1 1 blake3_zero, demo_op 1 2 (replicate 32 1)] m \<and> ns_pointer st = Some (pointer_of m)"
proof -
  let ?v = "VerifiedOps [demo_op 1 1 blake3_zero, demo_op 1 2 (replicate 32 1)]"
  have own: "own_ops ?v (NoteId 1) = ops_of ?v" by (simp add: demo_op_def)
  then obtain st where st: "Mapping.lookup (converge demo_prims ?v) (NoteId 1) = Some st"
    by (simp add: lookup_converge_Some)
  from converge_pointer_is_max [OF this] own st show ?thesis
    by (auto simp: demo_op_def is_content_def split: option.splits)
qed

text \<open>Redaction is absorbing: one \<open>Redact\<close> anywhere in a note's op set makes the note a bare tombstone,
  with no pointer and none of its links, relations or reinforcers left, whatever the other ops are.\<close>

theorem redact_is_absorbing:
  assumes "x \<in> set (ops_of v)" and "op_note_id x = i" and "op_kind x = Redact"
  shows "Mapping.lookup (converge P v) i =
    Some \<lparr>ns_note_id = i, ns_pointer = None, ns_tombstoned = True, ns_redacted = True, ns_links = {},
          ns_relations = {}, ns_reinforcers = {}, ns_last_reinforced = None\<rparr>"
proof -
  from assms have x: "x \<in> set (own_ops v i)" by simp
  with assms(3) have "na_redacted (acc_of P (own_ops v i))" by (auto simp: acc_redacted)
  moreover from x have "own_ops v i \<noteq> []" by (auto simp del: set_filter)
  ultimately show ?thesis by (simp add: lookup_converge_Some into_state_def)
qed

theorem redact_is_absorbing_witness:
  "Mapping.lookup (converge demo_prims (VerifiedOps [demo_op 1 1 blake3_zero\<lparr>op_kind := Redact\<rparr>, demo_op 1 2 (replicate 32 1)])) (NoteId 1) =
    Some \<lparr>ns_note_id = NoteId 1, ns_pointer = None, ns_tombstoned = True, ns_redacted = True, ns_links = {},
          ns_relations = {}, ns_reinforcers = {}, ns_last_reinforced = None\<rparr>"
  by (rule redact_is_absorbing [where x = "demo_op 1 1 blake3_zero\<lparr>op_kind := Redact\<rparr>"]) (simp_all add: demo_op_def)

text \<open>A note that was not redacted is tombstoned exactly when its latest lifecycle op
  (\<open>Remember\<close>, \<open>Edit\<close> or \<open>Forget\<close>) is a \<open>Forget\<close>: a strictly later write resurrects it.\<close>

theorem tombstone_iff_latest_is_forget:
  assumes "inj_on (op_hash P) (set (ops_of v))" and "Mapping.lookup (converge P v) i = Some st"
    and "\<forall>x\<in>set (own_ops v i). op_kind x \<noteq> Redact"
  shows "ns_tombstoned st \<longleftrightarrow> (\<exists>m. leads P is_lifecycle (own_ops v i) m \<and> op_kind m = Forget)"
proof -
  let ?acc = "acc_of P (own_ops v i)"
  have "\<not> na_redacted ?acc" using assms(3) by (simp add: acc_redacted)
  with assms(2) have st: "ns_tombstoned st \<longleftrightarrow> (\<exists>m. na_lifecycle ?acc = Some (m, True))"
    by (auto simp: lookup_converge_Some into_state_def split: option.splits)
  show ?thesis
  proof (cases "na_lifecycle ?acc")
    case None
    with acc_lifecycle_None [of P "own_ops v i"] st show ?thesis by (auto simp: leads_def)
  next
    case (Some q)
    then obtain m f where q: "na_lifecycle ?acc = Some (m, f)" by (cases q) auto
    from acc_lifecycle_leads [OF q] leads_unique [OF own_inj [OF assms(1), of i], of is_lifecycle m]
    show ?thesis using st q by auto
  qed
qed

theorem tombstone_iff_latest_is_forget_witness:
  "\<exists>st. Mapping.lookup (converge demo_prims (VerifiedOps [demo_op 1 1 blake3_zero, demo_op 1 2 (replicate 32 1)\<lparr>op_kind := Forget\<rparr>])) (NoteId 1) = Some st \<and>
     (ns_tombstoned st \<longleftrightarrow> (\<exists>m. leads demo_prims is_lifecycle [demo_op 1 1 blake3_zero, demo_op 1 2 (replicate 32 1)\<lparr>op_kind := Forget\<rparr>] m \<and> op_kind m = Forget))"
proof -
  let ?v = "VerifiedOps [demo_op 1 1 blake3_zero, demo_op 1 2 (replicate 32 1)\<lparr>op_kind := Forget\<rparr>]"
  have own: "own_ops ?v (NoteId 1) = ops_of ?v" by (simp add: demo_op_def)
  then obtain st where st: "Mapping.lookup (converge demo_prims ?v) (NoteId 1) = Some st"
    by (simp add: lookup_converge_Some)
  have h: "op_hash demo_prims (demo_op 1 2 (replicate 32 1)\<lparr>op_kind := Forget\<rparr>) = replicate 32 2"
    by (subst demo_op_hash_eq) (simp_all add: demo_op_def)
  have inj: "inj_on (op_hash demo_prims) (set (ops_of ?v))" by (auto simp: inj_on_def h)
  have "\<forall>x\<in>set (own_ops ?v (NoteId 1)). op_kind x \<noteq> Redact" by (simp add: own) (simp add: demo_op_def)
  from tombstone_iff_latest_is_forget [OF inj st this] own st show ?thesis by auto
qed

text \<open>A note that was not redacted relates to a target by a relation exactly when the latest \<open>Relate\<close> op
  of the note towards that target carries this relation: one relation per target, the latest one.\<close>

theorem relation_is_latest:
  assumes "inj_on (op_hash P) (set (ops_of v))" and "Mapping.lookup (converge P v) i = Some st"
    and "\<forall>x\<in>set (own_ops v i). op_kind x \<noteq> Redact"
  shows "TypedLink to rel \<in> ns_relations st \<longleftrightarrow>
    (\<exists>m. leads P (is_relate_to to) (own_ops v i) m \<and> op_kind m = Relate to rel)"
proof -
  let ?acc = "acc_of P (own_ops v i)"
  have "\<not> na_redacted ?acc" using assms(3) by (simp add: acc_redacted)
  with assms(2) have st: "TypedLink to rel \<in> ns_relations st \<longleftrightarrow>
      (\<exists>m. Mapping.lookup (na_relations ?acc) to = Some (m, rel))"
    by (cases "Mapping.lookup (na_relations ?acc) to")
      (auto simp: lookup_converge_Some into_state_def keys_is_none_rep)
  show ?thesis
  proof (cases "Mapping.lookup (na_relations ?acc) to")
    case None
    then have "\<not> leads P (is_relate_to to) (own_ops v i) m" for m
      unfolding acc_relations_None by (auto simp: leads_def)
    then show ?thesis unfolding st using None by simp
  next
    case (Some q)
    then obtain m r where q: "Mapping.lookup (na_relations ?acc) to = Some (m, r)" by (cases q) auto
    have m: "leads P (is_relate_to to) (own_ops v i) m" "op_kind m = Relate to r"
      using acc_relations_leads [OF q] by simp_all
    have "m' = m" if "leads P (is_relate_to to) (own_ops v i) m'" for m'
      by (rule leads_unique [OF own_inj [OF assms(1), of i] that m(1)])
    with m have "(\<exists>m'. leads P (is_relate_to to) (own_ops v i) m' \<and> op_kind m' = Relate to rel) \<longleftrightarrow> r = rel"
      by (metis op_kind.inject(2))
    then show ?thesis unfolding st using q by simp
  qed
qed

theorem relation_is_latest_witness:
  "\<exists>st. Mapping.lookup (converge demo_prims (VerifiedOps [demo_op 1 1 blake3_zero\<lparr>op_kind := Relate (NoteId 2) Supersedes\<rparr>])) (NoteId 1) = Some st \<and>
     TypedLink (NoteId 2) Supersedes \<in> ns_relations st"
proof -
  let ?o = "demo_op 1 1 blake3_zero\<lparr>op_kind := Relate (NoteId 2) Supersedes\<rparr>"
  let ?v = "VerifiedOps [?o]"
  have own: "own_ops ?v (NoteId 1) = [?o]" by (simp add: demo_op_def)
  then obtain st where st: "Mapping.lookup (converge demo_prims ?v) (NoteId 1) = Some st"
    by (simp add: lookup_converge_Some)
  have "\<forall>x\<in>set (own_ops ?v (NoteId 1)). op_kind x \<noteq> Redact" by (simp add: own)
  from relation_is_latest [OF _ st this, of "NoteId 2" Supersedes] st own show ?thesis
    by (auto simp: leads_def is_relate_to_def op_outranks_def)
qed

text \<open>The reinforcers of a note that was not redacted are the authors of its \<open>Reinforce\<close> ops, each counted
  once however often it reinforced, and the last-reinforced time is the latest time in their op ids.\<close>

theorem reinforcement_counts_authors_once:
  assumes "Mapping.lookup (converge P v) i = Some st" and "\<forall>x\<in>set (own_ops v i). op_kind x \<noteq> Redact"
  shows "ns_reinforcers st = op_author ` {x \<in> set (own_ops v i). op_kind x = Reinforce} \<and>
    (case ns_last_reinforced st of
       None \<Rightarrow> ns_reinforcers st = {}
     | Some t \<Rightarrow> t = Max (reinforced_at ` {x \<in> set (own_ops v i). op_kind x = Reinforce}))"
proof -
  let ?acc = "acc_of P (own_ops v i)"
  have "\<not> na_redacted ?acc" using assms(2) by (simp add: acc_redacted)
  with assms(1) have "ns_reinforcers st = na_reinforcers ?acc" "ns_last_reinforced st = na_last_reinforced ?acc"
    by (simp_all add: lookup_converge_Some into_state_def)
  then show ?thesis
    using acc_last_reinforced [of P "own_ops v i"] by (simp add: acc_reinforcers Let_def split: option.splits if_splits)
qed

theorem reinforcement_counts_authors_once_witness:
  "\<exists>st. Mapping.lookup (converge demo_prims (VerifiedOps [demo_op 1 1 blake3_zero\<lparr>op_kind := Reinforce\<rparr>, demo_op 1 2 (replicate 32 1)\<lparr>op_kind := Reinforce\<rparr>])) (NoteId 1) = Some st \<and>
     ns_reinforcers st = {op_author (demo_op 1 1 blake3_zero)}"
proof -
  let ?v = "VerifiedOps [demo_op 1 1 blake3_zero\<lparr>op_kind := Reinforce\<rparr>, demo_op 1 2 (replicate 32 1)\<lparr>op_kind := Reinforce\<rparr>]"
  have own: "own_ops ?v (NoteId 1) = ops_of ?v" by (simp add: demo_op_def)
  then obtain st where st: "Mapping.lookup (converge demo_prims ?v) (NoteId 1) = Some st"
    by (simp add: lookup_converge_Some)
  have "\<forall>x\<in>set (own_ops ?v (NoteId 1)). op_kind x \<noteq> Redact" by (simp add: own)
  from reinforcement_counts_authors_once [OF st this]
  have "ns_reinforcers st = op_author ` {x \<in> set (ops_of ?v). op_kind x = Reinforce}" unfolding own by simp
  moreover have "{x \<in> set (ops_of ?v). op_kind x = Reinforce} = set (ops_of ?v)" by auto
  ultimately show ?thesis using st by (auto simp: demo_op_def)
qed

text \<open>A write stamped with \<open>next_lamport\<close> outranks every op it was computed from, whatever its id and
  author, unless the clock is saturated at the largest 64-bit value.\<close>

theorem next_lamport_outranks_all:
  assumes "lamport_tip ops \<noteq> - 1" and "op_lamport n = next_lamport ops" and "x \<in> set ops"
  shows "op_outranks P n x"
proof -
  have "op_lamport x \<le> lamport_tip ops" using assms(3) by (simp add: le_lamport_tip)
  also have "\<dots> < op_lamport n" using assms(1,2) by (simp add: next_lamport_def u64_saturating_succ_gt)
  finally show ?thesis by (simp add: op_outranks_def op_prefix_def less_prod_def)
qed

theorem next_lamport_outranks_all_witness:
  "op_outranks demo_prims (demo_op 1 2 (replicate 32 1)\<lparr>op_lamport := next_lamport [demo_op 1 1 blake3_zero]\<rparr>) (demo_op 1 1 blake3_zero)"
  by (rule next_lamport_outranks_all [where ops = "[demo_op 1 1 blake3_zero]"])
    (simp_all add: lamport_tip_def demo_op_def)

end
