(* ===== verification/Chain.thy ===== *)
theory Chain
  imports Converge
begin

text \<open>
  Per-author chain election, \<^verbatim>\<open>longest_rooted_chain\<close> and \<^verbatim>\<open>quarantine_broken_chains\<close> of
  \<^verbatim>\<open>oplog/store.rs\<close>. The two loops (the explicit-stack post-order height pass and the greedy walk from
  genesis) are \<^verbatim>\<open>partial_function (option)\<close>s, \<open>None\<close> standing for a loop that never ends; the theorems
  show that both return whenever the chain hash neither collides on the ops nor hits the genesis
  sentinel. The specification side is \<open>linked\<close>, a path of ops along \<open>prev_op_hash\<close>, and \<open>elected\<close>, the
  path that takes the tallest branch at every fork.
\<close>

section \<open>Definitions\<close>

definition GENESIS_PREV :: blake3_hash where
  "GENESIS_PREV = blake3_zero"

text \<open>\<^verbatim>\<open>map.entry(key).or_default().push(i)\<close>, over \<^verbatim>\<open>xs.iter().enumerate()\<close>.\<close>

definition push_entry :: "('k, 'v list) mapping \<Rightarrow> 'k \<Rightarrow> 'v \<Rightarrow> ('k, 'v list) mapping" where
  "push_entry m k v = Mapping.update k (case Mapping.lookup m k of None \<Rightarrow> [v] | Some l \<Rightarrow> l @ [v]) m"

definition index_by :: "('a \<Rightarrow> 'k) \<Rightarrow> 'a list \<Rightarrow> ('k, nat list) mapping" where
  "index_by f xs = foldl (\<lambda>m (i, x). push_entry m (f x) i) Mapping.empty (enumerate 0 xs)"

definition kids_of :: "(blake3_hash, nat list) mapping \<Rightarrow> blake3_hash \<Rightarrow> nat list" where
  "kids_of children h = (case Mapping.lookup children h of None \<Rightarrow> [] | Some l \<Rightarrow> l)"

text \<open>The stack is kept top first: a push is a cons, \<^verbatim>\<open>extend\<close> pushes in order.\<close>

partial_function (option) height_loop ::
    "(blake3_hash, nat list) mapping \<Rightarrow> blake3_hash list \<Rightarrow> (nat \<times> bool) list \<Rightarrow> nat list \<Rightarrow> nat list option" where
  "height_loop children hashes stack height =
     (case stack of
        [] \<Rightarrow> Some height
      | entry # rest \<Rightarrow>
          let (i, expanded) = entry; kids = kids_of children (hashes ! i) in
          if expanded
          then height_loop children hashes rest (height[i := 1 + fold max (map (\<lambda>c. height ! c) kids) 0])
          else height_loop children hashes (rev (map (\<lambda>c. (c, False)) kids) @ (i, True) # rest) height)"

text \<open>\<open>rank(a) >= rank(b)\<close> for \<open>rank(i) = (height[i], Reverse((lamport, op_id, hash)))\<close>.\<close>

definition rank_ge :: "op list \<Rightarrow> blake3_hash list \<Rightarrow> nat list \<Rightarrow> nat \<Rightarrow> nat \<Rightarrow> bool" where
  "rank_ge chain hashes height a b \<longleftrightarrow>
     height ! a > height ! b \<or>
     height ! a = height ! b \<and>
       (op_lamport (chain ! a), op_id (chain ! a), hashes ! a)
         \<le> (op_lamport (chain ! b), op_id (chain ! b), hashes ! b)"

definition best_kid :: "op list \<Rightarrow> blake3_hash list \<Rightarrow> nat list \<Rightarrow> nat list \<Rightarrow> nat option" where
  "best_kid chain hashes height kids =
     (case kids of [] \<Rightarrow> None
      | k # ks \<Rightarrow> Some (foldl (\<lambda>a b. if rank_ge chain hashes height a b then a else b) k ks))"

partial_function (option) walk_loop ::
    "op list \<Rightarrow> blake3_hash list \<Rightarrow> (blake3_hash, nat list) mapping \<Rightarrow> nat list \<Rightarrow> blake3_hash \<Rightarrow> blake3_hash set
      \<Rightarrow> blake3_hash set option" where
  "walk_loop chain hashes children height cursor keep =
     (case Mapping.lookup children cursor of
        None \<Rightarrow> Some keep
      | Some kids \<Rightarrow>
          (case best_kid chain hashes height kids of
             None \<Rightarrow> Some keep
           | Some best \<Rightarrow> walk_loop chain hashes children height (hashes ! best) (insert (hashes ! best) keep)))"

definition longest_rooted_chain :: "prims \<Rightarrow> op list \<Rightarrow> blake3_hash set option" where
  "longest_rooted_chain P chain =
     (let hashes = map (op_hash P) chain;
          children = index_by op_prev_op_hash chain in
      Option.bind
        (height_loop children hashes (rev (map (\<lambda>i. (i, False)) (kids_of children GENESIS_PREV)))
           (replicate (length chain) 0))
        (\<lambda>height. walk_loop chain hashes children height GENESIS_PREV {}))"

datatype quarantined_author = QuarantinedAuthor (qa_author: ss58) (qa_dropped_ops: nat)

definition quarantine_step ::
    "prims \<Rightarrow> op list \<Rightarrow> (blake3_hash set \<times> quarantined_author list) option \<Rightarrow> nat list
      \<Rightarrow> (blake3_hash set \<times> quarantined_author list) option" where
  "quarantine_step P ops st idxs =
     Option.bind st (\<lambda>(keep, quarantined).
       let chain = map ((!) ops) idxs in
       Option.bind (longest_rooted_chain P chain) (\<lambda>kept.
         Some (keep \<union> kept,
               if card kept < length chain
               then quarantined @ [QuarantinedAuthor (op_author (chain ! 0)) (length chain - card kept)]
               else quarantined)))"

definition quarantine_broken_chains :: "prims \<Rightarrow> op list \<Rightarrow> (op list \<times> quarantined_author list) option" where
  "quarantine_broken_chains P ops =
     (let by_author = index_by op_author_key ops in
      Option.bind
        (foldl (quarantine_step P ops) (Some ({}, []))
           (map (\<lambda>k. the (Mapping.lookup by_author k)) (Mapping.ordered_keys by_author)))
        (\<lambda>(keep, quarantined).
          Some (if quarantined \<noteq> [] then filter (\<lambda>x. op_hash P x \<in> keep) ops else ops, quarantined)))"

section \<open>The index\<close>

lemma lookup_push_entry:
  "Mapping.lookup (push_entry m k v) j =
     (if j = k then Some ((case Mapping.lookup m k of None \<Rightarrow> [] | Some l \<Rightarrow> l) @ [v]) else Mapping.lookup m j)"
  by (auto simp: push_entry_def lookup_update' split: option.splits)

lemma lookup_index_by:
  "Mapping.lookup (index_by f xs) k =
     (let l = filter (\<lambda>i. f (xs ! i) = k) [0..<length xs] in if l = [] then None else Some l)"
proof (induction xs rule: rev_induct)
  case Nil
  show ?case by (simp add: index_by_def lookup_empty)
next
  case (snoc x xs)
  let ?l = "filter (\<lambda>i. f (xs ! i) = k) [0..<length xs]"
  have l: "filter (\<lambda>i. f ((xs @ [x]) ! i) = k) [0..<length (xs @ [x])] = ?l @ (if f x = k then [length xs] else [])"
    by (auto simp: nth_append intro: filter_cong)
  have step: "index_by f (xs @ [x]) = push_entry (index_by f xs) (f x) (length xs)"
    by (simp add: index_by_def enumerate_append_eq)
  show ?case unfolding l step lookup_push_entry using snoc.IH by (auto simp: Let_def)
qed

lemma kids_of_index_by:
  "kids_of (index_by f xs) k = filter (\<lambda>i. f (xs ! i) = k) [0..<length xs]"
  by (simp add: kids_of_def lookup_index_by Let_def)

section \<open>Linked paths\<close>

text \<open>A path of ops of \<open>S\<close> that continues the hash \<open>h\<close> along \<open>prev_op_hash\<close>.\<close>

fun linked :: "prims \<Rightarrow> op set \<Rightarrow> blake3_hash \<Rightarrow> op list \<Rightarrow> bool" where
  "linked P S h [] \<longleftrightarrow> True"
| "linked P S h (x # q) \<longleftrightarrow> x \<in> S \<and> op_prev_op_hash x = h \<and> linked P S (op_hash P x) q"

text \<open>The hash at the end of a path that started at \<open>h\<close>.\<close>

fun tip :: "prims \<Rightarrow> blake3_hash \<Rightarrow> op list \<Rightarrow> blake3_hash" where
  "tip P h [] = h"
| "tip P h (x # q) = tip P (op_hash P x) q"

lemma linked_append [simp]: "linked P S h (p @ q) \<longleftrightarrow> linked P S h p \<and> linked P S (tip P h p) q"
  by (induction p arbitrary: h) auto

lemma tip_append [simp]: "tip P h (p @ q) = tip P (tip P h p) q"
  by (induction p arbitrary: h) auto

lemma tip_snoc: "p \<noteq> [] \<Longrightarrow> tip P h p = op_hash P (last p)"
  by (induction p arbitrary: h) auto

lemma linked_subset: "linked P S h q \<Longrightarrow> set q \<subseteq> S"
  by (induction q arbitrary: h) auto

lemma linked_prev: "linked P S h q \<Longrightarrow> x \<in> set q \<Longrightarrow> op_prev_op_hash x \<in> insert h (op_hash P ` set q)"
  by (induction q arbitrary: h) force+

lemma linked_mono: "linked P S h q \<Longrightarrow> S \<subseteq> T \<Longrightarrow> linked P T h q"
  by (induction q arbitrary: h) auto

text \<open>What the code relies on of the hash: no collision on the op set, and no op hashes to the sentinel.\<close>

definition hash_ok :: "prims \<Rightarrow> op set \<Rightarrow> bool" where
  "hash_ok P S \<longleftrightarrow> inj_on (op_hash P) S \<and> GENESIS_PREV \<notin> op_hash P ` S"

lemma hash_ok_genesis: "hash_ok P S \<Longrightarrow> x \<in> S \<Longrightarrow> op_hash P x \<noteq> GENESIS_PREV"
  by (metis hash_ok_def image_eqI)

lemma hash_ok_inj: "hash_ok P S \<Longrightarrow> x \<in> S \<Longrightarrow> y \<in> S \<Longrightarrow> op_hash P x = op_hash P y \<longleftrightarrow> x = y"
  by (auto simp: hash_ok_def inj_on_def)

lemma hash_ok_mono: "hash_ok P T \<Longrightarrow> S \<subseteq> T \<Longrightarrow> hash_ok P S"
  by (auto simp: hash_ok_def intro: inj_on_subset)

text \<open>Two rooted paths to one hash are the same path, since every op has one predecessor.\<close>

lemma rooted_path_unique:
  assumes "hash_ok P S"
  shows "linked P S GENESIS_PREV p \<Longrightarrow> linked P S GENESIS_PREV q \<Longrightarrow>
    tip P GENESIS_PREV p = tip P GENESIS_PREV q \<Longrightarrow> p = q"
proof (induction p arbitrary: q rule: rev_induct)
  case Nil
  then show ?case using assms linked_subset [of P S GENESIS_PREV q]
    by (cases q rule: rev_cases) (auto dest: hash_ok_genesis)
next
  case (snoc x p)
  then have "x \<in> S" and q: "q \<noteq> []" using assms by (auto dest: hash_ok_genesis)
  obtain y r where q: "q = r @ [y]" using q by (cases q rule: rev_cases) auto
  with snoc.prems \<open>x \<in> S\<close> have "x = y" using assms by (auto simp: hash_ok_inj)
  with snoc q show ?case by auto
qed

lemma rooted_path_distinct:
  assumes "hash_ok P S" and "linked P S GENESIS_PREV p"
  shows "distinct p"
proof (rule ccontr)
  assume "\<not> distinct p"
  then obtain xs ys zs y where p: "p = xs @ [y] @ ys @ [y] @ zs" using not_distinct_decomp by blast
  have "xs @ [y] = xs @ [y] @ ys @ [y]"
    by (rule rooted_path_unique [OF assms(1)]) (use assms(2) p in auto)
  then show False by simp
qed

lemma rooted_path_length:
  assumes "hash_ok P S" and "finite S" and "linked P S GENESIS_PREV p"
  shows "length p \<le> card S"
  using rooted_path_distinct [OF assms(1,3)] card_mono [OF assms(2) linked_subset [OF assms(3)]]
  by (simp add: distinct_card)

text \<open>The hashes a rooted path reaches, and the longest continuation of each.\<close>

definition reached :: "prims \<Rightarrow> op set \<Rightarrow> blake3_hash \<Rightarrow> bool" where
  "reached P S h \<longleftrightarrow> (\<exists>p. linked P S GENESIS_PREV p \<and> tip P GENESIS_PREV p = h)"

definition span :: "prims \<Rightarrow> op set \<Rightarrow> blake3_hash \<Rightarrow> nat" where
  "span P S h = Max (length ` {q. linked P S h q})"

lemma reached_genesis: "reached P S GENESIS_PREV"
  by (auto simp: reached_def intro: exI [of _ "[]"])

lemma reached_step: "reached P S h \<Longrightarrow> x \<in> S \<Longrightarrow> op_prev_op_hash x = h \<Longrightarrow> reached P S (op_hash P x)"
proof -
  assume "reached P S h" and x: "x \<in> S" "op_prev_op_hash x = h"
  then obtain p where "linked P S GENESIS_PREV p" "tip P GENESIS_PREV p = h" by (auto simp: reached_def)
  with x show ?thesis unfolding reached_def by (intro exI [of _ "p @ [x]"]) simp
qed

lemma reached_bound:
  assumes "hash_ok P S" and "finite S" and "reached P S h" and "linked P S h q"
  shows "length q \<le> card S"
proof -
  from assms(3) obtain p where "linked P S GENESIS_PREV p" "tip P GENESIS_PREV p = h" by (auto simp: reached_def)
  with assms(4) have "linked P S GENESIS_PREV (p @ q)" by simp
  from rooted_path_length [OF assms(1,2) this] show ?thesis by simp
qed

lemma finite_lengths:
  assumes "hash_ok P S" and "finite S" and "reached P S h"
  shows "finite (length ` {q. linked P S h q})"
proof (rule finite_subset)
  show "length ` {q. linked P S h q} \<subseteq> {..card S}" using reached_bound [OF assms] by auto
qed simp

lemma span_ge:
  "hash_ok P S \<Longrightarrow> finite S \<Longrightarrow> reached P S h \<Longrightarrow> linked P S h q \<Longrightarrow> length q \<le> span P S h"
  unfolding span_def by (rule Max_ge) (auto simp: finite_lengths)

lemma span_attained:
  assumes "hash_ok P S" and "finite S" and "reached P S h"
  obtains q where "linked P S h q" and "length q = span P S h"
proof -
  have "span P S h \<in> length ` {q. linked P S h q}"
    unfolding span_def by (rule Max_in [OF finite_lengths [OF assms]]) (auto intro: exI [of _ "[]"])
  then show ?thesis using that by auto
qed

text \<open>The recurrence the height pass computes.\<close>

lemma span_rec:
  assumes "hash_ok P S" and "finite S" and "reached P S h"
  shows "span P S h = Max (insert 0 ((\<lambda>x. Suc (span P S (op_hash P x))) ` {x \<in> S. op_prev_op_hash x = h}))"
    (is "_ = Max ?A")
proof (rule sym, rule Max_eqI)
  show "finite ?A" using assms(2) by simp
next
  fix k
  assume "k \<in> ?A"
  then consider "k = 0" | x where "x \<in> S" "op_prev_op_hash x = h" "k = Suc (span P S (op_hash P x))" by auto
  then show "k \<le> span P S h"
  proof cases
    case 2
    have r: "reached P S (op_hash P x)" using reached_step [OF assms(3) 2(1,2)] .
    obtain q where "linked P S (op_hash P x) q" "length q = span P S (op_hash P x)"
      using span_attained [OF assms(1,2) r] .
    with 2 span_ge [OF assms, of "x # q"] show ?thesis by simp
  qed simp
next
  obtain q where q: "linked P S h q" "length q = span P S h" using span_attained [OF assms] .
  show "span P S h \<in> ?A"
  proof (cases q)
    case Nil
    with q show ?thesis by simp
  next
    case (Cons x r)
    with q have x: "x \<in> S" "op_prev_op_hash x = h" "linked P S (op_hash P x) r" by auto
    have rx: "reached P S (op_hash P x)" using reached_step [OF assms(3) x(1,2)] .
    obtain r' where r': "linked P S (op_hash P x) r'" "length r' = span P S (op_hash P x)"
      using span_attained [OF assms(1,2) rx] .
    have "Suc (span P S (op_hash P x)) \<le> span P S h" using span_ge [OF assms, of "x # r'"] x r' by simp
    moreover have "length r \<le> span P S (op_hash P x)" using span_ge [OF assms(1,2) rx x(3)] .
    ultimately have "span P S h = Suc (span P S (op_hash P x))" using q Cons by simp
    with x show ?thesis by auto
  qed
qed

section \<open>The height pass\<close>

lemma fold_max_Max: "fold max xs (a::nat) = Max (insert a (set xs))"
  using Max.set_eq_fold [of a xs] by simp

text \<open>A height table is right at an op, and right on everything below it.\<close>

definition height_at :: "prims \<Rightarrow> op list \<Rightarrow> nat list \<Rightarrow> op \<Rightarrow> bool" where
  "height_at P chain height x \<longleftrightarrow>
     (\<forall>j<length chain. chain ! j = x \<longrightarrow> height ! j = Suc (span P (set chain) (op_hash P x)))"

definition height_below :: "prims \<Rightarrow> op list \<Rightarrow> nat list \<Rightarrow> op \<Rightarrow> bool" where
  "height_below P chain height x \<longleftrightarrow>
     (\<forall>q. linked P (set chain) (op_hash P x) q \<longrightarrow> (\<forall>y\<in>set (x # q). height_at P chain height y))"

lemma height_belowD: "height_below P chain height x \<Longrightarrow> height_at P chain height x"
  unfolding height_below_def by (drule spec [of _ "[]"]) simp

lemma height_below_path:
  "height_below P chain height x \<Longrightarrow> linked P (set chain) (op_hash P x) q \<Longrightarrow> y \<in> set (x # q) \<Longrightarrow>
     height_at P chain height y"
  unfolding height_below_def by blast

text \<open>Running a stack segment to its end turns one height table into another, and spoils no right entry.\<close>

definition runs :: "prims \<Rightarrow> op list \<Rightarrow> (nat \<times> bool) list \<Rightarrow> nat list \<Rightarrow> nat list \<Rightarrow> bool" where
  "runs P chain seg height height' \<longleftrightarrow>
     length height' = length height \<and>
     (\<forall>x. height_at P chain height x \<longrightarrow> height_at P chain height' x) \<and>
     (\<forall>stk. height_loop (index_by op_prev_op_hash chain) (map (op_hash P) chain) (seg @ stk) height =
            height_loop (index_by op_prev_op_hash chain) (map (op_hash P) chain) stk height')"

lemma height_loop_Nil: "height_loop children hashes [] h = Some h"
  by (simp add: height_loop.simps)

lemma runs_Nil: "runs P chain [] height height"
  by (simp add: runs_def)

lemma runs_append: "runs P chain a h h1 \<Longrightarrow> runs P chain b h1 h2 \<Longrightarrow> runs P chain (a @ b) h h2"
  by (auto simp: runs_def)

lemma runs_below: "runs P chain seg h h1 \<Longrightarrow> height_below P chain h x \<Longrightarrow> height_below P chain h1 x"
  unfolding runs_def height_below_def by blast

lemma runs_each:
  assumes "\<And>c h. c \<in> set cs \<Longrightarrow> length h = n \<Longrightarrow>
      \<exists>h'. runs P chain [(c, False)] h h' \<and> height_below P chain h' (chain ! c)"
  shows "length h = n \<Longrightarrow>
    \<exists>h'. runs P chain (map (\<lambda>c. (c, False)) cs) h h' \<and> (\<forall>c\<in>set cs. height_below P chain h' (chain ! c))"
  using assms
proof (induction cs arbitrary: h)
  case Nil
  then show ?case using runs_Nil by auto
next
  case (Cons c cs)
  obtain h1 where h1: "runs P chain [(c, False)] h h1" "height_below P chain h1 (chain ! c)"
    using Cons.prems by auto
  then have "length h1 = n" using Cons.prems(1) by (simp add: runs_def)
  then obtain h2 where h2: "runs P chain (map (\<lambda>c. (c, False)) cs) h1 h2"
      "\<forall>c\<in>set cs. height_below P chain h2 (chain ! c)"
    using Cons.IH [of h1] Cons.prems(2) by auto
  from runs_append [OF h1(1) h2(1)] runs_below [OF h2(1) h1(2)] h2(2) show ?case by auto
qed

abbreviation kid_list :: "op list \<Rightarrow> blake3_hash \<Rightarrow> nat list" where
  "kid_list chain h \<equiv> filter (\<lambda>i. op_prev_op_hash (chain ! i) = h) [0..<length chain]"

lemma runs_expand:
  assumes "i < length chain" and "runs P chain (rev (map (\<lambda>c. (c, False)) (kid_list chain (op_hash P (chain ! i))))) h h1"
    and "runs P chain [(i, True)] h1 h2"
  shows "runs P chain [(i, False)] h h2"
  using runs_append [OF assms(2,3)] assms(1) unfolding runs_def
  by (subst height_loop.simps) (simp add: kids_of_index_by)

lemma runs_finish:
  assumes "hash_ok P (set chain)" and "i < length chain" and "distinct chain" and "length h = length chain"
    and "reached P (set chain) (op_hash P (chain ! i))"
    and "\<forall>c\<in>set (kid_list chain (op_hash P (chain ! i))). height_below P chain h (chain ! c)"
  shows "\<exists>h'. runs P chain [(i, True)] h h' \<and> height_at P chain h' (chain ! i)"
proof -
  let ?x = "chain ! i" and ?S = "set chain"
  let ?k = "kid_list chain (op_hash P ?x)"
  let ?v = "1 + fold max (map (\<lambda>c. h ! c) ?k) 0"
  have kid: "h ! c = Suc (span P ?S (op_hash P (chain ! c)))" if "c \<in> set ?k" for c
    using assms(6) height_belowD [of P chain h "chain ! c"] that by (auto simp: height_at_def)
  have "set (map (\<lambda>c. h ! c) ?k) = (\<lambda>x. Suc (span P ?S (op_hash P x))) ` {x \<in> ?S. op_prev_op_hash x = op_hash P ?x}"
    using kid by (auto simp: in_set_conv_nth image_iff intro!: bexI)
  then have v: "?v = Suc (span P ?S (op_hash P ?x))"
    using span_rec [OF assms(1) _ assms(5)] by (simp add: fold_max_Max)
  have "runs P chain [(i, True)] h (h[i := ?v])"
    unfolding runs_def
  proof (intro conjI allI impI)
    fix x
    assume "height_at P chain h x"
    then show "height_at P chain (h[i := ?v]) x"
      unfolding v using assms(2,4) by (auto simp: height_at_def nth_list_update)
  next
    fix stk
    show "height_loop (index_by op_prev_op_hash chain) (map (op_hash P) chain) ([(i, True)] @ stk) h =
        height_loop (index_by op_prev_op_hash chain) (map (op_hash P) chain) stk (h[i := ?v])"
      using assms(2) by (subst height_loop.simps) (simp add: kids_of_index_by)
  qed simp
  moreover have "height_at P chain (h[i := ?v]) ?x"
    unfolding v using assms(2,3,4) by (auto simp: height_at_def nth_eq_iff_index_eq)
  ultimately show ?thesis by blast
qed

lemma runs_node:
  assumes "hash_ok P (set chain)" and "distinct chain"
  shows "linked P (set chain) GENESIS_PREV (p @ [chain ! i]) \<Longrightarrow> i < length chain \<Longrightarrow> length h = length chain \<Longrightarrow>
    \<exists>h'. runs P chain [(i, False)] h h' \<and> height_below P chain h' (chain ! i)"
proof (induction "card (set chain) - length p" arbitrary: p i h rule: less_induct)
  case less
  let ?x = "chain ! i" and ?S = "set chain"
  let ?k = "kid_list chain (op_hash P ?x)"
  have r: "reached P ?S (op_hash P ?x)"
    using less.prems(1) by (auto simp: reached_def intro!: exI [of _ "p @ [?x]"])
  have "length (p @ [?x]) \<le> card ?S" by (rule rooted_path_length [OF assms(1) _ less.prems(1)]) simp
  then have dec: "card ?S - length (p @ [?x]) < card ?S - length p" by simp
  have "\<exists>h'. runs P chain [(c, False)] g h' \<and> height_below P chain h' (chain ! c)"
    if "c \<in> set (rev ?k)" and "length g = length chain" for c g
    using that less.prems(1,2) by (intro less.hyps [OF dec]) auto
  from runs_each [where cs = "rev ?k" and n = "length chain", OF this less.prems(3)] obtain h1
    where h1: "runs P chain (map (\<lambda>c. (c, False)) (rev ?k)) h h1"
      "\<forall>c\<in>set ?k. height_below P chain h1 (chain ! c)" by auto
  then have "length h1 = length chain" using less.prems(3) by (simp add: runs_def)
  from runs_finish [OF assms(1) less.prems(2) assms(2) this r h1(2)] obtain h2
    where h2: "runs P chain [(i, True)] h1 h2" "height_at P chain h2 ?x" by blast
  have "runs P chain [(i, False)] h h2"
    using runs_expand [OF less.prems(2) _ h2(1)] h1(1) by (simp add: rev_map)
  moreover have "height_below P chain h2 ?x"
    unfolding height_below_def
  proof (intro allI impI)
    fix q
    assume q: "linked P ?S (op_hash P ?x) q"
    show "\<forall>y\<in>set (?x # q). height_at P chain h2 y"
    proof (cases q)
      case (Cons y t)
      with q obtain c where c: "c < length chain" "y = chain ! c" by (auto simp: in_set_conv_nth)
      with q Cons have "c \<in> set ?k" by simp
      then have "height_below P chain h2 y" using h1(2) runs_below [OF h2(1)] c by simp
      then show ?thesis using q Cons h2(2) by (auto dest: height_below_path [where q = t])
    qed (use h2(2) in simp)
  qed
  ultimately show ?case by blast
qed

lemma height_loop_returns:
  assumes "hash_ok P (set chain)" and "distinct chain"
  obtains height where
    "height_loop (index_by op_prev_op_hash chain) (map (op_hash P) chain)
       (rev (map (\<lambda>i. (i, False)) (kid_list chain GENESIS_PREV))) (replicate (length chain) 0) = Some height"
    and "\<forall>q y. linked P (set chain) GENESIS_PREV q \<longrightarrow> y \<in> set q \<longrightarrow> height_at P chain height y"
proof -
  let ?k = "rev (kid_list chain GENESIS_PREV)"
  have "\<exists>h'. runs P chain [(c, False)] g h' \<and> height_below P chain h' (chain ! c)"
    if "c \<in> set ?k" and "length g = length chain" for c g
    using that by (intro runs_node [OF assms, of "[]"]) auto
  from runs_each [where cs = ?k and n = "length chain" and h = "replicate (length chain) 0", OF this] obtain h where
    h: "runs P chain (map (\<lambda>c. (c, False)) ?k) (replicate (length chain) 0) h"
    "\<forall>c\<in>set ?k. height_below P chain h (chain ! c)" by auto
  have "height_loop (index_by op_prev_op_hash chain) (map (op_hash P) chain)
      (map (\<lambda>c. (c, False)) ?k @ []) (replicate (length chain) 0) = Some h"
    using h(1) height_loop_Nil unfolding runs_def by metis
  moreover have "height_at P chain h y" if q: "linked P (set chain) GENESIS_PREV q" "y \<in> set q" for q y
  proof -
    obtain x t where t: "q = x # t" using q(2) by (cases q) auto
    with q(1) obtain c where "c < length chain" "x = chain ! c" by (auto simp: in_set_conv_nth)
    with q(1) t h(2) have "height_below P chain h x" by auto
    with q t show ?thesis by (auto dest: height_below_path [where q = t])
  qed
  ultimately show ?thesis using that by (auto simp: rev_map)
qed

section \<open>The greedy walk\<close>

text \<open>\<^verbatim>\<open>Iterator::reduce\<close> with a choice by a total preorder returns a greatest element.\<close>

locale rank_choice =
  fixes ge :: "'a \<Rightarrow> 'a \<Rightarrow> bool"
  assumes ge_total: "ge a b \<or> ge b a"
    and ge_trans: "ge a b \<Longrightarrow> ge b c \<Longrightarrow> ge a c"
begin

lemma reduce_greatest:
  "(let b = foldl (\<lambda>a b. if ge a b then a else b) k ks in b \<in> set (k # ks) \<and> (\<forall>c\<in>set (k # ks). ge b c))"
proof (induction ks arbitrary: k)
  case Nil
  then show ?case using ge_total by auto
next
  case (Cons x ks)
  let ?m = "if ge k x then k else x"
  have "ge ?m k" "ge ?m x" using ge_total [of k x] ge_total [of k k] ge_total [of x x] by auto
  moreover define b where "b = foldl (\<lambda>a b. if ge a b then a else b) ?m ks"
  have b: "b \<in> set (?m # ks)" "\<forall>c\<in>set (?m # ks). ge b c" using Cons.IH [of ?m] by (simp_all add: b_def Let_def)
  ultimately have "ge b k" "ge b x" using ge_trans [of b ?m] by simp_all
  moreover have "b \<in> set (k # x # ks)" using b(1) by (auto split: if_splits)
  ultimately show ?case using b(2) by (simp add: Let_def b_def [symmetric])
qed

end

interpretation ranked: rank_choice "rank_ge chain hashes height" for chain hashes height
  by unfold_locales (auto simp: rank_ge_def simp del: less_eq_prod_simp)

lemma best_kid_Some:
  assumes "kids \<noteq> []"
  obtains b where "best_kid chain hashes height kids = Some b" and "b \<in> set kids"
    and "\<forall>c\<in>set kids. rank_ge chain hashes height b c"
  using assms ranked.reduce_greatest [of chain hashes height "hd kids" "tl kids"]
  by (cases kids) (auto simp: best_kid_def Let_def)

text \<open>The branch preferred at a fork, and the path that follows it until nothing continues it.\<close>

definition prefers :: "prims \<Rightarrow> op set \<Rightarrow> op \<Rightarrow> op \<Rightarrow> bool" where
  "prefers P S x y \<longleftrightarrow>
     span P S (op_hash P x) > span P S (op_hash P y) \<or>
     span P S (op_hash P x) = span P S (op_hash P y) \<and>
       (op_lamport x, op_id x, op_hash P x) \<le> (op_lamport y, op_id y, op_hash P y)"

fun elected :: "prims \<Rightarrow> op set \<Rightarrow> blake3_hash \<Rightarrow> op list \<Rightarrow> bool" where
  "elected P S h [] \<longleftrightarrow> (\<forall>x\<in>S. op_prev_op_hash x \<noteq> h)"
| "elected P S h (x # q) \<longleftrightarrow>
     x \<in> S \<and> op_prev_op_hash x = h \<and> (\<forall>y\<in>S. op_prev_op_hash y = h \<longrightarrow> prefers P S x y) \<and>
     elected P S (op_hash P x) q"

lemma elected_linked: "elected P S h q \<Longrightarrow> linked P S h q"
  by (induction q arbitrary: h) auto

lemma elected_unique:
  assumes "hash_ok P S"
  shows "elected P S h q \<Longrightarrow> elected P S h q' \<Longrightarrow> q = q'"
proof (induction q arbitrary: h q')
  case Nil
  then show ?case by (cases q') auto
next
  case (Cons x q)
  then obtain y r where q': "q' = y # r" by (cases q') auto
  with Cons.prems have "prefers P S x y" "prefers P S y x" "x \<in> S" "y \<in> S" by auto
  then have "op_hash P x = op_hash P y"
    by (auto simp: prefers_def dest: order_antisym)
  with \<open>x \<in> S\<close> \<open>y \<in> S\<close> have "x = y" using assms by (simp add: hash_ok_inj)
  with Cons q' show ?case by auto
qed

lemma elected_longest:
  assumes "hash_ok P S" and "finite S"
  shows "reached P S h \<Longrightarrow> elected P S h q \<Longrightarrow> length q = span P S h"
proof (induction q arbitrary: h)
  case Nil
  then have "{x \<in> S. op_prev_op_hash x = h} = {}" by auto
  then show ?case unfolding span_rec [OF assms Nil(1)] by (simp only: image_empty) simp
next
  case (Cons x q)
  let ?K = "{y \<in> S. op_prev_op_hash y = h}"
  have x: "x \<in> ?K" "\<forall>y\<in>?K. span P S (op_hash P y) \<le> span P S (op_hash P x)"
    using Cons.prems(2) by (auto simp: prefers_def)
  have "span P S h = Suc (span P S (op_hash P x))"
    unfolding span_rec [OF assms Cons.prems(1)] using x assms(2) by (intro Max_eqI) auto
  moreover have "length q = span P S (op_hash P x)"
    using Cons.IH [of "op_hash P x"] Cons.prems reached_step [OF Cons.prems(1)] by simp
  ultimately show ?case by simp
qed

lemma walk_loop_elected:
  assumes "hash_ok P (set chain)"
    and "\<forall>q y. linked P (set chain) GENESIS_PREV q \<longrightarrow> y \<in> set q \<longrightarrow> height_at P chain height y"
  shows "linked P (set chain) GENESIS_PREV p \<Longrightarrow>
    \<exists>q. elected P (set chain) (tip P GENESIS_PREV p) q \<and>
      walk_loop chain (map (op_hash P) chain) (index_by op_prev_op_hash chain) height (tip P GENESIS_PREV p) keep =
        Some (keep \<union> op_hash P ` set q)"
proof (induction "card (set chain) - length p" arbitrary: p keep rule: less_induct)
  case less
  let ?h = "tip P GENESIS_PREV p" and ?S = "set chain" and ?hs = "map (op_hash P) chain"
  let ?k = "kid_list chain ?h"
  show ?case
  proof (cases "?k = []")
    case True
    then have "elected P ?S ?h []" by (auto simp: filter_empty_conv in_set_conv_nth)
    moreover have "walk_loop chain ?hs (index_by op_prev_op_hash chain) height ?h keep = Some keep"
      using True by (subst walk_loop.simps) (simp add: lookup_index_by)
    ultimately show ?thesis by (intro exI [of _ "[]"]) simp
  next
    case False
    from best_kid_Some [OF this] obtain b where b: "best_kid chain ?hs height ?k = Some b" "b \<in> set ?k"
      "\<forall>c\<in>set ?k. rank_ge chain ?hs height b c" by blast
    let ?x = "chain ! b"
    have kid: "c < length chain \<and> height ! c = Suc (span P ?S (op_hash P (chain ! c)))" if "c \<in> set ?k" for c
      using assms(2) [rule_format, of "p @ [chain ! c]" "chain ! c"] that less.prems by (auto simp: height_at_def)
    have p': "linked P ?S GENESIS_PREV (p @ [?x])" using less.prems b(2) by auto
    have "length (p @ [?x]) \<le> card ?S" by (rule rooted_path_length [OF assms(1) _ p']) simp
    then have "card ?S - length (p @ [?x]) < card ?S - length p" by simp
    from less.hyps [OF this p', of "insert (op_hash P ?x) keep"] obtain q where q: "elected P ?S (op_hash P ?x) q"
      "walk_loop chain ?hs (index_by op_prev_op_hash chain) height (op_hash P ?x) (insert (op_hash P ?x) keep) =
        Some (insert (op_hash P ?x) keep \<union> op_hash P ` set q)" by auto
    have "prefers P ?S ?x y" if "y \<in> ?S" "op_prev_op_hash y = ?h" for y
    proof -
      from that obtain c where c: "c < length chain" "y = chain ! c" by (auto simp: in_set_conv_nth)
      with that have ck: "c \<in> set ?k" by simp
      with b(3) have "rank_ge chain ?hs height b c" by simp
      then show ?thesis using kid [OF b(2)] kid [OF ck] c by (auto simp: rank_ge_def prefers_def)
    qed
    with b(2) q(1) have "elected P ?S ?h (?x # q)" by auto
    moreover have "walk_loop chain ?hs (index_by op_prev_op_hash chain) height ?h keep =
        Some (keep \<union> op_hash P ` set (?x # q))"
      using False b(1) q(2) kid [OF b(2)] by (subst walk_loop.simps) (simp add: lookup_index_by)
    ultimately show ?thesis by blast
  qed
qed

lemma longest_rooted_chain_elected:
  assumes "hash_ok P (set chain)" and "distinct chain"
  obtains q where "elected P (set chain) GENESIS_PREV q"
    and "longest_rooted_chain P chain = Some (op_hash P ` set q)"
proof -
  obtain height where h: "height_loop (index_by op_prev_op_hash chain) (map (op_hash P) chain)
       (rev (map (\<lambda>i. (i, False)) (kid_list chain GENESIS_PREV))) (replicate (length chain) 0) = Some height"
    "\<forall>q y. linked P (set chain) GENESIS_PREV q \<longrightarrow> y \<in> set q \<longrightarrow> height_at P chain height y"
    using height_loop_returns [OF assms] .
  have w: "\<exists>q. elected P (set chain) (tip P GENESIS_PREV []) q \<and>
      walk_loop chain (map (op_hash P) chain) (index_by op_prev_op_hash chain) height (tip P GENESIS_PREV []) {} =
        Some ({} \<union> op_hash P ` set q)"
    by (rule walk_loop_elected [OF assms(1)]) (use h(2) in auto)
  with h(1) that show ?thesis
    by (auto simp: longest_rooted_chain_def Let_def kids_of_index_by)
qed

section \<open>Per-author election\<close>

abbreviation ops_by :: "op list \<Rightarrow> verifying_key \<Rightarrow> op list" where
  "ops_by ops k \<equiv> filter (\<lambda>x. op_author_key x = k) ops"

lemma map_nth_filter: "map ((!) xs) (filter (\<lambda>i. Q (xs ! i)) [0..<length xs]) = filter Q xs"
proof -
  have "filter Q xs = filter Q (map ((!) xs) [0..<length xs])" by (simp only: map_nth)
  then show ?thesis by (simp only: filter_map comp_def)
qed

lemma index_by_filter_Nil: "filter (\<lambda>i. f (xs ! i) = k) [0..<length xs] = [] \<longleftrightarrow> k \<notin> f ` set xs"
  by (auto simp: filter_empty_conv set_conv_nth)

lemma ordered_keys_index_by [simp]: "Mapping.ordered_keys (index_by f xs) = sorted_list_of_set (f ` set xs)"
proof -
  have "Mapping.keys (index_by f xs) = f ` set xs"
    by (auto simp: keys_dom_lookup lookup_index_by Let_def index_by_filter_Nil split: if_splits)
  then show ?thesis by (simp add: Mapping.ordered_keys_def)
qed

lemma group_chain:
  "k \<in> f ` set xs \<Longrightarrow> map ((!) xs) (the (Mapping.lookup (index_by f xs) k)) = filter (\<lambda>x. f x = k) xs"
  using map_nth_filter [where Q = "\<lambda>x. f x = k"] by (simp add: lookup_index_by Let_def index_by_filter_Nil)

text \<open>The elected path of one author, and what the report says of the author.\<close>

definition branch :: "prims \<Rightarrow> op list \<Rightarrow> verifying_key \<Rightarrow> op list" where
  "branch P ops k = (THE q. elected P (set (ops_by ops k)) GENESIS_PREV q)"

definition report_of :: "prims \<Rightarrow> op list \<Rightarrow> verifying_key \<Rightarrow> quarantined_author list" where
  "report_of P ops k =
     (if length (branch P ops k) < length (ops_by ops k)
      then [QuarantinedAuthor (op_author (ops_by ops k ! 0)) (length (ops_by ops k) - length (branch P ops k))]
      else [])"

lemma hash_ok_by: "hash_ok P (set ops) \<Longrightarrow> hash_ok P (set (ops_by ops k))"
  by (erule hash_ok_mono) auto

lemma branch_elected:
  assumes "hash_ok P (set ops)" and "distinct ops"
  shows "elected P (set (ops_by ops k)) GENESIS_PREV (branch P ops k)"
    and "longest_rooted_chain P (ops_by ops k) = Some (op_hash P ` set (branch P ops k))"
proof -
  have ok: "hash_ok P (set (ops_by ops k))" using assms(1) by (rule hash_ok_by)
  have d: "distinct (ops_by ops k)" using assms(2) by simp
  obtain q where q: "elected P (set (ops_by ops k)) GENESIS_PREV q"
    "longest_rooted_chain P (ops_by ops k) = Some (op_hash P ` set q)"
    by (rule longest_rooted_chain_elected [OF ok d])
  have "branch P ops k = q" unfolding branch_def using q(1) elected_unique [OF ok] by blast
  with q show "elected P (set (ops_by ops k)) GENESIS_PREV (branch P ops k)"
    "longest_rooted_chain P (ops_by ops k) = Some (op_hash P ` set (branch P ops k))" by simp_all
qed

lemma elected_distinct: "hash_ok P S \<Longrightarrow> elected P S GENESIS_PREV q \<Longrightarrow> distinct q"
  using elected_linked rooted_path_distinct by blast

lemma card_branch:
  assumes "hash_ok P (set ops)" and "distinct ops"
  shows "card (op_hash P ` set (branch P ops k)) = length (branch P ops k)"
proof -
  let ?S = "set (ops_by ops k)"
  have ok: "hash_ok P ?S" using assms(1) by (rule hash_ok_by)
  note e = branch_elected(1) [OF assms, of k]
  have "inj_on (op_hash P) (set (branch P ops k))"
    using ok linked_subset [OF elected_linked [OF e]] by (auto simp: hash_ok_def intro: inj_on_subset)
  then show ?thesis using elected_distinct [OF ok e] by (simp add: card_image distinct_card)
qed

lemma quarantine_fold:
  assumes "hash_ok P (set ops)" and "distinct ops" and "set ks \<subseteq> op_author_key ` set ops"
  shows "foldl (quarantine_step P ops) (Some (K, Q))
      (map (\<lambda>k. the (Mapping.lookup (index_by op_author_key ops) k)) ks) =
    Some (K \<union> (\<Union>k\<in>set ks. op_hash P ` set (branch P ops k)), Q @ concat (map (report_of P ops) ks))"
  using assms(3)
proof (induction ks arbitrary: K Q)
  case (Cons k ks)
  have g: "map ((!) ops) (the (Mapping.lookup (index_by op_author_key ops) k)) = ops_by ops k"
    using Cons.prems by (intro group_chain) simp
  have "quarantine_step P ops (Some (K, Q)) (the (Mapping.lookup (index_by op_author_key ops) k)) =
      Some (K \<union> op_hash P ` set (branch P ops k), Q @ report_of P ops k)"
    using branch_elected(2) [OF assms(1,2)] card_branch [OF assms(1,2)]
    by (simp add: quarantine_step_def report_of_def Let_def g)
  then show ?case using Cons by (simp add: Un_assoc)
qed simp

text \<open>The ops that survive: those on their own author's elected path.\<close>

definition survives :: "prims \<Rightarrow> op list \<Rightarrow> op \<Rightarrow> bool" where
  "survives P ops x \<longleftrightarrow> x \<in> set (branch P ops (op_author_key x))"

lemma branch_subset:
  assumes "hash_ok P (set ops)" and "distinct ops" and "x \<in> set (branch P ops k)"
  shows "x \<in> set ops" and "op_author_key x = k"
  using linked_subset [OF elected_linked [OF branch_elected(1) [OF assms(1,2), of k]]] assms(3) by auto

lemma kept_iff_survives:
  assumes "hash_ok P (set ops)" and "distinct ops" and "x \<in> set ops"
  shows "op_hash P x \<in> (\<Union>k\<in>op_author_key ` set ops. op_hash P ` set (branch P ops k)) \<longleftrightarrow> survives P ops x"
proof
  assume "op_hash P x \<in> (\<Union>k\<in>op_author_key ` set ops. op_hash P ` set (branch P ops k))"
  then obtain k y where y: "y \<in> set (branch P ops k)" "op_hash P x = op_hash P y" by auto
  then have "x = y" using branch_subset [OF assms(1,2)] assms(1,3) by (simp add: hash_ok_inj)
  with y branch_subset [OF assms(1,2) y(1)] show "survives P ops x" by (simp add: survives_def)
qed (use assms(3) in \<open>auto simp: survives_def\<close>)

lemma branch_length_le:
  assumes "hash_ok P (set ops)" and "distinct ops"
  shows "length (branch P ops k) \<le> length (ops_by ops k)"
proof -
  have ok: "hash_ok P (set (ops_by ops k))" using assms(1) by (rule hash_ok_by)
  have "length (branch P ops k) \<le> card (set (ops_by ops k))"
    by (rule rooted_path_length [OF ok _ elected_linked [OF branch_elected(1) [OF assms]]]) simp
  then show ?thesis using card_length order_trans by blast
qed

lemma no_report_survives:
  assumes "hash_ok P (set ops)" and "distinct ops" and "report_of P ops (op_author_key x) = []" and "x \<in> set ops"
  shows "survives P ops x"
proof -
  let ?k = "op_author_key x"
  have ok: "hash_ok P (set (ops_by ops ?k))" using assms(1) by (rule hash_ok_by)
  note e = branch_elected(1) [OF assms(1,2), of ?k]
  have "length (branch P ops ?k) = length (ops_by ops ?k)"
    using assms(3) branch_length_le [OF assms(1,2), of ?k] by (simp add: report_of_def split: if_splits)
  then have "card (set (branch P ops ?k)) = card (set (ops_by ops ?k))"
    using elected_distinct [OF ok e] distinct_filter [OF assms(2)] by (metis distinct_card)
  then have "set (branch P ops ?k) = set (ops_by ops ?k)"
    using linked_subset [OF elected_linked [OF e]] by (simp add: card_subset_eq)
  with assms(4) show ?thesis by (simp add: survives_def)
qed

lemma quarantine_broken_chains_eq:
  assumes "hash_ok P (set ops)" and "distinct ops"
  shows "quarantine_broken_chains P ops =
    Some (filter (survives P ops) ops,
          concat (map (report_of P ops) (sorted_list_of_set (op_author_key ` set ops))))"
proof -
  let ?ks = "sorted_list_of_set (op_author_key ` set ops)"
  let ?qs = "concat (map (report_of P ops) ?ks)"
  have ks: "set ?ks = op_author_key ` set ops" by simp
  have "filter (\<lambda>x. op_hash P x \<in> (\<Union>k\<in>set ?ks. op_hash P ` set (branch P ops k))) ops = filter (survives P ops) ops"
    unfolding ks by (rule filter_cong) (use kept_iff_survives [OF assms] in auto)
  moreover have "filter (survives P ops) ops = ops" if "?qs = []"
    using that no_report_survives [OF assms] by (auto intro!: filter_True)
  ultimately show ?thesis
    unfolding quarantine_broken_chains_def Let_def ordered_keys_index_by
    by (subst quarantine_fold [OF assms]) (auto simp del: set_sorted_list_of_set simp: ks)
qed

lemma elected_whole:
  assumes "hash_ok P (set chain)" and "elected P (set chain) GENESIS_PREV q"
    and "linked P (set chain) GENESIS_PREV p" and "set p = set chain"
  shows "set q = set chain"
proof -
  have "length q = span P (set chain) GENESIS_PREV"
    by (rule elected_longest [OF assms(1) _ reached_genesis assms(2)]) simp
  then have "length p \<le> length q" using span_ge [OF assms(1) _ reached_genesis assms(3)] by simp
  then have "card (set chain) \<le> card (set q)"
    using rooted_path_distinct [OF assms(1,3)] elected_distinct [OF assms(1,2)] assms(4)
    by (metis distinct_card)
  with linked_subset [OF elected_linked [OF assms(2)]] show ?thesis by (simp add: card_seteq)
qed

lemma set_survivors:
  assumes "hash_ok P (set ops)" and "distinct ops"
  shows "set (ops_by (filter (survives P ops) ops) k) = set (branch P ops k)"
proof (rule set_eqI)
  fix x
  show "x \<in> set (ops_by (filter (survives P ops) ops) k) \<longleftrightarrow> x \<in> set (branch P ops k)"
    using branch_subset [OF assms, of x k] by (auto simp: survives_def)
qed

lemma linked_own: "linked P S h q \<Longrightarrow> set q \<subseteq> T \<Longrightarrow> linked P T h q"
  by (induction q arbitrary: h) auto

lemma survivors_all_survive:
  assumes "hash_ok P (set ops)" and "distinct ops"
  defines "kept \<equiv> filter (survives P ops) ops"
  shows "set (branch P kept k) = set (ops_by kept k)"
proof -
  have kept: "hash_ok P (set kept)" "distinct kept"
    by (rule hash_ok_mono [OF assms(1)], simp_all add: kept_def assms(2))
  have s: "set (ops_by kept k) = set (branch P ops k)" unfolding kept_def by (rule set_survivors [OF assms(1,2)])
  show ?thesis
  proof (rule elected_whole [OF hash_ok_by [OF kept(1)] branch_elected(1) [OF kept]])
    show "linked P (set (ops_by kept k)) GENESIS_PREV (branch P ops k)"
      by (rule linked_own [OF elected_linked [OF branch_elected(1) [OF assms(1,2)]]]) (simp only: s subset_refl)
  qed (simp only: s)
qed

text \<open>The report accounts for the dropped ops.\<close>

lemma sum_list_groups:
  "distinct ks \<Longrightarrow> f ` set xs \<subseteq> set ks \<Longrightarrow> sum_list (map (\<lambda>k. length (filter (\<lambda>x. f x = k) xs)) ks) = length xs"
proof (induction xs)
  case (Cons x xs)
  have "sum_list (map (\<lambda>k. length (filter (\<lambda>y. f y = k) (x # xs))) ks) =
      sum_list (map (\<lambda>k. of_bool (k = f x) + length (filter (\<lambda>y. f y = k) xs)) ks)"
    by (intro arg_cong [of _ _ sum_list] map_cong) auto
  also have "\<dots> = sum_list (map (\<lambda>k. of_bool (k = f x)) ks) + length xs"
    using Cons by (simp add: sum_list_addf)
  also have "sum_list (map (\<lambda>k. of_bool (k = f x) :: nat) ks) = 1"
    using Cons.prems by (simp add: sum_list_distinct_conv_sum_set)
  finally show ?case by simp
qed simp

lemma report_dropped:
  assumes "hash_ok P (set ops)" and "distinct ops"
  shows "sum_list (map qa_dropped_ops (report_of P ops k)) + length (ops_by (filter (survives P ops) ops) k) =
    length (ops_by ops k)"
proof -
  have "length (ops_by (filter (survives P ops) ops) k) = length (branch P ops k)"
    using set_survivors [OF assms, of k] assms(2)
      elected_distinct [OF hash_ok_by [OF assms(1)] branch_elected(1) [OF assms, of k]]
    by (metis distinct_card distinct_filter)
  then show ?thesis using branch_length_le [OF assms, of k] by (simp add: report_of_def)
qed

lemma reports_account:
  assumes "hash_ok P (set ops)" and "distinct ops"
  shows "sum_list (map qa_dropped_ops
      (concat (map (report_of P ops) (sorted_list_of_set (op_author_key ` set ops))))) +
    length (filter (survives P ops) ops) = length ops"
proof -
  let ?ks = "sorted_list_of_set (op_author_key ` set ops)" and ?kept = "filter (survives P ops) ops"
  have "sum_list (map (\<lambda>k. length (ops_by ?kept k)) ?ks) = length ?kept"
    by (rule sum_list_groups) auto
  moreover have "sum_list (map (\<lambda>k. length (ops_by ops k)) ?ks) = length ops"
    by (rule sum_list_groups) auto
  moreover
  have "sum_list (map qa_dropped_ops (concat (map (report_of P ops) ks))) +
      sum_list (map (\<lambda>k. length (ops_by ?kept k)) ks) = sum_list (map (\<lambda>k. length (ops_by ops k)) ks)" for ks
  proof (induction ks)
    case (Cons k ks)
    with report_dropped [OF assms, of k] show ?case by (simp del: filter_filter)
  qed simp
  note this [of ?ks]
  ultimately show ?thesis by (simp del: filter_filter)
qed

lemma demo_op_neq [simp]: "n \<noteq> m \<Longrightarrow> demo_op a n p \<noteq> demo_op b m q"
  by (simp add: demo_op_def)

lemma demo_op_prev [simp]: "op_prev_op_hash (demo_op a n p) = p"
  and demo_op_author_key [simp]: "op_author_key (demo_op a n p) = replicate 32 a"
  by (simp_all add: demo_op_def)

lemma genesis_simps: "GENESIS_PREV = replicate 32 0" "blake3_zero = replicate 32 0"
  by (simp_all add: GENESIS_PREV_def blake3_zero_def)

lemma demo_hash_ok:
  "hash_ok demo_prims {demo_op 1 1 (replicate 32 0), demo_op 1 2 (replicate 32 1), demo_op 1 3 (replicate 32 0)}"
  by (simp add: hash_ok_def genesis_simps)

section \<open>Properties\<close>

text \<open>C15. Election returns and is right: when the chain hash does not collide on an author's ops and none of
  them hashes to the genesis sentinel, \<open>longest_rooted_chain\<close> terminates (whatever the links are, cycles
  off the root included) and keeps exactly the hashes of one path that starts at genesis, follows
  \<open>prev_op_hash\<close>, and is at least as long as every other such path.\<close>

theorem longest_rooted_chain_is_longest:
  assumes "hash_ok P (set chain)" and "distinct chain"
  shows "\<exists>q. longest_rooted_chain P chain = Some (op_hash P ` set q) \<and> linked P (set chain) GENESIS_PREV q \<and>
    distinct q \<and> (\<forall>p. linked P (set chain) GENESIS_PREV p \<longrightarrow> length p \<le> length q)"
proof -
  obtain q where q: "elected P (set chain) GENESIS_PREV q" "longest_rooted_chain P chain = Some (op_hash P ` set q)"
    by (rule longest_rooted_chain_elected [OF assms])
  have "length q = span P (set chain) GENESIS_PREV"
    by (rule elected_longest [OF assms(1) _ reached_genesis q(1)]) simp
  with q show ?thesis
    using elected_linked elected_distinct [OF assms(1)] span_ge [OF assms(1) _ reached_genesis] by auto
qed

theorem longest_rooted_chain_is_longest_witness:
  "\<exists>q. longest_rooted_chain demo_prims [demo_op 1 3 blake3_zero, demo_op 1 2 (replicate 32 1), demo_op 1 1 blake3_zero] =
       Some (op_hash demo_prims ` set q) \<and> 2 \<le> length q"
proof -
  let ?c = "[demo_op 1 3 blake3_zero, demo_op 1 2 (replicate 32 1), demo_op 1 1 blake3_zero]"
  have "hash_ok demo_prims (set ?c)" and "distinct ?c" by (auto simp: genesis_simps intro: hash_ok_mono [OF demo_hash_ok])
  from longest_rooted_chain_is_longest [OF this] obtain q where
    q: "longest_rooted_chain demo_prims ?c = Some (op_hash demo_prims ` set q)"
    "\<forall>p. linked demo_prims (set ?c) GENESIS_PREV p \<longrightarrow> length p \<le> length q" by blast
  have "linked demo_prims (set ?c) GENESIS_PREV [demo_op 1 1 blake3_zero, demo_op 1 2 (replicate 32 1)]" by (simp add: genesis_simps)
  with q(2) have "length [demo_op 1 1 blake3_zero, demo_op 1 2 (replicate 32 1)] \<le> length q" by blast
  with q(1) show ?thesis by (intro exI [of _ q]) simp
qed

text \<open>The election is a function of the set of ops: two machines that fetched the same ops of an author
  in different orders keep the same branch, ties included.\<close>

theorem longest_rooted_chain_order_independent:
  assumes "hash_ok P (set chain)" and "distinct chain" and "distinct chain'" and "set chain = set chain'"
  shows "longest_rooted_chain P chain = longest_rooted_chain P chain'"
proof -
  obtain q where q: "elected P (set chain) GENESIS_PREV q" "longest_rooted_chain P chain = Some (op_hash P ` set q)"
    by (rule longest_rooted_chain_elected [OF assms(1,2)])
  have ok': "hash_ok P (set chain')" using assms by simp
  obtain q' where q': "elected P (set chain') GENESIS_PREV q'"
    "longest_rooted_chain P chain' = Some (op_hash P ` set q')"
    by (rule longest_rooted_chain_elected [OF ok' assms(3)])
  from q q' elected_unique [OF assms(1) q(1)] assms(4) show ?thesis by simp
qed

theorem longest_rooted_chain_order_independent_witness:
  "longest_rooted_chain demo_prims [demo_op 1 3 blake3_zero, demo_op 1 1 blake3_zero] =
   longest_rooted_chain demo_prims [demo_op 1 1 blake3_zero, demo_op 1 3 blake3_zero]"
  by (rule longest_rooted_chain_order_independent) (auto simp: genesis_simps intro: hash_ok_mono [OF demo_hash_ok])

text \<open>An honest author, whose ops form one chain from genesis, keeps every op.\<close>

theorem honest_chain_kept_whole:
  assumes "hash_ok P (set chain)" and "distinct chain"
    and "linked P (set chain) GENESIS_PREV p" and "set p = set chain"
  shows "longest_rooted_chain P chain = Some (op_hash P ` set chain)"
proof -
  obtain q where q: "elected P (set chain) GENESIS_PREV q" "longest_rooted_chain P chain = Some (op_hash P ` set q)"
    by (rule longest_rooted_chain_elected [OF assms(1,2)])
  have "set q = set chain" by (rule elected_whole [OF assms(1) q(1) assms(3,4)])
  with q show ?thesis by simp
qed

theorem honest_chain_kept_whole_witness:
  "longest_rooted_chain demo_prims [demo_op 1 2 (replicate 32 1), demo_op 1 1 blake3_zero] =
     Some (op_hash demo_prims ` set [demo_op 1 2 (replicate 32 1), demo_op 1 1 blake3_zero])"
  by (rule honest_chain_kept_whole [where p = "[demo_op 1 1 blake3_zero, demo_op 1 2 (replicate 32 1)]"])
    (auto simp: genesis_simps intro: hash_ok_mono [OF demo_hash_ok])

text \<open>A fork's damage is bounded by the fork: a stray sibling of a non-final op of a chain (a cancelled but
  durable append, or an equivocation, with no successor) is the only op the election drops.\<close>

theorem stray_sibling_orphans_only_itself:
  assumes "hash_ok P (insert z (set p))" and "linked P (set p) GENESIS_PREV p" and "z \<notin> set p"
    and "p = a @ x # y # b" and "op_prev_op_hash z = op_prev_op_hash x"
    and "distinct chain" and "set chain = insert z (set p)"
  shows "longest_rooted_chain P chain = Some (op_hash P ` set p)"
proof -
  let ?S = "set chain"
  have x: "x \<in> set p" using assms(4) by simp
  have ok: "hash_ok P ?S" using assms(1,7) by simp
  obtain q where q: "elected P ?S GENESIS_PREV q" "longest_rooted_chain P chain = Some (op_hash P ` set q)"
    by (rule longest_rooted_chain_elected [OF ok assms(6)])
  note ql = elected_linked [OF q(1)]
  have pl: "linked P ?S GENESIS_PREV p" using assms(2,7) by (auto elim: linked_mono)
  have "length q = span P ?S GENESIS_PREV" by (rule elected_longest [OF ok _ reached_genesis q(1)]) simp
  then have len: "length p \<le> length q" using span_ge [OF ok _ reached_genesis pl] by simp
  have "z \<notin> set q"
  proof
    assume "z \<in> set q"
    then obtain r t where r: "q = r @ z # t" by (auto simp: in_set_conv_decomp)
    have "r = a"
      by (rule rooted_path_unique [OF ok]) (use ql pl r assms(4,5) in auto)
    moreover have "t = []"
    proof (rule ccontr)
      assume "t \<noteq> []"
      then obtain w u where w: "w \<in> ?S" "op_prev_op_hash w = op_hash P z" using ql r by (cases t) auto
      have "op_prev_op_hash w \<in> insert GENESIS_PREV (op_hash P ` set p)"
        using w(1) assms(5,7) linked_prev [OF assms(2), of w] linked_prev [OF assms(2) x] by auto
      with w(2) show False using ok assms(3,7) hash_ok_genesis [OF ok, of z] by (auto simp: hash_ok_inj)
    qed
    ultimately show False using len r assms(4) by simp
  qed
  then have "set q \<subseteq> set p" using linked_subset [OF ql] assms(7) by auto
  moreover have "card (set p) \<le> card (set q)"
    using len rooted_path_distinct [OF ok pl] rooted_path_distinct [OF ok ql] by (simp add: distinct_card)
  ultimately have "set q = set p" by (simp add: card_seteq)
  with q show ?thesis by simp
qed

theorem stray_sibling_orphans_only_itself_witness:
  "longest_rooted_chain demo_prims [demo_op 1 3 blake3_zero, demo_op 1 2 (replicate 32 1), demo_op 1 1 blake3_zero] =
     Some (op_hash demo_prims ` set [demo_op 1 1 blake3_zero, demo_op 1 2 (replicate 32 1)])"
  by (rule stray_sibling_orphans_only_itself [where z = "demo_op 1 3 blake3_zero" and a = "[]" and b = "[]"
        and x = "demo_op 1 1 blake3_zero" and y = "demo_op 1 2 (replicate 32 1)"])
    (auto simp: genesis_simps intro: hash_ok_mono [OF demo_hash_ok])

text \<open>The quarantine pass returns, leaves every author exactly one longest chain from genesis, and its
  report accounts for every dropped op.\<close>

theorem quarantine_leaves_longest_chains:
  assumes "hash_ok P (set ops)" and "distinct ops"
  shows "\<exists>kept qs. quarantine_broken_chains P ops = Some (kept, qs) \<and> set kept \<subseteq> set ops \<and>
    (\<forall>k. \<exists>q. linked P (set (ops_by ops k)) GENESIS_PREV q \<and> set (ops_by kept k) = set q \<and>
       (\<forall>p. linked P (set (ops_by ops k)) GENESIS_PREV p \<longrightarrow> length p \<le> length q)) \<and>
    sum_list (map qa_dropped_ops qs) + length kept = length ops"
proof (intro exI conjI allI)
  fix k
  let ?S = "set (ops_by ops k)"
  have ok: "hash_ok P ?S" using assms(1) by (rule hash_ok_by)
  note e = branch_elected(1) [OF assms, of k]
  show "linked P ?S GENESIS_PREV (branch P ops k)" by (rule elected_linked [OF e])
  show "set (ops_by (filter (survives P ops) ops) k) = set (branch P ops k)" by (rule set_survivors [OF assms])
  have "length (branch P ops k) = span P ?S GENESIS_PREV" by (rule elected_longest [OF ok _ reached_genesis e]) simp
  then show "linked P ?S GENESIS_PREV p \<longrightarrow> length p \<le> length (branch P ops k)" for p
    using span_ge [OF ok _ reached_genesis] by simp
qed (rule quarantine_broken_chains_eq [OF assms], simp, rule reports_account [OF assms])

theorem quarantine_leaves_longest_chains_witness:
  "\<exists>kept qs. quarantine_broken_chains demo_prims [demo_op 1 3 blake3_zero, demo_op 1 2 (replicate 32 1), demo_op 1 1 blake3_zero] =
       Some (kept, qs) \<and> sum_list (map qa_dropped_ops qs) + length kept = 3"
proof -
  let ?c = "[demo_op 1 3 blake3_zero, demo_op 1 2 (replicate 32 1), demo_op 1 1 blake3_zero]"
  have "hash_ok demo_prims (set ?c)" and "distinct ?c" by (auto simp: genesis_simps intro: hash_ok_mono [OF demo_hash_ok])
  from quarantine_leaves_longest_chains [OF this] show ?thesis by auto
qed

text \<open>Authors are isolated: what survives of one author is decided by that author's own ops, so a writer
  who forks or truncates its chain cannot change what is kept of anybody else.\<close>

theorem quarantine_isolates_authors:
  assumes "hash_ok P (set ops)" and "distinct ops" and "hash_ok P (set ops')" and "distinct ops'"
    and "set (ops_by ops k) = set (ops_by ops' k)"
    and "quarantine_broken_chains P ops = Some (kept, qs)" and "quarantine_broken_chains P ops' = Some (kept', qs')"
  shows "set (ops_by kept k) = set (ops_by kept' k)"
proof -
  have "branch P ops k = branch P ops' k" using assms(5) by (simp only: branch_def)
  moreover have "set (ops_by kept k) = set (branch P ops k)"
    using assms(6) set_survivors [OF assms(1,2)] by (simp add: quarantine_broken_chains_eq [OF assms(1,2)])
  moreover have "set (ops_by kept' k) = set (branch P ops' k)"
    using assms(7) set_survivors [OF assms(3,4)] by (simp add: quarantine_broken_chains_eq [OF assms(3,4)])
  ultimately show ?thesis by simp
qed

theorem quarantine_isolates_authors_witness:
  "\<exists>kept qs kept' qs'.
     quarantine_broken_chains demo_prims [demo_op 1 1 blake3_zero] = Some (kept, qs) \<and>
     quarantine_broken_chains demo_prims [demo_op 2 2 (replicate 32 9), demo_op 1 1 blake3_zero] = Some (kept', qs') \<and>
     set (ops_by kept (replicate 32 1)) = set (ops_by kept' (replicate 32 1))"
proof -
  let ?a = "[demo_op 1 1 blake3_zero]" and ?b = "[demo_op 2 2 (replicate 32 9), demo_op 1 1 blake3_zero]"
  have a: "hash_ok demo_prims (set ?a)" "distinct ?a" and b: "hash_ok demo_prims (set ?b)" "distinct ?b"
    by (simp_all add: hash_ok_def genesis_simps)
  have "set (ops_by ?a (replicate 32 1)) = set (ops_by ?b (replicate 32 1))" by auto
  from quarantine_isolates_authors [OF a b this quarantine_broken_chains_eq [OF a] quarantine_broken_chains_eq [OF b]]
  show ?thesis using quarantine_broken_chains_eq [OF a] quarantine_broken_chains_eq [OF b] by blast
qed

text \<open>Quarantine is idempotent: what it leaves is intact, so a second pass drops and reports nothing.\<close>

theorem quarantine_idempotent:
  assumes "hash_ok P (set ops)" and "distinct ops" and "quarantine_broken_chains P ops = Some (kept, qs)"
  shows "quarantine_broken_chains P kept = Some (kept, [])"
proof -
  have kept: "kept = filter (survives P ops) ops"
    using assms(3) by (simp add: quarantine_broken_chains_eq [OF assms(1,2)])
  then have ok: "hash_ok P (set kept)" "distinct kept" using assms(2) by (auto intro: hash_ok_mono [OF assms(1)])
  have b: "set (branch P kept k) = set (ops_by kept k)" for k
    unfolding kept by (rule survivors_all_survive [OF assms(1,2)])
  then have "filter (survives P kept) kept = kept" by (auto simp: survives_def intro!: filter_True)
  moreover have "report_of P kept k = []" for k
  proof -
    have "length (branch P kept k) = length (ops_by kept k)"
      using b [of k] distinct_filter [OF ok(2)]
        elected_distinct [OF hash_ok_by [OF ok(1)] branch_elected(1) [OF ok, of k]]
      by (metis distinct_card)
    then show ?thesis by (simp add: report_of_def)
  qed
  ultimately show ?thesis by (simp add: quarantine_broken_chains_eq [OF ok])
qed

theorem quarantine_idempotent_witness:
  "\<exists>kept qs. quarantine_broken_chains demo_prims [demo_op 1 3 blake3_zero, demo_op 1 2 (replicate 32 1), demo_op 1 1 blake3_zero] =
       Some (kept, qs) \<and> quarantine_broken_chains demo_prims kept = Some (kept, [])"
proof -
  let ?c = "[demo_op 1 3 blake3_zero, demo_op 1 2 (replicate 32 1), demo_op 1 1 blake3_zero]"
  have "hash_ok demo_prims (set ?c)" and "distinct ?c" by (auto simp: genesis_simps intro: hash_ok_mono [OF demo_hash_ok])
  note q = quarantine_broken_chains_eq [OF this] quarantine_idempotent [OF this quarantine_broken_chains_eq [OF this]]
  then show ?thesis by blast
qed

end
