(* ===== verification/Blob.thy ===== *)
theory Blob
  imports Objkey "HOL-Library.Mapping" "HOL-Library.AList_Mapping" "HOL-Library.Sublist"
begin

text \<open>
  The blob backends (\<^verbatim>\<open>store/blob.rs\<close>, \<^verbatim>\<open>store/fs.rs\<close>). The \<^verbatim>\<open>BlobStore\<close> trait is the locale
  \<open>blob_store\<close>: what a well-behaved backend promises about \<^verbatim>\<open>put\<close>, \<^verbatim>\<open>get\<close>, \<^verbatim>\<open>list\<close> and \<^verbatim>\<open>delete\<close>; the
  in-memory backend is its interpretation. A \<open>blob_view\<close> is what one backend, trusted or not, answers
  while one read runs; \<open>bv_order\<close> is the order in which its concurrent gets complete. Of the S3 backend the two loops that face the untrusted gateway are modelled, with
  the gateway's answers as a parameter: the paginated listing and the capped body read. Of the file
  backend the key-to-path check is modelled; its directory walk is I/O.
\<close>

section \<open>Definitions\<close>

record blob_view =
  bv_list :: "string \<Rightarrow> mem_error + string list"
  bv_get :: "string \<Rightarrow> mem_error + bytes"
  bv_order :: "string list \<Rightarrow> string list"

subsection \<open>MemoryBlobStore\<close>

text \<open>The mutex is never poisoned: no operation panics while it holds the lock.\<close>

type_synonym memory_blob_store = "(string, bytes) mapping"

definition mem_put :: "memory_blob_store \<Rightarrow> string \<Rightarrow> bytes \<Rightarrow> mem_error + memory_blob_store" where
  "mem_put m key bs = Inr (Mapping.update key bs m)"

definition mem_get :: "memory_blob_store \<Rightarrow> string \<Rightarrow> mem_error + bytes" where
  "mem_get m key = (case Mapping.lookup m key of None \<Rightarrow> Inl (NotFound key) | Some bs \<Rightarrow> Inr bs)"

definition mem_list :: "memory_blob_store \<Rightarrow> string \<Rightarrow> mem_error + string list" where
  "mem_list m pre = Inr (filter (prefix pre) (Mapping.ordered_keys m))"

definition mem_delete :: "memory_blob_store \<Rightarrow> string \<Rightarrow> mem_error + memory_blob_store" where
  "mem_delete m key = Inr (Mapping.delete key m)"

subsection \<open>S3BlobStore\<close>

definition MAX_BLOB_BYTES :: nat where
  "MAX_BLOB_BYTES = 512 * 1024 * 1024"

definition MAX_LIST_KEYS :: nat where
  "MAX_LIST_KEYS = 2000000"

definition MAX_LIST_PAGES :: nat where
  "MAX_LIST_PAGES = 20000"

definition check_list_progress :: "nat \<Rightarrow> nat \<Rightarrow> mem_error + unit" where
  "check_list_progress pages keys =
     (if pages > MAX_LIST_PAGES then Inl (Storage ''listing exceeded the page safety cap'')
      else if keys > MAX_LIST_KEYS then Inl (Storage ''listing exceeded the key safety cap'')
      else Inr ())"

definition next_list_token :: "string option \<Rightarrow> string option \<Rightarrow> mem_error + string option" where
  "next_list_token used next =
     (case next of
        Some token \<Rightarrow>
          if token \<noteq> [] then
            if used = Some token then Inl (Storage ''gateway returned a repeating continuation token'')
            else Inr (Some token)
          else Inr None
      | None \<Rightarrow> Inr None)"

text \<open>
  One page as the gateway returns it: the objects' keys, where an object may lack one, and the next
  continuation token. The gateway is a function of how many pages it has served and of the token sent, so
  it may answer the same token differently every time.
\<close>

type_synonym list_page = "string option list \<times> string option"

type_synonym list_gateway = "nat \<Rightarrow> string option \<Rightarrow> mem_error + list_page"

function s3_list_loop ::
    "list_gateway \<Rightarrow> string list \<Rightarrow> string option \<Rightarrow> nat \<Rightarrow> mem_error + string list" where
  "s3_list_loop gw keys continuation pages =
     (case gw pages continuation of
        Inl e \<Rightarrow> Inl e
      | Inr (contents, next) \<Rightarrow>
          let pages' = pages + 1; keys' = keys @ List.map_filter id contents in
          (case check_list_progress pages' (length keys') of
             Inl e \<Rightarrow> Inl e
           | Inr _ \<Rightarrow>
               (case next_list_token continuation next of
                  Inl e \<Rightarrow> Inl e
                | Inr (Some token) \<Rightarrow> s3_list_loop gw keys' (Some token) pages'
                | Inr None \<Rightarrow> Inr keys')))"
  by pat_completeness auto
termination
  by (relation "measure (\<lambda>(gw, keys, continuation, pages). MAX_LIST_PAGES - pages)")
    (auto simp: check_list_progress_def split: if_splits)

definition s3_list :: "list_gateway \<Rightarrow> mem_error + string list" where
  "s3_list gw = s3_list_loop gw [] None 0"

text \<open>\<^verbatim>\<open>read_capped\<close>: the body is the list of chunks the stream yields; \<open>saturating_add\<close> of two lengths is their
  sum, since lengths are below the cap plus one chunk.\<close>

fun read_capped_loop :: "string \<Rightarrow> nat \<Rightarrow> bytes \<Rightarrow> (mem_error + bytes) list \<Rightarrow> mem_error + bytes" where
  "read_capped_loop key cap buf [] = Inr buf"
| "read_capped_loop key cap buf (chunk # body) =
     (case chunk of
        Inl e \<Rightarrow> Inl e
      | Inr c \<Rightarrow>
          if length buf + length c > cap then Inl (BlobTooLarge key cap)
          else read_capped_loop key cap (buf @ c) body)"

definition read_capped :: "(mem_error + bytes) list \<Rightarrow> string \<Rightarrow> nat \<Rightarrow> mem_error + bytes" where
  "read_capped body key cap = read_capped_loop key cap [] body"

subsection \<open>FsBlobStore\<close>

definition unsafe_segment :: "string \<Rightarrow> bool" where
  "unsafe_segment segment \<longleftrightarrow>
     segment = [] \<or> segment = ''.'' \<or> segment = ''..'' \<or> CHR 0x5C \<in> set segment \<or> CHR 0x00 \<in> set segment"

text \<open>The path below the root, as the list of components pushed onto it.\<close>

definition fs_key_path :: "string \<Rightarrow> mem_error + string list" where
  "fs_key_path key =
     (if key = [] then Inl (Storage ''empty object key'')
      else if list_ex unsafe_segment (split_on (CHR ''/'') key)
      then Inl (Storage ''object key contains an unsafe path segment'')
      else Inr (split_on (CHR ''/'') key))"

section \<open>The trait\<close>

locale blob_store =
  fixes inv :: "'s \<Rightarrow> bool"
    and put :: "'s \<Rightarrow> string \<Rightarrow> bytes \<Rightarrow> mem_error + 's"
    and get :: "'s \<Rightarrow> string \<Rightarrow> mem_error + bytes"
    and listing :: "'s \<Rightarrow> string \<Rightarrow> mem_error + string list"
    and delete :: "'s \<Rightarrow> string \<Rightarrow> mem_error + 's"
  assumes put_inv: "inv s \<Longrightarrow> put s k b = Inr s' \<Longrightarrow> inv s'"
    and delete_inv: "inv s \<Longrightarrow> delete s k = Inr s' \<Longrightarrow> inv s'"
    and get_put: "put s k b = Inr s' \<Longrightarrow> get s' j = (if j = k then Inr b else get s j)"
    and get_delete: "delete s k = Inr s' \<Longrightarrow> get s' j = (if j = k then Inl (NotFound j) else get s j)"
    and listing_distinct: "inv s \<Longrightarrow> listing s p = Inr ks \<Longrightarrow> distinct ks"
    and listing_exact: "inv s \<Longrightarrow> listing s p = Inr ks \<Longrightarrow> set ks = {k. prefix p k \<and> (\<exists>b. get s k = Inr b)}"
begin

definition view :: "'s \<Rightarrow> blob_view" where
  "view s = \<lparr>bv_list = listing s, bv_get = get s, bv_order = id\<rparr>"

lemma put_listing:
  assumes "inv s" and "put s k b = Inr s'" and "listing s p = Inr ks" and "listing s' p = Inr ks'"
  shows "set ks' = (if prefix p k then insert k (set ks) else set ks)"
  using listing_exact [OF assms(1,3)] listing_exact [OF put_inv [OF assms(1,2)] assms(4)]
  by (auto simp: get_put [OF assms(2)] split: if_splits)

lemma delete_listing:
  assumes "inv s" and "delete s k = Inr s'" and "listing s p = Inr ks" and "listing s' p = Inr ks'"
  shows "set ks' = set ks - {k}"
  using listing_exact [OF assms(1,3)] listing_exact [OF delete_inv [OF assms(1,2)] assms(4)]
  by (auto simp: get_delete [OF assms(2)] split: if_splits)

lemma listed_get: "inv s \<Longrightarrow> listing s p = Inr ks \<Longrightarrow> k \<in> set ks \<Longrightarrow> \<exists>b. get s k = Inr b"
  by (simp add: listing_exact)

text \<open>A second \<open>put\<close> of the same key replaces the object, a \<open>delete\<close> undoes it.\<close>

lemma put_put_get: "put s k b = Inr s1 \<Longrightarrow> put s1 k c = Inr s2 \<Longrightarrow> get s2 k = Inr c"
  by (simp add: get_put)

lemma delete_after_put_get: "put s k b = Inr s1 \<Longrightarrow> delete s1 k = Inr s2 \<Longrightarrow> get s2 k = Inl (NotFound k)"
  by (simp add: get_delete)

end

text \<open>A map with finitely many keys, as every \<^verbatim>\<open>BTreeMap\<close> is.\<close>

definition mem_inv :: "memory_blob_store \<Rightarrow> bool" where
  "mem_inv m \<longleftrightarrow> finite (Mapping.keys m)"

lemma set_ordered_keys: "mem_inv m \<Longrightarrow> set (Mapping.ordered_keys m) = {k. Mapping.lookup m k \<noteq> None}"
  by (auto simp: Mapping.ordered_keys_def mem_inv_def keys_dom_lookup)

interpretation memory: blob_store mem_inv mem_put mem_get mem_list mem_delete
proof
  fix s s' :: memory_blob_store and k b
  show "mem_inv s \<Longrightarrow> mem_put s k b = Inr s' \<Longrightarrow> mem_inv s'" by (auto simp: mem_inv_def mem_put_def)
  show "mem_inv s \<Longrightarrow> mem_delete s k = Inr s' \<Longrightarrow> mem_inv s'" by (auto simp: mem_inv_def mem_delete_def)
next
  fix s s' :: memory_blob_store and k b j
  show "mem_put s k b = Inr s' \<Longrightarrow> mem_get s' j = (if j = k then Inr b else mem_get s j)"
    by (auto simp: mem_put_def mem_get_def lookup_update')
  show "mem_delete s k = Inr s' \<Longrightarrow> mem_get s' j = (if j = k then Inl (NotFound j) else mem_get s j)"
    by (auto simp: mem_delete_def mem_get_def lookup_delete)
next
  fix s :: memory_blob_store and p ks
  show "mem_inv s \<Longrightarrow> mem_list s p = Inr ks \<Longrightarrow> distinct ks"
    by (auto simp: mem_list_def Mapping.ordered_keys_def)
  show "mem_inv s \<Longrightarrow> mem_list s p = Inr ks \<Longrightarrow> set ks = {k. prefix p k \<and> (\<exists>b. mem_get s k = Inr b)}"
    by (auto simp: mem_list_def set_ordered_keys mem_get_def split: option.splits)
qed

section \<open>Listing and reading from an untrusted gateway\<close>

declare s3_list_loop.simps [simp del]

text \<open>One turn of the loop: it stops with an error, stops with the keys, or goes on within the bounds.\<close>

lemma s3_list_loop_cases:
  obtains (err) e where "\<And>gw'. gw' pages c = gw pages c \<Longrightarrow> s3_list_loop gw' keys c pages = Inl e"
  | (stop) keys' where "length keys' \<le> MAX_LIST_KEYS"
      "\<And>gw'. gw' pages c = gw pages c \<Longrightarrow> s3_list_loop gw' keys c pages = Inr keys'"
  | (more) keys' t where "pages < MAX_LIST_PAGES"
      "\<And>gw'. gw' pages c = gw pages c \<Longrightarrow> s3_list_loop gw' keys c pages = s3_list_loop gw' keys' (Some t) (pages + 1)"
proof (cases "gw pages c")
  case (Inl e)
  then show ?thesis by (intro err [of e]) (subst s3_list_loop.simps, simp)
next
  case (Inr page)
  obtain contents n where page: "page = (contents, n)" by (cases page)
  let ?keys = "keys @ List.map_filter id contents"
  show ?thesis
  proof (cases "check_list_progress (pages + 1) (length ?keys)")
    case (Inl e)
    with Inr page show ?thesis by (intro err [of e]) (subst s3_list_loop.simps, simp)
  next
    case ok: (Inr u)
    then have b: "pages < MAX_LIST_PAGES" "length ?keys \<le> MAX_LIST_KEYS"
      by (auto simp: check_list_progress_def split: if_splits)
    show ?thesis
    proof (cases "next_list_token c n")
      case (Inl e)
      with Inr page ok show ?thesis by (intro err [of e]) (subst s3_list_loop.simps, simp)
    next
      case tok: (Inr w)
      show ?thesis
      proof (cases w)
        case None
        with Inr page ok tok b show ?thesis by (intro stop [of ?keys]) (simp, subst s3_list_loop.simps, simp)
      next
        case (Some t)
        with Inr page ok tok b show ?thesis by (intro more [of ?keys t]) (simp, subst s3_list_loop.simps, simp)
      qed
    qed
  qed
qed

lemma s3_list_loop_bound: "s3_list_loop gw keys c pages = Inr ks \<Longrightarrow> length ks \<le> MAX_LIST_KEYS"
proof (induction "MAX_LIST_PAGES - pages" arbitrary: keys c pages rule: less_induct)
  case less
  show ?case
    by (rule s3_list_loop_cases [of pages c gw keys]) (use less.prems less.hyps [of "Suc pages"] in auto)
qed

lemma s3_list_loop_pages:
  assumes "\<forall>n t. n \<le> MAX_LIST_PAGES \<longrightarrow> gw n t = gw' n t"
  shows "pages \<le> MAX_LIST_PAGES \<Longrightarrow> s3_list_loop gw keys c pages = s3_list_loop gw' keys c pages"
proof (induction "MAX_LIST_PAGES - pages" arbitrary: keys c pages rule: less_induct)
  case less
  then have same: "gw' pages c = gw pages c" using assms by simp
  show ?case
    by (rule s3_list_loop_cases [of pages c gw keys]) (use less.hyps same in auto)
qed

lemma read_capped_loop_ok:
  "read_capped_loop key cap buf (map Inr parts) =
     (if length (concat parts) + length buf \<le> cap \<or> parts = [] then Inr (buf @ concat parts)
      else Inl (BlobTooLarge key cap))"
  by (induction parts arbitrary: buf) auto

lemma read_capped_loop_bound: "length buf \<le> cap \<Longrightarrow> read_capped_loop key cap buf body = Inr r \<Longrightarrow> length r \<le> cap"
  by (induction key cap buf body rule: read_capped_loop.induct) (auto split: sum.splits if_splits)

section \<open>Paths\<close>

lemma split_on_nonempty: "split_on d xs \<noteq> []"
  by (induction xs) (auto split: list.splits)

fun join_with :: "'a \<Rightarrow> 'a list list \<Rightarrow> 'a list" where
  "join_with d [] = []"
| "join_with d [w] = w"
| "join_with d (w # v # ws) = w @ d # join_with d (v # ws)"

lemma join_split: "join_with d (split_on d xs) = xs"
proof (induction xs)
  case (Cons x xs)
  obtain w ws where "split_on d xs = w # ws" using split_on_nonempty [of d xs] by (cases "split_on d xs") auto
  with Cons show ?case by (cases ws) auto
qed simp

lemma split_on_no_sep: "w \<in> set (split_on d xs) \<Longrightarrow> d \<notin> set w"
  by (induction xs arbitrary: w) (auto split: list.splits if_splits)

section \<open>Properties\<close>

text \<open>C40. The paginated listing always ends against a hostile gateway, and within its bounds: it looks at no
  answer past page \<open>MAX_LIST_PAGES\<close>, whatever tokens the gateway returns, and a listing it accepts holds
  at most \<open>MAX_LIST_KEYS\<close> keys.\<close>

theorem s3_list_bounded:
  "(case s3_list gw of Inr ks \<Rightarrow> length ks \<le> MAX_LIST_KEYS | Inl _ \<Rightarrow> True) \<and>
   s3_list gw = s3_list (\<lambda>n t. if n \<le> MAX_LIST_PAGES then gw n t else Inl Io)"
proof
  show "case s3_list gw of Inr ks \<Rightarrow> length ks \<le> MAX_LIST_KEYS | Inl _ \<Rightarrow> True"
    using s3_list_loop_bound [of gw "[]" None 0] by (simp add: s3_list_def split: sum.splits)
  show "s3_list gw = s3_list (\<lambda>n t. if n \<le> MAX_LIST_PAGES then gw n t else Inl Io)"
    unfolding s3_list_def by (rule s3_list_loop_pages) simp_all
qed

text \<open>A body read never buffers more than its cap, and it returns exactly the streamed bytes when they
  fit and \<open>BlobTooLarge\<close> when they do not, however the stream is cut into chunks.\<close>

theorem read_capped_exact:
  "(case read_capped body key cap of Inr r \<Rightarrow> length r \<le> cap | Inl _ \<Rightarrow> True) \<and>
   read_capped (map Inr parts) key cap =
     (if length (concat parts) \<le> cap then Inr (concat parts) else Inl (BlobTooLarge key cap))"
proof
  show "case read_capped body key cap of Inr r \<Rightarrow> length r \<le> cap | Inl _ \<Rightarrow> True"
    using read_capped_loop_bound [of "[]" cap key body] by (simp add: read_capped_def split: sum.splits)
  show "read_capped (map Inr parts) key cap =
     (if length (concat parts) \<le> cap then Inr (concat parts) else Inl (BlobTooLarge key cap))"
    by (simp add: read_capped_def read_capped_loop_ok)
qed

text \<open>A key the file backend accepts stays below the root and names one file: no component of its path is
  empty, a dot, a double dot, or holds a separator, and two accepted keys with the same path are the
  same key.\<close>

theorem fs_key_path_safe:
  assumes "fs_key_path key = Inr segs" and "fs_key_path key' = Inr segs'"
  shows "segs \<noteq> [] \<and> (\<forall>s\<in>set segs. s \<noteq> [] \<and> s \<noteq> ''.'' \<and> s \<noteq> ''..'' \<and> CHR ''/'' \<notin> set s \<and> CHR 0x5C \<notin> set s) \<and>
    (segs = segs' \<longrightarrow> key = key')"
proof -
  have k: "segs = split_on (CHR ''/'') key" "segs' = split_on (CHR ''/'') key'"
    "\<not> list_ex unsafe_segment segs"
    using assms by (auto simp: fs_key_path_def split: if_splits)
  then have "segs = segs' \<longrightarrow> key = key'" by (metis join_split)
  with k show ?thesis
    using split_on_nonempty [of "CHR ''/''" key] split_on_no_sep [of _ "CHR ''/''" key]
    by (auto simp: list_ex_iff unsafe_segment_def)
qed

theorem fs_key_path_safe_witness:
  "fs_key_path ''team/_oplog/000001'' = Inr [''team'', ''_oplog'', ''000001''] \<and>
   list_all (\<lambda>s. s \<noteq> ''..'' \<and> CHR ''/'' \<notin> set s) [''team'', ''_oplog'', ''000001'']"
proof -
  have k: "fs_key_path ''team/_oplog/000001'' = Inr [''team'', ''_oplog'', ''000001'']"
    by (simp add: fs_key_path_def unsafe_segment_def)
  from fs_key_path_safe [OF k k] k show ?thesis unfolding list_all_iff by blast
qed

end
