(* ===== verification/Oplog_Store.thy ===== *)
theory Oplog_Store
  imports Chain Blob
begin

text \<open>
  The op-log store (\<^verbatim>\<open>oplog/store.rs\<close>): object keys, append, the verifying read with its cache and its
  systemic-outage guard, the strict read behind quarantine inspection, and the guarded removal of a
  quarantined op. One read sees one \<open>blob_view\<close>; an operation that reads several times sees a new view
  every time, so nothing is assumed of the bucket in between. The wire format of an op is a parameter
  \<open>dec :: bytes \<Rightarrow> op option\<close> (\<^verbatim>\<open>serde_json::from_slice\<close>) and \<open>enc\<close>. Reads return in an option, \<open>None\<close>
  standing for an election loop that does not end. Log lines are left out; an error keeps the fixed part
  of its text.
\<close>

section \<open>Object keys\<close>

fun nat_dec :: "nat \<Rightarrow> string" where
  "nat_dec n = (if n < 10 then [char_of (48 + n)] else nat_dec (n div 10) @ [char_of (48 + n mod 10)])"

declare nat_dec.simps [simp del]

text \<open>\<^verbatim>\<open>{:020}\<close>\<close>

definition pad20 :: "nat \<Rightarrow> string" where
  "pad20 n = replicate (20 - length (nat_dec n)) (CHR ''0'') @ nat_dec n"

definition oplog_prefix :: "string \<Rightarrow> string" where
  "oplog_prefix tm = tm @ ''/_oplog/''"

definition oplog_object_key :: "string \<Rightarrow> op \<Rightarrow> string" where
  "oplog_object_key tm o1 =
     tm @ ''/_oplog/'' @ pad20 (unat (op_lamport o1)) @ ''_'' @ ulid_to_string (op_id o1) @ ''_'' @
     key_to_hex (op_author_key o1)"

section \<open>Writing\<close>

text \<open>What a \<^verbatim>\<open>put\<close> returns is left to the backend; a failed \<^verbatim>\<open>delete\<close> is only warned about.\<close>

definition append_op :: "(op \<Rightarrow> bytes) \<Rightarrow> ('s \<Rightarrow> string \<Rightarrow> bytes \<Rightarrow> 'r) \<Rightarrow> 's \<Rightarrow> string \<Rightarrow> op \<Rightarrow> 'r" where
  "append_op enc put s tm o1 = put s (oplog_object_key tm o1) (enc o1)"

definition reclaim_failed_append ::
    "('s \<Rightarrow> string \<Rightarrow> (mem_error + unit) \<times> 's) \<Rightarrow> 's \<Rightarrow> string \<Rightarrow> op \<Rightarrow> 's" where
  "reclaim_failed_append delete s tm o1 = snd (delete s (oplog_object_key tm o1))"

section \<open>The verifying read\<close>

type_synonym op_cache = "(string, op) mapping"

definition partition_cached :: "op_cache \<Rightarrow> string list \<Rightarrow> (string \<times> op) list \<times> string list" where
  "partition_cached cache keys =
     foldl (\<lambda>(cached_pairs, to_fetch) key.
         case Mapping.lookup cache key of
           Some o1 \<Rightarrow> (cached_pairs @ [(key, o1)], to_fetch)
         | None \<Rightarrow> (cached_pairs, to_fetch @ [key]))
       ([], []) keys"

definition fetch_bytes :: "blob_view \<Rightarrow> string list \<Rightarrow> (string \<times> (mem_error + bytes)) list" where
  "fetch_bytes bv to_fetch = map (\<lambda>key. (key, bv_get bv key)) (bv_order bv to_fetch)"

definition update_cache :: "op_cache \<Rightarrow> (string \<times> op) list \<Rightarrow> string list \<Rightarrow> op_cache" where
  "update_cache cache new_pairs listed =
     Mapping.filter (\<lambda>key _. key \<in> set listed)
       (foldl (\<lambda>c (key, o1). Mapping.update key o1 c) cache new_pairs)"

definition dedup_step :: "prims \<Rightarrow> ('a \<Rightarrow> op) \<Rightarrow> blake3_hash set \<times> 'a list \<Rightarrow> 'a \<Rightarrow> blake3_hash set \<times> 'a list" where
  "dedup_step P f st x =
     (let (seen, out) = st; h = op_hash P (f x) in
      if h \<in> seen then (seen, out) else (insert h seen, out @ [x]))"

definition dedup_by_hash :: "prims \<Rightarrow> op list \<Rightarrow> op list" where
  "dedup_by_hash P ops = snd (foldl (dedup_step P id) ({}, []) ops)"

definition individually_valid :: "prims \<Rightarrow> string \<Rightarrow> op \<Rightarrow> bool" where
  "individually_valid P tm o1 =
     (if \<not> verify_sig P o1 then False
      else if \<not> verify_identity P o1 then False
      else if \<not> prefix (tm @ ''/'') (op_object_key o1) then False
      else True)"

definition retain_individually_valid :: "prims \<Rightarrow> string \<Rightarrow> (string \<times> op) list \<Rightarrow> (string \<times> op) list" where
  "retain_individually_valid P tm ps = filter (\<lambda>(_, o1). individually_valid P tm o1) ps"

definition ops_per_author :: "op list \<Rightarrow> (verifying_key, nat) mapping" where
  "ops_per_author ops =
     foldl (\<lambda>counts o1.
         Mapping.update (op_author_key o1)
           ((case Mapping.lookup counts (op_author_key o1) of None \<Rightarrow> 0 | Some n \<Rightarrow> n) + 1) counts)
       Mapping.empty ops"

text \<open>A sum over a \<^verbatim>\<open>HashMap\<close>, so its iteration order does not matter.\<close>

definition fetch_collateral ::
    "(verifying_key, nat) mapping \<Rightarrow> (verifying_key, nat) mapping \<Rightarrow> string list \<Rightarrow> nat" where
  "fetch_collateral before aft failed_keys =
     (if failed_keys = [] then 0
      else sum_list (map (\<lambda>author.
          let had = the (Mapping.lookup before author);
              dropped = had - (case Mapping.lookup aft author of None \<Rightarrow> 0 | Some n \<Rightarrow> n)
          in if dropped = 0 then 0
             else if list_ex (\<lambda>key. suffix (''_'' @ key_to_hex author) key) failed_keys then dropped else 0)
        (Mapping.ordered_keys before)))"

text \<open>The loop over the fetched objects: pairs that decode, keys whose get failed, gets that succeeded.\<close>

definition collect_fetched ::
    "(bytes \<Rightarrow> op option) \<Rightarrow> (string \<times> op) list \<times> string list \<times> nat \<Rightarrow> string \<times> (mem_error + bytes)
      \<Rightarrow> (string \<times> op) list \<times> string list \<times> nat" where
  "collect_fetched dec st kb =
     (let (new_pairs, failed_keys, fetched_ok) = st; (key, res) = kb in
      case res of
        Inl _ \<Rightarrow> (new_pairs, failed_keys @ [key], fetched_ok)
      | Inr bs \<Rightarrow>
          (case dec bs of
             Some o1 \<Rightarrow> (new_pairs @ [(key, o1)], failed_keys, fetched_ok + 1)
           | None \<Rightarrow> (new_pairs, failed_keys, fetched_ok + 1)))"

definition systemic_outage :: "nat \<Rightarrow> nat \<Rightarrow> nat \<Rightarrow> nat \<Rightarrow> bool" where
  "systemic_outage cache_hits fetched_ok failed_gets collateral =
     (let lost = failed_gets + collateral;
          reached = cache_hits + (fetched_ok - collateral)
      in lost > 0 \<and> lost \<ge> reached)"

definition read_order :: "prims \<Rightarrow> op \<Rightarrow> u64 \<times> ulid \<times> verifying_key \<times> blake3_hash" where
  "read_order P o1 = (op_lamport o1, op_id o1, op_author_key o1, op_hash P o1)"

definition read_verified ::
    "prims \<Rightarrow> (bytes \<Rightarrow> op option) \<Rightarrow> blob_view \<Rightarrow> string \<Rightarrow> op_cache
      \<Rightarrow> ((mem_error + verified_ops \<times> quarantined_author list) \<times> op_cache) option" where
  "read_verified P dec bv tm cache =
     (case bv_list bv (oplog_prefix tm) of
        Inl e \<Rightarrow> Some (Inl e, cache)
      | Inr keys \<Rightarrow>
          let (cached_pairs, to_fetch) = partition_cached cache keys;
              cached_ops = map snd cached_pairs;
              cache_hits = length cached_ops;
              fetched = fetch_bytes bv to_fetch;
              (pairs0, failed_keys, fetched_ok) = foldl (collect_fetched dec) ([], [], 0) fetched;
              new_pairs = retain_individually_valid P tm pairs0;
              cache' = update_cache cache new_pairs keys;
              ops = dedup_by_hash P (cached_ops @ map snd new_pairs);
              before_quarantine = ops_per_author ops
          in Option.bind (quarantine_broken_chains P ops) (\<lambda>(kept, quarantined).
               let collateral = fetch_collateral before_quarantine (ops_per_author kept) failed_keys in
               if systemic_outage cache_hits fetched_ok (length failed_keys) collateral
               then Some (Inl (Storage ''a fetch fault cost at least half of the listed op-log objects''), cache')
               else Some (Inr (VerifiedOps (sort_key (read_order P) kept), quarantined), cache')))"

definition read_all ::
    "prims \<Rightarrow> (bytes \<Rightarrow> op option) \<Rightarrow> blob_view \<Rightarrow> string \<Rightarrow> op_cache
      \<Rightarrow> ((mem_error + verified_ops) \<times> op_cache) option" where
  "read_all P dec bv tm cache =
     map_option (\<lambda>(r, c). (case r of Inl e \<Rightarrow> Inl e | Inr (v, _) \<Rightarrow> Inr v, c)) (read_verified P dec bv tm cache)"

definition op_object_count :: "blob_view \<Rightarrow> string \<Rightarrow> mem_error + nat" where
  "op_object_count bv tm = r_bind (bv_list bv (oplog_prefix tm)) (\<lambda>keys. Inr (length keys))"

section \<open>Quarantine inspection\<close>

datatype drop_class = ForkLoser | GapOrphan

record dropped_op =
  do_object_key :: string
  do_lamport :: u64
  do_op_id :: ulid
  do_op_hash :: blake3_hash
  do_prev_op_hash :: blake3_hash
  do_class :: drop_class
  do_has_listed_children :: bool

record surviving_tip =
  st_object_key :: string
  st_lamport :: u64
  st_op_id :: ulid
  st_op_hash :: blake3_hash

datatype quarantine_class = Fork | Gap | Mixed

record quarantined_author_detail =
  qd_author :: ss58
  qd_classification :: quarantine_class
  qd_surviving_ops :: nat
  qd_surviving_tip :: "surviving_tip option"
  qd_dropped :: "dropped_op list"

text \<open>Genesis reachability; the stack is kept top first.\<close>

partial_function (option) rooted_loop ::
    "(blake3_hash, nat list) mapping \<Rightarrow> blake3_hash list \<Rightarrow> nat list \<Rightarrow> blake3_hash set \<Rightarrow> blake3_hash set option" where
  "rooted_loop children hashes stack rooted =
     (case stack of
        [] \<Rightarrow> Some rooted
      | loc # rest \<Rightarrow>
          if hashes ! loc \<notin> rooted
          then rooted_loop children hashes (rev (kids_of children (hashes ! loc)) @ rest) (insert (hashes ! loc) rooted)
          else rooted_loop children hashes rest rooted)"

definition dropped_at ::
    "(string \<times> op) list \<Rightarrow> nat list \<Rightarrow> op list \<Rightarrow> blake3_hash list \<Rightarrow> (blake3_hash, nat list) mapping
      \<Rightarrow> blake3_hash set \<Rightarrow> nat \<Rightarrow> dropped_op" where
  "dropped_at pairs idxs chain hashes children rooted loc =
     \<lparr>do_object_key = fst (pairs ! (idxs ! loc)), do_lamport = op_lamport (chain ! loc),
      do_op_id = op_id (chain ! loc), do_op_hash = hashes ! loc, do_prev_op_hash = op_prev_op_hash (chain ! loc),
      do_class = (if hashes ! loc \<in> rooted then ForkLoser else GapOrphan),
      do_has_listed_children = (Mapping.lookup children (hashes ! loc) \<noteq> None)\<rparr>"

definition classify :: "dropped_op list \<Rightarrow> quarantine_class" where
  "classify dropped =
     (let fork_losers = length (filter (\<lambda>d. do_class d = ForkLoser) dropped) in
      if fork_losers = length dropped then Fork else if fork_losers = 0 then Gap else Mixed)"

definition quarantine_detail_for_author ::
    "prims \<Rightarrow> (string \<times> op) list \<Rightarrow> nat list \<Rightarrow> quarantined_author_detail option option" where
  "quarantine_detail_for_author P pairs idxs =
     (let chain = map (\<lambda>i. snd (pairs ! i)) idxs in
      Option.bind (longest_rooted_chain P chain) (\<lambda>kept.
        if card kept = length chain then Some None
        else
          let hashes = map (op_hash P) chain;
              children = index_by op_prev_op_hash chain
          in Option.bind (rooted_loop children hashes (rev (kids_of children GENESIS_PREV)) {}) (\<lambda>rooted.
            let kept_prevs = op_prev_op_hash ` {x \<in> set chain. op_hash P x \<in> kept};
                tip_at = List.find (\<lambda>loc. hashes ! loc \<in> kept \<and> hashes ! loc \<notin> kept_prevs) [0..<length chain];
                dropped = sort_key (\<lambda>d. (do_lamport d, do_op_id d, do_op_hash d))
                  (map (dropped_at pairs idxs chain hashes children rooted)
                    (filter (\<lambda>loc. hashes ! loc \<notin> kept) [0..<length chain]))
            in Some (Some
                 \<lparr>qd_author = op_author (chain ! 0), qd_classification = classify dropped,
                  qd_surviving_ops = card kept,
                  qd_surviving_tip = map_option (\<lambda>loc.
                    \<lparr>st_object_key = fst (pairs ! (idxs ! loc)), st_lamport = op_lamport (chain ! loc),
                     st_op_id = op_id (chain ! loc), st_op_hash = hashes ! loc\<rparr>) tip_at,
                  qd_dropped = dropped\<rparr>))))"

fun collect_details :: "'d option option list \<Rightarrow> 'd list option" where
  "collect_details [] = Some []"
| "collect_details (r # rs) =
     Option.bind r (\<lambda>d. map_option (\<lambda>ds. (case d of None \<Rightarrow> ds | Some x \<Rightarrow> x # ds)) (collect_details rs))"

definition quarantine_details :: "prims \<Rightarrow> (string \<times> op) list \<Rightarrow> quarantined_author_detail list option" where
  "quarantine_details P pairs =
     (let by_author = index_by (\<lambda>p. op_author_key (snd p)) pairs in
      collect_details
        (map (\<lambda>k. quarantine_detail_for_author P pairs (the (Mapping.lookup by_author k)))
          (Mapping.ordered_keys by_author)))"

record strict_oplog_view =
  sv_listed_keys :: "string list"
  sv_pairs :: "(string \<times> op) list"

text \<open>Unlike the serving read, the first failed get aborts.\<close>

fun collect_strict :: "(bytes \<Rightarrow> op option) \<Rightarrow> (string \<times> (mem_error + bytes)) list \<Rightarrow> mem_error + (string \<times> op) list" where
  "collect_strict dec [] = Inr []"
| "collect_strict dec ((key, res) # rest) =
     (case res of
        Inl _ \<Rightarrow> Inl (Storage ''quarantine inspection needs a complete view of the listed op-log'')
      | Inr bs \<Rightarrow>
          r_bind (collect_strict dec rest) (\<lambda>ps.
            Inr (case dec bs of Some o1 \<Rightarrow> (key, o1) # ps | None \<Rightarrow> ps)))"

definition read_listed_pairs_strict ::
    "prims \<Rightarrow> (bytes \<Rightarrow> op option) \<Rightarrow> blob_view \<Rightarrow> string \<Rightarrow> op_cache \<Rightarrow> (mem_error + strict_oplog_view) \<times> op_cache" where
  "read_listed_pairs_strict P dec bv tm cache =
     (case bv_list bv (oplog_prefix tm) of
        Inl e \<Rightarrow> (Inl e, cache)
      | Inr keys \<Rightarrow>
          let (cached_pairs, to_fetch) = partition_cached cache keys in
          (case collect_strict dec (fetch_bytes bv to_fetch) of
             Inl e \<Rightarrow> (Inl e, cache)
           | Inr pairs0 \<Rightarrow>
               let new_pairs = retain_individually_valid P tm pairs0;
                   cache' = update_cache cache new_pairs keys;
                   pairs = sort_key fst (cached_pairs @ new_pairs)
               in (Inr \<lparr>sv_listed_keys = keys, sv_pairs = snd (foldl (dedup_step P snd) ({}, []) pairs)\<rparr>, cache')))"

definition inspect_quarantine ::
    "prims \<Rightarrow> (bytes \<Rightarrow> op option) \<Rightarrow> blob_view \<Rightarrow> string \<Rightarrow> op_cache
      \<Rightarrow> ((mem_error + quarantined_author_detail list) \<times> op_cache) option" where
  "inspect_quarantine P dec bv tm cache =
     (case read_listed_pairs_strict P dec bv tm cache of
        (Inl e, c) \<Rightarrow> Some (Inl e, c)
      | (Inr view, c) \<Rightarrow> map_option (\<lambda>ds. (Inr ds, c)) (quarantine_details P (sv_pairs view)))"

section \<open>Quarantine removal\<close>

record removable_drop_info =
  rd_author :: ss58
  rd_dropped :: dropped_op
  rd_author_key_suffix :: string
  rd_author_listed_keys :: "string set"

record quarantine_removal =
  qr_author :: ss58
  qr_removed :: dropped_op
  qr_author_chain_whole :: bool
  qr_remaining_dropped_ops :: nat

definition keys_with_suffix :: "string list \<Rightarrow> string \<Rightarrow> string set" where
  "keys_with_suffix keys suf = set (filter (suffix suf) keys)"

text \<open>The loop over the details: the first author whose drops name the object decides.\<close>

fun removal_verdict ::
    "strict_oplog_view \<Rightarrow> string \<Rightarrow> quarantined_author_detail list \<Rightarrow> mem_error + removable_drop_info" where
  "removal_verdict view okey [] =
     Inl (Storage ''quarantine removal refused: not among the dropped ops of a fresh verified read'')"
| "removal_verdict view okey (detail # rest) =
     (case List.find (\<lambda>d. do_object_key d = okey) (qd_dropped detail) of
        None \<Rightarrow> removal_verdict view okey rest
      | Some dropped \<Rightarrow>
          (case do_class dropped of
             GapOrphan \<Rightarrow> Inl (Storage ''quarantine removal refused: gap-classified'')
           | ForkLoser \<Rightarrow>
               if do_has_listed_children dropped
               then Inl (Storage ''quarantine removal refused: still has listed successors'')
               else
                 (case List.find (\<lambda>(key, _). key = okey) (sv_pairs view) of
                    None \<Rightarrow> Inl (Storage ''quarantine removal refused: internal inconsistency'')
                  | Some (_, o1) \<Rightarrow>
                      let suf = ''_'' @ key_to_hex (op_author_key o1) in
                      Inr \<lparr>rd_author = qd_author detail, rd_dropped = dropped, rd_author_key_suffix = suf,
                           rd_author_listed_keys = keys_with_suffix (sv_listed_keys view) suf\<rparr>)))"

definition removable_drop ::
    "prims \<Rightarrow> (bytes \<Rightarrow> op option) \<Rightarrow> blob_view \<Rightarrow> string \<Rightarrow> string \<Rightarrow> op_cache
      \<Rightarrow> ((mem_error + removable_drop_info) \<times> op_cache) option" where
  "removable_drop P dec bv tm okey cache =
     (case read_listed_pairs_strict P dec bv tm (Mapping.delete okey cache) of
        (Inl e, c) \<Rightarrow> Some (Inl e, c)
      | (Inr view, c) \<Rightarrow>
          map_option (\<lambda>ds. (removal_verdict view okey ds, c)) (quarantine_details P (sv_pairs view)))"

text \<open>
  The four moments the removal looks at the bucket (two verdicts, the freshness listing, the inspection
  after the delete) are the views \<open>bv1\<close> to \<open>bv4\<close>, and \<open>del\<close> is the backend's answer to the delete. The
  result also says whether a delete was sent.
\<close>

record removal_outcome =
  ro_result :: "mem_error + quarantine_removal"
  ro_deleted :: bool
  ro_cache :: op_cache

definition remove_quarantined_op ::
    "prims \<Rightarrow> (bytes \<Rightarrow> op option) \<Rightarrow> blob_view \<Rightarrow> blob_view \<Rightarrow> blob_view \<Rightarrow> mem_error + unit \<Rightarrow> blob_view
      \<Rightarrow> string \<Rightarrow> string \<Rightarrow> op_cache \<Rightarrow> removal_outcome option" where
  "remove_quarantined_op P dec bv1 bv2 bv3 del bv4 tm okey cache =
     (let fail = (\<lambda>e sent c. Some \<lparr>ro_result = Inl e, ro_deleted = sent, ro_cache = c\<rparr>) in
      if \<not> prefix (oplog_prefix tm) okey
      then fail (Storage ''quarantine removal refused: not under the op-log prefix'') False cache
      else
        Option.bind (removable_drop P dec bv1 tm okey cache) (\<lambda>(r1, c1).
          case r1 of Inl e \<Rightarrow> fail e False c1
          | Inr drop1 \<Rightarrow>
        Option.bind (removable_drop P dec bv2 tm okey c1) (\<lambda>(r2, c2).
          case r2 of Inl e \<Rightarrow> fail e False c2
          | Inr drop2 \<Rightarrow>
              if do_op_hash (rd_dropped drop1) \<noteq> do_op_hash (rd_dropped drop2)
              then fail (Storage ''quarantine removal refused: the op changed between the two verification reads'') False c2
              else
                (case bv_list bv3 (oplog_prefix tm) of
                   Inl e \<Rightarrow> fail e False c2
                 | Inr fresh \<Rightarrow>
                     if keys_with_suffix fresh (rd_author_key_suffix drop2) \<noteq> rd_author_listed_keys drop2
                     then fail (Storage ''quarantine removal refused: listing moved since inspection'') False c2
                     else
                       (case del of
                          Inl e \<Rightarrow> fail e True c2
                        | Inr _ \<Rightarrow>
                            Option.bind (inspect_quarantine P dec bv4 tm c2) (\<lambda>(r4, c4).
                              case r4 of
                                Inl e \<Rightarrow> fail e True c4
                              | Inr aft \<Rightarrow>
                                  let author_entry = List.find (\<lambda>d. qd_author d = rd_author drop2) aft in
                                  Some \<lparr>ro_result = Inr
                                      \<lparr>qr_author = rd_author drop2, qr_removed = rd_dropped drop1,
                                       qr_author_chain_whole = (author_entry = None),
                                       qr_remaining_dropped_ops =
                                         (case author_entry of None \<Rightarrow> 0 | Some d \<Rightarrow> length (qd_dropped d))\<rparr>,
                                    ro_deleted = True, ro_cache = c4\<rparr>))))))"

section \<open>Lemmas on object keys\<close>

text \<open>The last \<open>k\<close> decimal digits of a number.\<close>

fun fixed_dec :: "nat \<Rightarrow> nat \<Rightarrow> string" where
  "fixed_dec 0 n = []"
| "fixed_dec (Suc k) n = fixed_dec k (n div 10) @ [char_of (48 + n mod 10)]"

lemma length_fixed_dec [simp]: "length (fixed_dec k n) = k"
  by (induction k arbitrary: n) auto

lemma fixed_dec_zero: "fixed_dec k 0 = replicate k (CHR ''0'')"
proof (induction k)
  case (Suc k)
  have "char_of (48 :: nat) = CHR ''0''" by code_simp
  with Suc show ?case by (simp add: replicate_append_same)
qed simp

lemma pad_fixed_dec:
  "n < 10 ^ Suc k \<Longrightarrow> replicate (Suc k - length (nat_dec n)) (CHR ''0'') @ nat_dec n = fixed_dec (Suc k) n"
proof (induction k arbitrary: n)
  case 0
  then show ?case by (subst nat_dec.simps, subst nat_dec.simps) simp
next
  case (Suc k)
  show ?case
  proof (cases "n < 10")
    case True
    then show ?thesis by (subst nat_dec.simps, subst nat_dec.simps) (simp add: fixed_dec_zero replicate_append_same)
  next
    case False
    then have dec: "nat_dec n = nat_dec (n div 10) @ [char_of (48 + n mod 10)]" by (subst nat_dec.simps) simp
    have "n div 10 < 10 ^ Suc k" using Suc.prems by (simp add: div_less_iff_less_mult mult.commute)
    from Suc.IH [OF this] show ?thesis unfolding dec by (simp add: dec)
  qed
qed

lemma pad20_fixed: "n < 10 ^ 20 \<Longrightarrow> pad20 n = fixed_dec 20 n"
  using pad_fixed_dec [of n 19] by (simp add: pad20_def)

lemma u64_lt_10_20: "unat (w :: u64) < 10 ^ 20"
proof -
  have "unat w < 2 ^ 64" using unsigned_less [of w] by simp
  then show ?thesis by simp
qed

lemma u64_pad20: "pad20 (unat (w :: u64)) = fixed_dec 20 (unat w)"
  by (rule pad20_fixed [OF u64_lt_10_20])

lemma char_of_digit_less: "a < 10 \<Longrightarrow> b < 10 \<Longrightarrow> char_of (48 + a :: nat) < char_of (48 + b) \<longleftrightarrow> a < b"
  by (simp add: less_char_def)

lemma fixed_dec_less:
  "a < 10 ^ k \<Longrightarrow> b < 10 ^ k \<Longrightarrow> fixed_dec k a < fixed_dec k b \<longleftrightarrow> a < b"
proof (induction k arbitrary: a b)
  case (Suc k)
  have d: "a div 10 < 10 ^ k" "b div 10 < 10 ^ k"
    using Suc.prems by (simp_all add: div_less_iff_less_mult mult.commute)
  have "fixed_dec k (a div 10) = fixed_dec k (b div 10) \<longleftrightarrow> a div 10 = b div 10"
    using Suc.IH [OF d] Suc.IH [OF d(2,1)] by (metis less_irrefl linorder_neq_iff)
  then show ?case
    using Suc.IH [OF d] less_by_div_mod [of 10 a b] by (simp add: snoc_less_iff char_of_digit_less)
qed simp

lemma pad20_less: "pad20 (unat (v :: u64)) < pad20 (unat w) \<longleftrightarrow> v < w"
  by (simp only: u64_pad20 fixed_dec_less [OF u64_lt_10_20 u64_lt_10_20] word_less_nat_alt)

lemma pad20_inject: "pad20 (unat (v :: u64)) = pad20 (unat w) \<longleftrightarrow> v = w"
  by (metis less_irrefl linorder_neq_iff pad20_less)

lemma length_pad20 [simp]: "length (pad20 (unat (w :: u64))) = 20"
  by (simp add: u64_pad20)

text \<open>A list order fact: the first difference decides, so equal-length heads decide before tails.\<close>

lemma append_less_iff:
  fixes xs :: "'a :: linorder list"
  shows "length xs = length ys \<Longrightarrow> xs @ u < ys @ v \<longleftrightarrow> xs < ys \<or> xs = ys \<and> u < v"
  by (induction xs ys rule: list_induct2) auto

text \<open>An author's key is one of a set of keys of 32 bytes; the trailing segment of an object key names it.\<close>

lemma suffix_last_segment:
  assumes "length u = length v"
  shows "suffix u (w @ v) \<longleftrightarrow> u = v"
  using assms by (auto simp: suffix_def append_eq_append_conv)

lemma key_suffix_iff:
  assumes "length k = 32" and "length (op_author_key o1) = 32"
  shows "suffix (''_'' @ key_to_hex k) (oplog_object_key tm o1) \<longleftrightarrow> op_author_key o1 = k"
proof -
  define w where "w = tm @ ''/_oplog/'' @ pad20 (unat (op_lamport o1)) @ ''_'' @ ulid_to_string (op_id o1)"
  have "oplog_object_key tm o1 = w @ ''_'' @ key_to_hex (op_author_key o1)"
    by (simp add: oplog_object_key_def w_def)
  moreover have "suffix (''_'' @ key_to_hex k) (w @ ''_'' @ key_to_hex (op_author_key o1)) \<longleftrightarrow>
      ''_'' @ key_to_hex k = ''_'' @ key_to_hex (op_author_key o1)"
    by (rule suffix_last_segment) (simp add: key_to_hex_def assms)
  ultimately show ?thesis by (auto simp: key_to_hex_def)
qed

lemma oplog_key_eq_iff:
  "oplog_object_key tm a = oplog_object_key tm b \<longleftrightarrow>
     op_lamport a = op_lamport b \<and> op_id a = op_id b \<and> op_author_key a = op_author_key b"
  by (simp add: oplog_object_key_def pad20_inject key_to_hex_def)

section \<open>Properties of object keys\<close>

text \<open>Object keys of one team list in Lamport order, then op id order, and separate authors: the key of an op
  is smaller than another's exactly when its \<open>(lamport, op_id, author hex)\<close> is, so two ops share a key only
  if they share all three.\<close>

theorem oplog_key_order:
  "(oplog_object_key tm a < oplog_object_key tm b \<longleftrightarrow>
     op_lamport a < op_lamport b \<or>
     op_lamport a = op_lamport b \<and>
       (op_id a < op_id b \<or> op_id a = op_id b \<and> key_to_hex (op_author_key a) < key_to_hex (op_author_key b))) \<and>
   (oplog_object_key tm a = oplog_object_key tm b \<longleftrightarrow>
     op_lamport a = op_lamport b \<and> op_id a = op_id b \<and> op_author_key a = op_author_key b)"
  by (simp add: oplog_object_key_def append_less_iff pad20_less pad20_inject ulid_to_string_less key_to_hex_def)

text \<open>A listed key names its author: the \<open>_\<close>-hex suffix of an author's key ends the object key of an op
  exactly when the op is that author's, which is what a failed get is attributed by and what the removal's
  freshness check is scoped by.\<close>

theorem oplog_key_names_author:
  assumes "length k = 32" and "length (op_author_key o1) = 32"
  shows "suffix (''_'' @ key_to_hex k) (oplog_object_key tm o1) \<longleftrightarrow> op_author_key o1 = k"
  using assms by (rule key_suffix_iff)

theorem oplog_key_names_author_witness:
  "suffix (''_'' @ key_to_hex (replicate 32 2)) (oplog_object_key ''t'' (demo_op 1 1 blake3_zero)) \<longleftrightarrow>
     op_author_key (demo_op 1 1 blake3_zero) = replicate 32 2"
  by (rule oplog_key_names_author) (simp_all add: demo_op_def)

end
