(* ===== verification/Oplog_Read.thy ===== *)
theory Oplog_Read
  imports Oplog_Store "HOL-Library.Multiset"
begin

text \<open>
  What the verifying read of the op log promises: it returns, it hands out verified ops in per-author
  hash chains whatever the bucket served, the completion order of its concurrent gets does not matter,
  and the systemic-outage guard decides by the share of listed objects a fetch fault cost.
\<close>

section \<open>The passes of a read\<close>

lemma partition_cached_eq:
  "partition_cached cache keys =
     (List.map_filter (\<lambda>k. map_option (Pair k) (Mapping.lookup cache k)) keys,
      filter (\<lambda>k. Mapping.lookup cache k = None) keys)"
proof -
  have "foldl (\<lambda>(cached_pairs, to_fetch) key.
         case Mapping.lookup cache key of
           Some o1 \<Rightarrow> (cached_pairs @ [(key, o1)], to_fetch)
         | None \<Rightarrow> (cached_pairs, to_fetch @ [key])) (a, b) keys =
     (a @ List.map_filter (\<lambda>k. map_option (Pair k) (Mapping.lookup cache k)) keys,
      b @ filter (\<lambda>k. Mapping.lookup cache k = None) keys)" for a b
    by (induction keys arbitrary: a b) (auto simp: List.map_filter_simps split: option.splits)
  then show ?thesis by (simp add: partition_cached_def)
qed

definition decoded :: "(bytes \<Rightarrow> op option) \<Rightarrow> (string \<times> (mem_error + bytes)) list \<Rightarrow> (string \<times> op) list" where
  "decoded dec = List.map_filter (\<lambda>(k, r). case r of Inl _ \<Rightarrow> None | Inr bs \<Rightarrow> map_option (Pair k) (dec bs))"

definition failed_of :: "(string \<times> (mem_error + bytes)) list \<Rightarrow> string list" where
  "failed_of xs = map fst (filter (\<lambda>(k, r). isl r) xs)"

lemma collect_fetched_eq:
  "foldl (collect_fetched dec) (a, b, n) xs =
     (a @ decoded dec xs, b @ failed_of xs, n + length (filter (\<lambda>(k, r). \<not> isl r) xs))"
proof (induction xs arbitrary: a b n)
  case Nil
  show ?case by (simp add: decoded_def failed_of_def)
next
  case (Cons x xs)
  obtain k r where x: "x = (k, r)" by (cases x)
  have "collect_fetched dec (a, b, n) x =
      (a @ decoded dec [x], b @ failed_of [x], n + length (filter (\<lambda>(k, r). \<not> isl r) [x]))"
    by (cases r) (auto simp: x collect_fetched_def decoded_def failed_of_def List.map_filter_simps split: option.splits)
  then show ?case
    using Cons by (auto simp: decoded_def failed_of_def List.map_filter_simps split: option.splits)
qed

lemma collect_strict_eq:
  "collect_strict dec xs =
     (if failed_of xs = [] then Inr (decoded dec xs)
      else Inl (Storage ''quarantine inspection needs a complete view of the listed op-log''))"
proof (induction xs)
  case Nil
  show ?case by (simp add: decoded_def failed_of_def)
next
  case (Cons x xs)
  obtain k r where x: "x = (k, r)" by (cases x)
  show ?case
    using Cons
    by (cases r) (auto simp: x decoded_def failed_of_def List.map_filter_simps r_bind_def split: option.splits)
qed

lemma lookup_update_cache:
  assumes "\<forall>(k, x)\<in>set ps. \<forall>y. (k, y) \<in> set ps \<longrightarrow> x = y"
  shows "Mapping.lookup (update_cache cache ps listed) k =
    (if k \<in> set listed
     then if \<exists>x. (k, x) \<in> set ps then Some (THE x. (k, x) \<in> set ps) else Mapping.lookup cache k
     else None)"
proof -
  have "Mapping.lookup (foldl (\<lambda>c (key, o1). Mapping.update key o1 c) cache qs) k =
      (if \<exists>x. (k, x) \<in> set qs then Some (THE x. (k, x) \<in> set ps) else Mapping.lookup cache k)"
    if "set qs \<subseteq> set ps" for qs
    using that
  proof (induction qs rule: rev_induct)
    case (snoc p qs)
    obtain j x where p: "p = (j, x)" by (cases p)
    have "(THE y. (j, y) \<in> set ps) = x" using snoc.prems assms p by (intro the_equality) auto
    with snoc p show ?case by (auto simp: lookup_update')
  qed simp
  then show ?thesis
    by (auto simp: update_cache_def lookup_filter split: option.splits)
qed

text \<open>Deduplication keeps one op per hash, and the whole set when hashes do not collide.\<close>

lemma dedup_fold:
  "foldl (dedup_step P f) (S, out) xs = (S', out') \<Longrightarrow> \<exists>ys. out' = out @ ys \<and> set ys \<subseteq> set xs \<and>
     S' = S \<union> (\<lambda>x. op_hash P (f x)) ` set xs \<and> distinct (map (\<lambda>x. op_hash P (f x)) ys) \<and>
     (\<lambda>x. op_hash P (f x)) ` set ys = (\<lambda>x. op_hash P (f x)) ` set xs - S"
proof (induction xs arbitrary: S out S' out')
  case (Cons x xs)
  show ?case
  proof (cases "op_hash P (f x) \<in> S")
    case True
    then have "dedup_step P f (S, out) x = (S, out)" by (simp add: dedup_step_def)
    with Cons.prems have "foldl (dedup_step P f) (S, out) xs = (S', out')" by simp
    from Cons.IH [OF this] True show ?thesis by auto
  next
    case False
    then have "dedup_step P f (S, out) x = (insert (op_hash P (f x)) S, out @ [x])" by (simp add: dedup_step_def)
    with Cons.prems have "foldl (dedup_step P f) (insert (op_hash P (f x)) S, out @ [x]) xs = (S', out')" by simp
    from Cons.IH [OF this] obtain ys where ys: "out' = out @ [x] @ ys" "set ys \<subseteq> set xs"
      "S' = insert (op_hash P (f x)) S \<union> (\<lambda>x. op_hash P (f x)) ` set xs" "distinct (map (\<lambda>x. op_hash P (f x)) ys)"
      "(\<lambda>x. op_hash P (f x)) ` set ys = (\<lambda>x. op_hash P (f x)) ` set xs - insert (op_hash P (f x)) S" by auto
    from ys(5) have "op_hash P (f x) \<notin> (\<lambda>x. op_hash P (f x)) ` set ys" by simp
    with ys False show ?thesis by (intro exI [of _ "x # ys"]) auto
  qed
qed auto

lemma dedup_pairs:
  shows "distinct (map (\<lambda>x. op_hash P (f x)) (snd (foldl (dedup_step P f) ({}, []) xs)))"
    and "set (snd (foldl (dedup_step P f) ({}, []) xs)) \<subseteq> set xs"
    and "(\<lambda>x. op_hash P (f x)) ` set (snd (foldl (dedup_step P f) ({}, []) xs)) = (\<lambda>x. op_hash P (f x)) ` set xs"
  using dedup_fold [of P f "{}" "[]" xs] by (cases "foldl (dedup_step P f) ({}, []) xs", force)+

lemma dedup_by_hash_distinct: "distinct (dedup_by_hash P ops)"
  using dedup_pairs(1) [of P id ops] by (simp add: dedup_by_hash_def distinct_map)

lemma dedup_by_hash_set: "inj_on (op_hash P) (set ops) \<Longrightarrow> set (dedup_by_hash P ops) = set ops"
  using dedup_pairs(2,3) [of P id ops] unfolding dedup_by_hash_def
  by (simp add: inj_on_image_eq_iff)

lemma dedup_by_hash_subset: "set (dedup_by_hash P ops) \<subseteq> set ops"
  using dedup_pairs(2) [of P id ops] by (simp add: dedup_by_hash_def)

lemma lookup_ops_per_author:
  "Mapping.lookup (ops_per_author ops) k = (if ops_by ops k = [] then None else Some (length (ops_by ops k)))"
proof (induction ops rule: rev_induct)
  case Nil
  show ?case by (simp add: ops_per_author_def lookup_empty)
next
  case (snoc x ops)
  have step: "ops_per_author (ops @ [x]) =
      Mapping.update (op_author_key x)
        ((case Mapping.lookup (ops_per_author ops) (op_author_key x) of None \<Rightarrow> 0 | Some n \<Rightarrow> n) + 1)
        (ops_per_author ops)" by (simp add: ops_per_author_def)
  show ?case unfolding step using snoc by (auto simp: lookup_update')
qed

lemma ops_per_author_keys: "Mapping.ordered_keys (ops_per_author ops) = sorted_list_of_set (op_author_key ` set ops)"
proof -
  have "Mapping.keys (ops_per_author ops) = op_author_key ` set ops"
    by (auto simp: keys_dom_lookup lookup_ops_per_author filter_empty_conv split: if_splits)
  then show ?thesis by (simp add: Mapping.ordered_keys_def)
qed

section \<open>What a read computes\<close>

text \<open>Every key handed to the fetch completes exactly once.\<close>

definition fair :: "blob_view \<Rightarrow> bool" where
  "fair bv \<longleftrightarrow> (\<forall>ks. mset (bv_order bv ks) = mset ks)"

lemma fair_set: "fair bv \<Longrightarrow> set (bv_order bv ks) = set ks"
  unfolding fair_def by (metis mset_eq_setD)

text \<open>The ops the listed objects stand for: the cached op of a key, or the valid op its bytes decode to.\<close>

definition served :: "prims \<Rightarrow> (bytes \<Rightarrow> op option) \<Rightarrow> blob_view \<Rightarrow> string \<Rightarrow> op_cache \<Rightarrow> string list \<Rightarrow> op set" where
  "served P dec bv tm cache keys =
     {x. \<exists>k\<in>set keys. Mapping.lookup cache k = Some x \<or>
        Mapping.lookup cache k = None \<and> individually_valid P tm x \<and> (\<exists>bs. bv_get bv k = Inr bs \<and> dec bs = Some x)}"

definition failed_gets :: "blob_view \<Rightarrow> op_cache \<Rightarrow> string list \<Rightarrow> string list" where
  "failed_gets bv cache keys = filter (\<lambda>k. Mapping.lookup cache k = None \<and> isl (bv_get bv k)) keys"

definition good_gets :: "blob_view \<Rightarrow> op_cache \<Rightarrow> string list \<Rightarrow> string list" where
  "good_gets bv cache keys = filter (\<lambda>k. Mapping.lookup cache k = None \<and> \<not> isl (bv_get bv k)) keys"

definition hits :: "op_cache \<Rightarrow> string list \<Rightarrow> string list" where
  "hits cache keys = filter (\<lambda>k. Mapping.lookup cache k \<noteq> None) keys"

lemma listed_split: "length keys = length (hits cache keys) + length (good_gets bv cache keys) + length (failed_gets bv cache keys)"
  by (induction keys) (auto simp: hits_def good_gets_def failed_gets_def)

abbreviation uncached :: "op_cache \<Rightarrow> string list \<Rightarrow> string list" where
  "uncached cache keys \<equiv> filter (\<lambda>k. Mapping.lookup cache k = None) keys"

definition fresh_pairs ::
    "prims \<Rightarrow> (bytes \<Rightarrow> op option) \<Rightarrow> blob_view \<Rightarrow> string \<Rightarrow> op_cache \<Rightarrow> string list \<Rightarrow> (string \<times> op) list" where
  "fresh_pairs P dec bv tm cache keys =
     retain_individually_valid P tm (decoded dec (fetch_bytes bv (uncached cache keys)))"

definition cached_list :: "op_cache \<Rightarrow> string list \<Rightarrow> (string \<times> op) list" where
  "cached_list cache keys = List.map_filter (\<lambda>k. map_option (Pair k) (Mapping.lookup cache k)) keys"

definition candidates ::
    "prims \<Rightarrow> (bytes \<Rightarrow> op option) \<Rightarrow> blob_view \<Rightarrow> string \<Rightarrow> op_cache \<Rightarrow> string list \<Rightarrow> op list" where
  "candidates P dec bv tm cache keys =
     map snd (cached_list cache keys) @ map snd (fresh_pairs P dec bv tm cache keys)"

lemma in_map_filter: "y \<in> set (List.map_filter f xs) \<longleftrightarrow> (\<exists>x\<in>set xs. f x = Some y)"
  by (induction xs) (auto simp: List.map_filter_simps split: option.splits)

lemma in_decoded: "(k, x) \<in> set (decoded dec xs) \<longleftrightarrow> (\<exists>bs. (k, Inr bs) \<in> set xs \<and> dec bs = Some x)"
proof (induction xs)
  case Nil
  show ?case by (simp add: decoded_def)
next
  case (Cons p xs)
  obtain j r where p: "p = (j, r)" by (cases p)
  show ?case using Cons by (cases r) (auto simp: p decoded_def List.map_filter_simps split: option.splits)
qed

lemma in_fetch_bytes: "fair bv \<Longrightarrow> (k, r) \<in> set (fetch_bytes bv ks) \<longleftrightarrow> k \<in> set ks \<and> bv_get bv k = r"
  by (auto simp: fetch_bytes_def fair_set)

lemma in_fresh_pairs:
  "fair bv \<Longrightarrow> (k, x) \<in> set (fresh_pairs P dec bv tm cache keys) \<longleftrightarrow>
     k \<in> set keys \<and> Mapping.lookup cache k = None \<and> individually_valid P tm x \<and>
     (\<exists>bs. bv_get bv k = Inr bs \<and> dec bs = Some x)"
  by (auto simp: fresh_pairs_def retain_individually_valid_def in_decoded in_fetch_bytes)

lemma in_cached_list: "(k, x) \<in> set (cached_list cache keys) \<longleftrightarrow> k \<in> set keys \<and> Mapping.lookup cache k = Some x"
  by (auto simp: cached_list_def in_map_filter)

lemma set_candidates: "fair bv \<Longrightarrow> set (candidates P dec bv tm cache keys) = served P dec bv tm cache keys"
proof -
  assume "fair bv"
  have "x \<in> set (candidates P dec bv tm cache keys) \<longleftrightarrow>
      (\<exists>k. (k, x) \<in> set (cached_list cache keys) \<or> (k, x) \<in> set (fresh_pairs P dec bv tm cache keys))" for x
    by (force simp: candidates_def)
  then show ?thesis unfolding served_def in_cached_list in_fresh_pairs [OF \<open>fair bv\<close>] by blast
qed

lemma length_cached_list: "length (cached_list cache keys) = length (hits cache keys)"
  by (induction keys) (auto simp: cached_list_def hits_def List.map_filter_simps split: option.splits)

lemma filter_map_pair: "filter (\<lambda>(k, r). Q r) (map (\<lambda>k. (k, g k)) ks) = map (\<lambda>k. (k, g k)) (filter (\<lambda>k. Q (g k)) ks)"
  by (induction ks) auto

lemma mset_failed_of:
  assumes "fair bv"
  shows "mset (failed_of (fetch_bytes bv (uncached cache keys))) = mset (failed_gets bv cache keys)"
proof -
  have "failed_of (fetch_bytes bv ks) = filter (\<lambda>k. isl (bv_get bv k)) (bv_order bv ks)" for ks
    by (simp add: failed_of_def fetch_bytes_def filter_map_pair comp_def)
  with assms show ?thesis
    by (simp add: fair_def failed_gets_def filter_filter_mset conj_commute)
qed

lemma length_good:
  assumes "fair bv"
  shows "length (filter (\<lambda>(k, r). \<not> isl r) (fetch_bytes bv (uncached cache keys))) = length (good_gets bv cache keys)"
proof -
  have "length (filter (\<lambda>(k, r). \<not> isl r) (fetch_bytes bv ks)) = size (filter_mset (\<lambda>k. \<not> isl (bv_get bv k)) (mset (bv_order bv ks)))" for ks
    by (simp add: fetch_bytes_def filter_map_pair flip: mset_filter)
  with assms show ?thesis
    by (simp add: fair_def good_gets_def flip: mset_filter size_mset)
qed

text \<open>What the quarantine dropped of the authors that lost an object to a failed get.\<close>

definition collateral :: "prims \<Rightarrow> op list \<Rightarrow> string set \<Rightarrow> nat" where
  "collateral P ops failed =
     (\<Sum>k\<in>op_author_key ` set ops.
        if \<exists>key\<in>failed. suffix (''_'' @ key_to_hex k) key then length (ops_by ops k) - length (branch P ops k) else 0)"

lemma length_survivors:
  assumes "hash_ok P (set ops)" and "distinct ops"
  shows "length (ops_by (filter (survives P ops) ops) k) = length (branch P ops k)"
    using set_survivors [OF assms, of k] assms(2)
      elected_distinct [OF hash_ok_by [OF assms(1)] branch_elected(1) [OF assms, of k]]
    by (metis distinct_card distinct_filter)

lemma fetch_collateral_eq:
  assumes "hash_ok P (set ops)" and "distinct ops"
  shows "fetch_collateral (ops_per_author ops) (ops_per_author (filter (survives P ops) ops)) failed =
    collateral P ops (set failed)"
proof -
  let ?kept = "filter (survives P ops) ops" and ?ks = "sorted_list_of_set (op_author_key ` set ops)"
  have aft: "(case Mapping.lookup (ops_per_author ?kept) k of None \<Rightarrow> 0 | Some n \<Rightarrow> n) = length (branch P ops k)" for k
    using length_survivors [OF assms, of k]
    by (cases "ops_by ?kept k = []") (simp_all add: lookup_ops_per_author del: filter_filter)
  have had: "the (Mapping.lookup (ops_per_author ops) k) = length (ops_by ops k)" if "k \<in> set ?ks" for k
    using that by (auto simp: lookup_ops_per_author filter_empty_conv)
  have "fetch_collateral (ops_per_author ops) (ops_per_author ?kept) failed =
     sum_list (map (\<lambda>k. if \<exists>key\<in>set failed. suffix (''_'' @ key_to_hex k) key
       then length (ops_by ops k) - length (branch P ops k) else 0) ?ks)"
    unfolding fetch_collateral_def ops_per_author_keys aft
    by (auto simp: Let_def had list_ex_iff intro!: arg_cong [of _ _ sum_list])
  also have "\<dots> = collateral P ops (set failed)"
    unfolding collateral_def by (simp add: sum_list_distinct_conv_sum_set)
  finally show ?thesis .
qed

lemma collateral_le:
  assumes "hash_ok P (set ops)" and "distinct ops"
  shows "collateral P ops failed + length (filter (survives P ops) ops) \<le> length ops"
proof -
  let ?K = "op_author_key ` set ops" and ?kept = "filter (survives P ops) ops"
  have total: "(\<Sum>k\<in>?K. length (ops_by xs k)) = length xs" if "set xs \<subseteq> set ops" for xs
    using sum_list_groups [of "sorted_list_of_set ?K" op_author_key xs] that
    by (simp add: sum_list_distinct_conv_sum_set image_mono)
  have "collateral P ops failed + length ?kept \<le>
      (\<Sum>k\<in>?K. length (ops_by ops k) - length (branch P ops k)) + (\<Sum>k\<in>?K. length (ops_by ?kept k))"
    using total [of ?kept] unfolding collateral_def by (intro add_mono sum_mono) auto
  also have "\<dots> = (\<Sum>k\<in>?K. length (ops_by ops k))"
    unfolding sum.distrib [symmetric] using branch_length_le [OF assms] length_survivors [OF assms]
    by (intro sum.cong refl) (simp del: filter_filter)
  finally show ?thesis using total [of ops] by simp
qed

lemma read_verified_eq:
  fixes P dec bv tm cache keys
  defines "ops \<equiv> dedup_by_hash P (candidates P dec bv tm cache keys)"
  defines "f \<equiv> failed_gets bv cache keys"
  assumes "fair bv" and "bv_list bv (oplog_prefix tm) = Inr keys" and "hash_ok P (served P dec bv tm cache keys)"
  shows "read_verified P dec bv tm cache =
    Some (if systemic_outage (length (hits cache keys)) (length (good_gets bv cache keys)) (length f)
               (collateral P ops (set f))
          then Inl (Storage ''a fetch fault cost at least half of the listed op-log objects'')
          else Inr (VerifiedOps (sort_key (read_order P) (filter (survives P ops) ops)),
                    concat (map (report_of P ops) (sorted_list_of_set (op_author_key ` set ops)))),
          update_cache cache (fresh_pairs P dec bv tm cache keys) keys)"
proof -
  let ?f = "failed_of (fetch_bytes bv (uncached cache keys))"
  have cand: "set (candidates P dec bv tm cache keys) = served P dec bv tm cache keys"
    by (rule set_candidates [OF assms(3)])
  then have set_ops: "set ops = served P dec bv tm cache keys"
    unfolding ops_def using dedup_by_hash_set assms(5) by (simp add: hash_ok_def)
  have ok: "hash_ok P (set ops)" "distinct ops"
    using assms(5) set_ops dedup_by_hash_distinct by (simp_all add: ops_def)
  have f: "length ?f = length f" "set ?f = set f"
    using mset_failed_of [OF assms(3)] unfolding f_def by (metis size_mset, metis mset_eq_setD)
  have ops: "dedup_by_hash P (map snd (cached_list cache keys) @
      map snd (retain_individually_valid P tm (decoded dec (fetch_bytes bv (uncached cache keys))))) = ops"
    by (simp add: ops_def candidates_def fresh_pairs_def)
  show ?thesis
    using quarantine_broken_chains_eq [OF ok] fetch_collateral_eq [OF ok, of ?f]
    unfolding read_verified_def assms(4) partition_cached_eq collect_fetched_eq
    by (simp add: ops [unfolded cached_list_def] f length_good [OF assms(3)] length_cached_list [unfolded cached_list_def]
        fresh_pairs_def Let_def)
qed

section \<open>Consequences\<close>

lemma branch_cong: "set ops = set ops' \<Longrightarrow> branch P ops k = branch P ops' k"
  by (simp add: branch_def)

lemma length_ops_by_cong:
  assumes "distinct ops" and "distinct ops'" and "set ops = set ops'"
  shows "length (ops_by ops k) = length (ops_by ops' k)"
proof -
  have "set (ops_by ops k) = set (ops_by ops' k)" using assms(3) by simp
  then show ?thesis using distinct_filter [OF assms(1)] distinct_filter [OF assms(2)] by (metis distinct_card)
qed

lemma collateral_cong:
  assumes "distinct ops" and "distinct ops'" and "set ops = set ops'"
  shows "collateral P ops failed = collateral P ops' failed"
  unfolding collateral_def assms(3) branch_cong [OF assms(3)] length_ops_by_cong [OF assms] ..

lemma survives_cong: "set ops = set ops' \<Longrightarrow> survives P ops = survives P ops'"
  by (intro ext) (simp add: survives_def branch_cong [of ops ops'])

lemma option_eqI: "(\<And>x. a = Some x \<longleftrightarrow> b = Some x) \<Longrightarrow> a = b"
  by (cases a; cases b) auto

lemma read_order_inj: "inj_on (op_hash P) A \<Longrightarrow> inj_on (read_order P) A"
  by (auto simp: inj_on_def read_order_def)

lemma sort_read_order_cong:
  assumes "inj_on (op_hash P) (set xs)" and "distinct xs" and "distinct ys" and "set xs = set ys"
  shows "sort_key (read_order P) xs = sort_key (read_order P) ys"
proof (rule sort_key_inj_key_eq)
  show "mset xs = mset (sort_key (read_order P) ys)" using assms by (simp add: set_eq_iff_mset_eq_distinct)
qed (use assms read_order_inj in auto)

lemma dropped_cong:
  assumes "distinct ops" and "distinct ops'" and "set ops = set ops'"
  shows "map qa_dropped_ops (concat (map (report_of P ops) ks)) = map qa_dropped_ops (concat (map (report_of P ops') ks))"
proof -
  have "map qa_dropped_ops (report_of P ops k) = map qa_dropped_ops (report_of P ops' k)" for k
    by (simp add: report_of_def branch_cong [OF assms(3)] length_ops_by_cong [OF assms])
  then show ?thesis by (induction ks) simp_all
qed

text \<open>The ops a read works on, and the facts every property starts from.\<close>

definition read_ops ::
    "prims \<Rightarrow> (bytes \<Rightarrow> op option) \<Rightarrow> blob_view \<Rightarrow> string \<Rightarrow> op_cache \<Rightarrow> string list \<Rightarrow> op list" where
  "read_ops P dec bv tm cache keys = dedup_by_hash P (candidates P dec bv tm cache keys)"

lemma read_ops_facts:
  assumes "fair bv" and "hash_ok P (served P dec bv tm cache keys)"
  shows "set (read_ops P dec bv tm cache keys) = served P dec bv tm cache keys"
    and "hash_ok P (set (read_ops P dec bv tm cache keys))" and "distinct (read_ops P dec bv tm cache keys)"
proof -
  show s: "set (read_ops P dec bv tm cache keys) = served P dec bv tm cache keys"
    unfolding read_ops_def using dedup_by_hash_set [of P "candidates P dec bv tm cache keys"] assms
    by (simp add: set_candidates hash_ok_def)
  show "hash_ok P (set (read_ops P dec bv tm cache keys))" using assms(2) s by simp
  show "distinct (read_ops P dec bv tm cache keys)" by (simp add: read_ops_def dedup_by_hash_distinct)
qed

lemmas read_verified_ops = read_verified_eq [folded read_ops_def]

text \<open>What the cache may hold: ops that passed the individual checks.\<close>

definition cache_ok :: "prims \<Rightarrow> string \<Rightarrow> op_cache \<Rightarrow> bool" where
  "cache_ok P tm cache \<longleftrightarrow> (\<forall>k x. Mapping.lookup cache k = Some x \<longrightarrow> individually_valid P tm x)"

text \<open>A cache every entry of which is what the bucket still serves under that key.\<close>

definition cache_coherent :: "prims \<Rightarrow> (bytes \<Rightarrow> op option) \<Rightarrow> blob_view \<Rightarrow> string \<Rightarrow> op_cache \<Rightarrow> bool" where
  "cache_coherent P dec bv tm cache \<longleftrightarrow>
     (\<forall>k x. Mapping.lookup cache k = Some x \<longrightarrow>
        individually_valid P tm x \<and> (\<exists>bs. bv_get bv k = Inr bs \<and> dec bs = Some x))"

lemma fresh_pairs_functional:
  "fair bv \<Longrightarrow> \<forall>(k, x)\<in>set (fresh_pairs P dec bv tm cache keys).
     \<forall>y. (k, y) \<in> set (fresh_pairs P dec bv tm cache keys) \<longrightarrow> x = y"
  by (auto simp: in_fresh_pairs)

lemma lookup_new_cache:
  assumes "fair bv"
  shows "Mapping.lookup (update_cache cache (fresh_pairs P dec bv tm cache keys) keys) k = Some x \<longleftrightarrow>
    k \<in> set keys \<and> (Mapping.lookup cache k = Some x \<or> (k, x) \<in> set (fresh_pairs P dec bv tm cache keys))"
proof -
  let ?f = "fresh_pairs P dec bv tm cache keys"
  have "(THE x. (k, x) \<in> set ?f) = y" if "(k, y) \<in> set ?f" for y
    using that fresh_pairs_functional [OF assms, of P dec tm cache keys] by (intro the_equality) auto
  then show ?thesis
    unfolding lookup_update_cache [OF fresh_pairs_functional [OF assms]]
    by (auto simp: in_fresh_pairs [OF assms])
qed

lemma new_cache_ok:
  assumes "fair bv" and "cache_ok P tm cache"
  shows "cache_ok P tm (update_cache cache (fresh_pairs P dec bv tm cache keys) keys)"
  using assms(2) unfolding cache_ok_def lookup_new_cache [OF assms(1)] by (auto simp: in_fresh_pairs [OF assms(1)])

lemma served_valid: "cache_ok P tm cache \<Longrightarrow> x \<in> served P dec bv tm cache keys \<Longrightarrow> individually_valid P tm x"
  by (auto simp: served_def cache_ok_def)

lemma collateral_le_good:
  assumes "fair bv" and "hash_ok P (served P dec bv tm cache keys)"
  shows "collateral P (read_ops P dec bv tm cache keys) f \<le> length (hits cache keys) + length (good_gets bv cache keys)"
proof -
  note r = read_ops_facts [OF assms]
  have "length (read_ops P dec bv tm cache keys) \<le> length (candidates P dec bv tm cache keys)"
    using r(3) dedup_by_hash_subset [of P "candidates P dec bv tm cache keys"]
    by (metis card_length card_mono distinct_card finite_set order_trans read_ops_def)
  also have "length (decoded dec xs) \<le> length (filter (\<lambda>(k, r). \<not> isl r) xs)" for xs
    by (induction xs) (auto simp: decoded_def List.map_filter_simps split: sum.splits option.splits)
  then have "length (candidates P dec bv tm cache keys) \<le> length (hits cache keys) + length (good_gets bv cache keys)"
    unfolding length_good [OF assms(1), symmetric] candidates_def fresh_pairs_def retain_individually_valid_def
    by (auto simp: length_cached_list intro: order_trans [OF length_filter_le])
  finally show ?thesis using collateral_le [OF r(2,3), of f] by simp
qed

section \<open>A concrete bucket\<close>

text \<open>A three-byte wire format for the concrete ops: author, number, predecessor.\<close>

definition demo_dec :: "bytes \<Rightarrow> op option" where
  "demo_dec bs = (case bs of [a, n, p] \<Rightarrow> Some (demo_op a n (replicate 32 p)) | _ \<Rightarrow> None)"

definition demo_enc :: "op \<Rightarrow> bytes" where
  "demo_enc x = [hd (op_author_key x), hd (op_cid x), hd (op_prev_op_hash x)]"

lemma demo_dec_enc [simp]: "demo_dec (demo_enc (demo_op a n (replicate 32 p))) = Some (demo_op a n (replicate 32 p))"
  by (simp add: demo_dec_def demo_enc_def demo_op_def)

lemma demo_valid [simp]: "a \<noteq> 0 \<Longrightarrow> individually_valid demo_prims ''t'' (demo_op a n p)"
proof -
  assume "a \<noteq> 0"
  then have "verify_sig demo_prims (demo_op a n p)"
    by (simp add: verify_sig_def verify_def is_identity_point_def demo_op_def demo_prims_def)
  moreover have "verify_identity demo_prims (demo_op a n p)"
    using address_names_key_encode [of demo_prims "replicate 32 a"] by (simp add: verify_identity_def demo_op_def)
  ultimately show ?thesis by (simp add: individually_valid_def) (simp add: demo_op_def)
qed

lemma demo_key_eq [simp]:
  "oplog_object_key tm (demo_op a n p) = oplog_object_key tm (demo_op b m q) \<longleftrightarrow> n = m \<and> a = b"
proof -
  have "unat (ucast n :: u64) = unat n" for n :: byte
  proof -
    have "unat n < 256" using unsigned_less [of n] by simp
    then show ?thesis by (simp add: unsigned_ucast_eq take_bit_nat_eq_self)
  qed
  then have "(ucast n :: u64) = ucast m \<longleftrightarrow> n = m" for n m :: byte by (metis word_unat_eq_iff)
  then show ?thesis by (auto simp: oplog_key_eq_iff demo_op_def)
qed


section \<open>Appending to the in-memory backend\<close>

definition append_all :: "(op \<Rightarrow> bytes) \<Rightarrow> string \<Rightarrow> op list \<Rightarrow> mem_error + memory_blob_store" where
  "append_all enc tm ops = foldl (\<lambda>r x. r_bind r (\<lambda>m. append_op enc mem_put m tm x)) (Inr Mapping.empty) ops"

lemma append_all_get:
  assumes "inj_on (oplog_object_key tm) (set ops)"
  shows "\<exists>m. append_all enc tm ops = Inr m \<and> mem_inv m \<and>
    (\<forall>k b. mem_get m k = Inr b \<longleftrightarrow> (\<exists>x\<in>set ops. k = oplog_object_key tm x \<and> b = enc x))"
  using assms
proof (induction ops rule: rev_induct)
  case Nil
  show ?case by (auto simp: append_all_def mem_inv_def mem_get_def lookup_empty)
next
  case (snoc x ops)
  then obtain m where m: "append_all enc tm ops = Inr m" "mem_inv m"
    "\<forall>k b. mem_get m k = Inr b \<longleftrightarrow> (\<exists>x\<in>set ops. k = oplog_object_key tm x \<and> b = enc x)"
    by (auto simp: inj_on_def)
  obtain m' where m': "mem_put m (oplog_object_key tm x) (enc x) = Inr m'" by (simp add: mem_put_def)
  have "append_all enc tm (ops @ [x]) = Inr m'" using m(1) m' by (simp add: append_all_def append_op_def r_bind_def)
  moreover have "mem_inv m'" using memory.put_inv [OF m(2) m'] .
  moreover have "mem_get m' k = Inr b \<longleftrightarrow> (\<exists>y\<in>set (ops @ [x]). k = oplog_object_key tm y \<and> b = enc y)" for k b
    using m(3) snoc.prems by (auto simp: memory.get_put [OF m'] inj_on_def)
  ultimately show ?case by blast
qed

lemma oplog_key_prefix: "prefix (oplog_prefix tm) (oplog_object_key tm x)"
  by (auto simp: oplog_prefix_def oplog_object_key_def prefix_def)

text \<open>A whole log of intact chains loses nothing to the quarantine.\<close>

lemma whole_chains_survive:
  assumes "hash_ok P (set ops)" and "distinct ops"
    and "\<forall>k. \<exists>q. linked P (set ops) GENESIS_PREV q \<and> set q = set (ops_by ops k)"
  shows "filter (survives P ops) ops = ops" and "concat (map (report_of P ops) ks) = []"
proof -
  have b: "set (branch P ops k) = set (ops_by ops k)" for k
  proof -
    from assms(3) obtain q where q: "linked P (set ops) GENESIS_PREV q" "set q = set (ops_by ops k)" by blast
    have "linked P (set (ops_by ops k)) GENESIS_PREV q" by (rule linked_own [OF q(1)]) (simp only: q(2) subset_refl)
    then show ?thesis
      by (rule elected_whole [OF hash_ok_by [OF assms(1)] branch_elected(1) [OF assms(1,2)] _ q(2)])
  qed
  then show s: "filter (survives P ops) ops = ops" by (auto simp: survives_def intro!: filter_True)
  have "length (branch P ops k) = length (ops_by ops k)" for k
    using length_survivors [OF assms(1,2), of k] by (simp only: s)
  then have "report_of P ops k = []" for k by (simp add: report_of_def)
  then show "concat (map (report_of P ops) ks) = []" by simp
qed

text \<open>Four listed objects: the root of author 1, whose get fails, its successor, and one op each of authors 2 and 3.\<close>

definition outage_op :: "nat \<Rightarrow> op" where
  "outage_op i = [demo_op 1 1 (replicate 32 0), demo_op 1 2 (replicate 32 1), demo_op 2 3 (replicate 32 0),
     demo_op 3 4 (replicate 32 0)] ! i"

definition outage_key :: "nat \<Rightarrow> string" where
  "outage_key i = oplog_object_key ''t'' (outage_op i)"

definition outage_keys :: "string list" where
  "outage_keys = map outage_key [0, 1, 2, 3]"

definition outage_view :: blob_view where
  "outage_view =
     \<lparr>bv_list = \<lambda>_. Inr outage_keys,
      bv_get = \<lambda>k. if k \<in> set (map outage_key [1, 2, 3])
                 then Inr (the (map_of (map (\<lambda>i. (outage_key i, demo_enc (outage_op i))) [1, 2, 3]) k)) else Inl Io,
      bv_order = id\<rparr>"

definition outage_cache :: op_cache where
  "outage_cache = foldl (\<lambda>c i. Mapping.update (outage_key i) (outage_op i) c) Mapping.empty [1, 2, 3]"

lemmas outage_op_simps = outage_op_def numeral_2_eq_2 numeral_3_eq_3

lemma outage_key_distinct: "i < 4 \<Longrightarrow> j < 4 \<Longrightarrow> outage_key i = outage_key j \<longleftrightarrow> i = j"
proof -
  have "\<forall>i\<in>set [0..<4]. \<forall>j\<in>set [0..<4]. outage_key i = outage_key j \<longrightarrow> i = j"
    by (simp add: outage_key_def outage_op_def upt_rec nth_Cons')
  then show "i < 4 \<Longrightarrow> j < 4 \<Longrightarrow> outage_key i = outage_key j \<longleftrightarrow> i = j" by auto
qed

lemma outage_lookup:
  "Mapping.lookup outage_cache k =
     (if k = outage_key 3 then Some (outage_op 3) else if k = outage_key 2 then Some (outage_op 2)
      else if k = outage_key 1 then Some (outage_op 1) else None)"
  by (simp add: outage_cache_def lookup_update' lookup_empty)

lemma outage_get:
  "bv_get outage_view k =
     (if k = outage_key 1 then Inr (demo_enc (outage_op 1)) else if k = outage_key 2 then Inr (demo_enc (outage_op 2))
      else if k = outage_key 3 then Inr (demo_enc (outage_op 3)) else Inl Io)"
  by (auto simp: outage_view_def outage_key_distinct)

lemma outage_ops [simp]:
  "outage_op 1 = demo_op 1 2 (replicate 32 1)" "outage_op 2 = demo_op 2 3 (replicate 32 0)"
  "outage_op 3 = demo_op 3 4 (replicate 32 0)" "outage_op (Suc 0) = demo_op 1 2 (replicate 32 1)"
  by (simp_all add: outage_op_def)

lemma outage_fair: "fair outage_view"
  by (simp add: fair_def outage_view_def)

lemma outage_served:
  "served demo_prims demo_dec outage_view ''t'' Mapping.empty outage_keys = {outage_op 1, outage_op 2, outage_op 3}"
  "served demo_prims demo_dec outage_view ''t'' outage_cache outage_keys = {outage_op 1, outage_op 2, outage_op 3}"
  by (auto simp: served_def lookup_empty outage_keys_def outage_get outage_lookup outage_key_distinct split: if_splits)

lemma outage_hash_ok: "hash_ok demo_prims {outage_op 1, outage_op 2, outage_op 3}"
  by (simp add: hash_ok_def genesis_simps)

lemma outage_counts:
  "failed_gets outage_view Mapping.empty outage_keys = [outage_key 0]"
  "failed_gets outage_view outage_cache outage_keys = [outage_key 0]"
  "length (hits Mapping.empty outage_keys) = 0" "length (hits outage_cache outage_keys) = 3"
  "length (good_gets outage_view Mapping.empty outage_keys) = 3"
  "length (good_gets outage_view outage_cache outage_keys) = 0"
  by (simp_all add: failed_gets_def hits_def good_gets_def outage_keys_def outage_get outage_lookup lookup_empty
      outage_key_distinct)

lemma branch_single:
  assumes "hash_ok P (set ops)" and "distinct ops" and "set (ops_by ops k) = {x}"
  shows "branch P ops k = (if op_prev_op_hash x = GENESIS_PREV then [x] else [])"
proof -
  have ok: "hash_ok P {x}" using hash_ok_by [OF assms(1), of k] assms(3) by simp
  have "elected P {x} GENESIS_PREV (if op_prev_op_hash x = GENESIS_PREV then [x] else [])"
    using hash_ok_genesis [OF ok] by (auto simp: prefers_def)
  then show ?thesis using branch_elected(1) [OF assms(1,2), of k] elected_unique [OF ok] unfolding assms(3) by metis
qed

lemma outage_branches:
  assumes "distinct ops" and "set ops = {outage_op 1, outage_op 2, outage_op 3}"
  shows "branch demo_prims ops (replicate 32 1) = []" "branch demo_prims ops (replicate 32 2) = [outage_op 2]"
    "branch demo_prims ops (replicate 32 3) = [outage_op 3]"
proof -
  have ok: "hash_ok demo_prims (set ops)" using assms(2) outage_hash_ok by simp
  have "set (ops_by ops (replicate 32 1)) = {outage_op 1}" "set (ops_by ops (replicate 32 2)) = {outage_op 2}"
    "set (ops_by ops (replicate 32 3)) = {outage_op 3}" using assms(2) by auto
  from this [THEN branch_single [OF ok assms(1)]]
  show "branch demo_prims ops (replicate 32 1) = []" "branch demo_prims ops (replicate 32 2) = [outage_op 2]"
    "branch demo_prims ops (replicate 32 3) = [outage_op 3]" by (simp_all add: genesis_simps)
qed

lemma outage_survivors:
  assumes "distinct ops" and "set ops = {outage_op 1, outage_op 2, outage_op 3}"
  shows "length (filter (survives demo_prims ops) ops) = 2"
proof -
  have "set (filter (survives demo_prims ops) ops) = {outage_op 2, outage_op 3}"
    using assms(2) outage_branches [OF assms] by (auto simp: survives_def)
  moreover have "card {outage_op 2, outage_op 3} = 2" by simp
  ultimately show ?thesis using distinct_filter [OF assms(1)] by (metis distinct_card)
qed

lemma outage_collateral:
  assumes "distinct ops" and "set ops = {outage_op 1, outage_op 2, outage_op 3}"
  shows "collateral demo_prims ops {outage_key 0} = 1"
proof -
  have "set (ops_by ops (replicate 32 1)) = {outage_op 1}" using assms(2) by auto
  then have one: "length (ops_by ops (replicate 32 1)) = 1" using distinct_filter [OF assms(1)]
    by (metis card.empty card_insert_disjoint distinct_card empty_iff finite.emptyI One_nat_def)
  have suf: "suffix (''_'' @ key_to_hex (replicate 32 a)) (outage_key 0) \<longleftrightarrow> a = 1" for a
    unfolding outage_key_def by (subst key_suffix_iff) (auto simp: outage_op_def)
  show ?thesis
    unfolding collateral_def assms(2)
    by (simp add: suf [simplified] one outage_branches [OF assms])
qed

section \<open>Properties\<close>

text \<open>C13. Whatever an untrusted bucket lists and serves, a read returns, and what it returns is verified: every op
  it hands out was listed, carries a valid signature by its author key, an address that names that key
  and the team's prefix; each author's ops form one hash chain from genesis; the ops are distinct
  and in \<open>(lamport, op_id, author_key, hash)\<close> order; and the cache again holds valid ops only.\<close>

theorem read_verified_sound:
  assumes "fair bv" and "cache_ok P tm cache"
    and "bv_list bv (oplog_prefix tm) = Inr keys" and "hash_ok P (served P dec bv tm cache keys)"
  shows "\<exists>r cache'. read_verified P dec bv tm cache = Some (r, cache') \<and> cache_ok P tm cache' \<and>
    (\<forall>v q. r = Inr (v, q) \<longrightarrow>
       (\<forall>x\<in>set (ops_of v). x \<in> served P dec bv tm cache keys \<and> verify_sig P x \<and> verify_identity P x \<and>
          prefix (tm @ ''/'') (op_object_key x)) \<and>
       (\<forall>k. \<exists>c. linked P (set (ops_of v)) GENESIS_PREV c \<and> set c = set (ops_by (ops_of v) k)) \<and>
       distinct (ops_of v) \<and> sorted (map (read_order P) (ops_of v)))"
proof -
  let ?ops = "read_ops P dec bv tm cache keys"
  let ?kept = "filter (survives P ?ops) ?ops"
  note r = read_ops_facts [OF assms(1,4)]
  have "x \<in> served P dec bv tm cache keys \<and> verify_sig P x \<and> verify_identity P x \<and> prefix (tm @ ''/'') (op_object_key x)"
    if "x \<in> set ?kept" for x
    using that served_valid [OF assms(2), of x dec bv keys] r(1)
    by (auto simp: individually_valid_def split: if_splits)
  moreover have "\<exists>c. linked P (set ?kept) GENESIS_PREV c \<and> set c = set (ops_by (sort_key (read_order P) ?kept) k)" for k
  proof (intro exI conjI)
    have s: "set (branch P ?ops k) = set (ops_by ?kept k)" by (rule set_survivors [OF r(2,3), symmetric])
    then show "set (branch P ?ops k) = set (ops_by (sort_key (read_order P) ?kept) k)" by simp
    show "linked P (set ?kept) GENESIS_PREV (branch P ?ops k)"
      by (rule linked_own [OF elected_linked [OF branch_elected(1) [OF r(2,3)]]]) (use s in auto)
  qed
  ultimately show ?thesis
    unfolding read_verified_ops [OF assms(1,3,4)] using new_cache_ok [OF assms(1,2), of dec keys] r(3)
    by (auto simp: sorted_sort_key simp del: filter_sort)
qed

theorem read_verified_sound_witness:
  "\<exists>v q cache'. read_verified demo_prims demo_dec
       \<lparr>bv_list = \<lambda>_. Inr [''a'', ''b''], bv_get = \<lambda>k. if k = ''a'' then Inr [1, 1, 0] else Inr [9], bv_order = rev\<rparr> ''t'' Mapping.empty =
     Some (Inr (v, q), cache') \<and> cache_ok demo_prims ''t'' cache' \<and> list_all (verify_sig demo_prims) (ops_of v)"
proof -
  let ?bv = "\<lparr>bv_list = \<lambda>_. Inr [''a'', ''b''], bv_get = \<lambda>k. if k = ''a'' then Inr [1, 1, 0] else Inr [9 :: byte], bv_order = rev\<rparr>"
  have f: "fair ?bv" by (simp add: fair_def)
  have c: "cache_ok demo_prims ''t'' Mapping.empty" by (simp add: cache_ok_def lookup_empty)
  have l: "bv_list ?bv (oplog_prefix ''t'') = Inr [''a'', ''b'']" by simp
  have "served demo_prims demo_dec ?bv ''t'' Mapping.empty [''a'', ''b''] \<subseteq> {demo_op 1 1 (replicate 32 0)}"
    by (auto simp: served_def lookup_empty demo_dec_def split: if_splits)
  then have h: "hash_ok demo_prims (served demo_prims demo_dec ?bv ''t'' Mapping.empty [''a'', ''b''])"
    by (rule hash_ok_mono [rotated]) (simp add: hash_ok_def genesis_simps)
  have "failed_gets ?bv Mapping.empty [''a'', ''b''] = []" by (simp add: failed_gets_def)
  then have "\<exists>v q. fst (the (read_verified demo_prims demo_dec ?bv ''t'' Mapping.empty)) = Inr (v, q)"
    unfolding read_verified_ops [OF f l h] by (simp add: systemic_outage_def collateral_def)
  with read_verified_sound [OF f c l h] show ?thesis unfolding list_all_iff by fastforce
qed

text \<open>The completion order of the concurrent gets does not matter: two reads of the same bucket whose gets
  complete in different orders leave the same cache and either both fail alike or hand out the same ops in
  the same order and drop the same number of ops of every quarantined author.\<close>

theorem read_fetch_order_irrelevant:
  assumes "fair bv" and "fair (bv\<lparr>bv_order := ord\<rparr>)"
    and "bv_list bv (oplog_prefix tm) = Inr keys" and "hash_ok P (served P dec bv tm cache keys)"
  defines "outcome \<equiv> map_option (\<lambda>(r, c). (map_sum id (\<lambda>(v, q). (v, map qa_dropped_ops q)) r, c))"
  shows "outcome (read_verified P dec bv tm cache) = outcome (read_verified P dec (bv\<lparr>bv_order := ord\<rparr>) tm cache)"
proof -
  let ?bv = "bv\<lparr>bv_order := ord\<rparr>"
  have s: "served P dec ?bv tm cache keys = served P dec bv tm cache keys" by (simp add: served_def)
  have l': "bv_list ?bv (oplog_prefix tm) = Inr keys" using assms(3) by simp
  have h': "hash_ok P (served P dec ?bv tm cache keys)" using assms(4) s by simp
  note r = read_ops_facts [OF assms(1,4)] and r' = read_ops_facts [OF assms(2) h']
  have e: "set (read_ops P dec bv tm cache keys) = set (read_ops P dec ?bv tm cache keys)"
    using r(1) r'(1) s by simp
  have g: "failed_gets ?bv cache keys = failed_gets bv cache keys" "good_gets ?bv cache keys = good_gets bv cache keys"
    by (simp_all add: failed_gets_def good_gets_def)
  have c: "update_cache cache (fresh_pairs P dec ?bv tm cache keys) keys = update_cache cache (fresh_pairs P dec bv tm cache keys) keys"
  proof (rule mapping_eqI)
    fix k
    show "Mapping.lookup (update_cache cache (fresh_pairs P dec ?bv tm cache keys) keys) k =
        Mapping.lookup (update_cache cache (fresh_pairs P dec bv tm cache keys) keys) k"
      by (rule option_eqI) (simp add: lookup_new_cache assms in_fresh_pairs)
  qed
  have kept: "sort_key (read_order P) (filter (survives P (read_ops P dec ?bv tm cache keys)) (read_ops P dec ?bv tm cache keys)) =
      sort_key (read_order P) (filter (survives P (read_ops P dec bv tm cache keys)) (read_ops P dec bv tm cache keys))"
    unfolding survives_cong [OF e]
    by (rule sort_read_order_cong) (use r r' e in \<open>auto simp: hash_ok_def intro: inj_on_subset\<close>)
  show ?thesis
    unfolding read_verified_ops [OF assms(1,3,4)] read_verified_ops [OF assms(2) l' h'] g c
      collateral_cong [OF r(3) r'(3) e] outcome_def kept e
    by (simp add: dropped_cong [OF r(3) r'(3) e])
qed

theorem read_fetch_order_irrelevant_witness:
  "map_option (\<lambda>(r, c). (map_sum id (\<lambda>(v, q). (v, map qa_dropped_ops q)) r, c))
     (read_verified demo_prims demo_dec
        \<lparr>bv_list = \<lambda>_. Inr [''a'', ''b''], bv_get = \<lambda>k. if k = ''a'' then Inr [1, 1, 0] else Inr [1, 2, 0], bv_order = id\<rparr> ''t'' Mapping.empty) =
   map_option (\<lambda>(r, c). (map_sum id (\<lambda>(v, q). (v, map qa_dropped_ops q)) r, c))
     (read_verified demo_prims demo_dec
        \<lparr>bv_list = \<lambda>_. Inr [''a'', ''b''], bv_get = \<lambda>k. if k = ''a'' then Inr [1, 1, 0] else Inr [1, 2, 0], bv_order = rev\<rparr> ''t'' Mapping.empty)"
proof -
  let ?bv = "\<lparr>bv_list = \<lambda>_. Inr [''a'', ''b''], bv_get = \<lambda>k. if k = ''a'' then Inr [1, 1, 0] else Inr [1, 2, 0 :: byte], bv_order = id\<rparr>"
  have f: "fair ?bv" "fair (?bv\<lparr>bv_order := rev\<rparr>)" by (simp_all add: fair_def)
  have l: "bv_list ?bv (oplog_prefix ''t'') = Inr [''a'', ''b'']" by simp
  have "served demo_prims demo_dec ?bv ''t'' Mapping.empty [''a'', ''b''] \<subseteq> {demo_op 1 1 (replicate 32 0), demo_op 1 2 (replicate 32 0)}"
    by (auto simp: served_def lookup_empty demo_dec_def split: if_splits)
  then have h: "hash_ok demo_prims (served demo_prims demo_dec ?bv ''t'' Mapping.empty [''a'', ''b''])"
    by (rule hash_ok_mono [rotated]) (simp add: hash_ok_def genesis_simps)
  from read_fetch_order_irrelevant [OF f l h] show ?thesis by simp
qed

text \<open>From a cold cache the outage guard decides by half: a read of a listing fails exactly when a get failed
  and the failed gets, together with the ops the quarantine dropped of the authors they hit, are at least
  half of the listed objects. In particular a read in which no get failed never fails, and a read in which
  half of the gets failed always does.\<close>

theorem cold_read_fails_iff_half_lost:
  assumes "fair bv" and "bv_list bv (oplog_prefix tm) = Inr keys"
    and "hash_ok P (served P dec bv tm Mapping.empty keys)"
  defines "failed \<equiv> filter (\<lambda>k. isl (bv_get bv k)) keys"
  defines "lost \<equiv> length failed + collateral P (read_ops P dec bv tm Mapping.empty keys) (set failed)"
  shows "(\<exists>e c. read_verified P dec bv tm Mapping.empty = Some (Inl e, c)) \<longleftrightarrow> failed \<noteq> [] \<and> 2 * lost \<ge> length keys"
proof -
  have f: "failed_gets bv Mapping.empty keys = failed" by (simp add: failed_gets_def failed_def lookup_empty)
  have h: "hits Mapping.empty keys = []" by (simp add: hits_def lookup_empty)
  let ?c = "collateral P (read_ops P dec bv tm Mapping.empty keys) (set failed)"
  have le: "?c \<le> length (good_gets bv Mapping.empty keys)" using collateral_le_good [OF assms(1,3)] h by simp
  have all: "length keys = length (good_gets bv Mapping.empty keys) + length failed"
    using listed_split [of keys Mapping.empty bv] f h by simp
  have "?c = 0" if "failed = []" using that by (simp add: collateral_def)
  then have "systemic_outage 0 (length (good_gets bv Mapping.empty keys)) (length failed) ?c \<longleftrightarrow>
      failed \<noteq> [] \<and> 2 * lost \<ge> length keys"
    using le all by (auto simp: systemic_outage_def lost_def Let_def)
  then show ?thesis unfolding read_verified_ops [OF assms(1,2,3)] f h by auto
qed

theorem cold_read_fails_iff_half_lost_witness:
  "\<exists>e c. read_verified demo_prims demo_dec
       \<lparr>bv_list = \<lambda>_. Inr [''a'', ''b''], bv_get = \<lambda>k. if k = ''a'' then Inr [1, 1, 0] else Inl Io, bv_order = id\<rparr> ''t'' Mapping.empty = Some (Inl e, c)"
proof -
  let ?bv = "\<lparr>bv_list = \<lambda>_. Inr [''a'', ''b''], bv_get = \<lambda>k. if k = ''a'' then Inr [1, 1, 0 :: byte] else Inl Io, bv_order = id\<rparr>"
  have f: "fair ?bv" by (simp add: fair_def)
  have l: "bv_list ?bv (oplog_prefix ''t'') = Inr [''a'', ''b'']" by simp
  have "served demo_prims demo_dec ?bv ''t'' Mapping.empty [''a'', ''b''] \<subseteq> {demo_op 1 1 (replicate 32 0)}"
    by (auto simp: served_def lookup_empty demo_dec_def split: if_splits)
  then have h: "hash_ok demo_prims (served demo_prims demo_dec ?bv ''t'' Mapping.empty [''a'', ''b''])"
    by (rule hash_ok_mono [rotated]) (simp add: hash_ok_def genesis_simps)
  from cold_read_fails_iff_half_lost [OF f l h] show ?thesis by simp
qed

text \<open>With a warm cache the same guard lets the same loss through. Of four listed objects one get fails and
  orphans a second op, half of the listing: the cold read reports the outage, while a read whose cache
  holds the three other objects, each exactly as the bucket still serves it, returns the surviving
  minority, since the orphaned op is still counted as reached when it came from the cache.\<close>

theorem warm_cache_hides_outage:
  "\<exists>bv cache keys e c v q c'.
     fair bv \<and> bv_list bv (oplog_prefix ''t'') = Inr keys \<and> length keys = 4 \<and>
     cache_coherent demo_prims demo_dec bv ''t'' cache \<and>
     read_verified demo_prims demo_dec bv ''t'' Mapping.empty = Some (Inl e, c) \<and>
     read_verified demo_prims demo_dec bv ''t'' cache = Some (Inr (v, q), c') \<and> length (ops_of v) = 2"
proof (intro exI conjI)
  let ?cold = "read_ops demo_prims demo_dec outage_view ''t'' Mapping.empty outage_keys"
  let ?warm = "read_ops demo_prims demo_dec outage_view ''t'' outage_cache outage_keys"
  have l: "bv_list outage_view (oplog_prefix ''t'') = Inr outage_keys" by (simp add: outage_view_def)
  have hc: "hash_ok demo_prims (served demo_prims demo_dec outage_view ''t'' Mapping.empty outage_keys)"
    and hw: "hash_ok demo_prims (served demo_prims demo_dec outage_view ''t'' outage_cache outage_keys)"
    using outage_served outage_hash_ok by simp_all
  note c = read_ops_facts [OF outage_fair hc] and w = read_ops_facts [OF outage_fair hw]
  have wk: "length (sort_key (read_order demo_prims) (filter (survives demo_prims ?warm) ?warm)) = 2"
    using outage_survivors [of ?warm] w outage_served by simp
  have cc: "collateral demo_prims ?cold {outage_key 0} = 1" "collateral demo_prims ?warm {outage_key 0} = 1"
    using outage_collateral c w outage_served by simp_all
  show "fair outage_view" by (rule outage_fair)
  show "bv_list outage_view (oplog_prefix ''t'') = Inr outage_keys" by (rule l)
  show "length outage_keys = 4" by (simp add: outage_keys_def)
  show "cache_coherent demo_prims demo_dec outage_view ''t'' outage_cache"
    by (auto simp: cache_coherent_def outage_lookup outage_get outage_key_distinct split: if_splits)
  show "read_verified demo_prims demo_dec outage_view ''t'' Mapping.empty =
      Some (Inl (Storage ''a fetch fault cost at least half of the listed op-log objects''),
        update_cache Mapping.empty (fresh_pairs demo_prims demo_dec outage_view ''t'' Mapping.empty outage_keys) outage_keys)"
    unfolding read_verified_ops [OF outage_fair l hc]
    by (simp add: outage_counts systemic_outage_def cc)
  show "read_verified demo_prims demo_dec outage_view ''t'' outage_cache =
      Some (Inr (VerifiedOps (sort_key (read_order demo_prims) (filter (survives demo_prims ?warm) ?warm)),
          concat (map (report_of demo_prims ?warm) (sorted_list_of_set (op_author_key ` set ?warm)))),
        update_cache outage_cache (fresh_pairs demo_prims demo_dec outage_view ''t'' outage_cache outage_keys) outage_keys)"
    unfolding read_verified_ops [OF outage_fair l hw]
    by (simp add: outage_counts systemic_outage_def cc)
  show "length (ops_of (VerifiedOps (sort_key (read_order demo_prims) (filter (survives demo_prims ?warm) ?warm)))) = 2"
    using wk by simp
qed

text \<open>C36. Append and read round trip: from the in-memory backend to which honest writers appended their ops (each op
  valid for the team, each author one chain from genesis, no two ops sharing a key), a cold read returns
  exactly these ops, quarantines nobody, and caches every op under its own key, provided the codec
  decodes what it encoded.\<close>

theorem append_read_roundtrip:
  assumes "\<forall>x\<in>set ops. dec (enc x) = Some x" and "\<forall>x\<in>set ops. individually_valid P tm x"
    and "hash_ok P (set ops)" and "distinct ops" and "inj_on (oplog_object_key tm) (set ops)"
    and "\<forall>k. \<exists>q. linked P (set ops) GENESIS_PREV q \<and> set q = set (ops_by ops k)"
  shows "\<exists>m cache. append_all enc tm ops = Inr m \<and>
    read_verified P dec (memory.view m) tm Mapping.empty =
      Some (Inr (VerifiedOps (sort_key (read_order P) ops), []), cache) \<and>
    (\<forall>x\<in>set ops. Mapping.lookup cache (oplog_object_key tm x) = Some x)"
proof -
  obtain m where m: "append_all enc tm ops = Inr m" "mem_inv m"
    "\<forall>k b. mem_get m k = Inr b \<longleftrightarrow> (\<exists>x\<in>set ops. k = oplog_object_key tm x \<and> b = enc x)"
    using append_all_get [OF assms(5)] by blast
  let ?bv = "memory.view m"
  have f: "fair ?bv" by (simp add: fair_def memory.view_def)
  obtain keys where l: "bv_list ?bv (oplog_prefix tm) = Inr keys" by (simp add: memory.view_def mem_list_def)
  have keys: "set keys = oplog_object_key tm ` set ops"
    using memory.listing_exact [OF m(2), of "oplog_prefix tm" keys] l m(3) oplog_key_prefix
    by (auto simp: memory.view_def)
  have get: "bv_get ?bv (oplog_object_key tm x) = Inr (enc x)" if "x \<in> set ops" for x
    using that m(3) by (auto simp: memory.view_def)
  have s: "served P dec ?bv tm Mapping.empty keys = set ops"
    using assms(1,2) get by (force simp: served_def keys lookup_empty)
  have h: "hash_ok P (served P dec ?bv tm Mapping.empty keys)" using assms(3) s by simp
  note r = read_ops_facts [OF f h]
  let ?ops = "read_ops P dec ?bv tm Mapping.empty keys"
  have e: "set ?ops = set ops" using r(1) s by simp
  have chains: "\<forall>k. \<exists>q. linked P (set ?ops) GENESIS_PREV q \<and> set q = set (ops_by ?ops k)"
    using assms(6) e by simp
  have nofail: "failed_gets ?bv Mapping.empty keys = []"
    using get keys by (auto simp: failed_gets_def filter_empty_conv)
  have "read_verified P dec ?bv tm Mapping.empty =
      Some (Inr (VerifiedOps (sort_key (read_order P) ?ops), []),
        update_cache Mapping.empty (fresh_pairs P dec ?bv tm Mapping.empty keys) keys)"
    unfolding read_verified_ops [OF f l h] whole_chains_survive [OF r(2,3) chains] nofail
    by (simp add: systemic_outage_def collateral_def)
  moreover have "sort_key (read_order P) ?ops = sort_key (read_order P) ops"
    by (rule sort_read_order_cong) (use r e assms(4) in \<open>auto simp: hash_ok_def\<close>)
  moreover have "Mapping.lookup (update_cache Mapping.empty (fresh_pairs P dec ?bv tm Mapping.empty keys) keys) (oplog_object_key tm x) = Some x"
    if "x \<in> set ops" for x
    using that assms(1,2) get keys by (simp add: lookup_new_cache [OF f] in_fresh_pairs [OF f] lookup_empty)
  ultimately show ?thesis using m(1) by auto
qed

theorem append_read_roundtrip_witness:
  "\<exists>m cache. append_all demo_enc ''t'' [demo_op 1 1 (replicate 32 0), demo_op 1 2 (replicate 32 1)] = Inr m \<and>
    read_verified demo_prims demo_dec (memory.view m) ''t'' Mapping.empty =
      Some (Inr (VerifiedOps (sort_key (read_order demo_prims) [demo_op 1 1 (replicate 32 0), demo_op 1 2 (replicate 32 1)]), []), cache) \<and>
    Mapping.lookup cache (oplog_object_key ''t'' (demo_op 1 2 (replicate 32 1))) = Some (demo_op 1 2 (replicate 32 1))"
proof -
  let ?ops = "[demo_op 1 1 (replicate 32 0), demo_op 1 2 (replicate 32 1)]"
  have chains: "\<forall>k. \<exists>q. linked demo_prims (set ?ops) GENESIS_PREV q \<and> set q = set (ops_by ?ops k)"
  proof
    fix k
    show "\<exists>q. linked demo_prims (set ?ops) GENESIS_PREV q \<and> set q = set (ops_by ?ops k)"
      by (intro exI [of _ "if k = replicate 32 1 then ?ops else []"]) (auto simp: genesis_simps)
  qed
  have "\<exists>m cache. append_all demo_enc ''t'' ?ops = Inr m \<and>
    read_verified demo_prims demo_dec (memory.view m) ''t'' Mapping.empty =
      Some (Inr (VerifiedOps (sort_key (read_order demo_prims) ?ops), []), cache) \<and>
    (\<forall>x\<in>set ?ops. Mapping.lookup cache (oplog_object_key ''t'' x) = Some x)"
    by (rule append_read_roundtrip [OF _ _ _ _ _ chains]) (auto simp: hash_ok_def genesis_simps)
  then show ?thesis by (elim exE conjE) (intro exI conjI, assumption+, simp)
qed

end
