(* ===== verification/Oplog_Quarantine.thy ===== *)
theory Oplog_Quarantine
  imports Oplog_Read
begin

text \<open>
  Quarantine inspection and the guarded removal of a quarantined op (\<^verbatim>\<open>oplog/store.rs\<close>): the reachability
  walk returns and finds exactly the ops whose whole ancestor path is listed, the report lists exactly the
  ops the election drops with their class, and a removal deletes nothing a later read would miss.
\<close>

section \<open>Genesis reachability\<close>

definition rooted_op :: "prims \<Rightarrow> op set \<Rightarrow> op \<Rightarrow> bool" where
  "rooted_op P S x \<longleftrightarrow> (\<exists>p. linked P S GENESIS_PREV (p @ [x]))"

lemma rooted_op_root: "x \<in> S \<Longrightarrow> op_prev_op_hash x = GENESIS_PREV \<Longrightarrow> rooted_op P S x"
  unfolding rooted_op_def by (intro exI [of _ "[]"]) simp

lemma rooted_op_step:
  "rooted_op P S x \<Longrightarrow> y \<in> S \<Longrightarrow> op_prev_op_hash y = op_hash P x \<Longrightarrow> rooted_op P S y"
  unfolding rooted_op_def by (elim exE, rule_tac x = "p @ [x]" in exI) simp

lemma rooted_op_mem: "rooted_op P S x \<Longrightarrow> x \<in> S"
  by (auto simp: rooted_op_def)

lemma linked_hd: "linked P S h q \<Longrightarrow> q \<noteq> [] \<Longrightarrow> op_prev_op_hash (hd q) = h"
  by (cases q) auto

definition rooted_inv :: "prims \<Rightarrow> op list \<Rightarrow> nat list \<Rightarrow> blake3_hash set \<Rightarrow> bool" where
  "rooted_inv P chain stack R \<longleftrightarrow>
     (\<forall>i\<in>set stack. i < length chain \<and> rooted_op P (set chain) (chain ! i)) \<and>
     R \<subseteq> op_hash P ` {x. rooted_op P (set chain) x} \<and>
     (\<forall>y\<in>set chain. op_prev_op_hash y \<in> R \<longrightarrow> op_hash P y \<in> R \<union> (\<lambda>i. op_hash P (chain ! i)) ` set stack)"

lemma rooted_inv_skip:
  "rooted_inv P chain (i # stack) R \<Longrightarrow> op_hash P (chain ! i) \<in> R \<Longrightarrow> rooted_inv P chain stack R"
  by (auto simp: rooted_inv_def)

lemma rooted_inv_push:
  assumes "rooted_inv P chain (i # stack) R" and "hash_ok P (set chain)"
  shows "rooted_inv P chain (rev (kid_list chain (op_hash P (chain ! i))) @ stack) (insert (op_hash P (chain ! i)) R)"
proof -
  have i: "i < length chain" "rooted_op P (set chain) (chain ! i)" using assms(1) by (auto simp: rooted_inv_def)
  have "op_hash P y \<in> (\<lambda>i. op_hash P (chain ! i)) ` set (kid_list chain (op_hash P (chain ! i)))"
    if y: "y \<in> set chain" "op_prev_op_hash y = op_hash P (chain ! i)" for y
  proof -
    from y(1) obtain j where "j < length chain" "y = chain ! j" by (auto simp: in_set_conv_nth)
    with y(2) show ?thesis by auto
  qed
  moreover have "rooted_op P (set chain) (chain ! j)" if "j \<in> set (kid_list chain (op_hash P (chain ! i)))" for j
    using rooted_op_step [OF i(2), of "chain ! j"] that by simp
  ultimately show ?thesis using assms(1) i unfolding rooted_inv_def by (auto simp: image_Un)
qed

lemma rooted_loop_returns:
  assumes "hash_ok P (set chain)"
  shows "rooted_inv P chain stack R \<Longrightarrow>
    \<exists>R'. rooted_loop (index_by op_prev_op_hash chain) (map (op_hash P) chain) stack R = Some R' \<and>
      R \<subseteq> R' \<and> (\<lambda>i. op_hash P (chain ! i)) ` set stack \<subseteq> R' \<and> rooted_inv P chain [] R'"
proof (induction "card (op_hash P ` set chain - R)" arbitrary: stack R rule: less_induct)
  case less
  from less.prems show ?case
  proof (induction stack)
    case Nil
    then show ?case by (simp add: rooted_loop.simps)
  next
    case (Cons i stack)
    let ?h = "op_hash P (chain ! i)"
    have i: "i < length chain" using Cons.prems by (auto simp: rooted_inv_def)
    show ?case
    proof (cases "?h \<in> R")
      case True
      from Cons.IH [OF rooted_inv_skip [OF Cons.prems True]] True i show ?thesis
        by (subst rooted_loop.simps) auto
    next
      case False
      have "card (op_hash P ` set chain - insert ?h R) < card (op_hash P ` set chain - R)"
        using False i by (intro psubset_card_mono) auto
      from less.hyps [OF this rooted_inv_push [OF Cons.prems assms]] False i show ?thesis
        by (subst rooted_loop.simps) (auto simp: kids_of_index_by)
    qed
  qed
qed

lemma rooted_loop_exact:
  assumes "hash_ok P (set chain)"
  shows "rooted_loop (index_by op_prev_op_hash chain) (map (op_hash P) chain) (rev (kid_list chain GENESIS_PREV)) {} =
    Some (op_hash P ` {x. rooted_op P (set chain) x})"
proof -
  let ?k = "rev (kid_list chain GENESIS_PREV)"
  have "rooted_inv P chain ?k {}" by (auto simp: rooted_inv_def intro: rooted_op_root)
  from rooted_loop_returns [OF assms this] obtain R where
    R: "rooted_loop (index_by op_prev_op_hash chain) (map (op_hash P) chain) ?k {} = Some R"
    "(\<lambda>i. op_hash P (chain ! i)) ` set ?k \<subseteq> R" "rooted_inv P chain [] R" by blast
  have "linked P (set chain) GENESIS_PREV p \<Longrightarrow> op_hash P ` set p \<subseteq> R" for p
  proof (induction p rule: rev_induct)
    case (snoc x p)
    then have x: "x \<in> set chain" "op_prev_op_hash x = tip P GENESIS_PREV p" "op_hash P ` set p \<subseteq> R" by auto
    have "op_hash P x \<in> R"
    proof (cases "p = []")
      case True
      obtain j where "j < length chain" "x = chain ! j" using x(1) by (auto simp: in_set_conv_nth)
      with True x R(2) show ?thesis by auto
    next
      case False
      then have "op_prev_op_hash x \<in> R" using x by (auto simp: tip_snoc)
      with x(1) R(3) show ?thesis by (auto simp: rooted_inv_def)
    qed
    with x(3) show ?case by simp
  qed simp
  note path = this
  have "op_hash P x \<in> R" if "rooted_op P (set chain) x" for x
    using that path unfolding rooted_op_def by (metis image_subset_iff in_set_conv_decomp)
  then have "op_hash P ` {x. rooted_op P (set chain) x} \<subseteq> R" by blast
  with R show ?thesis by (auto simp: rooted_inv_def)
qed

section \<open>Removing dropped ops\<close>

lemma reached_mono: "reached P T h \<Longrightarrow> T \<subseteq> S \<Longrightarrow> reached P S h"
  using linked_mono [of P T GENESIS_PREV _ S] unfolding reached_def by blast

lemma span_mono:
  assumes "hash_ok P S" and "finite S" and "T \<subseteq> S" and "reached P T h"
  shows "span P T h \<le> span P S h"
proof -
  have T: "hash_ok P T" "finite T" using assms hash_ok_mono finite_subset by blast+
  obtain q where q: "linked P T h q" "length q = span P T h" using span_attained [OF T assms(4)] .
  from span_ge [OF assms(1,2) reached_mono [OF assms(4,3)] linked_mono [OF q(1) assms(3)]] q(2) show ?thesis by simp
qed

text \<open>The elected path survives the removal of anything off it.\<close>

lemma elected_shrink:
  assumes "hash_ok P S" and "finite S" and "T \<subseteq> S"
  shows "elected P S h q \<Longrightarrow> reached P T h \<Longrightarrow> set q \<subseteq> T \<Longrightarrow> elected P T h q"
proof (induction q arbitrary: h)
  case Nil
  then show ?case using assms(3) by auto
next
  case (Cons x q)
  have T: "hash_ok P T" "finite T" using assms hash_ok_mono finite_subset by blast+
  have rx: "reached P T (op_hash P x)" using Cons.prems by (auto intro: reached_step)
  have e: "elected P T (op_hash P x) q" using Cons rx by simp
  have sx: "span P T (op_hash P x) = span P S (op_hash P x)"
    using elected_longest [OF T rx e] elected_longest [OF assms(1,2) reached_mono [OF rx assms(3)]] Cons.prems(1) by simp
  have "prefers P T x y" if y: "y \<in> T" "op_prev_op_hash y = h" for y
  proof -
    have "span P T (op_hash P y) \<le> span P S (op_hash P y)"
      using span_mono [OF assms reached_step [OF Cons.prems(2) y]] .
    moreover have "prefers P S x y" using Cons.prems(1) y assms(3) by auto
    ultimately show ?thesis using sx by (auto simp: prefers_def)
  qed
  with Cons.prems e show ?case by auto
qed

lemma branch_shrink:
  assumes "hash_ok P (set ops)" and "distinct ops" and "distinct ops'" and "set ops' \<subseteq> set ops"
    and "set (branch P ops k) \<subseteq> set ops'"
  shows "branch P ops' k = branch P ops k"
proof -
  have ok': "hash_ok P (set ops')" using assms(1,4) by (rule hash_ok_mono)
  have sub: "set (branch P ops k) \<subseteq> set (ops_by ops' k)" using assms(5) branch_subset [OF assms(1,2)] by auto
  have "elected P (set (ops_by ops' k)) GENESIS_PREV (branch P ops k)"
    by (rule elected_shrink [OF hash_ok_by [OF assms(1)] _ _ branch_elected(1) [OF assms(1,2)] reached_genesis sub])
      (use assms(4) in auto)
  then show ?thesis using elected_unique [OF hash_ok_by [OF ok']] branch_elected(1) [OF ok' assms(3)] by blast
qed

text \<open>An op nobody names as predecessor takes nobody's ancestor path away.\<close>

lemma rooted_shrink:
  assumes "rooted_op P S y" and "y \<noteq> x" and "\<forall>z\<in>S. op_prev_op_hash z \<noteq> op_hash P x"
  shows "rooted_op P (S - {x}) y"
proof -
  from assms(1) obtain p where p: "linked P S GENESIS_PREV (p @ [y])" by (auto simp: rooted_op_def)
  have "x \<notin> set p"
  proof
    assume "x \<in> set p"
    then obtain a b where "p = a @ x # b" by (auto simp: in_set_conv_decomp)
    with p have "linked P S (op_hash P x) (b @ [y])" by simp
    then show False using assms(3) by (cases b) auto
  qed
  then have "linked P (S - {x}) GENESIS_PREV (p @ [y])"
    using linked_own [OF p, of "S - {x}"] linked_subset [OF p] assms(2) by auto
  then show ?thesis unfolding rooted_op_def by blast
qed

section \<open>The report\<close>

definition drop_record :: "prims \<Rightarrow> op set \<Rightarrow> string \<Rightarrow> op \<Rightarrow> dropped_op" where
  "drop_record P S key x =
     \<lparr>do_object_key = key, do_lamport = op_lamport x, do_op_id = op_id x, do_op_hash = op_hash P x,
      do_prev_op_hash = op_prev_op_hash x, do_class = (if rooted_op P S x then ForkLoser else GapOrphan),
      do_has_listed_children = (\<exists>y\<in>S. op_prev_op_hash y = op_hash P x)\<rparr>"

abbreviation author_idxs :: "(string \<times> op) list \<Rightarrow> verifying_key \<Rightarrow> nat list" where
  "author_idxs pairs k \<equiv> filter (\<lambda>i. op_author_key (snd (pairs ! i)) = k) [0..<length pairs]"

lemma author_chain: "map (\<lambda>i. snd (pairs ! i)) (author_idxs pairs k) = ops_by (map snd pairs) k"
proof -
  have "map (\<lambda>i. snd (pairs ! i)) (author_idxs pairs k) = map snd (map ((!) pairs) (author_idxs pairs k))" by simp
  also have "\<dots> = map snd (filter (\<lambda>p. op_author_key (snd p) = k) pairs)"
    by (simp only: map_nth_filter [where Q = "\<lambda>p. op_author_key (snd p) = k"])
  finally show ?thesis by (simp add: filter_map comp_def)
qed

lemma author_pair:
  assumes "loc < length (ops_by (map snd pairs) k)"
  shows "pairs ! (author_idxs pairs k ! loc) = (fst (pairs ! (author_idxs pairs k ! loc)), ops_by (map snd pairs) k ! loc)"
    and "pairs ! (author_idxs pairs k ! loc) \<in> set pairs"
proof -
  have len: "length (author_idxs pairs k) = length (ops_by (map snd pairs) k)"
    by (metis author_chain length_map)
  have "ops_by (map snd pairs) k ! loc = snd (pairs ! (author_idxs pairs k ! loc))"
    using assms len by (subst author_chain [symmetric]) simp
  then show "pairs ! (author_idxs pairs k ! loc) = (fst (pairs ! (author_idxs pairs k ! loc)), ops_by (map snd pairs) k ! loc)"
    by (simp add: prod_eq_iff)
  have "author_idxs pairs k ! loc \<in> set (author_idxs pairs k)" by (rule nth_mem) (simp only: len assms)
  then show "pairs ! (author_idxs pairs k ! loc) \<in> set pairs" by simp
qed

lemma dropped_at_record:
  assumes "hash_ok P (set (ops_by (map snd pairs) k))" and "loc < length (ops_by (map snd pairs) k)"
  shows "dropped_at pairs (author_idxs pairs k) (ops_by (map snd pairs) k) (map (op_hash P) (ops_by (map snd pairs) k))
      (index_by op_prev_op_hash (ops_by (map snd pairs) k))
      (op_hash P ` {x. rooted_op P (set (ops_by (map snd pairs) k)) x}) loc =
    drop_record P (set (ops_by (map snd pairs) k)) (fst (pairs ! (author_idxs pairs k ! loc))) (ops_by (map snd pairs) k ! loc)"
proof -
  define chain where "chain = ops_by (map snd pairs) k"
  have l: "loc < length chain" using assms(2) by (simp add: chain_def)
  then have x: "chain ! loc \<in> set chain" by (rule nth_mem)
  have ok: "hash_ok P (set chain)" using assms(1) by (simp add: chain_def)
  have "op_hash P (chain ! loc) \<in> op_hash P ` {x. rooted_op P (set chain) x} \<longleftrightarrow> rooted_op P (set chain) (chain ! loc)"
    using hash_ok_inj [OF ok x] rooted_op_mem by blast
  moreover have "Mapping.lookup (index_by op_prev_op_hash chain) (op_hash P (chain ! loc)) \<noteq> None \<longleftrightarrow>
      (\<exists>y\<in>set chain. op_prev_op_hash y = op_hash P (chain ! loc))"
    by (auto simp: lookup_index_by Let_def index_by_filter_Nil image_iff)
  ultimately show ?thesis
    unfolding chain_def [symmetric] using l by (simp add: dropped_at_def drop_record_def)
qed

lemma detail_for_author:
  fixes P pairs k
  defines "ops \<equiv> map snd pairs"
  assumes "hash_ok P (set ops)" and "distinct ops"
  shows "(if length (branch P ops k) = length (ops_by ops k)
     then quarantine_detail_for_author P pairs (author_idxs pairs k) = Some None
     else \<exists>d. quarantine_detail_for_author P pairs (author_idxs pairs k) = Some (Some d) \<and>
        qd_author d = op_author (ops_by ops k ! 0) \<and>
        set (qd_dropped d) = (\<lambda>(key, x). drop_record P (set (ops_by ops k)) key x) `
          {(key, x) \<in> set pairs. op_author_key x = k \<and> \<not> survives P ops x})"
proof -
  let ?chain = "ops_by ops k" and ?b = "branch P ops k"
  have ok: "hash_ok P (set ?chain)" using assms(2) by (rule hash_ok_by)
  note lr = branch_elected(2) [OF assms(2,3), of k] and cb = card_branch [OF assms(2,3), of k]
  have in_kept: "op_hash P (?chain ! loc) \<in> op_hash P ` set ?b \<longleftrightarrow> ?chain ! loc \<in> set ?b" if "loc < length ?chain" for loc
    using hash_ok_inj [OF assms(2)] branch_subset [OF assms(2,3)] nth_mem [OF that] by auto
  let ?rec = "\<lambda>loc. drop_record P (set ?chain) (fst (pairs ! (author_idxs pairs k ! loc))) (?chain ! loc)"
  let ?locs = "filter (\<lambda>loc. map (op_hash P) ?chain ! loc \<notin> op_hash P ` set ?b) [0..<length ?chain]"
  have dr: "map (dropped_at pairs (author_idxs pairs k) ?chain (map (op_hash P) ?chain) (index_by op_prev_op_hash ?chain)
      (op_hash P ` {x. rooted_op P (set ?chain) x})) ?locs = map ?rec ?locs"
    using dropped_at_record [where P = P and pairs = pairs and k = k] ok unfolding ops_def by (intro map_cong) auto
  have recs: "?rec ` set ?locs = (\<lambda>(key, x). drop_record P (set ?chain) key x) `
      {(key, x) \<in> set pairs. op_author_key x = k \<and> \<not> survives P ops x}" (is "?L = ?R")
  proof (intro equalityI subsetI)
    fix d
    assume "d \<in> ?L"
    then obtain loc where loc: "loc < length ?chain" "?chain ! loc \<notin> set ?b" "d = ?rec loc" using in_kept by auto
    have "?chain ! loc \<in> set ?chain" using loc(1) by (rule nth_mem)
    with loc author_pair [where loc = loc and pairs = pairs and k = k, folded ops_def] show "d \<in> ?R"
      by (auto simp: survives_def intro!: rev_image_eqI [of "(fst (pairs ! (author_idxs pairs k ! loc)), ?chain ! loc)"])
  next
    fix d
    assume "d \<in> ?R"
    then obtain key x where x: "(key, x) \<in> set pairs" "op_author_key x = k" "\<not> survives P ops x"
      "d = drop_record P (set ?chain) key x" by auto
    then obtain i where i: "i < length pairs" "pairs ! i = (key, x)" by (auto simp: in_set_conv_nth)
    then have "i \<in> set (author_idxs pairs k)" using x by simp
    then obtain loc where loc: "loc < length (author_idxs pairs k)" "author_idxs pairs k ! loc = i" by (meson in_set_conv_nth)
    then have l: "loc < length ?chain" unfolding ops_def by (metis author_chain length_map)
    have "?chain ! loc = x" using author_pair(1) [where loc = loc and pairs = pairs and k = k, folded ops_def, OF l] loc(2) i(2) by simp
    moreover have "x \<notin> set ?b" using x by (simp add: survives_def)
    ultimately show "d \<in> ?L" using l loc i x in_kept [OF l] by (intro rev_image_eqI [of loc]) auto
  qed
  show ?thesis
  proof (cases "length ?b = length ?chain")
    case True
    then show ?thesis
      unfolding quarantine_detail_for_author_def author_chain [of pairs k, folded ops_def] Let_def lr cb by (simp add: cb)
  next
    case False
    let ?drops = "map (dropped_at pairs (author_idxs pairs k) ?chain (map (op_hash P) ?chain) (index_by op_prev_op_hash ?chain)
      (op_hash P ` {x. rooted_op P (set ?chain) x})) ?locs"
    have "\<exists>d. quarantine_detail_for_author P pairs (author_idxs pairs k) = Some (Some d) \<and>
        qd_author d = op_author (?chain ! 0) \<and> qd_dropped d = sort_key (\<lambda>d. (do_lamport d, do_op_id d, do_op_hash d)) ?drops"
      unfolding quarantine_detail_for_author_def author_chain [of pairs k, folded ops_def] Let_def lr
      using False by (simp add: rooted_loop_exact [OF ok] kids_of_index_by cb del: set_filter)
    then obtain d where d: "quarantine_detail_for_author P pairs (author_idxs pairs k) = Some (Some d)"
      "qd_author d = op_author (?chain ! 0)" "qd_dropped d = sort_key (\<lambda>d. (do_lamport d, do_op_id d, do_op_hash d)) ?drops"
      by blast
    have "set (sort_key g ?drops) = (\<lambda>(key, x). drop_record P (set ?chain) key x) `
        {(key, x) \<in> set pairs. op_author_key x = k \<and> \<not> survives P ops x}" for g :: "dropped_op \<Rightarrow> u64 \<times> ulid \<times> blake3_hash"
      unfolding dr set_sort set_map recs ..
    then have "set (qd_dropped d) = (\<lambda>(key, x). drop_record P (set ?chain) key x) `
        {(key, x) \<in> set pairs. op_author_key x = k \<and> \<not> survives P ops x}" unfolding d(3) .
    with d(1,2) show ?thesis unfolding if_not_P [OF False] by blast
  qed
qed

lemma collect_details_some: "collect_details (map (\<lambda>k. Some (f k)) ks) = Some (List.map_filter f ks)"
  by (induction ks) (auto simp: List.map_filter_simps split: option.splits)

lemma branch_short_iff:
  assumes "hash_ok P (set ops)" and "distinct ops"
  shows "length (branch P ops k) = length (ops_by ops k) \<longleftrightarrow> (\<forall>x\<in>set ops. op_author_key x = k \<longrightarrow> survives P ops x)"
proof
  assume "length (branch P ops k) = length (ops_by ops k)"
  then have "report_of P ops k = []" by (simp add: report_of_def)
  then show "\<forall>x\<in>set ops. op_author_key x = k \<longrightarrow> survives P ops x" using no_report_survives [OF assms] by blast
next
  assume all: "\<forall>x\<in>set ops. op_author_key x = k \<longrightarrow> survives P ops x"
  then have "ops_by (filter (survives P ops) ops) k = ops_by ops k" by (auto intro: filter_cong)
  then show "length (branch P ops k) = length (ops_by ops k)" using length_survivors [OF assms, of k] by simp
qed

lemma quarantine_details_spec:
  fixes P pairs
  defines "ops \<equiv> map snd pairs"
  assumes "hash_ok P (set ops)" and "distinct ops"
  shows "\<exists>ds. quarantine_details P pairs = Some ds \<and>
    (\<forall>d\<in>set ds. \<exists>k\<in>op_author_key ` set ops. qd_author d = op_author (ops_by ops k ! 0) \<and>
       set (qd_dropped d) = (\<lambda>(key, x). drop_record P (set (ops_by ops k)) key x) `
          {(key, x) \<in> set pairs. op_author_key x = k \<and> \<not> survives P ops x}) \<and>
    (\<Union>d\<in>set ds. set (qd_dropped d)) =
      (\<lambda>(key, x). drop_record P (set (ops_by ops (op_author_key x))) key x) ` {(key, x) \<in> set pairs. \<not> survives P ops x}"
proof -
  let ?K = "op_author_key ` set ops"
  define f where "f k = the (quarantine_detail_for_author P pairs (author_idxs pairs k))" for k
  note one = detail_for_author [where P = P and pairs = pairs, folded ops_def, OF assms(2,3)]
  have def: "quarantine_detail_for_author P pairs (author_idxs pairs k) = Some (f k)" for k
    using one [of k] unfolding f_def by (auto split: if_splits)
  have K: "(\<lambda>p. op_author_key (snd p)) ` set pairs = ?K" by (auto simp: ops_def image_image)
  have lk: "the (Mapping.lookup (index_by (\<lambda>p. op_author_key (snd p)) pairs) k) = author_idxs pairs k" if "k \<in> ?K" for k
    using that index_by_filter_Nil [where f = "\<lambda>p. op_author_key (snd p)" and xs = pairs] unfolding K [symmetric]
    by (simp add: lookup_index_by Let_def)
  have ds: "quarantine_details P pairs = Some (List.map_filter f (sorted_list_of_set ?K))"
    unfolding quarantine_details_def Let_def ordered_keys_index_by K collect_details_some [symmetric]
    by (intro arg_cong [of _ _ collect_details] map_cong) (simp_all add: lk def)
  have f: "f k = Some d \<Longrightarrow> qd_author d = op_author (ops_by ops k ! 0) \<and>
      set (qd_dropped d) = (\<lambda>(key, x). drop_record P (set (ops_by ops k)) key x) `
        {(key, x) \<in> set pairs. op_author_key x = k \<and> \<not> survives P ops x}" for k d
    using one [of k] def [of k] by (auto split: if_splits)
  have covered: "\<exists>d. f k = Some d" if "(key, x) \<in> set pairs" "\<not> survives P ops x" "op_author_key x = k" for k key x
  proof -
    have "x \<in> set ops" using that(1) by (force simp: ops_def)
    with that branch_short_iff [OF assms(2,3), of k] have "length (branch P ops k) \<noteq> length (ops_by ops k)" by blast
    with one [of k] def [of k] show ?thesis by auto
  qed
  let ?rec = "\<lambda>(key, x). drop_record P (set (ops_by ops (op_author_key x))) key x"
  have same: "(\<lambda>(key, x). drop_record P (set (ops_by ops k)) key x) ` {(key, x) \<in> set pairs. op_author_key x = k \<and> \<not> survives P ops x} =
      ?rec ` {(key, x) \<in> set pairs. op_author_key x = k \<and> \<not> survives P ops x}" for k
    by (rule image_cong) auto
  have "(\<Union>d\<in>set (List.map_filter f (sorted_list_of_set ?K)). set (qd_dropped d)) =
      ?rec ` {(key, x) \<in> set pairs. \<not> survives P ops x}" (is "?L = ?R")
  proof (intro equalityI subsetI)
    fix r
    assume "r \<in> ?L"
    then obtain k d where "f k = Some d" "r \<in> set (qd_dropped d)" by (auto simp: in_map_filter)
    with f [of k d] have "r \<in> ?rec ` {(key, x) \<in> set pairs. op_author_key x = k \<and> \<not> survives P ops x}"
      unfolding same by blast
    then show "r \<in> ?R" by blast
  next
    fix r
    assume "r \<in> ?R"
    then obtain key x where x: "(key, x) \<in> set pairs" "\<not> survives P ops x" "r = ?rec (key, x)" by blast
    obtain d where d: "f (op_author_key x) = Some d" using covered [OF x(1,2) refl] by blast
    have "r \<in> set (qd_dropped d)" using f [OF d] x unfolding same by blast
    moreover have "op_author_key x \<in> ?K" using x(1) by (force simp: ops_def)
    then have "d \<in> set (List.map_filter f (sorted_list_of_set ?K))" using d unfolding in_map_filter by auto
    ultimately show "r \<in> ?L" by blast
  qed
  moreover have "\<forall>d\<in>set (List.map_filter f (sorted_list_of_set ?K)). \<exists>k\<in>?K. qd_author d = op_author (ops_by ops k ! 0) \<and>
       set (qd_dropped d) = (\<lambda>(key, x). drop_record P (set (ops_by ops k)) key x) `
          {(key, x) \<in> set pairs. op_author_key x = k \<and> \<not> survives P ops x}"
    using f by (force simp: in_map_filter)
  ultimately show ?thesis using ds by blast
qed

section \<open>The strict read\<close>

definition strict_pairs :: "prims \<Rightarrow> (bytes \<Rightarrow> op option) \<Rightarrow> blob_view \<Rightarrow> string \<Rightarrow> op_cache \<Rightarrow> string list \<Rightarrow> (string \<times> op) list" where
  "strict_pairs P dec bv tm cache keys =
     snd (foldl (dedup_step P snd) ({}, []) (sort_key fst (cached_list cache keys @ fresh_pairs P dec bv tm cache keys)))"

lemma read_strict_eq:
  assumes "fair bv" and "bv_list bv (oplog_prefix tm) = Inr keys"
  shows "read_listed_pairs_strict P dec bv tm cache =
    (if failed_gets bv cache keys = []
     then (Inr \<lparr>sv_listed_keys = keys, sv_pairs = strict_pairs P dec bv tm cache keys\<rparr>,
           update_cache cache (fresh_pairs P dec bv tm cache keys) keys)
     else (Inl (Storage ''quarantine inspection needs a complete view of the listed op-log''), cache))"
proof -
  have "failed_of (fetch_bytes bv (uncached cache keys)) = [] \<longleftrightarrow> failed_gets bv cache keys = []"
    using mset_failed_of [OF assms(1), of cache keys] by (metis mset_zero_iff)
  then show ?thesis
    by (simp add: read_listed_pairs_strict_def assms(2) partition_cached_eq collect_strict_eq strict_pairs_def
        cached_list_def fresh_pairs_def Let_def)
qed

lemma strict_pairs_facts:
  assumes "fair bv"
  shows "distinct (map snd (strict_pairs P dec bv tm cache keys))"
    and "inj_on (op_hash P) (set (map snd (strict_pairs P dec bv tm cache keys)))"
    and "snd ` set (strict_pairs P dec bv tm cache keys) \<subseteq> served P dec bv tm cache keys"
    and "(k, x) \<in> set (strict_pairs P dec bv tm cache keys) \<Longrightarrow> (k, y) \<in> set (strict_pairs P dec bv tm cache keys) \<Longrightarrow> x = y"
    and "inj_on (op_hash P) (served P dec bv tm cache keys) \<Longrightarrow>
      snd ` set (strict_pairs P dec bv tm cache keys) = served P dec bv tm cache keys"
proof -
  let ?all = "cached_list cache keys @ fresh_pairs P dec bv tm cache keys"
  let ?p = "strict_pairs P dec bv tm cache keys"
  note d = dedup_pairs [of P snd "sort_key fst ?all", folded strict_pairs_def]
  have "distinct (map (op_hash P) (map snd ?p))" using d(1) by (simp add: comp_def)
  then show "distinct (map snd ?p)" "inj_on (op_hash P) (set (map snd ?p))"
    unfolding distinct_map [of "op_hash P"] by blast+
  have sub: "set ?p \<subseteq> set ?all" using d(2) by simp
  have all: "snd ` set ?all = served P dec bv tm cache keys"
    using set_candidates [OF assms, of P dec tm cache keys] by (auto simp: candidates_def)
  show s: "snd ` set ?p \<subseteq> served P dec bv tm cache keys" using sub all by blast
  show "(k, x) \<in> set ?p \<Longrightarrow> (k, y) \<in> set ?p \<Longrightarrow> x = y"
    using subsetD [OF sub, of "(k, x)"] subsetD [OF sub, of "(k, y)"]
    by (auto simp: in_cached_list in_fresh_pairs [OF assms])
  have "op_hash P ` (snd ` set ?p) = op_hash P ` (snd ` set ?all)" using d(3) by (simp add: image_image)
  with all s show "snd ` set ?p = served P dec bv tm cache keys" if "inj_on (op_hash P) (served P dec bv tm cache keys)"
    using that by (simp add: inj_on_image_eq_iff)
qed

section \<open>Removal verdicts\<close>

lemma removal_verdict_Inr:
  assumes "removal_verdict view okey ds = Inr rd"
  shows "\<exists>d\<in>set ds. rd_dropped rd \<in> set (qd_dropped d) \<and> do_object_key (rd_dropped rd) = okey \<and>
    do_class (rd_dropped rd) = ForkLoser \<and> \<not> do_has_listed_children (rd_dropped rd) \<and>
    (\<exists>x. (okey, x) \<in> set (sv_pairs view) \<and> rd_author_key_suffix rd = ''_'' @ key_to_hex (op_author_key x)) \<and>
    rd_author_listed_keys rd = keys_with_suffix (sv_listed_keys view) (rd_author_key_suffix rd)"
  using assms
proof (induction ds)
  case (Cons d ds)
  show ?case
  proof (cases "List.find (\<lambda>d. do_object_key d = okey) (qd_dropped d)")
    case None
    with Cons show ?thesis by auto
  next
    case (Some r)
    then have r: "r \<in> set (qd_dropped d)" "do_object_key r = okey" by (auto simp: find_Some_iff)
    have cls: "do_class r = ForkLoser" "\<not> do_has_listed_children r"
      using Cons.prems Some by (auto split: drop_class.splits if_splits)
    obtain k x where kx: "List.find (\<lambda>(key, _). key = okey) (sv_pairs view) = Some (k, x)"
      using Cons.prems Some cls by (auto split: option.splits)
    then have x: "(okey, x) \<in> set (sv_pairs view)" by (auto simp: find_Some_iff in_set_conv_nth)
    have rd: "rd_dropped rd = r" "do_class r = ForkLoser" "\<not> do_has_listed_children r"
        "rd_author_key_suffix rd = ''_'' @ key_to_hex (op_author_key x)"
        "rd_author_listed_keys rd = keys_with_suffix (sv_listed_keys view) (rd_author_key_suffix rd)"
      using Cons.prems Some cls kx by (auto simp: Let_def)
    with r x show ?thesis by auto
  qed
qed simp

text \<open>The verdict names the op at the key, as the same read served it.\<close>

lemma removable_drop_spec:
  assumes "removable_drop P dec bv tm okey cache = Some (Inr rd, c)" and "fair bv"
  shows "\<exists>view x. read_listed_pairs_strict P dec bv tm (Mapping.delete okey cache) = (Inr view, c) \<and>
    (okey, x) \<in> set (sv_pairs view) \<and> rd_author_key_suffix rd = ''_'' @ key_to_hex (op_author_key x) \<and>
    rd_author_listed_keys rd = keys_with_suffix (sv_listed_keys view) (rd_author_key_suffix rd) \<and>
    (let ops = map snd (sv_pairs view) in
      GENESIS_PREV \<notin> op_hash P ` set ops \<longrightarrow>
      hash_ok P (set ops) \<and> distinct ops \<and> rd_dropped rd = drop_record P (set (ops_by ops (op_author_key x))) okey x \<and>
      \<not> survives P ops x \<and> rooted_op P (set (ops_by ops (op_author_key x))) x \<and>
      (\<forall>y\<in>set (ops_by ops (op_author_key x)). op_prev_op_hash y \<noteq> op_hash P x))"
proof -
  let ?cache = "Mapping.delete okey cache"
  obtain view where v: "read_listed_pairs_strict P dec bv tm ?cache = (Inr view, c)"
    using assms(1) by (auto simp: removable_drop_def split: prod.splits sum.splits)
  then obtain ds where ds: "quarantine_details P (sv_pairs view) = Some ds" "removal_verdict view okey ds = Inr rd"
    using assms(1) by (auto simp: removable_drop_def)
  obtain keys where keys: "bv_list bv (oplog_prefix tm) = Inr keys"
    using v by (cases "bv_list bv (oplog_prefix tm)") (auto simp: read_listed_pairs_strict_def)
  have view: "sv_pairs view = strict_pairs P dec bv tm ?cache keys"
    using v unfolding read_strict_eq [OF assms(2) keys] by (auto split: if_splits)
  note pf = strict_pairs_facts [OF assms(2), where P = P and dec = dec and tm = tm and cache = ?cache and keys = keys, folded view]
  from removal_verdict_Inr [OF ds(2)] obtain d x where
    d: "d \<in> set ds" "rd_dropped rd \<in> set (qd_dropped d)" "do_object_key (rd_dropped rd) = okey"
    "do_class (rd_dropped rd) = ForkLoser" "\<not> do_has_listed_children (rd_dropped rd)"
    and x: "(okey, x) \<in> set (sv_pairs view)" "rd_author_key_suffix rd = ''_'' @ key_to_hex (op_author_key x)"
    "rd_author_listed_keys rd = keys_with_suffix (sv_listed_keys view) (rd_author_key_suffix rd)" by blast
  let ?ops = "map snd (sv_pairs view)"
  have "hash_ok P (set ?ops) \<and> distinct ?ops \<and> rd_dropped rd = drop_record P (set (ops_by ?ops (op_author_key x))) okey x \<and>
      \<not> survives P ?ops x \<and> rooted_op P (set (ops_by ?ops (op_author_key x))) x \<and>
      (\<forall>y\<in>set (ops_by ?ops (op_author_key x)). op_prev_op_hash y \<noteq> op_hash P x)"
    if g: "GENESIS_PREV \<notin> op_hash P ` set ?ops"
  proof -
    have ok: "hash_ok P (set ?ops)" using g pf(2) by (simp add: hash_ok_def)
    have "(\<Union>d\<in>set ds. set (qd_dropped d)) = (\<lambda>(key, x). drop_record P (set (ops_by ?ops (op_author_key x))) key x) `
        {(key, x) \<in> set (sv_pairs view). \<not> survives P ?ops x}"
      using quarantine_details_spec [OF ok pf(1)] ds(1) by (elim exE conjE) (simp only: option.inject)
    then have "rd_dropped rd \<in> (\<lambda>(key, x). drop_record P (set (ops_by ?ops (op_author_key x))) key x) `
        {(key, x) \<in> set (sv_pairs view). \<not> survives P ?ops x}"
      using d(1,2) by blast
    then obtain key y where y: "(key, y) \<in> set (sv_pairs view)" "\<not> survives P ?ops y"
      "rd_dropped rd = drop_record P (set (ops_by ?ops (op_author_key y))) key y" by (auto simp del: set_filter)
    with d(3) have "key = okey" by (simp add: drop_record_def)
    with y(1) x(1) have "y = x" using pf(4) by blast
    with y \<open>key = okey\<close> d(4,5) ok pf(1) show ?thesis by (auto simp: drop_record_def split: if_splits)
  qed
  then show ?thesis using v x unfolding Let_def by blast
qed

lemma removal_verdict_complete:
  assumes "\<forall>d\<in>set ds. \<forall>r\<in>set (qd_dropped d). do_object_key r = okey \<longrightarrow> r = r0"
    and "\<exists>d\<in>set ds. r0 \<in> set (qd_dropped d)" and "do_object_key r0 = okey"
    and "do_class r0 = ForkLoser" and "\<not> do_has_listed_children r0"
    and "(okey, x) \<in> set (sv_pairs view)" and "\<forall>y. (okey, y) \<in> set (sv_pairs view) \<longrightarrow> y = x"
  shows "\<exists>rd. removal_verdict view okey ds = Inr rd \<and> rd_dropped rd = r0 \<and>
    rd_author_key_suffix rd = ''_'' @ key_to_hex (op_author_key x) \<and>
    rd_author_listed_keys rd = keys_with_suffix (sv_listed_keys view) (rd_author_key_suffix rd)"
  using assms(1,2)
proof (induction ds)
  case (Cons d ds)
  obtain k where k: "List.find (\<lambda>(key, _). key = okey) (sv_pairs view) = Some (k, x)"
  proof (cases "List.find (\<lambda>(key, _). key = okey) (sv_pairs view)")
    case None
    with assms(6) show ?thesis by (auto simp: find_None_iff)
  next
    case (Some p)
    then have "p \<in> set (sv_pairs view)" "fst p = okey" by (auto simp: find_Some_iff in_set_conv_nth)
    with assms(7) Some that show ?thesis by (cases p) auto
  qed
  show ?case
  proof (cases "List.find (\<lambda>d. do_object_key d = okey) (qd_dropped d)")
    case None
    then have "r0 \<notin> set (qd_dropped d)" using assms(3) by (auto simp: find_None_iff)
    with Cons None show ?thesis by auto
  next
    case (Some r)
    then have "r \<in> set (qd_dropped d)" "do_object_key r = okey" by (auto simp: find_Some_iff in_set_conv_nth)
    with Cons.prems(1) have "r = r0" by auto
    with Some k assms(4,5) show ?thesis by (simp add: Let_def)
  qed
qed simp

lemma removable_drop_complete:
  fixes P dec bv tm okey cache keys x
  defines "pairs \<equiv> strict_pairs P dec bv tm (Mapping.delete okey cache) keys"
  defines "S \<equiv> set (ops_by (map snd pairs) (op_author_key x))"
  assumes "fair bv" and "bv_list bv (oplog_prefix tm) = Inr keys" and "failed_gets bv (Mapping.delete okey cache) keys = []"
    and "hash_ok P (set (map snd pairs))" and "(okey, x) \<in> set pairs" and "\<not> survives P (map snd pairs) x"
    and "rooted_op P S x" and "\<forall>y\<in>S. op_prev_op_hash y \<noteq> op_hash P x"
  shows "\<exists>rd. removable_drop P dec bv tm okey cache =
      Some (Inr rd, update_cache (Mapping.delete okey cache) (fresh_pairs P dec bv tm (Mapping.delete okey cache) keys) keys) \<and>
    do_op_hash (rd_dropped rd) = op_hash P x \<and> rd_author_key_suffix rd = ''_'' @ key_to_hex (op_author_key x) \<and>
    rd_author_listed_keys rd = keys_with_suffix keys (rd_author_key_suffix rd)"
proof -
  let ?r0 = "drop_record P S okey x" and ?view = "\<lparr>sv_listed_keys = keys, sv_pairs = pairs\<rparr>"
  note pf = strict_pairs_facts [OF assms(3), where P = P and dec = dec and tm = tm and cache = "Mapping.delete okey cache"
      and keys = keys, folded pairs_def]
  obtain ds where ds: "quarantine_details P pairs = Some ds"
    "(\<Union>d\<in>set ds. set (qd_dropped d)) =
      (\<lambda>(key, x). drop_record P (set (ops_by (map snd pairs) (op_author_key x))) key x) ` {(key, x) \<in> set pairs. \<not> survives P (map snd pairs) x}"
    using quarantine_details_spec [OF assms(6) pf(1)] by blast
  have "r = ?r0" if "d \<in> set ds" "r \<in> set (qd_dropped d)" "do_object_key r = okey" for d r
  proof -
    from that(1,2) have "r \<in> (\<Union>d\<in>set ds. set (qd_dropped d))" by blast
    then obtain key y where "(key, y) \<in> set pairs" "r = drop_record P (set (ops_by (map snd pairs) (op_author_key y))) key y"
      unfolding ds(2) by (auto simp del: set_filter)
    moreover from this that(3) have "key = okey" by (simp add: drop_record_def)
    ultimately show ?thesis using pf(4) assms(7) by (metis S_def)
  qed
  moreover have "?r0 \<in> (\<Union>d\<in>set ds. set (qd_dropped d))"
    unfolding ds(2) using assms(7,8) by (auto simp: S_def simp del: set_filter intro!: rev_image_eqI [of "(okey, x)"])
  moreover have "do_object_key ?r0 = okey" "do_class ?r0 = ForkLoser" "\<not> do_has_listed_children ?r0" "do_op_hash ?r0 = op_hash P x"
    using assms(9,10) by (simp_all add: drop_record_def)
  moreover have "(okey, x) \<in> set (sv_pairs ?view)" "\<forall>y. (okey, y) \<in> set (sv_pairs ?view) \<longrightarrow> y = x"
    using assms(7) pf(4) by auto
  ultimately have "\<exists>rd. removal_verdict ?view okey ds = Inr rd \<and> rd_dropped rd = ?r0 \<and>
      rd_author_key_suffix rd = ''_'' @ key_to_hex (op_author_key x) \<and>
      rd_author_listed_keys rd = keys_with_suffix (sv_listed_keys ?view) (rd_author_key_suffix rd)"
    by (intro removal_verdict_complete) blast+
  then show ?thesis
    unfolding removable_drop_def read_strict_eq [OF assms(3,4)] using assms(5) ds(1) \<open>do_op_hash ?r0 = op_hash P x\<close>
    by (auto simp: pairs_def)
qed

lemma filter_remove1_not: "\<not> Q x \<Longrightarrow> filter Q (remove1 x xs) = filter Q xs"
  by (induction xs) auto

text \<open>Taking a dropped op away leaves every kept op kept.\<close>

lemma quarantine_without_dropped:
  assumes "hash_ok P (set ops)" and "distinct ops" and "\<not> survives P ops x"
  shows "map_option fst (quarantine_broken_chains P (remove1 x ops)) = map_option fst (quarantine_broken_chains P ops)"
proof -
  have ok': "hash_ok P (set (remove1 x ops))" "distinct (remove1 x ops)"
    using assms(1,2) by (auto intro: hash_ok_mono [OF assms(1)])
  have "branch P (remove1 x ops) k = branch P ops k" for k
  proof (rule branch_shrink [OF assms(1,2) ok'(2)])
    have "x \<notin> set (branch P ops k)" using assms(3) branch_subset(2) [OF assms(1,2)] by (auto simp: survives_def)
    then show "set (branch P ops k) \<subseteq> set (remove1 x ops)"
      using branch_subset(1) [OF assms(1,2)] assms(2) by (auto simp: set_remove1_eq)
  qed (simp add: set_remove1_subset)
  then have "survives P (remove1 x ops) = survives P ops" by (intro ext) (simp add: survives_def)
  then show ?thesis
    by (simp add: quarantine_broken_chains_eq [OF assms(1,2)] quarantine_broken_chains_eq [OF ok'] filter_remove1_not [of "survives P ops", OF assms(3)])
qed

lemma removal_deletes:
  assumes "remove_quarantined_op P dec bv1 bv2 bv3 del bv4 tm okey cache = Some out" and "ro_deleted out"
  shows "prefix (oplog_prefix tm) okey \<and> (\<exists>c1 rd1 c2 rd2 fresh.
    removable_drop P dec bv1 tm okey cache = Some (Inr rd1, c1) \<and>
    removable_drop P dec bv2 tm okey c1 = Some (Inr rd2, c2) \<and>
    do_op_hash (rd_dropped rd1) = do_op_hash (rd_dropped rd2) \<and>
    bv_list bv3 (oplog_prefix tm) = Inr fresh \<and>
    keys_with_suffix fresh (rd_author_key_suffix rd2) = rd_author_listed_keys rd2)"
proof -
  note r = assms(1) [unfolded remove_quarantined_op_def Let_def]
  have pre: "prefix (oplog_prefix tm) okey" using r assms(2) by (auto split: if_splits)
  obtain r1 c1 where r1: "removable_drop P dec bv1 tm okey cache = Some (r1, c1)"
    using r pre by (cases "removable_drop P dec bv1 tm okey cache") auto
  obtain rd1 where rd1: "r1 = Inr rd1" using r pre r1 assms(2) by (cases r1) auto
  obtain r2 c2 where r2: "removable_drop P dec bv2 tm okey c1 = Some (r2, c2)"
    using r pre r1 rd1 by (cases "removable_drop P dec bv2 tm okey c1") auto
  obtain rd2 where rd2: "r2 = Inr rd2" using r pre r1 rd1 r2 assms(2) by (cases r2) auto
  have same: "do_op_hash (rd_dropped rd1) = do_op_hash (rd_dropped rd2)"
    using r pre r1 rd1 r2 rd2 assms(2) by (auto split: if_splits)
  obtain fresh where fresh: "bv_list bv3 (oplog_prefix tm) = Inr fresh"
    using r pre r1 rd1 r2 rd2 same assms(2) by (cases "bv_list bv3 (oplog_prefix tm)") auto
  have "keys_with_suffix fresh (rd_author_key_suffix rd2) = rd_author_listed_keys rd2"
    using r pre r1 rd1 r2 rd2 same fresh assms(2) by (auto split: if_splits)
  with pre r1 rd1 r2 rd2 same fresh show ?thesis by blast
qed

section \<open>A concrete removal\<close>

text \<open>Two roots of one author: the earlier one is elected, the later one is a removable fork loser.\<close>

definition fork_view :: blob_view where
  "fork_view = \<lparr>bv_list = \<lambda>_. Inr [''t/_oplog/a'', ''t/_oplog/b''],
     bv_get = \<lambda>k. if k = ''t/_oplog/a'' then Inr [1, 1, 0] else Inr [1, 2, 0], bv_order = id\<rparr>"

abbreviation fork_a :: op where "fork_a \<equiv> demo_op 1 1 (replicate 32 0)"
abbreviation fork_b :: op where "fork_b \<equiv> demo_op 1 2 (replicate 32 0)"

lemma fork_hash_ok: "hash_ok demo_prims {fork_a, fork_b}"
  by (simp add: hash_ok_def genesis_simps)

lemma fork_fair: "fair fork_view"
  by (simp add: fair_def fork_view_def)

lemma fork_list: "bv_list fork_view (oplog_prefix ''t'') = Inr [''t/_oplog/a'', ''t/_oplog/b'']"
  by (simp add: fork_view_def)

lemma fork_get: "bv_get fork_view ''t/_oplog/a'' = Inr [1, 1, 0]"
  by (simp add: fork_view_def)

lemma fork_pairs:
  assumes "Mapping.lookup cache ''t/_oplog/a'' \<in> {None, Some fork_a}" and "Mapping.lookup cache ''t/_oplog/b'' = None"
  shows "strict_pairs demo_prims demo_dec fork_view ''t'' cache [''t/_oplog/a'', ''t/_oplog/b''] =
    [(''t/_oplog/a'', fork_a), (''t/_oplog/b'', fork_b)]"
proof -
  have "replicate 32 (1::byte) \<noteq> replicate 32 2" by simp
  with assms show ?thesis
    by (auto simp: strict_pairs_def cached_list_def fresh_pairs_def retain_individually_valid_def decoded_def fetch_bytes_def
        fork_view_def List.map_filter_simps demo_dec_def dedup_step_def Let_def)
qed

lemma fork_branch: "branch demo_prims [fork_a, fork_b] (replicate 32 1) = [fork_a]"
proof -
  let ?S = "{fork_a, fork_b}"
  have ok: "hash_ok demo_prims (set [fork_a, fork_b])" "distinct [fork_a, fork_b]" using fork_hash_ok by simp_all
  have leaf: "elected demo_prims ?S (replicate 32 n) []" if "n \<noteq> 0" for n using that by simp
  have r: "reached demo_prims ?S (op_hash demo_prims x)" if "x \<in> ?S" for x
    by (rule reached_step [OF reached_genesis that]) (use that in \<open>auto simp: genesis_simps\<close>)
  have r12: "reached demo_prims ?S (replicate 32 1)" "reached demo_prims ?S (replicate 32 2)"
    using r [of fork_a] r [of fork_b] by simp_all
  have s: "span demo_prims ?S (replicate 32 1) = 0" "span demo_prims ?S (replicate 32 2) = 0"
    using elected_longest [OF fork_hash_ok _ r12(1) leaf] elected_longest [OF fork_hash_ok _ r12(2) leaf] by simp_all
  have "prefers demo_prims ?S fork_a fork_b" by (simp add: prefers_def s) (simp add: demo_op_def)
  then have "elected demo_prims (set (ops_by [fork_a, fork_b] (replicate 32 1))) GENESIS_PREV [fork_a]"
    by (auto simp: genesis_simps prefers_def s)
  then show ?thesis
    using elected_unique [OF hash_ok_by [OF ok(1)]] branch_elected(1) [OF ok] by blast
qed

lemma fork_removable:
  assumes "Mapping.lookup cache ''t/_oplog/a'' \<in> {None, Some fork_a}"
  shows "\<exists>rd c. removable_drop demo_prims demo_dec fork_view ''t'' ''t/_oplog/b'' cache = Some (Inr rd, c) \<and>
    Mapping.lookup c ''t/_oplog/a'' \<in> {None, Some fork_a} \<and>
    do_op_hash (rd_dropped rd) = replicate 32 2 \<and> rd_author_key_suffix rd = ''_'' @ key_to_hex (replicate 32 1) \<and>
    rd_author_listed_keys rd = keys_with_suffix [''t/_oplog/a'', ''t/_oplog/b''] (rd_author_key_suffix rd)"
proof -
  let ?c = "Mapping.delete ''t/_oplog/b'' cache" and ?keys = "[''t/_oplog/a'', ''t/_oplog/b'']"
  have p: "strict_pairs demo_prims demo_dec fork_view ''t'' ?c ?keys = [(''t/_oplog/a'', fork_a), (''t/_oplog/b'', fork_b)]"
    using assms by (intro fork_pairs) auto
  have "\<exists>rd. removable_drop demo_prims demo_dec fork_view ''t'' ''t/_oplog/b'' cache =
      Some (Inr rd, update_cache ?c (fresh_pairs demo_prims demo_dec fork_view ''t'' ?c ?keys) ?keys) \<and>
    do_op_hash (rd_dropped rd) = op_hash demo_prims fork_b \<and> rd_author_key_suffix rd = ''_'' @ key_to_hex (op_author_key fork_b) \<and>
    rd_author_listed_keys rd = keys_with_suffix ?keys (rd_author_key_suffix rd)"
  proof (rule removable_drop_complete [OF fork_fair fork_list], unfold p)
    show "failed_gets fork_view ?c ?keys = []" by (simp add: failed_gets_def fork_view_def)
    show "hash_ok demo_prims (set (map snd [(''t/_oplog/a'', fork_a), (''t/_oplog/b'', fork_b)]))" using fork_hash_ok by simp
    show "\<not> survives demo_prims (map snd [(''t/_oplog/a'', fork_a), (''t/_oplog/b'', fork_b)]) fork_b"
      using fork_branch by (simp add: survives_def)
    show "rooted_op demo_prims (set (ops_by (map snd [(''t/_oplog/a'', fork_a), (''t/_oplog/b'', fork_b)]) (op_author_key fork_b))) fork_b"
      by (rule rooted_op_root) (simp_all add: genesis_simps)
  qed auto
  moreover have "Mapping.lookup (update_cache ?c (fresh_pairs demo_prims demo_dec fork_view ''t'' ?c ?keys) ?keys) ''t/_oplog/a'' \<in> {None, Some fork_a}"
  proof (cases "Mapping.lookup (update_cache ?c (fresh_pairs demo_prims demo_dec fork_view ''t'' ?c ?keys) ?keys) ''t/_oplog/a''")
    case (Some x)
    then have "Mapping.lookup ?c ''t/_oplog/a'' = Some x \<or> (''t/_oplog/a'', x) \<in> set (fresh_pairs demo_prims demo_dec fork_view ''t'' ?c ?keys)"
      unfolding lookup_new_cache [OF fork_fair] by blast
    then have "x = fork_a" using assms by (auto simp: in_fresh_pairs [OF fork_fair] fork_get demo_dec_def)
    with Some show ?thesis by simp
  qed simp
  ultimately show ?thesis by auto
qed

definition fork_view_after :: blob_view where
  "fork_view_after = fork_view\<lparr>bv_list := \<lambda>_. Inr [''t/_oplog/a'']\<rparr>"

lemma fork_inspect_after:
  assumes "Mapping.lookup cache ''t/_oplog/a'' \<in> {None, Some fork_a}"
  shows "\<exists>r c. inspect_quarantine demo_prims demo_dec fork_view_after ''t'' cache = Some (r, c)"
proof -
  let ?keys = "[''t/_oplog/a'']"
  let ?p = "strict_pairs demo_prims demo_dec fork_view_after ''t'' cache ?keys"
  have f: "fair fork_view_after" and l: "bv_list fork_view_after (oplog_prefix ''t'') = Inr ?keys"
    by (simp_all add: fork_view_after_def fork_view_def fair_def)
  have get: "bv_get fork_view_after ''t/_oplog/a'' = Inr [1, 1, 0]" by (simp add: fork_view_after_def fork_get)
  note pf = strict_pairs_facts [OF f, where P = demo_prims and dec = demo_dec and tm = "''t''" and cache = cache and keys = ?keys]
  have "served demo_prims demo_dec fork_view_after ''t'' cache ?keys \<subseteq> {fork_a}"
    using assms by (auto simp: served_def get demo_dec_def)
  then have "set (map snd ?p) \<subseteq> {fork_a, fork_b}" using pf(3) by auto
  then have "hash_ok demo_prims (set (map snd ?p))" by (rule hash_ok_mono [OF fork_hash_ok])
  from quarantine_details_spec [OF this pf(1)] obtain ds where "quarantine_details demo_prims ?p = Some ds" by blast
  moreover have "failed_gets fork_view_after cache ?keys = []" by (simp add: failed_gets_def get)
  ultimately show ?thesis by (simp add: inspect_quarantine_def read_strict_eq [OF f l])
qed

section \<open>Properties\<close>

text \<open>Inspection reports exactly what the election drops: over the verified listing it returns, the reported
  ops are the ones that do not survive, each under the key that served it, classed a fork loser exactly
  when every ancestor up to genesis is among its author's listed ops and a gap orphan otherwise, with
  the has-children flag set exactly when a listed op of the author names it as predecessor.\<close>

theorem inspection_reports_exactly_the_drops:
  assumes "hash_ok P (set (map snd pairs))" and "distinct (map snd pairs)"
  shows "\<exists>ds. quarantine_details P pairs = Some ds \<and>
    (\<Union>d\<in>set ds. set (qd_dropped d)) =
      {drop_record P (set (ops_by (map snd pairs) (op_author_key x))) key x | key x.
         (key, x) \<in> set pairs \<and> \<not> survives P (map snd pairs) x}"
proof -
  obtain ds where ds: "quarantine_details P pairs = Some ds"
    "(\<Union>d\<in>set ds. set (qd_dropped d)) =
      (\<lambda>(key, x). drop_record P (set (ops_by (map snd pairs) (op_author_key x))) key x) ` {(key, x) \<in> set pairs. \<not> survives P (map snd pairs) x}"
    using quarantine_details_spec [OF assms] by blast
  show ?thesis unfolding ds(1) by (intro exI [of _ ds]) (use ds(2) in auto)
qed

theorem inspection_reports_exactly_the_drops_witness:
  "\<exists>ds. quarantine_details demo_prims [(''a'', demo_op 1 1 (replicate 32 9))] = Some ds \<and>
    (\<exists>d\<in>set ds. \<exists>r\<in>set (qd_dropped d). do_object_key r = ''a'' \<and> do_class r = GapOrphan)"
proof -
  let ?x = "demo_op 1 1 (replicate 32 9)"
  let ?p = "[(''a'', ?x)]"
  have ok: "hash_ok demo_prims (set (map snd ?p))" "distinct (map snd ?p)" by (simp_all add: hash_ok_def genesis_simps)
  have "branch demo_prims (map snd ?p) (replicate 32 1) = []"
    using branch_single [OF ok, of "replicate 32 1" ?x] by (simp add: genesis_simps)
  then have ns: "\<not> survives demo_prims (map snd ?p) ?x" by (simp add: survives_def)
  have nr: "\<not> rooted_op demo_prims {?x} ?x"
  proof
    assume "rooted_op demo_prims {?x} ?x"
    then obtain p where p: "linked demo_prims {?x} GENESIS_PREV (p @ [?x])" unfolding rooted_op_def by blast
    have "hd (p @ [?x]) \<in> set (p @ [?x])" by (rule hd_in_set) simp
    then have "hd (p @ [?x]) = ?x" using linked_subset [OF p] by blast
    moreover have "op_prev_op_hash (hd (p @ [?x])) = GENESIS_PREV" by (rule linked_hd [OF p]) simp
    ultimately show False by (simp add: genesis_simps)
  qed
  obtain ds where ds: "quarantine_details demo_prims ?p = Some ds"
    "(\<Union>d\<in>set ds. set (qd_dropped d)) =
      {drop_record demo_prims (set (ops_by (map snd ?p) (op_author_key x))) key x | key x.
         (key, x) \<in> set ?p \<and> \<not> survives demo_prims (map snd ?p) x}"
    using inspection_reports_exactly_the_drops [OF ok] by blast
  have "drop_record demo_prims {?x} ''a'' ?x \<in> (\<Union>d\<in>set ds. set (qd_dropped d))"
    unfolding ds(2) using ns by (auto intro!: exI [of _ "''a''"] exI [of _ ?x])
  moreover have "do_object_key (drop_record demo_prims {?x} ''a'' ?x) = ''a''" "do_class (drop_record demo_prims {?x} ''a'' ?x) = GapOrphan"
    using nr by (simp_all add: drop_record_def)
  ultimately show ?thesis using ds(1) by blast
qed

text \<open>C16. A removal is guarded. If it sent a delete at all, the key is under the team's op-log prefix, and the
  second of two fresh reads, neither of which trusted the cache for this key, served at the key an op
  that the election drops although its whole ancestor path is listed and that no listed op of its author
  names as predecessor; the author's keys in a third listing were still those of that read. Deleting such an op
  changes nothing the election keeps, of any author, and turns no other op into a gap orphan.\<close>

theorem removal_deletes_only_leaf_fork_losers:
  assumes "remove_quarantined_op P dec bv1 bv2 bv3 del bv4 tm okey cache = Some out" and "ro_deleted out" and "fair bv2"
  shows "prefix (oplog_prefix tm) okey \<and> (\<exists>c1 c2 view x fresh.
    read_listed_pairs_strict P dec bv2 tm (Mapping.delete okey c1) = (Inr view, c2) \<and> (okey, x) \<in> set (sv_pairs view) \<and>
    bv_list bv3 (oplog_prefix tm) = Inr fresh \<and>
    keys_with_suffix fresh (''_'' @ key_to_hex (op_author_key x)) =
      keys_with_suffix (sv_listed_keys view) (''_'' @ key_to_hex (op_author_key x)) \<and>
    (let ops = map snd (sv_pairs view); own = set (ops_by ops (op_author_key x)) in
      GENESIS_PREV \<notin> op_hash P ` set ops \<longrightarrow>
      \<not> survives P ops x \<and> rooted_op P own x \<and> (\<forall>y\<in>own. op_prev_op_hash y \<noteq> op_hash P x) \<and>
      map_option fst (quarantine_broken_chains P (remove1 x ops)) = map_option fst (quarantine_broken_chains P ops) \<and>
      (\<forall>y. y \<noteq> x \<and> rooted_op P own y \<longrightarrow> rooted_op P (own - {x}) y)))"
proof -
  from removal_deletes [OF assms(1,2)] obtain c1 c2 rd2 fresh where
    pre: "prefix (oplog_prefix tm) okey" and rd: "removable_drop P dec bv2 tm okey c1 = Some (Inr rd2, c2)"
    and fresh: "bv_list bv3 (oplog_prefix tm) = Inr fresh"
      "keys_with_suffix fresh (rd_author_key_suffix rd2) = rd_author_listed_keys rd2" by blast
  from removable_drop_spec [OF rd assms(3)] obtain view x where
    v: "read_listed_pairs_strict P dec bv2 tm (Mapping.delete okey c1) = (Inr view, c2)" "(okey, x) \<in> set (sv_pairs view)"
      "rd_author_key_suffix rd2 = ''_'' @ key_to_hex (op_author_key x)"
      "rd_author_listed_keys rd2 = keys_with_suffix (sv_listed_keys view) (rd_author_key_suffix rd2)"
    and g: "GENESIS_PREV \<notin> op_hash P ` set (map snd (sv_pairs view)) \<longrightarrow>
      hash_ok P (set (map snd (sv_pairs view))) \<and> distinct (map snd (sv_pairs view)) \<and>
      rd_dropped rd2 = drop_record P (set (ops_by (map snd (sv_pairs view)) (op_author_key x))) okey x \<and>
      \<not> survives P (map snd (sv_pairs view)) x \<and>
      rooted_op P (set (ops_by (map snd (sv_pairs view)) (op_author_key x))) x \<and>
      (\<forall>y\<in>set (ops_by (map snd (sv_pairs view)) (op_author_key x)). op_prev_op_hash y \<noteq> op_hash P x)"
    unfolding Let_def by blast
  let ?ops = "map snd (sv_pairs view)"
  let ?own = "set (ops_by ?ops (op_author_key x))"
  have safe: "\<not> survives P ?ops x \<and> rooted_op P ?own x \<and> (\<forall>y\<in>?own. op_prev_op_hash y \<noteq> op_hash P x) \<and>
      map_option fst (quarantine_broken_chains P (remove1 x ?ops)) = map_option fst (quarantine_broken_chains P ?ops) \<and>
      (\<forall>y. y \<noteq> x \<and> rooted_op P ?own y \<longrightarrow> rooted_op P (?own - {x}) y)"
    if "GENESIS_PREV \<notin> op_hash P ` set ?ops"
  proof -
    from g that have g': "hash_ok P (set ?ops)" "distinct ?ops" "\<not> survives P ?ops x" "rooted_op P ?own x"
      "\<forall>y\<in>?own. op_prev_op_hash y \<noteq> op_hash P x" by blast+
    from quarantine_without_dropped [OF g'(1,2,3)] rooted_shrink [OF _ _ g'(5)] g'(3,4,5) show ?thesis by blast
  qed
  have "keys_with_suffix fresh (''_'' @ key_to_hex (op_author_key x)) =
      keys_with_suffix (sv_listed_keys view) (''_'' @ key_to_hex (op_author_key x))"
    using fresh(2) v(3,4) by simp
  with pre fresh(1) v(1,2) safe show ?thesis unfolding Let_def by blast
qed

theorem removal_deletes_only_leaf_fork_losers_witness:
  "\<exists>out c1 view c2 x. remove_quarantined_op demo_prims demo_dec fork_view fork_view fork_view (Inr ()) fork_view_after ''t'' ''t/_oplog/b'' Mapping.empty = Some out \<and>
     ro_deleted out \<and> read_listed_pairs_strict demo_prims demo_dec fork_view ''t'' (Mapping.delete ''t/_oplog/b'' c1) = (Inr view, c2) \<and>
     (''t/_oplog/b'', x) \<in> set (sv_pairs view)"
proof -
  obtain rd1 c1 where r1: "removable_drop demo_prims demo_dec fork_view ''t'' ''t/_oplog/b'' Mapping.empty = Some (Inr rd1, c1)"
    "Mapping.lookup c1 ''t/_oplog/a'' \<in> {None, Some fork_a}" "do_op_hash (rd_dropped rd1) = replicate 32 2"
    using fork_removable [of Mapping.empty] by (auto simp: lookup_empty)
  obtain rd2 c2 where r2: "removable_drop demo_prims demo_dec fork_view ''t'' ''t/_oplog/b'' c1 = Some (Inr rd2, c2)"
    "Mapping.lookup c2 ''t/_oplog/a'' \<in> {None, Some fork_a}" "do_op_hash (rd_dropped rd2) = replicate 32 2"
    "rd_author_listed_keys rd2 = keys_with_suffix [''t/_oplog/a'', ''t/_oplog/b''] (rd_author_key_suffix rd2)"
    using fork_removable [OF r1(2)] by auto
  have pre: "prefix (oplog_prefix ''t'') ''t/_oplog/b''" by (simp add: oplog_prefix_def)
  obtain r4 c4 where r4: "inspect_quarantine demo_prims demo_dec fork_view_after ''t'' c2 = Some (r4, c4)"
    using fork_inspect_after [OF r2(2)] by auto
  have "\<exists>out. remove_quarantined_op demo_prims demo_dec fork_view fork_view fork_view (Inr ()) fork_view_after ''t'' ''t/_oplog/b'' Mapping.empty = Some out \<and> ro_deleted out"
    unfolding remove_quarantined_op_def Let_def using pre r1 r2 r4 fork_list by (cases r4) auto
  then obtain out where out: "remove_quarantined_op demo_prims demo_dec fork_view fork_view fork_view (Inr ()) fork_view_after ''t'' ''t/_oplog/b'' Mapping.empty = Some out"
    "ro_deleted out" by blast
  from removal_deletes_only_leaf_fork_losers [OF out fork_fair] out show ?thesis by blast
qed

end
