(* ===== verification/Head.thy ===== *)
theory Head
  imports Oplog_Read
begin

text \<open>
  Signed head pointers (\<^verbatim>\<open>oplog/head.rs\<close>): one author's claim about its own chain tip, published at one
  mutable key per author and read back with every check the reader makes. The wire format is a
  parameter, as for ops; \<open>blob_view\<close> is the bucket's answers during one read.
\<close>

section \<open>Definitions\<close>

definition HEAD_DOMAIN :: bytes where
  "HEAD_DOMAIN = as_bytes ''hippius-memory-head/v1''"

record head_pointer =
  hp_team :: string
  hp_author :: ss58
  hp_author_key :: verifying_key
  hp_lamport :: u64
  hp_tip_hash :: blake3_hash
  hp_sig :: signature

definition head_signing_bytes :: "head_pointer \<Rightarrow> bytes" where
  "head_signing_bytes h =
     (let buf = HEAD_DOMAIN;
          buf = push_framed buf (as_bytes (hp_team h));
          buf = push_framed buf (as_bytes (hp_author h));
          buf = buf @ hp_author_key h;
          buf = buf @ u64_le_bytes (hp_lamport h);
          buf = buf @ hp_tip_hash h
      in buf)"

definition head_create_signed :: "signer \<Rightarrow> string \<Rightarrow> u64 \<Rightarrow> blake3_hash \<Rightarrow> head_pointer" where
  "head_create_signed sg tm lamport tip_h =
     (let head = \<lparr>hp_team = tm, hp_author = signer_author_ss58 sg, hp_author_key = signer_verifying_key sg,
                  hp_lamport = lamport, hp_tip_hash = tip_h, hp_sig = replicate 64 0\<rparr>
      in head\<lparr>hp_sig := signer_sign sg (head_signing_bytes head)\<rparr>)"

definition head_verify_identity :: "prims \<Rightarrow> head_pointer \<Rightarrow> bool" where
  "head_verify_identity P h = address_names_key P (hp_author h) (hp_author_key h)"

definition head_verify_sig :: "prims \<Rightarrow> head_pointer \<Rightarrow> bool" where
  "head_verify_sig P h = verify P (hp_author_key h) (head_signing_bytes h) (hp_sig h)"

datatype verified_heads = VerifiedHeads (heads_of: "head_pointer list")

definition heads_prefix :: "string \<Rightarrow> string" where
  "heads_prefix tm = tm @ ''/_heads/''"

definition head_key :: "string \<Rightarrow> verifying_key \<Rightarrow> string" where
  "head_key tm k = tm @ ''/_heads/'' @ key_to_hex k"

definition publish_head ::
    "(head_pointer \<Rightarrow> bytes) \<Rightarrow> ('s \<Rightarrow> string \<Rightarrow> bytes \<Rightarrow> 'r) \<Rightarrow> 's \<Rightarrow> string \<Rightarrow> head_pointer \<Rightarrow> 'r" where
  "publish_head enc put s tm h = put s (head_key tm (hp_author_key h)) (enc h)"

text \<open>The checks one object has to pass, in the order the reader makes them.\<close>

definition head_acceptable :: "prims \<Rightarrow> string \<Rightarrow> string \<Rightarrow> head_pointer \<Rightarrow> bool" where
  "head_acceptable P tm key h =
     (if hp_team h \<noteq> tm then False
      else if key \<noteq> head_key tm (hp_author_key h) then False
      else if \<not> head_verify_identity P h then False
      else if \<not> head_verify_sig P h then False
      else True)"

fun collect_heads ::
    "prims \<Rightarrow> (bytes \<Rightarrow> head_pointer option) \<Rightarrow> string \<Rightarrow> (string \<times> (mem_error + bytes)) list
      \<Rightarrow> mem_error + head_pointer list" where
  "collect_heads P dec tm [] = Inr []"
| "collect_heads P dec tm ((key, res) # rest) =
     (case res of
        Inl e \<Rightarrow> Inl e
      | Inr bs \<Rightarrow>
          r_bind (collect_heads P dec tm rest) (\<lambda>hs.
            Inr (case dec bs of
                   None \<Rightarrow> hs
                 | Some h \<Rightarrow> if head_acceptable P tm key h then h # hs else hs)))"

definition read_heads ::
    "prims \<Rightarrow> (bytes \<Rightarrow> head_pointer option) \<Rightarrow> blob_view \<Rightarrow> string \<Rightarrow> mem_error + verified_heads" where
  "read_heads P dec bv tm =
     r_bind (bv_list bv (heads_prefix tm)) (\<lambda>keys.
     r_bind (collect_heads P dec tm (sort_key fst (fetch_bytes bv keys))) (\<lambda>heads.
     Inr (VerifiedHeads (sort_key hp_author_key heads))))"

text \<open>What makes an object of the prefix an author's head: placement, team, address, signature.\<close>

definition genuine_head ::
    "prims \<Rightarrow> (bytes \<Rightarrow> head_pointer option) \<Rightarrow> blob_view \<Rightarrow> string \<Rightarrow> string list \<Rightarrow> head_pointer \<Rightarrow> bool" where
  "genuine_head P dec bv tm keys h \<longleftrightarrow>
     hp_team h = tm \<and> head_verify_identity P h \<and> head_verify_sig P h \<and>
     head_key tm (hp_author_key h) \<in> set keys \<and>
     (\<exists>bs. bv_get bv (head_key tm (hp_author_key h)) = Inr bs \<and> dec bs = Some h)"

text \<open>A concrete head, for witnesses, and a prefix with two heads and a copy of the first planted elsewhere.\<close>

definition demo_head :: "byte \<Rightarrow> byte \<Rightarrow> head_pointer" where
  "demo_head a n =
     \<lparr>hp_team = ''t'', hp_author = ss58_encode demo_prims (replicate 32 a) HIPPIUS, hp_author_key = replicate 32 a,
      hp_lamport = ucast n, hp_tip_hash = replicate 32 n, hp_sig = replicate 64 a\<rparr>"

definition demo_head_dec :: "bytes \<Rightarrow> head_pointer option" where
  "demo_head_dec bs = (case bs of [a, n] \<Rightarrow> Some (demo_head a n) | _ \<Rightarrow> None)"

definition demo_heads_keys :: "string list" where
  "demo_heads_keys = [head_key ''t'' (replicate 32 2), head_key ''t'' (replicate 32 1), ''t/_heads/x'']"

definition demo_heads_view :: blob_view where
  "demo_heads_view =
     \<lparr>bv_list = (\<lambda>_. Inr demo_heads_keys),
      bv_get = (\<lambda>k. Inr (if k = head_key ''t'' (replicate 32 2) then [2, 9] else [1, 5])),
      bv_order = rev\<rparr>"

section \<open>Lemmas\<close>

lemma head_signing_bytes_eq:
  "head_signing_bytes h =
     HEAD_DOMAIN @ framed (as_bytes (hp_team h)) @ framed (as_bytes (hp_author h)) @ hp_author_key h @
     u64_le_bytes (hp_lamport h) @ hp_tip_hash h"
  by (simp add: head_signing_bytes_def push_framed_eq)

lemma head_signing_bytes_sig [simp]: "head_signing_bytes (h\<lparr>hp_sig := s\<rparr>) = head_signing_bytes h"
  by (simp add: head_signing_bytes_eq)

definition head_wf :: "head_pointer \<Rightarrow> bool" where
  "head_wf h \<longleftrightarrow> length (hp_team h) < 2 ^ 64 \<and> length (hp_author h) < 2 ^ 64 \<and> length (hp_author_key h) = 32 \<and>
     length (hp_tip_hash h) = 32"

lemma collect_heads_Inr:
  "collect_heads P dec tm xs = Inr hs \<Longrightarrow>
     (\<forall>h. h \<in> set hs \<longleftrightarrow> (\<exists>key bs. (key, Inr bs) \<in> set xs \<and> dec bs = Some h \<and> head_acceptable P tm key h)) \<and>
     (\<forall>(key, r)\<in>set xs. \<not> isl r)"
proof (induction xs arbitrary: hs)
  case (Cons x xs)
  obtain key r where x: "x = (key, r)" by (cases x)
  from Cons.prems obtain bs hs' where r: "r = Inr bs" and hs': "collect_heads P dec tm xs = Inr hs'"
    and hs: "hs = (case dec bs of None \<Rightarrow> hs' | Some h \<Rightarrow> if head_acceptable P tm key h then h # hs' else hs')"
    by (auto simp: x r_bind_Inr_iff split: sum.splits)
  from Cons.IH [OF hs'] show ?case unfolding hs x r by (auto split: option.splits if_splits)
qed simp

lemma collect_heads_ok: "\<forall>(key, r)\<in>set xs. \<not> isl r \<Longrightarrow> \<exists>hs. collect_heads P dec tm xs = Inr hs"
  by (induction xs) (auto simp: r_bind_def split: sum.splits)

lemma head_acceptable_iff:
  "head_acceptable P tm key h \<longleftrightarrow> hp_team h = tm \<and> key = head_key tm (hp_author_key h) \<and>
     head_verify_identity P h \<and> head_verify_sig P h"
  by (auto simp: head_acceptable_def)

lemma read_heads_total:
  assumes "fair bv" and "bv_list bv (heads_prefix tm) = Inr keys"
  shows "(\<exists>v. read_heads P dec bv tm = Inr v) \<longleftrightarrow> (\<forall>k\<in>set keys. \<not> isl (bv_get bv k))"
proof
  assume "\<exists>v. read_heads P dec bv tm = Inr v"
  then obtain hs where "collect_heads P dec tm (sort_key fst (fetch_bytes bv keys)) = Inr hs"
    using assms(2) by (auto simp: read_heads_def r_bind_Inr_iff)
  from collect_heads_Inr [OF this] show "\<forall>k\<in>set keys. \<not> isl (bv_get bv k)"
    using in_fetch_bytes [OF assms(1)] by fastforce
next
  assume ok: "\<forall>k\<in>set keys. \<not> isl (bv_get bv k)"
  have "\<forall>(key, r)\<in>set (sort_key fst (fetch_bytes bv keys)). \<not> isl r"
    using ok by (auto simp: in_fetch_bytes [OF assms(1)])
  from collect_heads_ok [OF this, of P dec tm] obtain hs
    where "collect_heads P dec tm (sort_key fst (fetch_bytes bv keys)) = Inr hs" ..
  with assms(2) show "\<exists>v. read_heads P dec bv tm = Inr v" by (simp add: read_heads_def r_bind_def)
qed

lemma genuine_head_unique:
  "genuine_head P dec bv tm keys h \<Longrightarrow> genuine_head P dec bv tm keys h' \<Longrightarrow> hp_author_key h = hp_author_key h' \<Longrightarrow> h = h'"
  unfolding genuine_head_def by (metis option.inject sum.inject(2))

lemma read_heads_Inr:
  assumes "fair bv" and "bv_list bv (heads_prefix tm) = Inr keys" and "read_heads P dec bv tm = Inr v"
  shows "set (heads_of v) = {h. genuine_head P dec bv tm keys h}" and "sorted (map hp_author_key (heads_of v))"
proof -
  from assms(2,3) obtain heads where heads: "collect_heads P dec tm (sort_key fst (fetch_bytes bv keys)) = Inr heads"
    and v: "v = VerifiedHeads (sort_key hp_author_key heads)"
    by (auto simp: read_heads_def r_bind_Inr_iff)
  show "set (heads_of v) = {h. genuine_head P dec bv tm keys h}"
    using collect_heads_Inr [OF heads]
    by (auto simp: v in_fetch_bytes [OF assms(1)] genuine_head_def head_acceptable_iff)
  show "sorted (map hp_author_key (heads_of v))" by (simp add: v)
qed

lemma head_key_inject [simp]: "head_key tm k = head_key tm k' \<longleftrightarrow> k = k'"
  by (simp add: head_key_def key_to_hex_def)

lemma demo_head_ok: "a \<noteq> 0 \<Longrightarrow> head_verify_identity demo_prims (demo_head a n) \<and> head_verify_sig demo_prims (demo_head a n)"
  using address_names_key_encode [OF demo_bs58_law, of "replicate 32 a"]
  by (simp add: head_verify_identity_def head_verify_sig_def verify_def is_identity_point_def demo_head_def)
    (simp add: demo_prims_def)

lemma demo_genuine:
  "genuine_head demo_prims demo_head_dec demo_heads_view ''t'' demo_heads_keys h \<longleftrightarrow>
     h = demo_head 1 5 \<or> h = demo_head 2 9"
proof -
  have "length (hex_encode k) \<noteq> length ''x''" for k by simp
  then have "''x'' \<noteq> hex_encode k" for k by metis
  then have "''t/_heads/x'' \<noteq> head_key ''t'' k" for k by (simp add: head_key_def key_to_hex_def)
  then show ?thesis
    using demo_head_ok [of 1 5] demo_head_ok [of 2 9]
    by (auto simp: genuine_head_def demo_heads_view_def demo_heads_keys_def demo_head_dec_def)
      (simp_all add: demo_head_def)
qed

section \<open>Properties\<close>

text \<open>No head is an op: the signed bytes of a head pointer and of an op are always different, so a signature
  made for one never verifies for the other under the shared signing context; and the signed bytes of two
  heads agree only if every signed field does.\<close>

theorem head_bytes_separate:
  assumes "head_wf h" and "head_wf h'"
  shows "head_signing_bytes h \<noteq> signing_bytes x \<and>
    (head_signing_bytes h = head_signing_bytes h' \<longleftrightarrow> h = h'\<lparr>hp_sig := hp_sig h\<rparr>)"
proof
  have "take 16 (head_signing_bytes h) = take 16 HEAD_DOMAIN" by (simp add: head_signing_bytes_eq HEAD_DOMAIN_def)
  moreover have "take 16 (signing_bytes x) = take 16 SIGNING_DOMAIN" by (simp add: signing_bytes_eq SIGNING_DOMAIN_def)
  moreover have "take 16 HEAD_DOMAIN \<noteq> take 16 SIGNING_DOMAIN" by (simp add: HEAD_DOMAIN_def SIGNING_DOMAIN_def as_bytes_def)
  ultimately show "head_signing_bytes h \<noteq> signing_bytes x" by auto
  have "h = h'\<lparr>hp_sig := hp_sig h\<rparr>" if "head_signing_bytes h = head_signing_bytes h'"
    using that assms
    by (cases h; cases h') (simp add: head_signing_bytes_eq head_wf_def frame.enc_append_iff le64.enc_append_iff frame.enc_inject)
  then show "head_signing_bytes h = head_signing_bytes h' \<longleftrightarrow> h = h'\<lparr>hp_sig := hp_sig h\<rparr>"
    by (metis head_signing_bytes_sig)
qed

theorem head_bytes_separate_witness:
  "head_signing_bytes (demo_head 1 1) \<noteq> signing_bytes (demo_op 1 1 blake3_zero) \<and>
   head_signing_bytes (demo_head 1 1) \<noteq> head_signing_bytes (demo_head 1 2)"
proof -
  have "head_wf (demo_head a n)" for a n by (simp add: head_wf_def demo_head_def ss58_encode_def demo_prims_def
    ss58_checksum_def encode_prefix_def HIPPIUS_def Let_def)
  from head_bytes_separate [OF this this, of 1 1 "demo_op 1 1 blake3_zero" 1 2] show ?thesis
    by (simp add: demo_head_def)
qed

text \<open>A read of the heads succeeds exactly when every listed object can be fetched; it then returns, in the
  order of the author keys, exactly the objects that decode to a head of this team, lie at the key of their
  own author, name that author's address and carry his signature, and at most one head per author.\<close>

theorem read_heads_exact:
  assumes "fair bv" and "bv_list bv (heads_prefix tm) = Inr keys"
  shows "((\<exists>v. read_heads P dec bv tm = Inr v) \<longleftrightarrow> (\<forall>k\<in>set keys. \<not> isl (bv_get bv k))) \<and>
    (\<forall>v. read_heads P dec bv tm = Inr v \<longrightarrow>
      sorted (map hp_author_key (heads_of v)) \<and> inj_on hp_author_key (set (heads_of v)) \<and>
      set (heads_of v) = {h. genuine_head P dec bv tm keys h})"
proof (intro conjI allI impI)
  show "(\<exists>v. read_heads P dec bv tm = Inr v) \<longleftrightarrow> (\<forall>k\<in>set keys. \<not> isl (bv_get bv k))"
    by (rule read_heads_total [OF assms])
qed (use read_heads_Inr [OF assms] genuine_head_unique in \<open>auto simp: inj_on_def\<close>)

theorem read_heads_exact_witness:
  "\<exists>v. read_heads demo_prims demo_head_dec demo_heads_view ''t'' = Inr v \<and> set (heads_of v) = {demo_head 1 5, demo_head 2 9}"
proof -
  have "fair demo_heads_view" by (simp add: fair_def demo_heads_view_def)
  moreover have "bv_list demo_heads_view (heads_prefix ''t'') = Inr demo_heads_keys" by (simp add: demo_heads_view_def)
  ultimately obtain v where "read_heads demo_prims demo_head_dec demo_heads_view ''t'' = Inr v"
    and "set (heads_of v) = {h. genuine_head demo_prims demo_head_dec demo_heads_view ''t'' demo_heads_keys h}"
    using read_heads_exact [of demo_heads_view "''t''" demo_heads_keys demo_prims demo_head_dec]
    by (auto simp: demo_heads_view_def)
  moreover have "genuine_head demo_prims demo_head_dec demo_heads_view ''t'' demo_heads_keys h \<longleftrightarrow>
      h = demo_head 1 5 \<or> h = demo_head 2 9" for h
    by (rule demo_genuine)
  ultimately show ?thesis by auto
qed

end
