(* ===== verification/Maps.thy ===== *)
theory Maps
  imports Prelude "HOL-Library.Mapping"
begin

text \<open>
  Ordered maps as the code uses them: \<^verbatim>\<open>BTreeMap\<close> is a mapping with finitely many keys, read out in key
  order. Building a map from pairs keeps the last value of a key.
\<close>

named_theorems map_simps

lemma lookup_delete_iff: "Mapping.lookup (Mapping.delete k m) k' = (if k = k' then None else Mapping.lookup m k')"
  by simp

lemmas [map_simps] = lookup_update' lookup_empty lookup_delete_iff

section \<open>Definitions\<close>

definition btree_values :: "('k::linorder, 'v) mapping \<Rightarrow> 'v list" where
  "btree_values m = List.map_filter (Mapping.lookup m) (Mapping.ordered_keys m)"

definition collect_map :: "('a \<Rightarrow> 'k) \<Rightarrow> ('a \<Rightarrow> 'v) \<Rightarrow> 'a list \<Rightarrow> ('k, 'v) mapping" where
  "collect_map key val xs = foldl (\<lambda>m x. Mapping.update (key x) (val x) m) Mapping.empty xs"

definition finite_map :: "('k, 'v) mapping \<Rightarrow> bool" where
  "finite_map m \<longleftrightarrow> finite (Mapping.keys m)"

section \<open>Lemmas\<close>

lemma update_update_same [simp]: "Mapping.update k x (Mapping.update k y m) = Mapping.update k x m"
  by (rule mapping_eqI) (simp add: lookup_update')

lemma delete_update_fresh [simp]: "Mapping.lookup m k = None \<Longrightarrow> Mapping.delete k (Mapping.update k x m) = m"
  by (rule mapping_eqI) (auto simp: map_simps)

lemma finite_map_empty [simp]: "finite_map Mapping.empty"
  by (simp add: finite_map_def)

lemma finite_map_update [simp]: "finite_map (Mapping.update k v m) \<longleftrightarrow> finite_map m"
  by (simp add: finite_map_def)

lemma finite_map_delete [simp]: "finite_map (Mapping.delete k m) \<longleftrightarrow> finite_map m"
  by (simp add: finite_map_def)

lemma in_ordered_keys: "finite_map m \<Longrightarrow> k \<in> set (Mapping.ordered_keys m) \<longleftrightarrow> Mapping.lookup m k \<noteq> None"
  by (auto simp: finite_map_def Mapping.ordered_keys_def keys_dom_lookup)

lemma set_btree_values:
  "finite_map m \<Longrightarrow> set (btree_values m) = {v. \<exists>k. Mapping.lookup m k = Some v}"
  by (force simp: btree_values_def in_ordered_keys List.map_filter_def image_iff)

lemma btree_values_sorted:
  assumes "\<And>k v. Mapping.lookup m k = Some v \<Longrightarrow> f v = k" and "finite_map m"
  shows "map f (btree_values m) = Mapping.ordered_keys m"
proof -
  have "map f (List.map_filter (Mapping.lookup m) ks) = ks" if "\<And>k. k \<in> set ks \<Longrightarrow> Mapping.lookup m k \<noteq> None" for ks
    using that assms(1) by (induction ks) (auto simp: List.map_filter_def)
  from this [of "Mapping.ordered_keys m"] show ?thesis unfolding btree_values_def in_ordered_keys [OF assms(2)] by blast
qed

lemma foldl_update_lookup:
  "Mapping.lookup (foldl (\<lambda>m x. Mapping.update (key x) (val x) m) m0 xs) k =
     (let ys = filter (\<lambda>x. key x = k) xs in if ys = [] then Mapping.lookup m0 k else Some (val (last ys)))"
  by (induction xs rule: rev_induct) (auto simp: lookup_update')

lemma collect_map_lookup:
  "Mapping.lookup (collect_map key val xs) k =
     (let ys = filter (\<lambda>x. key x = k) xs in if ys = [] then None else Some (val (last ys)))"
  by (simp add: collect_map_def foldl_update_lookup lookup_empty Let_def)

lemma collect_map_None: "Mapping.lookup (collect_map key val xs) k = None \<longleftrightarrow> k \<notin> key ` set xs"
  by (auto simp: collect_map_lookup filter_empty_conv Let_def)

lemma collect_map_inj:
  assumes "inj_on key (set xs)" and "x \<in> set xs"
  shows "Mapping.lookup (collect_map key val xs) (key x) = Some (val x)"
proof -
  have "y = x" if "y \<in> set (filter (\<lambda>y. key y = key x) xs)" for y using that assms by (auto simp: inj_on_def)
  moreover have "filter (\<lambda>y. key y = key x) xs \<noteq> []" using assms(2) by (auto simp: filter_empty_conv)
  ultimately have "last (filter (\<lambda>y. key y = key x) xs) = x" by (metis last_in_set)
  with \<open>filter _ xs \<noteq> []\<close> show ?thesis by (simp add: collect_map_lookup)
qed

end
