(* ===== verification/Atomic_File.thy ===== *)
theory Atomic_File
  imports Maps "HOL-Library.Sublist"
begin

text \<open>
  Small-state files (\<^verbatim>\<open>atomic_file.rs\<close>): an exclusive temp file next to the target, written, synced and
  renamed over it. The disk is a map from paths to contents; what the operating system answers to each
  call is the record \<open>io_env\<close>; every disk state a crash could expose is kept in a trace. The locale
  \<open>small_file\<close> is what the owners of such files rely on.
\<close>

section \<open>Definitions\<close>

datatype io_error = AlreadyExists | IoNotFound | IoOther

type_synonym path = "string \<times> string"
type_synonym disk = "(path, bytes) mapping"

text \<open>\<open>io_open i\<close> is the failure, if any, of the \<open>i\<close>-th exclusive create; \<open>io_written\<close> is how much of a
  write reaches the temp.\<close>

record io_env =
  io_read_fails :: bool
  io_mkdir :: "io_error option"
  io_stem :: "nat \<Rightarrow> io_error + string"
  io_open :: "nat \<Rightarrow> io_error option"
  io_written :: nat
  io_write :: "io_error option"
  io_sync :: "io_error option"
  io_rename :: "io_error option"
  io_remove_fails :: bool

definition CREATE_ATTEMPTS :: nat where "CREATE_ATTEMPTS = 16"

definition read_file :: "io_env \<Rightarrow> disk \<Rightarrow> path \<Rightarrow> io_error + bytes" where
  "read_file env d p =
     (if io_read_fails env then Inl IoOther
      else case Mapping.lookup d p of None \<Rightarrow> Inl IoNotFound | Some bs \<Rightarrow> Inr bs)"

definition open_exclusive :: "io_env \<Rightarrow> nat \<Rightarrow> disk \<Rightarrow> path \<Rightarrow> io_error + disk" where
  "open_exclusive env i d p =
     (if Mapping.lookup d p \<noteq> None then Inl AlreadyExists
      else case io_open env i of Some e \<Rightarrow> Inl e | None \<Rightarrow> Inr (Mapping.update p [] d))"

fun create_in_loop :: "io_env \<Rightarrow> disk \<Rightarrow> string \<Rightarrow> string \<Rightarrow> string \<Rightarrow> nat \<Rightarrow> nat \<Rightarrow> io_error + (disk \<times> path)" where
  "create_in_loop env d dir pre suf i 0 = Inl AlreadyExists"
| "create_in_loop env d dir pre suf i (Suc left) =
     r_bind (io_stem env i) (\<lambda>stem.
       let p = (dir, pre @ stem @ suf) in
       case open_exclusive env i d p of
         Inr d' \<Rightarrow> Inr (d', p)
       | Inl AlreadyExists \<Rightarrow> create_in_loop env d dir pre suf (i + 1) left
       | Inl e \<Rightarrow> Inl e)"

definition create_in_with :: "io_env \<Rightarrow> disk \<Rightarrow> string \<Rightarrow> string \<Rightarrow> string \<Rightarrow> io_error + (disk \<times> path)" where
  "create_in_with env d dir pre suf = create_in_loop env d dir pre suf 0 CREATE_ATTEMPTS"

text \<open>\<^verbatim>\<open>Drop\<close> of an unpersisted temp.\<close>

definition drop_temp :: "io_env \<Rightarrow> disk \<Rightarrow> path \<Rightarrow> disk" where
  "drop_temp env d p = (if io_remove_fails env then d else Mapping.delete p d)"

definition persist_temp :: "io_env \<Rightarrow> disk \<Rightarrow> path \<Rightarrow> path \<Rightarrow> io_error + disk" where
  "persist_temp env d tmp target =
     (case io_rename env of
        Some e \<Rightarrow> Inl e
      | None \<Rightarrow>
          (case Mapping.lookup d tmp of
             None \<Rightarrow> Inl IoNotFound
           | Some bs \<Rightarrow> Inr (Mapping.update target bs (Mapping.delete tmp d))))"

definition parent_dir :: "path \<Rightarrow> string" where
  "parent_dir p = (if fst p = [] then ''.'' else fst p)"

text \<open>The result, and every disk state on the way, the final one last.\<close>

definition write_atomically ::
    "io_env \<Rightarrow> disk \<Rightarrow> path \<Rightarrow> string \<Rightarrow> string \<Rightarrow> bytes \<Rightarrow> (io_error + unit) \<times> disk list" where
  "write_atomically env d target pre suf bs =
     (let dir = parent_dir target in
      case io_mkdir env of
        Some e \<Rightarrow> (Inl e, [d])
      | None \<Rightarrow>
      case create_in_with env d dir pre suf of
        Inl e \<Rightarrow> (Inl e, [d])
      | Inr (d1, tmp) \<Rightarrow>
      case io_write env of
        Some e \<Rightarrow>
          (let d2 = Mapping.update tmp (take (io_written env) bs) d1 in (Inl e, [d, d1, d2, drop_temp env d2 tmp]))
      | None \<Rightarrow>
          let part = Mapping.update tmp (take (io_written env) bs) d1;
              d2 = Mapping.update tmp bs d1
          in case io_sync env of
            Some e \<Rightarrow> (Inl e, [d, d1, part, d2, drop_temp env d2 tmp])
          | None \<Rightarrow>
          case persist_temp env d2 tmp target of
            Inl e \<Rightarrow> (Inl e, [d, d1, part, d2, drop_temp env d2 tmp])
          | Inr d3 \<Rightarrow> (Inr (), [d, d1, part, d2, d3]))"

section \<open>The contract of a small file\<close>

text \<open>The owner of a file sees its whole content or none; a failed write leaves it as it was.\<close>

locale small_file =
  fixes okp :: "'p \<Rightarrow> bool"
    and content :: "'d \<Rightarrow> 'p \<Rightarrow> bytes option"
    and rd :: "'e \<Rightarrow> 'd \<Rightarrow> 'p \<Rightarrow> io_error + bytes"
    and wr :: "'e \<Rightarrow> 'd \<Rightarrow> 'p \<Rightarrow> bytes \<Rightarrow> (io_error + unit) \<times> 'd"
  assumes rd_content: "rd e d p = Inr bs \<Longrightarrow> content d p = Some bs"
    and rd_absent: "rd e d p = Inl IoNotFound \<Longrightarrow> content d p = None"
    and wr_ok: "okp p \<Longrightarrow> wr e d p bs = (Inr u, d') \<Longrightarrow> content d' p = Some bs"
    and wr_failed: "okp p \<Longrightarrow> wr e d p bs = (Inl x, d') \<Longrightarrow> content d' p = content d p"
begin

lemma wr_cases: "okp p \<Longrightarrow> content (snd (wr e d p bs)) p = Some bs \<or> content (snd (wr e d p bs)) p = content d p"
  by (cases "wr e d p bs"; cases "fst (wr e d p bs)") (auto dest: wr_ok wr_failed)

end

text \<open>Owners of several files on one disk: writing one leaves the others as they are.\<close>

locale framed_file = small_file +
  assumes wr_frame: "okp p \<Longrightarrow> q \<noteq> p \<Longrightarrow> content d q = Some c \<Longrightarrow> content (snd (wr e d p bs)) q = Some c"

section \<open>Lemmas\<close>

lemma create_in_loop_Inr:
  "create_in_loop env d dir pre suf i n = Inr (d', tmp) \<Longrightarrow>
     Mapping.lookup d tmp = None \<and> d' = Mapping.update tmp [] d \<and> (\<exists>stem. tmp = (dir, pre @ stem @ suf))"
proof (induction env d dir pre suf i n rule: create_in_loop.induct)
  case (2 env d dir pre suf i left)
  from "2.prems" obtain stem where stem: "io_stem env i = Inr stem" by (auto simp: r_bind_Inr_iff)
  show ?case
  proof (cases "open_exclusive env i d (dir, pre @ stem @ suf)")
    case (Inl e)
    with 2 stem show ?thesis by (cases e) auto
  next
    case (Inr x)
    with "2.prems" stem show ?thesis by (auto simp: open_exclusive_def split: if_splits option.splits)
  qed
qed simp

text \<open>A temp file never has the target's name.\<close>

definition target_ok :: "string \<Rightarrow> path \<Rightarrow> bool" where
  "target_ok pre p \<longleftrightarrow> \<not> prefix pre (snd p)"

lemma drop_temp_lookup:
  "Mapping.lookup (drop_temp env d tmp) p = (if p = tmp \<and> \<not> io_remove_fails env then None else Mapping.lookup d p)"
  by (auto simp: drop_temp_def lookup_delete_iff)

lemma write_atomically_cases [consumes 1]:
  assumes "target_ok pre target"
  obtains (refused) e where "write_atomically env d target pre suf bs = (Inl e, [d])"
  | (failed) e d1 mid d2 tmp where "write_atomically env d target pre suf bs = (Inl e, d # d1 # mid @ [d2, drop_temp env d2 tmp])"
      "tmp \<noteq> target" "Mapping.lookup d tmp = None"
      "\<forall>s\<in>set (d1 # mid @ [d2]). \<exists>x. s = Mapping.update tmp x d"
  | (replaced) d1 part tmp where "write_atomically env d target pre suf bs =
        (Inr (), [d, d1, part, Mapping.update tmp bs d, Mapping.update target bs (Mapping.delete tmp (Mapping.update tmp bs d))])"
      "tmp \<noteq> target" "Mapping.lookup d tmp = None"
      "\<forall>s\<in>{d1, part}. \<exists>x. s = Mapping.update tmp x d"
proof -
  let ?dir = "parent_dir target"
  show ?thesis
  proof (cases "io_mkdir env = None \<and> (\<exists>y. create_in_with env d ?dir pre suf = Inr y)")
    case False
    then show ?thesis
      by (cases "io_mkdir env"; cases "create_in_with env d ?dir pre suf")
        (auto simp: write_atomically_def intro: refused)
  next
    case True
    then obtain d1 tmp where mk: "io_mkdir env = None" and c: "create_in_with env d ?dir pre suf = Inr (d1, tmp)" by auto
    from create_in_loop_Inr [OF c [unfolded create_in_with_def]]
    have t: "Mapping.lookup d tmp = None" "d1 = Mapping.update tmp [] d" "tmp \<noteq> target"
      using assms by (auto simp: target_ok_def) (metis prefixI snd_conv)
    show ?thesis
    proof (cases "io_write env")
      case (Some e)
      with mk c t(1,3) show ?thesis
        by (intro failed [of e d1 "[]" "Mapping.update tmp (take (io_written env) bs) d" tmp])
          (auto simp: write_atomically_def Let_def t(2))
    next
      case None
      note w = None
      let ?part = "Mapping.update tmp (take (io_written env) bs) d"
      let ?d2 = "Mapping.update tmp bs d"
      show ?thesis
      proof (cases "io_sync env = None \<and> (\<exists>y. persist_temp env ?d2 tmp target = Inr y)")
        case True
        then have "io_sync env = None" "persist_temp env ?d2 tmp target = Inr (Mapping.update target bs (Mapping.delete tmp ?d2))"
          by (auto simp: persist_temp_def lookup_update' split: option.splits)
        with mk c t(1,3) w show ?thesis
          by (intro replaced [of d1 ?part tmp]) (auto simp: write_atomically_def Let_def t(2))
      next
        case False
        with mk c t(1,3) w show ?thesis
          by (intro failed [of "case io_sync env of Some e \<Rightarrow> e | None \<Rightarrow> projl (persist_temp env ?d2 tmp target)" d1 "[?part]" ?d2 tmp])
            (auto simp: write_atomically_def Let_def t(2) split: option.splits sum.splits)
      qed
    qed
  qed
qed

text \<open>What a reader and a crash can see.\<close>

lemma temp_invisible: "\<exists>x. s = Mapping.update tmp x d \<Longrightarrow> p \<noteq> tmp \<Longrightarrow> Mapping.lookup s p = Mapping.lookup d p"
  by (auto simp: lookup_update')

lemma write_atomically_final:
  assumes "target_ok pre target"
  shows "fst (write_atomically env d target pre suf bs) = Inr u \<Longrightarrow>
      Mapping.lookup (last (snd (write_atomically env d target pre suf bs))) target = Some bs"
    and "fst (write_atomically env d target pre suf bs) = Inl e \<Longrightarrow>
      Mapping.lookup (last (snd (write_atomically env d target pre suf bs))) target = Mapping.lookup d target"
  using assms
  by (cases rule: write_atomically_cases [OF assms, of env d suf bs];
      fastforce simp: lookup_update' drop_temp_lookup)+

lemma write_atomically_frame:
  assumes "target_ok pre target" and "p \<noteq> target" and "Mapping.lookup d p = Some c"
  shows "Mapping.lookup (last (snd (write_atomically env d target pre suf bs))) p = Some c"
  using assms(2,3)
  by (cases rule: write_atomically_cases [OF assms(1), of env d suf bs]) (auto simp: map_simps drop_temp_lookup)

section \<open>The contract holds\<close>

definition wm_write :: "io_env \<Rightarrow> disk \<Rightarrow> path \<Rightarrow> bytes \<Rightarrow> (io_error + unit) \<times> disk" where
  "wm_write env d p bs =
     (let (r, states) = write_atomically env d p ''.head-watermarks-'' ''.tmp'' bs in (r, last states))"

definition tip_write :: "io_env \<Rightarrow> disk \<Rightarrow> path \<Rightarrow> bytes \<Rightarrow> (io_error + unit) \<times> disk" where
  "tip_write env d p bs =
     (let (r, states) = write_atomically env d p ''.writer-tip-'' ''.tmp'' bs in (r, last states))"

lemma small_file_contract:
  "small_file (target_ok pre) Mapping.lookup read_file
     (\<lambda>env d p bs. let (r, states) = write_atomically env d p pre suf bs in (r, last states))"
proof
  fix e d p bs u d' x
  show "read_file e d p = Inr bs \<Longrightarrow> Mapping.lookup d p = Some bs"
    and "read_file e d p = Inl IoNotFound \<Longrightarrow> Mapping.lookup d p = None"
    by (auto simp: read_file_def split: if_splits option.splits)
  show "target_ok pre p \<Longrightarrow> (let (r, states) = write_atomically e d p pre suf bs in (r, last states)) = (Inr u, d') \<Longrightarrow>
      Mapping.lookup d' p = Some bs"
    using write_atomically_final(1) [of pre p e d suf bs u] by (auto split: prod.splits)
  show "target_ok pre p \<Longrightarrow> (let (r, states) = write_atomically e d p pre suf bs in (r, last states)) = (Inl x, d') \<Longrightarrow>
      Mapping.lookup d' p = Mapping.lookup d p"
    using write_atomically_final(2) [of pre p e d suf bs x] by (auto split: prod.splits)
qed

lemma framed_file_contract:
  "framed_file (target_ok pre) Mapping.lookup read_file
     (\<lambda>env d p bs. let (r, states) = write_atomically env d p pre suf bs in (r, last states))"
  by (intro framed_file.intro framed_file_axioms.intro small_file_contract)
    (simp add: split_beta write_atomically_frame)

interpretation marks_file: framed_file "target_ok ''.head-watermarks-''" Mapping.lookup read_file wm_write
  unfolding wm_write_def [abs_def] by (rule framed_file_contract)

interpretation tip_file: framed_file "target_ok ''.writer-tip-''" Mapping.lookup read_file tip_write
  unfolding tip_write_def [abs_def] by (rule framed_file_contract)

section \<open>Properties\<close>

text \<open>Replacing a file is atomic: whatever the system answers and wherever a crash cuts the sequence
  short, the target holds its old content or the whole new one and no other file but one fresh temp is
  touched; success means the new content and no temp left, failure the old content.\<close>

theorem atomic_replace:
  assumes "target_ok pre target" and "write_atomically env d target pre suf bs = (r, states)"
  shows "(\<forall>s\<in>set states. Mapping.lookup s target \<in> {Mapping.lookup d target, Some bs} \<and>
       (\<forall>p. p \<noteq> target \<and> Mapping.lookup d p \<noteq> None \<longrightarrow> Mapping.lookup s p = Mapping.lookup d p)) \<and>
    (case r of
       Inr _ \<Rightarrow> last states = Mapping.update target bs d
     | Inl _ \<Rightarrow> Mapping.lookup (last states) target = Mapping.lookup d target \<and>
         (\<not> io_remove_fails env \<longrightarrow> last states = d))"
using assms(1)
proof (cases rule: write_atomically_cases [where env = env and d = d and suf = suf and bs = bs])
  case (refused e)
  with assms(2) show ?thesis by auto
next
  case (failed e d1 mid d2 tmp)
  have last: "last states = drop_temp env d2 tmp" and r: "r = Inl e" and set: "set states = {d, d1, d2, drop_temp env d2 tmp} \<union> set mid"
    using assms(2) failed(1) by auto
  have drop: "\<not> io_remove_fails env \<Longrightarrow> drop_temp env d2 tmp = d" and
    eq: "p \<noteq> tmp \<Longrightarrow> Mapping.lookup (drop_temp env d2 tmp) p = Mapping.lookup d p" for p
    using failed(3,4) by (auto simp: drop_temp_def map_simps)
  have "Mapping.lookup s p = Mapping.lookup d p" if "s \<in> set states" "p \<noteq> tmp" for s p
  proof -
    from that(1) consider "s = d" | "s \<in> set (d1 # mid @ [d2])" | "s = drop_temp env d2 tmp" by (auto simp: set)
    then show ?thesis using failed(4) eq [OF that(2)] temp_invisible [of s tmp d p] that(2) by cases blast+
  qed
  then have "Mapping.lookup s p = Mapping.lookup d p" if "s \<in> set states" "p = target \<or> Mapping.lookup d p \<noteq> None" for s p
    using that failed(2,3) by metis
  with drop last show ?thesis by (simp add: r eq failed(2)[symmetric])
next
  case (replaced d1 part tmp)
  have last: "last states = Mapping.update target bs d"
    using assms(2) replaced(1,3) by auto
  have "Mapping.lookup s p = Mapping.lookup d p" if "s \<in> set states" "p \<noteq> tmp" "p \<noteq> target" for s p
    using that assms(2) replaced temp_invisible [of _ tmp d p] by (auto simp: map_simps)
  moreover have "Mapping.lookup s target \<in> {Mapping.lookup d target, Some bs}" if "s \<in> set states" for s
    using that assms(2) replaced temp_invisible [of _ tmp d target] by (auto simp: map_simps)
  moreover have "r = Inr ()" using assms(2) replaced(1) by simp
  moreover have "p \<noteq> tmp" if "Mapping.lookup d p \<noteq> None" for p using that replaced(3) by metis
  ultimately show ?thesis using last by simp
qed

text \<open>A disk with one old file; the write fails halfway.\<close>

definition demo_env :: io_env where
  "demo_env = \<lparr>io_read_fails = False, io_mkdir = None, io_stem = (\<lambda>_. Inr ''x''), io_open = (\<lambda>_. None),
     io_written = 1, io_write = Some IoOther, io_sync = None, io_rename = None, io_remove_fails = False\<rparr>"

theorem atomic_replace_witness:
  "Mapping.lookup (last (snd (write_atomically demo_env (Mapping.update (''d'', ''f'') [1] Mapping.empty)
     (''d'', ''f'') ''.t-'' ''.tmp'' [7, 8]))) (''d'', ''f'') = Some [1]"
proof -
  let ?d = "Mapping.update (''d'', ''f'') [1] Mapping.empty"
  have ok: "target_ok ''.t-'' (''d'', ''f'')" by (simp add: target_ok_def)
  obtain r states where run: "write_atomically demo_env ?d (''d'', ''f'') ''.t-'' ''.tmp'' [7, 8] = (r, states)" by fastforce
  moreover have "isl r"
    using run by (auto simp: write_atomically_def demo_env_def Let_def create_in_with_def split: sum.splits prod.splits)
  ultimately show ?thesis using atomic_replace [OF ok run] by (auto simp: map_simps split: sum.splits)
qed

end
