(* ===== verification/Demo_Codec.thy ===== *)
theory Demo_Codec
  imports Prelude
begin

text \<open>
  One concrete, total codec for the values the code stores as JSON: the witnesses use it where a theorem
  takes the wire format as a parameter that reads back what it wrote. Numbers are in unary, everything
  else is preceded by its length.
\<close>

definition enc_nat :: "nat \<Rightarrow> bytes" where
  "enc_nat n = replicate n 1 @ [0]"

definition dec_nat :: "bytes \<Rightarrow> nat \<times> bytes" where
  "dec_nat bs = (let n = length (takeWhile (\<lambda>b. b = 1) bs) in (n, drop (n + 1) bs))"

definition enc_bytes :: "bytes \<Rightarrow> bytes" where
  "enc_bytes bs = enc_nat (length bs) @ bs"

definition dec_bytes :: "bytes \<Rightarrow> bytes \<times> bytes" where
  "dec_bytes bs = (let (n, r) = dec_nat bs in (take n r, drop n r))"

definition enc_word :: "'a::len word \<Rightarrow> bytes" where
  "enc_word w = enc_nat (unat w)"

definition dec_word :: "bytes \<Rightarrow> 'a::len word \<times> bytes" where
  "dec_word bs = (let (n, r) = dec_nat bs in (word_of_nat n, r))"

definition enc_text :: "string \<Rightarrow> bytes" where
  "enc_text s = enc_bytes (as_bytes s)"

definition dec_text :: "bytes \<Rightarrow> string \<times> bytes" where
  "dec_text bs = (let (b, r) = dec_bytes bs in (map (\<lambda>x. char_of (unat x)) b, r))"

definition enc_list :: "('a \<Rightarrow> bytes) \<Rightarrow> 'a list \<Rightarrow> bytes" where
  "enc_list f xs = enc_nat (length xs) @ concat (map f xs)"

fun dec_items :: "(bytes \<Rightarrow> 'a \<times> bytes) \<Rightarrow> nat \<Rightarrow> bytes \<Rightarrow> 'a list \<times> bytes" where
  "dec_items g 0 bs = ([], bs)"
| "dec_items g (Suc n) bs = (let (x, r) = g bs; (xs, r') = dec_items g n r in (x # xs, r'))"

definition dec_list :: "(bytes \<Rightarrow> 'a \<times> bytes) \<Rightarrow> bytes \<Rightarrow> 'a list \<times> bytes" where
  "dec_list g bs = (let (n, r) = dec_nat bs in dec_items g n r)"

named_theorems codec_simps

lemma dec_enc_nat [codec_simps]: "dec_nat (enc_nat n @ r) = (n, r)"
proof -
  have "takeWhile (\<lambda>b. b = 1) (replicate n 1 @ 0 # r) = replicate n (1::byte)"
    by (induction n) auto
  then show ?thesis by (simp add: dec_nat_def enc_nat_def)
qed

lemma dec_enc_bytes [codec_simps]: "dec_bytes (enc_bytes bs @ r) = (bs, r)"
  by (simp add: dec_bytes_def enc_bytes_def codec_simps)

lemma dec_enc_word [codec_simps]: "dec_word (enc_word w @ r) = (w, r)"
  by (simp add: dec_word_def enc_word_def codec_simps)

lemma dec_enc_text [codec_simps]: "dec_text (enc_text s @ r) = (s, r)"
  by (simp add: dec_text_def enc_text_def codec_simps as_bytes_def comp_def unat_byte_of)

lemma dec_enc_items: "(\<And>x r. g (f x @ r) = (x, r)) \<Longrightarrow> dec_items g (length xs) (concat (map f xs) @ r) = (xs, r)"
  by (induction xs arbitrary: r) simp_all

lemma dec_enc_list: "(\<And>x r. g (f x @ r) = (x, r)) \<Longrightarrow> dec_list g (enc_list f xs @ r) = (xs, r)"
  by (simp add: dec_list_def enc_list_def codec_simps dec_enc_items)

end
