(* ===== verification/Watermark.thy ===== *)
theory Watermark
  imports Head Atomic_File Demo_Codec
begin

text \<open>
  This machine's memory of the highest head it has verified per author (\<^verbatim>\<open>oplog/watermark.rs\<close>): the
  marks, the comparison of a verified read against them, and the file several processes share. The JSON
  codec of the file and the file operations are parameters; the latter obey \<open>small_file\<close>.
\<close>

section \<open>Definitions\<close>

definition WATERMARK_FILE_VERSION :: u32 where "WATERMARK_FILE_VERSION = 1"

record head_watermark =
  hw_author_key :: verifying_key
  hw_lamport :: u64
  hw_tip_hash :: blake3_hash

record watermark_file =
  wf_version :: u32
  wf_marks :: "head_watermark list"

record head_regression =
  hr_author :: ss58
  hr_author_key :: verifying_key
  hr_remembered_lamport :: u64
  hr_remembered_tip :: blake3_hash
  hr_served_lamport :: "u64 option"
  hr_served_tip :: "blake3_hash option"

type_synonym marks = "(verifying_key, head_watermark) mapping"

record comparison =
  cm_regressions :: "head_regression list"
  cm_advanced :: bool

text \<open>The advance-only rule of the two folds over marks: of two marks of one author the earlier met stays
  unless the later is strictly higher.\<close>

definition fold_mark :: "marks \<Rightarrow> head_watermark \<Rightarrow> marks" where
  "fold_mark ms mark =
     (let key = hw_author_key mark in
      case Mapping.lookup ms key of
        Some kept \<Rightarrow> if hw_lamport kept \<ge> hw_lamport mark then ms else Mapping.update key mark ms
      | None \<Rightarrow> Mapping.update key mark ms)"

definition decode_marks :: "(bytes \<Rightarrow> watermark_file option) \<Rightarrow> bytes \<Rightarrow> marks" where
  "decode_marks dec bs =
     (case dec bs of
        None \<Rightarrow> Mapping.empty
      | Some file \<Rightarrow>
          if wf_version file \<noteq> WATERMARK_FILE_VERSION then Mapping.empty
          else foldl fold_mark Mapping.empty (wf_marks file))"

text \<open>A missing file and an unreadable one differ only in the warning.\<close>

definition marks_of_read :: "(bytes \<Rightarrow> watermark_file option) \<Rightarrow> io_error + bytes \<Rightarrow> marks" where
  "marks_of_read dec r = (case r of Inr bs \<Rightarrow> decode_marks dec bs | Inl _ \<Rightarrow> Mapping.empty)"

definition merged_marks :: "(bytes \<Rightarrow> watermark_file option) \<Rightarrow> io_error + bytes \<Rightarrow> marks \<Rightarrow> marks" where
  "merged_marks dec r ms = foldl fold_mark (marks_of_read dec r) (btree_values ms)"

definition write_marks ::
    "(bytes \<Rightarrow> watermark_file option) \<Rightarrow> (watermark_file \<Rightarrow> bytes) \<Rightarrow>
     ('e \<Rightarrow> 'd \<Rightarrow> 'p \<Rightarrow> io_error + bytes) \<Rightarrow> ('e \<Rightarrow> 'd \<Rightarrow> 'p \<Rightarrow> bytes \<Rightarrow> (io_error + unit) \<times> 'd) \<Rightarrow>
     'e \<Rightarrow> 'd \<Rightarrow> 'p \<Rightarrow> marks \<Rightarrow> (mem_error + unit) \<times> 'd" where
  "write_marks dec enc rd wr e d p ms =
     (let merged = merged_marks dec (rd e d p) ms;
          file = \<lparr>wf_version = WATERMARK_FILE_VERSION, wf_marks = btree_values merged\<rparr>;
          (r, d') = wr e d p (enc file)
      in (case r of Inl _ \<Rightarrow> Inl Io | Inr u \<Rightarrow> Inr u, d'))"

text \<open>Failures to persist are warned and swallowed.\<close>

definition persist_marks where
  "persist_marks dec enc rd wr e d p ms = snd (write_marks dec enc rd wr e d p ms)"

definition load_marks :: "(bytes \<Rightarrow> watermark_file option) \<Rightarrow> ('e \<Rightarrow> 'd \<Rightarrow> 'p \<Rightarrow> io_error + bytes) \<Rightarrow> 'e \<Rightarrow> 'd \<Rightarrow> 'p \<Rightarrow> marks" where
  "load_marks dec rd e d p = marks_of_read dec (rd e d p)"

definition is_at_or_above :: "head_pointer \<Rightarrow> head_watermark \<Rightarrow> bool" where
  "is_at_or_above head remembered \<longleftrightarrow>
     hp_lamport head > hw_lamport remembered \<or>
     (hp_lamport head = hw_lamport remembered \<and> hp_tip_hash head = hw_tip_hash remembered)"

definition mark_of :: "head_pointer \<Rightarrow> head_watermark" where
  "mark_of head = \<lparr>hw_author_key = hp_author_key head, hw_lamport = hp_lamport head, hw_tip_hash = hp_tip_hash head\<rparr>"

definition advance_to :: "marks \<Rightarrow> head_pointer \<Rightarrow> marks \<times> bool" where
  "advance_to ms head =
     (let key = hp_author_key head;
          inserted = (Mapping.update key (mark_of head) ms, True)
      in case Mapping.lookup ms key of
           Some remembered \<Rightarrow>
             if \<not> is_at_or_above head remembered then (ms, False)
             else if hw_lamport remembered = hp_lamport head then (ms, False)
             else inserted
         | None \<Rightarrow> inserted)"

definition regression :: "prims \<Rightarrow> head_watermark \<Rightarrow> head_pointer option \<Rightarrow> head_regression" where
  "regression P remembered head =
     \<lparr>hr_author = ss58_encode P (hw_author_key remembered) HIPPIUS_SS58_PREFIX,
      hr_author_key = hw_author_key remembered,
      hr_remembered_lamport = hw_lamport remembered,
      hr_remembered_tip = hw_tip_hash remembered,
      hr_served_lamport = map_option hp_lamport head,
      hr_served_tip = map_option hp_tip_hash head\<rparr>"

definition regression_of :: "prims \<Rightarrow> (verifying_key, head_pointer) mapping \<Rightarrow> head_watermark \<Rightarrow> head_regression option" where
  "regression_of P by_author remembered =
     (case Mapping.lookup by_author (hw_author_key remembered) of
        None \<Rightarrow> Some (regression P remembered None)
      | Some head \<Rightarrow> if \<not> is_at_or_above head remembered then Some (regression P remembered (Some head)) else None)"

definition compare_then_advance :: "prims \<Rightarrow> marks \<Rightarrow> head_pointer list \<Rightarrow> comparison \<times> marks" where
  "compare_then_advance P ms heads =
     (let by_author = collect_map hp_author_key id heads;
          regressions = List.map_filter (regression_of P by_author) (btree_values ms);
          (ms', advanced) =
            foldl (\<lambda>(m, adv) head. let (m', a) = advance_to m head in (m', adv \<or> a)) (ms, False) heads
      in (\<lparr>cm_regressions = regressions, cm_advanced = advanced\<rparr>, ms'))"

text \<open>The two operations of \<^verbatim>\<open>HeadWatermarks\<close> on its in-memory marks and its file.\<close>

definition observe_heads where
  "observe_heads P dec enc rd wr e p ms d heads =
     (let (outcome, ms') = compare_then_advance P ms (heads_of heads);
          d' = (if cm_advanced outcome then persist_marks dec enc rd wr e d p ms' else d)
      in (cm_regressions outcome, ms', d'))"

definition record_published_head where
  "record_published_head dec enc rd wr e p ms d head =
     (let (ms', moved) = advance_to ms head;
          d' = (if moved then persist_marks dec enc rd wr e d p ms' else d)
      in (ms', d'))"

section \<open>Specification\<close>

text \<open>The head an author's mark has to remember after a history of heads: the first one served at the
  greatest Lamport time seen.\<close>

definition peak :: "verifying_key \<Rightarrow> head_pointer list \<Rightarrow> head_pointer option" where
  "peak k hs =
     (let own = filter (\<lambda>h. hp_author_key h = k) hs
      in find (\<lambda>h. list_all (\<lambda>g. hp_lamport g \<le> hp_lamport h) own) own)"

definition marks_ok :: "marks \<Rightarrow> bool" where
  "marks_ok ms \<longleftrightarrow> finite_map ms \<and> (\<forall>k m. Mapping.lookup ms k = Some m \<longrightarrow> hw_author_key m = k)"

text \<open>\<open>ms'\<close> remembers nothing lower than \<open>ms\<close>.\<close>

definition marks_le :: "marks \<Rightarrow> marks \<Rightarrow> bool" where
  "marks_le ms ms' \<longleftrightarrow>
     (\<forall>k m. Mapping.lookup ms k = Some m \<longrightarrow> (\<exists>m'. Mapping.lookup ms' k = Some m' \<and> hw_lamport m \<le> hw_lamport m'))"

section \<open>Lemmas\<close>

named_theorems mark_simps

lemma marks_le_refl [simp]: "marks_le ms ms"
  by (auto simp: marks_le_def)

lemma marks_le_empty [simp]: "marks_le Mapping.empty ms"
  by (simp add: marks_le_def lookup_empty)

lemma marks_le_trans: "marks_le a b \<Longrightarrow> marks_le b c \<Longrightarrow> marks_le a c"
  unfolding marks_le_def by (meson order_trans)

lemma marks_ok_empty [simp]: "marks_ok Mapping.empty"
  by (simp add: marks_ok_def lookup_empty)

lemma fold_mark_lookup [mark_simps]:
  "Mapping.lookup (fold_mark ms m) k =
     (if k = hw_author_key m
      then (case Mapping.lookup ms k of Some kept \<Rightarrow> Some (if hw_lamport kept \<ge> hw_lamport m then kept else m) | None \<Rightarrow> Some m)
      else Mapping.lookup ms k)"
  by (auto simp: fold_mark_def lookup_update' Let_def split: option.splits)

lemma fold_mark_ok: "marks_ok ms \<Longrightarrow> marks_ok (fold_mark ms m)"
proof -
  assume ok: "marks_ok ms"
  have "finite_map (fold_mark ms m)" using ok by (auto simp: marks_ok_def fold_mark_def Let_def split: option.splits)
  with ok show ?thesis by (auto simp: marks_ok_def fold_mark_lookup split: option.splits if_splits)
qed

lemma fold_mark_le: "marks_le ms (fold_mark ms m)"
  by (auto simp: marks_le_def fold_mark_lookup split: option.splits)

lemma fold_mark_covers: "\<exists>m'. Mapping.lookup (fold_mark ms m) (hw_author_key m) = Some m' \<and> hw_lamport m \<le> hw_lamport m'"
  by (auto simp: fold_mark_lookup split: option.splits)

lemma folded_marks:
  "marks_le ms (foldl fold_mark ms xs)"
  "marks_ok ms \<Longrightarrow> marks_ok (foldl fold_mark ms xs)"
  "m \<in> set xs \<Longrightarrow> \<exists>m'. Mapping.lookup (foldl fold_mark ms xs) (hw_author_key m) = Some m' \<and> hw_lamport m \<le> hw_lamport m'"
proof (induction xs rule: rev_induct)
  case (snoc x xs)
  {
    case 1
    from marks_le_trans [OF snoc(1) fold_mark_le] show ?case by simp
  next
    case 2
    then show ?case using fold_mark_ok [OF snoc(2)] by simp
  next
    case 3
    show ?case
    proof (cases "m = x")
      case True
      then show ?thesis using fold_mark_covers by simp
    next
      case False
      with 3 snoc(3) obtain m' where "Mapping.lookup (foldl fold_mark ms xs) (hw_author_key m) = Some m'" "hw_lamport m \<le> hw_lamport m'"
        by auto
      with fold_mark_le [of "foldl fold_mark ms xs" x] show ?thesis unfolding marks_le_def by (fastforce intro: order_trans)
    qed
  }
qed simp_all

lemma marks_ok_values:
  "marks_ok ms \<Longrightarrow> m \<in> set (btree_values ms) \<longleftrightarrow> Mapping.lookup ms (hw_author_key m) = Some m"
  by (auto simp: marks_ok_def set_btree_values)

lemma fold_values_le: "marks_ok ms \<Longrightarrow> marks_le ms (foldl fold_mark ms0 (btree_values ms))"
  unfolding marks_le_def using folded_marks(3) [of _ "btree_values ms" ms0] marks_ok_values [of ms]
  by (metis marks_ok_def)

lemma decode_marks_ok: "marks_ok (decode_marks dec bs)"
  by (auto simp: decode_marks_def folded_marks(2) split: option.splits)

lemma marks_of_read_ok: "marks_ok (marks_of_read dec r)"
  by (auto simp: marks_of_read_def decode_marks_ok split: sum.splits)

lemma merged_marks_ok: "marks_ok (merged_marks dec r ms)"
  by (simp add: merged_marks_def folded_marks(2) marks_of_read_ok)

lemma merged_marks_ge:
  "marks_le (marks_of_read dec r) (merged_marks dec r ms)"
  "marks_ok ms \<Longrightarrow> marks_le ms (merged_marks dec r ms)"
  by (simp_all add: merged_marks_def folded_marks(1) fold_values_le)

lemma decode_written:
  "marks_ok ms \<Longrightarrow> dec bs = Some \<lparr>wf_version = WATERMARK_FILE_VERSION, wf_marks = btree_values ms\<rparr> \<Longrightarrow>
     marks_le ms (decode_marks dec bs)"
  by (simp add: decode_marks_def fold_values_le)

subsection \<open>The file\<close>

definition file_marks :: "(bytes \<Rightarrow> watermark_file option) \<Rightarrow> bytes option \<Rightarrow> marks" where
  "file_marks dec c = (case c of None \<Rightarrow> Mapping.empty | Some bs \<Rightarrow> decode_marks dec bs)"

context small_file
begin

text \<open>What a read that did not fail tells of the file, and what a write leaves in it.\<close>

lemma marks_of_read_content:
  "rd e d p \<noteq> Inl IoOther \<Longrightarrow> rd e d p \<noteq> Inl AlreadyExists \<Longrightarrow> marks_of_read dec (rd e d p) = file_marks dec (content d p)"
  using rd_content [of e d p] rd_absent [of e d p]
  by (cases "rd e d p"; cases "projl (rd e d p)") (simp_all add: marks_of_read_def file_marks_def)

lemma write_marks_content:
  assumes "okp p" and "\<And>f. dec (enc f) = Some f" and "write_marks dec enc rd wr e d p ms = (r, d')"
  shows "r = Inr u \<Longrightarrow> marks_le (merged_marks dec (rd e d p) ms) (file_marks dec (content d' p))"
    and "r = Inl x \<Longrightarrow> content d' p = content d p"
proof -
  let ?file = "\<lparr>wf_version = WATERMARK_FILE_VERSION, wf_marks = btree_values (merged_marks dec (rd e d p) ms)\<rparr>"
  obtain r' where w: "wr e d p (enc ?file) = (r', d')" and r: "r = (case r' of Inl _ \<Rightarrow> Inl Io | Inr u \<Rightarrow> Inr u)"
    using assms(3) by (auto simp: write_marks_def Let_def split: prod.splits)
  show "marks_le (merged_marks dec (rd e d p) ms) (file_marks dec (content d' p))" if "r = Inr u"
  proof -
    from that r have "r' = Inr u" by (auto split: sum.splits)
    from wr_ok [OF assms(1) w [unfolded this]] have "content d' p = Some (enc ?file)" .
    then show ?thesis by (simp add: file_marks_def decode_written [OF merged_marks_ok] assms(2))
  qed
  show "content d' p = content d p" if "r = Inl x"
    using that r wr_failed [OF assms(1)] w by (auto split: sum.splits)
qed

lemma persist_marks_le:
  assumes "okp p" and "\<And>f. dec (enc f) = Some f" and "rd e d p \<noteq> Inl IoOther" and "rd e d p \<noteq> Inl AlreadyExists"
  shows "marks_le (file_marks dec (content d p)) (file_marks dec (content (persist_marks dec enc rd wr e d p ms) p))"
proof -
  obtain r d' where w: "write_marks dec enc rd wr e d p ms = (r, d')" by fastforce
  note c = write_marks_content [OF assms(1,2) w]
  show ?thesis
  proof (cases r)
    case (Inl x)
    with c(2) show ?thesis by (simp add: persist_marks_def w)
  next
    case (Inr u)
    from marks_le_trans [OF merged_marks_ge(1) c(1) [OF Inr]] show ?thesis
      by (simp add: persist_marks_def w marks_of_read_content [OF assms(3,4)])
  qed
qed

end

subsection \<open>Advancing\<close>

lemma advance_to_lookup:
  "Mapping.lookup (fst (advance_to ms h)) k =
     (if k \<noteq> hp_author_key h then Mapping.lookup ms k
      else case Mapping.lookup ms k of
             Some m \<Rightarrow> Some (if hw_lamport m < hp_lamport h then mark_of h else m)
           | None \<Rightarrow> Some (mark_of h))"
  by (auto simp: advance_to_def is_at_or_above_def Let_def lookup_update' split: option.splits)

lemma advance_to_ok: "marks_ok ms \<Longrightarrow> marks_ok (fst (advance_to ms h))"
proof -
  assume ok: "marks_ok ms"
  have "finite_map (fst (advance_to ms h))" using ok by (auto simp: marks_ok_def advance_to_def Let_def split: option.splits)
  with ok show ?thesis by (auto simp: marks_ok_def advance_to_lookup mark_of_def split: option.splits if_splits)
qed

lemma advance_to_le: "marks_le ms (fst (advance_to ms h))"
  by (auto simp: marks_le_def advance_to_lookup mark_of_def split: option.splits)

abbreviation advance_all :: "marks \<Rightarrow> head_pointer list \<Rightarrow> marks" where
  "advance_all \<equiv> foldl (\<lambda>m h. fst (advance_to m h))"

lemma compare_marks: "snd (compare_then_advance P ms heads) = advance_all ms heads"
proof -
  have "fst (foldl (\<lambda>(m, adv) h. let (m', a) = advance_to m h in (m', adv \<or> a)) (ms, b) heads) = advance_all ms heads" for b
    by (induction heads arbitrary: ms b) (auto split: prod.splits)
  then show ?thesis by (simp add: compare_then_advance_def Let_def split: prod.splits) (metis fst_conv)
qed

lemma advance_all_ok: "marks_ok ms \<Longrightarrow> marks_ok (advance_all ms heads)"
  by (induction heads rule: rev_induct) (auto intro: advance_to_ok)

lemma advance_all_le: "marks_le ms (advance_all ms heads)"
  by (induction heads rule: rev_induct) (auto intro: marks_le_trans advance_to_le)

subsection \<open>The history\<close>

lemma find_append: "find Q (xs @ ys) = (case find Q xs of None \<Rightarrow> find Q ys | Some x \<Rightarrow> Some x)"
  by (induction xs) auto

lemma find_strengthen: "find Q xs = Some p \<Longrightarrow> (\<And>x. Q' x \<Longrightarrow> Q x) \<Longrightarrow> Q' p \<Longrightarrow> find Q' xs = Some p"
  by (induction xs) (auto split: if_splits)

lemma find_SomeD: "find Q xs = Some p \<Longrightarrow> p \<in> set xs \<and> Q p"
  by (induction xs) (auto split: if_splits)

lemma greatest_exists: "xs \<noteq> [] \<Longrightarrow> \<exists>h\<in>set xs. list_all (\<lambda>g. (f g :: 'b::linorder) \<le> f h) xs"
proof (induction xs)
  case (Cons x xs)
  then show ?case
  proof (cases "xs = []")
    case False
    with Cons.IH obtain h where h: "h \<in> set xs" "list_all (\<lambda>g. f g \<le> f h) xs" by blast
    show ?thesis
    proof (cases "f x \<le> f h")
      case True
      with h show ?thesis by auto
    next
      case False
      then have "f h \<le> f x" by simp
      with h(2) have "list_all (\<lambda>g. f g \<le> f x) xs" by (auto simp: list_all_iff intro: order_trans)
      then show ?thesis by simp
    qed
  qed simp
qed simp

lemma peak_None: "peak k hs = None \<longleftrightarrow> filter (\<lambda>h. hp_author_key h = k) hs = []"
  using greatest_exists [of "filter (\<lambda>h. hp_author_key h = k) hs" hp_lamport]
  by (cases "filter (\<lambda>h. hp_author_key h = k) hs = []") (auto simp: peak_def Let_def find_None_iff simp del: filter_empty_conv set_filter)

lemma peak_Some:
  assumes "peak k hs = Some p"
  shows "p \<in> set hs" "hp_author_key p = k" "g \<in> set hs \<Longrightarrow> hp_author_key g = k \<Longrightarrow> hp_lamport g \<le> hp_lamport p"
  using find_SomeD [OF assms [unfolded peak_def Let_def]] by (auto simp: list_all_iff)

lemma peak_snoc:
  "peak k (hs @ [h]) =
     (if hp_author_key h \<noteq> k then peak k hs
      else case peak k hs of None \<Rightarrow> Some h | Some p \<Rightarrow> if hp_lamport p < hp_lamport h then Some h else Some p)"
proof (cases "hp_author_key h = k")
  case True
  let ?own = "filter (\<lambda>h. hp_author_key h = k) hs"
  let ?Q = "\<lambda>h. list_all (\<lambda>g. hp_lamport g \<le> hp_lamport h) ?own"
  let ?Q' = "\<lambda>x. ?Q x \<and> hp_lamport h \<le> hp_lamport x"
  have find: "peak k (hs @ [h]) = (case find ?Q' ?own of None \<Rightarrow> find ?Q' [h] | Some x \<Rightarrow> Some x)"
    using True by (simp add: peak_def find_append Let_def)
  show ?thesis
  proof (cases "peak k hs")
    case None
    then have "?own = []" by (simp only: peak_None)
    with True None show ?thesis by (simp add: find)
  next
    case (Some p)
    then have fp: "find ?Q ?own = Some p" by (simp add: peak_def Let_def)
    note p = peak_Some [OF Some]
    show ?thesis
    proof (cases "hp_lamport p < hp_lamport h")
      case True
      have "find ?Q' ?own = None"
        unfolding find_None_iff using p(3) True by (auto dest: leD le_less_trans)
      moreover have "?Q' h" using p(3) True by (auto simp: list_all_iff intro: order_trans less_imp_le)
      ultimately show ?thesis using True Some \<open>hp_author_key h = k\<close> by (simp add: find)
    next
      case False
      with p(3) have "?Q' p" by (auto simp: list_all_iff)
      have "find ?Q' ?own = Some p" by (rule find_strengthen [OF fp]) (use \<open>?Q' p\<close> in auto)
      with False Some \<open>hp_author_key h = k\<close> show ?thesis by (simp add: find)
    qed
  qed
qed (simp add: peak_def)

lemma advance_all_peak:
  "Mapping.lookup (advance_all Mapping.empty hs) k = map_option mark_of (peak k hs)"
proof (induction hs rule: rev_induct)
  case (snoc h hs)
  have m: "hw_lamport (mark_of p) = hp_lamport p" for p by (simp add: mark_of_def)
  show ?case
  proof (cases "hp_author_key h = k")
    case True
    then show ?thesis by (cases "peak k hs") (simp_all add: advance_to_lookup snoc.IH peak_snoc m)
  qed (simp add: advance_to_lookup snoc.IH peak_snoc)
qed (simp add: peak_def lookup_empty)

text \<open>What one machine remembers in memory after its reads, starting cold.\<close>

definition remembered :: "prims \<Rightarrow> head_pointer list list \<Rightarrow> marks" where
  "remembered P reads = foldl (\<lambda>ms hs. snd (compare_then_advance P ms hs)) Mapping.empty reads"

lemma remembered_eq: "remembered P reads = advance_all Mapping.empty (concat reads)"
  by (induction reads rule: rev_induct) (auto simp: remembered_def compare_marks)

lemma remembered_lookup: "Mapping.lookup (remembered P reads) k = map_option mark_of (peak k (concat reads))"
  by (simp add: remembered_eq advance_all_peak)

lemma remembered_ok: "marks_ok (remembered P reads)"
  by (simp add: remembered_eq advance_all_ok)

lemma in_regressions:
  assumes "marks_ok ms" and "inj_on hp_author_key (set heads)"
  shows "r \<in> set (cm_regressions (fst (compare_then_advance P ms heads))) \<longleftrightarrow>
    (\<exists>k m. Mapping.lookup ms k = Some m \<and>
       (k \<notin> hp_author_key ` set heads \<and> r = regression P m None \<or>
        (\<exists>h\<in>set heads. hp_author_key h = k \<and> \<not> is_at_or_above h m \<and> r = regression P m (Some h))))"
proof -
  have of: "regression_of P (collect_map hp_author_key id heads) m = Some r \<longleftrightarrow>
      (k \<notin> hp_author_key ` set heads \<and> r = regression P m None \<or>
        (\<exists>h\<in>set heads. hp_author_key h = k \<and> \<not> is_at_or_above h m \<and> r = regression P m (Some h)))"
    if "Mapping.lookup ms k = Some m" for k m
  proof -
    have k: "hw_author_key m = k" using that assms(1) by (auto simp: marks_ok_def)
    show ?thesis
    proof (cases "k \<in> hp_author_key ` set heads")
      case True
      then obtain h where h: "h \<in> set heads" "hp_author_key h = k" by auto
      with collect_map_inj [OF assms(2) h(1), of id] have "Mapping.lookup (collect_map hp_author_key id heads) k = Some h" by simp
      then have of: "regression_of P (collect_map hp_author_key id heads) m =
          (if is_at_or_above h m then None else Some (regression P m (Some h)))"
        by (simp add: regression_of_def k)
      have "g = h" if "g \<in> set heads" "hp_author_key g = k" for g
        using that h assms(2) by (auto simp: inj_on_def)
      with h have "(\<exists>g\<in>set heads. hp_author_key g = k \<and> \<not> is_at_or_above g m \<and> r = regression P m (Some g)) \<longleftrightarrow>
          \<not> is_at_or_above h m \<and> r = regression P m (Some h)" by blast
      with True show ?thesis unfolding of by simp blast
    next
      case False
      then have "Mapping.lookup (collect_map hp_author_key id heads) k = None" by (simp add: collect_map_None)
      with False show ?thesis by (auto simp: regression_of_def k)
    qed
  qed
  have "r \<in> set (cm_regressions (fst (compare_then_advance P ms heads))) \<longleftrightarrow>
      (\<exists>k m. Mapping.lookup ms k = Some m \<and> regression_of P (collect_map hp_author_key id heads) m = Some r)"
  proof -
    have "cm_regressions (fst (compare_then_advance P ms heads)) =
        List.map_filter (regression_of P (collect_map hp_author_key id heads)) (btree_values ms)"
      unfolding compare_then_advance_def Let_def case_prod_beta by (simp only: fst_conv comparison.simps)
    moreover have "finite_map ms" using assms(1) by (simp add: marks_ok_def)
    ultimately show ?thesis by (simp only: in_map_filter set_btree_values) blast
  qed
  also have "\<dots> \<longleftrightarrow> (\<exists>k m. Mapping.lookup ms k = Some m \<and>
       (k \<notin> hp_author_key ` set heads \<and> r = regression P m None \<or>
        (\<exists>h\<in>set heads. hp_author_key h = k \<and> \<not> is_at_or_above h m \<and> r = regression P m (Some h))))"
    by (intro ex_cong1 conj_cong refl) (rule of)
  finally show ?thesis .
qed

subsection \<open>Processes sharing the file\<close>

text \<open>
  The processes of one machine: the disk and every running process's marks. A process starts by loading
  the file, then observes verified reads and records its own published heads, each persisted as the
  code does; it may stop at any time. \<open>E\<close> is the set of environments the system may answer with. A call
  is one step: nobody renames the file between its read back and its own rename. The code takes no lock
  there, and \<open>last_writer_race_lowers\<close> shows what the remaining window costs.
\<close>

type_synonym mark_world = "disk \<times> (nat \<Rightarrow> marks option)"

inductive mark_step ::
    "prims \<Rightarrow> (bytes \<Rightarrow> watermark_file option) \<Rightarrow> (watermark_file \<Rightarrow> bytes) \<Rightarrow> path \<Rightarrow> io_env set \<Rightarrow> mark_world \<Rightarrow> mark_world \<Rightarrow> bool"
  for P dec enc p E where
  start: "e \<in> E \<Longrightarrow> mark_step P dec enc p E (d, ps) (d, ps(i \<mapsto> load_marks dec read_file e d p))"
| observe: "ps i = Some ms \<Longrightarrow> e \<in> E \<Longrightarrow>
    observe_heads P dec enc read_file wm_write e p ms d heads = (rs, ms', d') \<Longrightarrow>
    mark_step P dec enc p E (d, ps) (d', ps(i \<mapsto> ms'))"
| publish: "ps i = Some ms \<Longrightarrow> e \<in> E \<Longrightarrow>
    record_published_head dec enc read_file wm_write e p ms d head = (ms', d') \<Longrightarrow>
    mark_step P dec enc p E (d, ps) (d', ps(i \<mapsto> ms'))"
| stop: "mark_step P dec enc p E (d, ps) (d, ps(i := None))"

inductive_cases mark_stepE: "mark_step P dec enc p E w w'"

lemma read_file_errors: "\<not> io_read_fails e \<Longrightarrow> read_file e d p \<noteq> Inl IoOther \<and> read_file e d p \<noteq> Inl AlreadyExists"
  by (auto simp: read_file_def split: option.splits)

lemma mark_step_file_le:
  assumes "mark_step P dec enc p E w w'" and "target_ok ''.head-watermarks-'' p" and "\<And>f. dec (enc f) = Some f"
    and "\<And>e. e \<in> E \<Longrightarrow> \<not> io_read_fails e"
  shows "marks_le (file_marks dec (Mapping.lookup (fst w) p)) (file_marks dec (Mapping.lookup (fst w') p))"
proof -
  note le = marks_file.persist_marks_le [OF assms(2,3)]
  from assms(1) show ?thesis
  proof cases
    case (observe ps i ms e d heads rs ms' d')
    then show ?thesis using le [of e d ms'] read_file_errors [OF assms(4)]
      by (auto simp: observe_heads_def Let_def split: prod.splits if_splits)
  next
    case (publish ps i ms e d head ms' d')
    then show ?thesis using le [of e d ms'] read_file_errors [OF assms(4)]
      by (auto simp: record_published_head_def Let_def split: prod.splits if_splits)
  qed simp_all
qed

lemma mark_steps_file_le:
  assumes "(mark_step P dec enc p E)\<^sup>*\<^sup>* w w'" and "target_ok ''.head-watermarks-'' p" and "\<And>f. dec (enc f) = Some f"
    and "\<And>e. e \<in> E \<Longrightarrow> \<not> io_read_fails e"
  shows "marks_le (file_marks dec (Mapping.lookup (fst w) p)) (file_marks dec (Mapping.lookup (fst w') p))"
  using assms(1) by (induction rule: rtranclp_induct) (auto intro: marks_le_trans mark_step_file_le [OF _ assms(2-4)])

section \<open>Properties\<close>

text \<open>C19. A machine that has made any sequence of verified reads reports, on the next one, exactly the authors
  whose head is missing from it or is not at or above the highest head this machine ever saw of them (at
  equal Lamport time: another tip), with the remembered and the served values; no read in between, however
  low the heads it served, changes that.\<close>

theorem regressions_exact:
  assumes "inj_on hp_author_key (set heads)"
  shows "r \<in> set (cm_regressions (fst (compare_then_advance P (remembered P reads) heads))) \<longleftrightarrow>
    (\<exists>k p. peak k (concat reads) = Some p \<and>
       (k \<notin> hp_author_key ` set heads \<and> r = regression P (mark_of p) None \<or>
        (\<exists>h\<in>set heads. hp_author_key h = k \<and>
           (hp_lamport h < hp_lamport p \<or> hp_lamport h = hp_lamport p \<and> hp_tip_hash h \<noteq> hp_tip_hash p) \<and>
           r = regression P (mark_of p) (Some h))))"
proof -
  have above: "\<not> is_at_or_above h (mark_of p) \<longleftrightarrow>
      hp_lamport h < hp_lamport p \<or> hp_lamport h = hp_lamport p \<and> hp_tip_hash h \<noteq> hp_tip_hash p" for h p
    by (auto simp: is_at_or_above_def mark_of_def)
  have lookup: "Mapping.lookup (remembered P reads) k = Some m \<longleftrightarrow> (\<exists>p. peak k (concat reads) = Some p \<and> m = mark_of p)" for k m
    by (auto simp: remembered_lookup)
  show ?thesis unfolding in_regressions [OF remembered_ok assms] lookup above [symmetric] by blast
qed

theorem regressions_exact_witness:
  "regression demo_prims (mark_of (demo_head 1 5)) (Some (demo_head 1 3))
     \<in> set (cm_regressions (fst (compare_then_advance demo_prims
          (remembered demo_prims [[demo_head 1 5, demo_head 2 9], [demo_head 1 2]]) [demo_head 1 3]))) \<and>
   regression demo_prims (mark_of (demo_head 2 9)) None
     \<in> set (cm_regressions (fst (compare_then_advance demo_prims
          (remembered demo_prims [[demo_head 1 5, demo_head 2 9], [demo_head 1 2]]) [demo_head 1 3])))"
proof -
  have inj: "inj_on hp_author_key (set [demo_head 1 3])" by simp
  have peaks: "peak (replicate 32 1) [demo_head 1 5, demo_head 2 9, demo_head 1 2] = Some (demo_head 1 5)"
      "peak (replicate 32 2) [demo_head 1 5, demo_head 2 9, demo_head 1 2] = Some (demo_head 2 9)"
    by (simp_all add: peak_def demo_head_def Let_def word_le_nat_alt)
  have key: "hp_author_key (demo_head a n) = replicate 32 a" "hp_lamport (demo_head a n) = ucast n" for a n
    by (simp_all add: demo_head_def)
  show ?thesis
  proof
    show "regression demo_prims (mark_of (demo_head 1 5)) (Some (demo_head 1 3))
       \<in> set (cm_regressions (fst (compare_then_advance demo_prims
            (remembered demo_prims [[demo_head 1 5, demo_head 2 9], [demo_head 1 2]]) [demo_head 1 3])))"
      unfolding regressions_exact [OF inj]
      by (rule exI [of _ "replicate 32 1"], rule exI [of _ "demo_head 1 5"]) (simp add: peaks key word_less_nat_alt)
    show "regression demo_prims (mark_of (demo_head 2 9)) None
       \<in> set (cm_regressions (fst (compare_then_advance demo_prims
            (remembered demo_prims [[demo_head 1 5, demo_head 2 9], [demo_head 1 2]]) [demo_head 1 3])))"
      unfolding regressions_exact [OF inj]
      by (rule exI [of _ "replicate 32 2"], rule exI [of _ "demo_head 2 9"]) (simp add: peaks key word_less_nat_alt)
  qed
qed

text \<open>C20. However many processes of one machine load, observe, publish and stop, one call after the other in any
  order and with any failures of the system to write, no mark in the file they share ever falls, as long as the file stays
  readable; \<open>dec\<close> is the JSON codec, taken to read back what it wrote.\<close>

theorem shared_marks_never_fall:
  assumes "(mark_step P dec enc p E)\<^sup>*\<^sup>* w w'" and "target_ok ''.head-watermarks-'' p" and "\<And>f. dec (enc f) = Some f"
    and "\<And>e. e \<in> E \<Longrightarrow> \<not> io_read_fails e"
    and "Mapping.lookup (file_marks dec (Mapping.lookup (fst w) p)) k = Some m"
  shows "\<exists>m'. Mapping.lookup (file_marks dec (Mapping.lookup (fst w') p)) k = Some m' \<and> hw_lamport m \<le> hw_lamport m'"
  using mark_steps_file_le [OF assms(1-4)] assms(5) unfolding marks_le_def by blast

text \<open>A cold process publishes a head; the file then remembers it.\<close>

definition wm_enc :: "watermark_file \<Rightarrow> bytes" where
  "wm_enc f = enc_word (wf_version f) @
     enc_list (\<lambda>m. enc_bytes (hw_author_key m) @ enc_word (hw_lamport m) @ enc_bytes (hw_tip_hash m)) (wf_marks f)"

definition wm_dec :: "bytes \<Rightarrow> watermark_file option" where
  "wm_dec bs =
     (let (v, r) = dec_word bs;
          (ms, r') = dec_list (\<lambda>b. let (k, b1) = dec_bytes b; (l, b2) = dec_word b1; (t, b3) = dec_bytes b2
                              in (\<lparr>hw_author_key = k, hw_lamport = l, hw_tip_hash = t\<rparr>, b3)) r
      in Some \<lparr>wf_version = v, wf_marks = ms\<rparr>)"

lemma wm_dec_enc: "wm_dec (wm_enc f) = Some f"
  by (simp add: wm_dec_def wm_enc_def codec_simps dec_enc_list [of _ _ _ "[]", simplified])

definition quiet_env :: io_env where
  "quiet_env = \<lparr>io_read_fails = False, io_mkdir = None, io_stem = (\<lambda>_. Inr ''x''), io_open = (\<lambda>_. None),
     io_written = 1, io_write = None, io_sync = None, io_rename = None, io_remove_fails = False\<rparr>"

text \<open>The file after process 0 published \<open>demo_head 1 5\<close>.\<close>

definition demo_disk :: disk where
  "demo_disk = Mapping.update (''d'', ''f'')
     (wm_enc \<lparr>wf_version = WATERMARK_FILE_VERSION, wf_marks = [mark_of (demo_head 1 5)]\<rparr>) Mapping.empty"

lemma demo_disk_marks:
  "Mapping.lookup (file_marks wm_dec (Mapping.lookup demo_disk (''d'', ''f''))) (replicate 32 1) = Some (mark_of (demo_head 1 5))"
  by (simp add: file_marks_def demo_disk_def lookup_update' decode_marks_def wm_dec_enc fold_mark_lookup lookup_empty)
    (simp add: mark_of_def demo_head_def)

theorem shared_marks_never_fall_witness:
  "\<exists>w' m'. (mark_step demo_prims wm_dec wm_enc (''d'', ''f'') {quiet_env})\<^sup>*\<^sup>* (demo_disk, Map.empty((0::nat) \<mapsto> Mapping.empty)) w' \<and>
     Mapping.lookup (file_marks wm_dec (Mapping.lookup (fst w') (''d'', ''f''))) (replicate 32 1) = Some m' \<and> 5 \<le> hw_lamport m'"
proof -
  let ?step = "mark_step demo_prims wm_dec wm_enc (''d'', ''f'') {quiet_env}"
  let ?w = "(demo_disk, Map.empty((0::nat) \<mapsto> Mapping.empty))"
  obtain ms' d' where "record_published_head wm_dec wm_enc read_file wm_write quiet_env (''d'', ''f'') Mapping.empty demo_disk (demo_head 1 3) = (ms', d')"
    by fastforce
  then have step: "?step ?w (d', (Map.empty((0::nat) \<mapsto> Mapping.empty))((0::nat) \<mapsto> ms'))" by (intro mark_step.publish) auto
  have "\<exists>m'. Mapping.lookup (file_marks wm_dec (Mapping.lookup (fst (d', (Map.empty((0::nat) \<mapsto> Mapping.empty))((0::nat) \<mapsto> ms'))) (''d'', ''f''))) (replicate 32 1) = Some m' \<and>
      hw_lamport (mark_of (demo_head 1 5)) \<le> hw_lamport m'"
  proof (rule shared_marks_never_fall)
    show "?step\<^sup>*\<^sup>* ?w (d', (Map.empty((0::nat) \<mapsto> Mapping.empty))((0::nat) \<mapsto> ms'))" using step by blast
    show "target_ok ''.head-watermarks-'' (''d'', ''f'')" by (simp add: target_ok_def)
    show "wm_dec (wm_enc f) = Some f" for f by (rule wm_dec_enc)
    show "\<not> io_read_fails e" if "e \<in> {quiet_env}" for e using that by (simp add: quiet_env_def)
    show "Mapping.lookup (file_marks wm_dec (Mapping.lookup (fst ?w) (''d'', ''f''))) (replicate 32 1) = Some (mark_of (demo_head 1 5))"
      by (simp add: demo_disk_marks)
  qed
  moreover have "hw_lamport (mark_of (demo_head 1 5)) = 5" by (simp add: mark_of_def demo_head_def)
  ultimately show ?thesis using r_into_rtranclp [of ?step, OF step] by metis
qed

text \<open>The documented window: a process reads the file back before another creates it, and renames after; the
  mark at 5 is gone and the one at 3 stands.\<close>

lemma last_writer_race_lowers:
  fixes ms :: marks
  assumes "ms = Mapping.update (replicate 32 1) (mark_of (demo_head 1 3)) Mapping.empty"
  shows "Mapping.lookup (file_marks wm_dec (Mapping.lookup
     (snd (wm_write quiet_env demo_disk (''d'', ''f'') (wm_enc \<lparr>wf_version = WATERMARK_FILE_VERSION,
        wf_marks = btree_values (merged_marks wm_dec (Inl IoNotFound) ms)\<rparr>))) (''d'', ''f''))) (replicate 32 1)
   = Some (mark_of (demo_head 1 3))"
proof -
  have "fold_mark Mapping.empty (mark_of (demo_head 1 3)) = ms"
    by (simp add: fold_mark_def assms lookup_empty) (simp add: mark_of_def demo_head_def)
  moreover have "btree_values ms = [mark_of (demo_head 1 3)]"
    by (simp add: assms btree_values_def Mapping.ordered_keys_def lookup_update')
  moreover have "Mapping.lookup (snd (wm_write quiet_env demo_disk (''d'', ''f'') bs)) (''d'', ''f'') = Some bs" for bs
    by (simp add: wm_write_def write_atomically_def quiet_env_def create_in_with_def CREATE_ATTEMPTS_def numeral_eq_Suc
        open_exclusive_def demo_disk_def parent_dir_def persist_temp_def Let_def lookup_update' lookup_delete_iff lookup_empty)
  moreover have "Mapping.lookup ms (replicate 32 1) = Some (mark_of (demo_head 1 3))" by (simp add: assms)
  ultimately show ?thesis
    by (simp add: merged_marks_def marks_of_read_def file_marks_def decode_marks_def wm_dec_enc)
qed

end
