(* ===== verification/Merkle.thy ===== *)
theory Merkle
  imports Op
begin

text \<open>
  The binary Merkle tree of anchored batches (\<^verbatim>\<open>audit/merkle.rs\<close>): building, proving, verifying. The hash is
  the \<open>blake3\<close> of \<open>prims\<close>; soundness is stated for inputs on which it has no collision.
\<close>

section \<open>Definitions\<close>

definition LEAF_PREFIX :: byte where "LEAF_PREFIX = 0"
definition NODE_PREFIX :: byte where "NODE_PREFIX = 1"

datatype side = LeftSide | RightSide

record merkle_proof =
  mp_leaf_index :: nat
  mp_siblings :: "(blake3_hash \<times> side) list"

definition hash_leaf :: "prims \<Rightarrow> blake3_hash \<Rightarrow> blake3_hash" where
  "hash_leaf P leaf = blake3 P (LEAF_PREFIX # leaf)"

definition hash_node :: "prims \<Rightarrow> blake3_hash \<Rightarrow> blake3_hash \<Rightarrow> blake3_hash" where
  "hash_node P l r = blake3 P (NODE_PREFIX # l @ r)"

definition next_layer :: "prims \<Rightarrow> blake3_hash list \<Rightarrow> blake3_hash list" where
  "next_layer P layer =
     map (\<lambda>pair. let l = pair ! 0; r = (if 1 < length pair then pair ! 1 else l) in hash_node P l r) (chunks 2 layer)"

lemma next_layer_simps [simp]:
  "next_layer P [] = []"
  "next_layer P [a] = [hash_node P a a]"
  "next_layer P (a # b # xs) = hash_node P a b # next_layer P xs"
  by (simp_all add: next_layer_def)

lemma next_layer_Nil_iff [simp]: "next_layer P xs = [] \<longleftrightarrow> xs = []"
  by (induction xs rule: induct_list012) auto

lemma length_next_layer [simp]: "length (next_layer P xs) = (length xs + 1) div 2"
  by (induction xs rule: induct_list012) auto

function layers_from :: "prims \<Rightarrow> blake3_hash list \<Rightarrow> blake3_hash list list" where
  "layers_from P layer = layer # (if length layer > 1 then layers_from P (next_layer P layer) else [])"
  by pat_completeness auto
termination
  by (relation "measure (\<lambda>(P, layer). length layer)") auto

declare layers_from.simps [simp del]

definition build_levels :: "prims \<Rightarrow> blake3_hash list \<Rightarrow> blake3_hash list list" where
  "build_levels P leaves = layers_from P (map (hash_leaf P) leaves)"

definition merkle_root :: "prims \<Rightarrow> blake3_hash list \<Rightarrow> blake3_hash" where
  "merkle_root P leaves =
     (if leaves = [] then blake3_zero
      else let levels = build_levels P leaves; root_layer = levels ! (length levels - 1) in root_layer ! 0)"

fun sibling_path :: "blake3_hash list list \<Rightarrow> nat \<Rightarrow> (blake3_hash \<times> side) list" where
  "sibling_path [] index = []"
| "sibling_path (layer # rest) index =
     (if index mod 2 = 1 then (layer ! (index - 1), LeftSide)
      else (if index + 1 < length layer then layer ! (index + 1) else layer ! index, RightSide))
     # sibling_path rest (index div 2)"

definition inclusion_proof :: "prims \<Rightarrow> blake3_hash list \<Rightarrow> nat \<Rightarrow> mem_error + merkle_proof" where
  "inclusion_proof P leaves leaf_index =
     (if leaf_index \<ge> length leaves then Inl (Malformed ''merkle inclusion_proof: leaf_index out of range'')
      else let levels = build_levels P leaves
           in Inr \<lparr>mp_leaf_index = leaf_index, mp_siblings = sibling_path (butlast levels) leaf_index\<rparr>)"

definition proof_step :: "prims \<Rightarrow> blake3_hash \<Rightarrow> blake3_hash \<times> side \<Rightarrow> blake3_hash" where
  "proof_step P node step =
     (case step of (sibling, LeftSide) \<Rightarrow> hash_node P sibling node | (sibling, RightSide) \<Rightarrow> hash_node P node sibling)"

definition verify_proof :: "prims \<Rightarrow> blake3_hash \<Rightarrow> blake3_hash \<Rightarrow> merkle_proof \<Rightarrow> bool" where
  "verify_proof P root leaf pf \<longleftrightarrow> foldl (proof_step P) (hash_leaf P leaf) (mp_siblings pf) = root"

section \<open>Lemmas\<close>

subsection \<open>Layers\<close>

fun top_of :: "prims \<Rightarrow> blake3_hash list \<Rightarrow> blake3_hash" where
  "top_of P layer = last (layers_from P layer) ! 0"

declare top_of.simps [simp del]

lemma layers_from_small [simp]: "length layer \<le> 1 \<Longrightarrow> layers_from P layer = [layer]"
  by (subst layers_from.simps) simp

lemma layers_from_big [simp]: "1 < length layer \<Longrightarrow> layers_from P layer = layer # layers_from P (next_layer P layer)"
  by (subst layers_from.simps) simp

lemma layers_from_Nil [simp]: "layers_from P layer \<noteq> []"
  by (subst layers_from.simps) simp

lemma top_of_simps [simp]:
  "top_of P [a] = a"
  "1 < length layer \<Longrightarrow> top_of P layer = top_of P (next_layer P layer)"
  by (simp_all add: top_of.simps)

lemma merkle_root_top: "leaves \<noteq> [] \<Longrightarrow> merkle_root P leaves = top_of P (map (hash_leaf P) leaves)"
  by (simp add: merkle_root_def build_levels_def Let_def top_of.simps last_conv_nth)

lemma next_layer_nth:
  "i < (length xs + 1) div 2 \<Longrightarrow>
     next_layer P xs ! i = hash_node P (xs ! (2 * i)) (if 2 * i + 1 < length xs then xs ! (2 * i + 1) else xs ! (2 * i))"
proof (induction xs arbitrary: i rule: induct_list012)
  case (3 a b xs)
  then show ?case by (cases i) auto
qed auto

text \<open>One step of the path leads from a node to its parent.\<close>

lemma sibling_step:
  assumes "index < length layer" and "1 < length layer"
  shows "proof_step P (layer ! index) (hd (sibling_path (layer # rest) index)) = next_layer P layer ! (index div 2)"
proof -
  have i: "index div 2 < (length layer + 1) div 2" using assms(1) by simp
  show ?thesis
  proof (cases "index mod 2 = 1")
    case True
    then obtain k where "index = 2 * k + 1" by (metis mult_div_mod_eq)
    with True assms show ?thesis by (simp add: proof_step_def next_layer_nth)
  next
    case False
    then have "index = 2 * (index div 2)" by presburger
    with False assms show ?thesis by (simp add: proof_step_def next_layer_nth [OF i])
  qed
qed

lemma sibling_path_top:
  "index < length layer \<Longrightarrow>
     foldl (proof_step P) (layer ! index) (sibling_path (butlast (layers_from P layer)) index) = top_of P layer"
proof (induction P layer arbitrary: index rule: layers_from.induct)
  case (1 P layer)
  show ?case
  proof (cases "1 < length layer")
    case True
    have "index div 2 < length (next_layer P layer)" using 1(2) by simp
    from 1(1) [OF True this] True sibling_step [OF 1(2) True] show ?thesis by simp
  next
    case False
    with 1(2) have "index = 0" "length layer = 1" by auto
    then obtain a where "layer = [a]" by (auto simp: length_Suc_conv)
    with \<open>index = 0\<close> show ?thesis by simp
  qed
qed

subsection \<open>What a root commits to\<close>

text \<open>The inputs hashed above a layer, and those hashed for a whole tree (counting the doubled root too) and for
  a proof.\<close>

fun node_inputs :: "blake3_hash list \<Rightarrow> bytes list" where
  "node_inputs [] = []"
| "node_inputs [a] = [NODE_PREFIX # a @ a]"
| "node_inputs (a # b # xs) = (NODE_PREFIX # a @ b) # node_inputs xs"

definition tree_inputs :: "prims \<Rightarrow> blake3_hash list \<Rightarrow> bytes set" where
  "tree_inputs P leaves =
     set (map (\<lambda>l. LEAF_PREFIX # l) leaves @ concat (map node_inputs (build_levels P leaves)))"

fun path_inputs :: "prims \<Rightarrow> blake3_hash \<Rightarrow> (blake3_hash \<times> side) list \<Rightarrow> bytes list" where
  "path_inputs P node [] = []"
| "path_inputs P node ((s, d) # path) =
     (NODE_PREFIX # (case d of LeftSide \<Rightarrow> s @ node | RightSide \<Rightarrow> node @ s))
       # path_inputs P (proof_step P node (s, d)) path"

lemma next_layer_eq: "next_layer P xs = map (blake3 P) (node_inputs xs)"
  by (induction xs rule: node_inputs.induct) (auto simp: hash_node_def)

lemma prefixes_differ [simp]: "NODE_PREFIX \<noteq> LEAF_PREFIX" "LEAF_PREFIX \<noteq> NODE_PREFIX"
  by (simp_all add: NODE_PREFIX_def LEAF_PREFIX_def)

lemma in_node_inputs: "x \<in> set (node_inputs xs) \<Longrightarrow> \<exists>a\<in>set xs. \<exists>b\<in>set xs. x = NODE_PREFIX # a @ b"
  by (induction xs rule: node_inputs.induct) auto

text \<open>The nodes of a tree, and how each of them came about.\<close>

definition tree_nodes :: "prims \<Rightarrow> blake3_hash list \<Rightarrow> blake3_hash set" where
  "tree_nodes P layer = set (concat (layers_from P layer))"

lemma top_in_tree_nodes: "layer \<noteq> [] \<Longrightarrow> top_of P layer \<in> tree_nodes P layer"
proof (induction P layer rule: layers_from.induct)
  case (1 P layer)
  show ?case
  proof (cases "1 < length layer")
    case True
    with 1(1) [OF True] 1(2) show ?thesis by (simp add: tree_nodes_def)
  next
    case False
    with 1(2) have "length layer = 1" by (cases layer) auto
    then obtain a where "layer = [a]" by (auto simp: length_Suc_conv)
    then show ?thesis by (simp add: tree_nodes_def)
  qed
qed

lemma tree_node_cases:
  "t \<in> tree_nodes P layer \<Longrightarrow> t \<in> set layer \<or>
     (\<exists>a b. t = hash_node P a b \<and> a \<in> tree_nodes P layer \<and> b \<in> tree_nodes P layer \<and>
        NODE_PREFIX # a @ b \<in> set (concat (map node_inputs (layers_from P layer))))"
proof (induction P layer rule: layers_from.induct)
  case (1 P layer)
  show ?case
  proof (cases "1 < length layer")
    case True
    show ?thesis
    proof (cases "t \<in> set layer")
      case False
      with 1(2) True have "t \<in> tree_nodes P (next_layer P layer)" by (simp add: tree_nodes_def)
      from 1(1) [OF True this] show ?thesis
      proof
        assume "t \<in> set (next_layer P layer)"
        then obtain x where x: "x \<in> set (node_inputs layer)" "t = blake3 P x" by (auto simp: next_layer_eq)
        from in_node_inputs [OF x(1)] obtain a b where "a \<in> set layer" "b \<in> set layer" "x = NODE_PREFIX # a @ b" by blast
        with x True show ?thesis by (auto simp: hash_node_def tree_nodes_def)
      qed (use True in \<open>auto simp: tree_nodes_def\<close>)
    qed simp
  next
    case False
    with 1(2) show ?thesis by (simp add: tree_nodes_def)
  qed
qed

definition wide_hash :: "prims \<Rightarrow> bool" where
  "wide_hash P \<longleftrightarrow> (\<forall>x. length (blake3 P x) = 32)"

lemma hash_lengths [simp]: "wide_hash P \<Longrightarrow> length (hash_leaf P l) = 32" "wide_hash P \<Longrightarrow> length (hash_node P a b) = 32"
  by (simp_all add: wide_hash_def hash_leaf_def hash_node_def)

lemma leaf_tree_nodes:
  assumes "wide_hash P" and "t \<in> tree_nodes P (map (hash_leaf P) leaves)"
  shows "length t = 32"
    and "(\<exists>l\<in>set leaves. t = hash_leaf P l) \<or>
     (\<exists>a b. t = hash_node P a b \<and> a \<in> tree_nodes P (map (hash_leaf P) leaves) \<and> b \<in> tree_nodes P (map (hash_leaf P) leaves) \<and>
        NODE_PREFIX # a @ b \<in> tree_inputs P leaves)"
  using tree_node_cases [OF assms(2)] assms(1) by (auto simp: tree_inputs_def build_levels_def)

lemma node_input_inject: "length a = 32 \<Longrightarrow> length a' = 32 \<Longrightarrow> NODE_PREFIX # a @ b = NODE_PREFIX # a' @ b' \<longleftrightarrow> a = a' \<and> b = b'"
  by simp

lemma parent_in_tree:
  assumes "wide_hash P" and "inj_on (blake3 P) (tree_inputs P leaves \<union> A)" and "NODE_PREFIX # a @ b \<in> A" and "length a = 32"
    and "hash_node P a b \<in> tree_nodes P (map (hash_leaf P) leaves)"
  shows "a \<in> tree_nodes P (map (hash_leaf P) leaves) \<and> b \<in> tree_nodes P (map (hash_leaf P) leaves)"
  using leaf_tree_nodes(2) [OF assms(1,5)]
proof
  assume "\<exists>l\<in>set leaves. hash_node P a b = hash_leaf P l"
  then obtain l where l: "l \<in> set leaves" and eq: "blake3 P (NODE_PREFIX # a @ b) = blake3 P (LEAF_PREFIX # l)"
    unfolding hash_node_def hash_leaf_def by blast
  have "NODE_PREFIX # a @ b = LEAF_PREFIX # l"
    by (rule inj_onD [OF assms(2) eq]) (use assms(3) l in \<open>simp_all add: tree_inputs_def\<close>)
  then show ?thesis by simp
next
  assume "\<exists>a' b'. hash_node P a b = hash_node P a' b' \<and> a' \<in> tree_nodes P (map (hash_leaf P) leaves) \<and>
    b' \<in> tree_nodes P (map (hash_leaf P) leaves) \<and> NODE_PREFIX # a' @ b' \<in> tree_inputs P leaves"
  then obtain a' b' where t: "a' \<in> tree_nodes P (map (hash_leaf P) leaves)" "b' \<in> tree_nodes P (map (hash_leaf P) leaves)"
      "NODE_PREFIX # a' @ b' \<in> tree_inputs P leaves" and eq: "blake3 P (NODE_PREFIX # a @ b) = blake3 P (NODE_PREFIX # a' @ b')"
    unfolding hash_node_def by blast
  have "NODE_PREFIX # a @ b = NODE_PREFIX # a' @ b'"
    by (rule inj_onD [OF assms(2) eq]) (use assms(3) t(3) in simp_all)
  with t show ?thesis unfolding node_input_inject [OF assms(4) leaf_tree_nodes(1) [OF assms(1) t(1)]] by simp
qed

lemma path_in_tree:
  assumes "wide_hash P" and "inj_on (blake3 P) (tree_inputs P leaves \<union> A)" and "set (path_inputs P x path) \<subseteq> A"
    and "length x = 32" and "list_all (\<lambda>(s, _). length s = 32) path"
    and "foldl (proof_step P) x path \<in> tree_nodes P (map (hash_leaf P) leaves)"
  shows "x \<in> tree_nodes P (map (hash_leaf P) leaves)"
  using assms(3-)
proof (induction path arbitrary: x)
  case (Cons e path)
  obtain s d where e: "e = (s, d)" by (cases e)
  let ?T = "tree_nodes P (map (hash_leaf P) leaves)"
  have len: "length (proof_step P x e) = 32" using assms(1) by (cases d) (simp_all add: proof_step_def e)
  have sub: "set (path_inputs P (proof_step P x e) path) \<subseteq> A" using Cons.prems(1) by (simp add: e)
  have T: "proof_step P x e \<in> ?T" by (rule Cons.IH [OF sub len]) (use Cons.prems(3,4) in simp_all)
  show ?case
  proof (cases d)
    case LeftSide
    with T Cons.prems show ?thesis using parent_in_tree [OF assms(1,2), of s x] by (simp add: proof_step_def e)
  next
    case RightSide
    with T Cons.prems show ?thesis using parent_in_tree [OF assms(1,2), of x s] by (simp add: proof_step_def e)
  qed
qed simp

subsection \<open>Two trees with one root\<close>

lemma node_inputs_inject:
  "node_inputs xs = node_inputs ys \<Longrightarrow> list_all (\<lambda>x. length x = 32) (xs @ ys) \<Longrightarrow> distinct xs \<Longrightarrow> distinct ys \<Longrightarrow> xs = ys"
proof (induction xs arbitrary: ys rule: node_inputs.induct)
  case 1
  then show ?case by (cases ys rule: node_inputs.cases) auto
next
  case (2 a)
  then show ?case by (cases ys rule: node_inputs.cases) auto
next
  case (3 a b xs)
  then show ?case by (cases ys rule: node_inputs.cases) auto
qed

lemma distinct_node_inputs:
  "distinct xs \<Longrightarrow> list_all (\<lambda>x. length x = 32) xs \<Longrightarrow> distinct (node_inputs xs)"
proof (induction xs rule: node_inputs.induct)
  case (3 a b xs)
  then show ?case by (auto dest!: in_node_inputs simp: list_all_iff)
qed auto

lemma layers_step: "Suc j < length (layers_from P layer) \<Longrightarrow> layers_from P layer ! Suc j = next_layer P (layers_from P layer ! j)"
proof (induction P layer arbitrary: j rule: layers_from.induct)
  case (1 P layer)
  then show ?case
  proof (cases "1 < length layer")
    case True
    note big = layers_from_big [OF True]
    have hd: "layers_from P (next_layer P layer) ! 0 = next_layer P layer" by (subst layers_from.simps) simp
    show ?thesis
    proof (cases j)
      case 0
      with hd show ?thesis by (simp add: big)
    next
      case (Suc j')
      with 1(1) [OF True, of j'] 1(2) show ?thesis by (simp add: big)
    qed
  qed simp
qed

lemma layers_last: "layer \<noteq> [] \<Longrightarrow> last (layers_from P layer) = [top_of P layer]"
proof (induction P layer rule: layers_from.induct)
  case (1 P layer)
  show ?case
  proof (cases "1 < length layer")
    case True
    with 1(1) [OF True] 1(2) show ?thesis by simp
  next
    case False
    with 1(2) have "length layer = 1" by (cases layer) auto
    then obtain a where "layer = [a]" by (auto simp: length_Suc_conv)
    then show ?thesis by simp
  qed
qed

lemma layers_nonempty: "layer \<noteq> [] \<Longrightarrow> L \<in> set (layers_from P layer) \<Longrightarrow> L \<noteq> []"
proof (induction P layer rule: layers_from.induct)
  case (1 P layer)
  show ?case
  proof (cases "1 < length layer")
    case True
    with 1 show ?thesis by auto
  qed (use 1 in auto)
qed

lemma layers_distinct:
  assumes "wide_hash P" and "distinct layer" and "list_all (\<lambda>x. length x = 32) layer"
    and "inj_on (blake3 P) (set (concat (map node_inputs (layers_from P layer))))" and "L \<in> set (layers_from P layer)"
  shows "distinct L \<and> list_all (\<lambda>x. length x = 32) L"
  using assms
proof (induction P layer rule: layers_from.induct)
  case (1 P layer)
  show ?case
  proof (cases "1 < length layer")
    case True
    have "inj_on (blake3 P) (set (node_inputs layer))" by (rule inj_on_subset [OF 1(5)]) (use True in auto)
    then have d: "distinct (next_layer P layer)"
      using distinct_node_inputs [OF 1(3,4)] by (simp add: next_layer_eq distinct_map)
    have w: "list_all (\<lambda>x. length x = 32) (next_layer P layer)"
      using 1(2) by (auto simp: next_layer_eq list_all_iff wide_hash_def)
    have i: "inj_on (blake3 P) (set (concat (map node_inputs (layers_from P (next_layer P layer)))))"
      by (rule inj_on_subset [OF 1(5)]) (use True in auto)
    from 1(6) True consider "L = layer" | "L \<in> set (layers_from P (next_layer P layer))" by auto
    then show ?thesis
    proof cases
      case 1
      with "1.prems" show ?thesis by simp
    next
      case 2
      from "1.IH" [OF True "1.prems"(1) d w i 2] show ?thesis .
    qed
  qed (use 1 in auto)
qed

lemma layers_descend:
  assumes "wide_hash P" and "inj_on (blake3 P) (tree_inputs P xs \<union> tree_inputs P ys)"
    and "distinct xs" and "distinct ys" and "xs \<noteq> []" and "ys \<noteq> []"
    and "top_of P (map (hash_leaf P) xs) = top_of P (map (hash_leaf P) ys)"
    and "A = layers_from P (map (hash_leaf P) xs)" and "B = layers_from P (map (hash_leaf P) ys)"
    and "i < length A" and "i < length B"
  shows "A ! (length A - 1 - i) = B ! (length B - 1 - i)"
  using assms(10,11)
proof (induction i)
  case 0
  then show ?case using layers_last [of "map (hash_leaf P) xs" P] layers_last [of "map (hash_leaf P) ys" P] assms(5-9)
    by (simp add: last_conv_nth)
next
  case (Suc i)
  have leaves: "distinct (map (hash_leaf P) zs)" if "distinct zs" "set zs \<subseteq> set xs \<or> set zs \<subseteq> set ys" for zs
  proof -
    have "inj_on (hash_leaf P) (set zs)"
    proof (rule inj_onI)
      fix x y assume "x \<in> set zs" "y \<in> set zs" "hash_leaf P x = hash_leaf P y"
      then have "LEAF_PREFIX # x = LEAF_PREFIX # y"
        using that(2) by (intro inj_onD [OF assms(2), of "LEAF_PREFIX # x" "LEAF_PREFIX # y"]) (auto simp: tree_inputs_def hash_leaf_def)
      then show "x = y" by simp
    qed
    with that(1) show ?thesis by (simp add: distinct_map)
  qed
  have wide: "list_all (\<lambda>x. length x = 32) (map (hash_leaf P) zs)" for zs using assms(1) by (simp add: list_all_iff)
  have injA: "inj_on (blake3 P) (set (concat (map node_inputs A)))" and injB: "inj_on (blake3 P) (set (concat (map node_inputs B)))"
    by (rule inj_on_subset [OF assms(2)]; simp add: tree_inputs_def build_levels_def assms(8,9); blast)+
  let ?a = "A ! (length A - 1 - Suc i)" and ?b = "B ! (length B - 1 - Suc i)"
  have inA: "?a \<in> set A" and inB: "?b \<in> set B" using Suc.prems by simp_all
  have a: "distinct ?a \<and> list_all (\<lambda>x. length x = 32) ?a"
    by (rule layers_distinct [OF assms(1) leaves [OF assms(3)] wide injA [unfolded assms(8)] inA [unfolded assms(8)], folded assms(8)]) simp
  have b: "distinct ?b \<and> list_all (\<lambda>x. length x = 32) ?b"
    by (rule layers_distinct [OF assms(1) leaves [OF assms(4)] wide injB [unfolded assms(9)] inB [unfolded assms(9)], folded assms(9)]) simp
  have "A ! (length A - 1 - i) = next_layer P ?a"
    using layers_step [of "length A - 1 - Suc i" P "map (hash_leaf P) xs"] Suc.prems(1) by (simp add: assms(8) Suc_diff_Suc)
  moreover have "B ! (length B - 1 - i) = next_layer P ?b"
    using layers_step [of "length B - 1 - Suc i" P "map (hash_leaf P) ys"] Suc.prems(2) by (simp add: assms(9) Suc_diff_Suc)
  ultimately have "map (blake3 P) (node_inputs ?a) = map (blake3 P) (node_inputs ?b)"
    using Suc.IH Suc.prems by (simp add: next_layer_eq)
  moreover have "inj_on (blake3 P) (set (node_inputs ?a) \<union> set (node_inputs ?b))"
    by (rule inj_on_subset [OF assms(2)]) (use inA inB in \<open>auto simp: tree_inputs_def build_levels_def assms(8,9)\<close>)
  ultimately have "node_inputs ?a = node_inputs ?b" by (simp add: inj_on_map_eq_map)
  then show ?case by (rule node_inputs_inject) (use a b in simp_all)
qed

lemma equal_roots_equal_depth:
  assumes "wide_hash P" and "inj_on (blake3 P) (tree_inputs P xs \<union> tree_inputs P ys)"
    and "distinct xs" and "distinct ys" and "xs \<noteq> []" and "ys \<noteq> []"
    and "top_of P (map (hash_leaf P) xs) = top_of P (map (hash_leaf P) ys)"
    and "A = layers_from P (map (hash_leaf P) xs)" and "B = layers_from P (map (hash_leaf P) ys)"
  shows "\<not> length A < length B"
proof
  assume less: "length A < length B"
  have A: "A \<noteq> []" "A ! 0 = map (hash_leaf P) xs" unfolding assms(8) by (simp, subst layers_from.simps, simp)
  have "A ! (length A - 1 - (length A - 1)) = B ! (length B - 1 - (length A - 1))"
    by (rule layers_descend [OF assms]) (use less A in \<open>simp_all add: Suc_le_eq\<close>)
  then have "map (hash_leaf P) xs = B ! (length B - length A)" using A less by (simp add: Suc_le_eq)
  also have "\<dots> = next_layer P (B ! (length B - length A - 1))"
    using layers_step [of "length B - length A - 1" P "map (hash_leaf P) ys"] less A(1) by (simp add: assms(9) Suc_diff_Suc)
  also have "\<dots> = map (blake3 P) (node_inputs (B ! (length B - length A - 1)))" by (rule next_layer_eq)
  finally have eq: "map (hash_leaf P) xs = map (blake3 P) (node_inputs (B ! (length B - length A - 1)))" .
  obtain x xs' where xs: "xs = x # xs'" using assms(5) by (cases xs) auto
  obtain y zs where ys: "node_inputs (B ! (length B - length A - 1)) = y # zs" using eq xs by (cases "node_inputs (B ! (length B - length A - 1))") auto
  have "B ! (length B - length A - 1) \<in> set B" using less A(1) by (intro nth_mem) (simp add: Suc_le_eq)
  moreover have "y \<in> set (node_inputs (B ! (length B - length A - 1)))" using ys by simp
  ultimately have "y \<in> set (concat (map node_inputs B))" unfolding set_concat set_map by blast
  then have y: "y \<in> tree_inputs P ys" by (simp add: tree_inputs_def build_levels_def assms(9))
  have "blake3 P (LEAF_PREFIX # x) = blake3 P y" using eq unfolding xs ys hash_leaf_def by simp
  then have "LEAF_PREFIX # x = y" by (rule inj_onD [OF assms(2)]) (use y xs in \<open>simp_all add: tree_inputs_def\<close>)
  moreover obtain a b where "y = NODE_PREFIX # a @ b" using in_node_inputs [of y "B ! (length B - length A - 1)"] unfolding ys by auto
  ultimately show False by simp
qed

lemma equal_roots_equal_leaves:
  assumes "wide_hash P" and "inj_on (blake3 P) (tree_inputs P xs \<union> tree_inputs P ys)"
    and "distinct xs" and "distinct ys" and "xs \<noteq> []" and "ys \<noteq> []"
    and "top_of P (map (hash_leaf P) xs) = top_of P (map (hash_leaf P) ys)"
  shows "xs = ys"
proof -
  let ?A = "layers_from P (map (hash_leaf P) xs)" and ?B = "layers_from P (map (hash_leaf P) ys)"
  have inj': "inj_on (blake3 P) (tree_inputs P ys \<union> tree_inputs P xs)" using assms(2) by (simp add: Un_commute)
  have len: "length ?A = length ?B"
    using equal_roots_equal_depth [OF assms refl refl]
      equal_roots_equal_depth [OF assms(1) inj' assms(4,3,6,5) assms(7) [symmetric] refl refl] by linarith
  have "?A ! (length ?A - 1 - (length ?A - 1)) = ?B ! (length ?B - 1 - (length ?A - 1))"
    by (rule layers_descend [OF assms refl refl]) (simp_all add: len [symmetric] diff_less)
  moreover have "layers_from P l ! 0 = l" for l by (subst layers_from.simps) simp
  ultimately have "map (hash_leaf P) xs = map (hash_leaf P) ys" by (simp add: len)
  moreover have "inj_on (hash_leaf P) (set xs \<union> set ys)"
  proof (rule inj_onI)
    fix x y assume xy: "x \<in> set xs \<union> set ys" "y \<in> set xs \<union> set ys" and eq: "hash_leaf P x = hash_leaf P y"
    have "LEAF_PREFIX # x = LEAF_PREFIX # y"
      by (rule inj_onD [OF assms(2) eq [unfolded hash_leaf_def]]) (use xy in \<open>auto simp: tree_inputs_def\<close>)
    then show "x = y" by simp
  qed
  ultimately show ?thesis by (simp add: inj_on_map_eq_map)
qed

lemma next_layer_duplicate:
  "odd (length xs) \<Longrightarrow> next_layer P (xs @ [last xs]) = next_layer P xs"
  by (induction xs rule: induct_list012) auto

text \<open>The odd-level rule: repeating the last of an odd number of leaves leaves the root as it is. The readers
  of anchored batches therefore refuse repeated leaves.\<close>

lemma duplicate_last_leaf_same_root:
  assumes "odd (length leaves)" and "1 < length leaves"
  shows "merkle_root P (leaves @ [last leaves]) = merkle_root P leaves"
proof -
  have "leaves \<noteq> []" using assms(2) by auto
  then have "last (map (hash_leaf P) leaves) = hash_leaf P (last leaves)" by (simp add: last_map)
  with next_layer_duplicate [of "map (hash_leaf P) leaves" P] assms \<open>leaves \<noteq> []\<close> show ?thesis
    by (simp add: merkle_root_top)
qed

text \<open>A digest without collisions on a small tree, for witnesses.\<close>

definition tree_prims :: prims where
  "tree_prims = demo_prims\<lparr>blake3 := (\<lambda>bs. take 32
     ((if length bs = 33 then drop 1 bs else 255 # take 1 (drop 1 bs) @ take 1 (drop 33 bs)) @ replicate 32 0))\<rparr>"

abbreviation demo_leaf :: "byte \<Rightarrow> blake3_hash" where "demo_leaf b \<equiv> replicate 32 b"

lemma inj_on_listI: "distinct (map f (remdups xs)) \<Longrightarrow> inj_on f (set xs)"
  by (simp add: distinct_map)

text \<open>The inputs of the tree over two leaves, with those of one proof of it.\<close>

lemma demo_tree_inj:
  "inj_on (blake3 tree_prims) (tree_inputs tree_prims [demo_leaf 1, demo_leaf 2] \<union>
     insert (LEAF_PREFIX # demo_leaf 2) (set (path_inputs tree_prims (hash_leaf tree_prims (demo_leaf 2)) [(demo_leaf 1, LeftSide)])))"
proof -
  have "distinct (map (blake3 tree_prims) (remdups (map (\<lambda>l. LEAF_PREFIX # l) [demo_leaf 1, demo_leaf 2] @
      concat (map node_inputs (build_levels tree_prims [demo_leaf 1, demo_leaf 2])) @
      (LEAF_PREFIX # demo_leaf 2) # path_inputs tree_prims (hash_leaf tree_prims (demo_leaf 2)) [(demo_leaf 1, LeftSide)])))"
    by code_simp
  from inj_on_listI [OF this] show ?thesis by (simp add: tree_inputs_def Un_assoc Un_left_commute insert_commute)
qed

lemma tree_prims_wide: "wide_hash tree_prims"
  by (simp add: wide_hash_def tree_prims_def)

section \<open>Properties\<close>

text \<open>Every leaf of a batch has an inclusion proof, and it verifies against the batch's root.\<close>

theorem merkle_complete:
  assumes "leaf_index < length leaves"
  shows "\<exists>pf. inclusion_proof P leaves leaf_index = Inr pf \<and> verify_proof P (merkle_root P leaves) (leaves ! leaf_index) pf"
proof -
  let ?layer = "map (hash_leaf P) leaves"
  have "foldl (proof_step P) (?layer ! leaf_index) (sibling_path (butlast (layers_from P ?layer)) leaf_index) = top_of P ?layer"
    by (rule sibling_path_top) (use assms in simp)
  moreover have "merkle_root P leaves = top_of P ?layer" by (rule merkle_root_top) (use assms in auto)
  ultimately show ?thesis using assms by (simp add: inclusion_proof_def verify_proof_def build_levels_def Let_def)
qed

theorem merkle_complete_witness:
  "\<exists>pf. inclusion_proof tree_prims [demo_leaf 1, demo_leaf 2, demo_leaf 3] 2 = Inr pf \<and>
     verify_proof tree_prims (merkle_root tree_prims [demo_leaf 1, demo_leaf 2, demo_leaf 3]) (demo_leaf 3) pf"
  using merkle_complete [of 2 "[demo_leaf 1, demo_leaf 2, demo_leaf 3]" tree_prims] by simp

text \<open>C35. A proof that verifies against the root of a batch proves membership, whatever its length and sides: unless
  BLAKE3 collides on the inputs of this tree and this proof, the leaf is one of the batch's leaves. In
  particular no inner node can be passed off as a leaf.\<close>

theorem merkle_sound:
  assumes "wide_hash P" and "leaves \<noteq> []" and "list_all (\<lambda>(s, _). length s = 32) (mp_siblings pf)"
    and "inj_on (blake3 P) (tree_inputs P leaves \<union>
      insert (LEAF_PREFIX # leaf) (set (path_inputs P (hash_leaf P leaf) (mp_siblings pf))))"
    and "verify_proof P (merkle_root P leaves) leaf pf"
  shows "leaf \<in> set leaves"
proof -
  let ?A = "insert (LEAF_PREFIX # leaf) (set (path_inputs P (hash_leaf P leaf) (mp_siblings pf)))"
  have "foldl (proof_step P) (hash_leaf P leaf) (mp_siblings pf) \<in> tree_nodes P (map (hash_leaf P) leaves)"
    using assms(2,5) top_in_tree_nodes [of "map (hash_leaf P) leaves" P] by (simp add: verify_proof_def merkle_root_top)
  then have "hash_leaf P leaf \<in> tree_nodes P (map (hash_leaf P) leaves)"
    by (rule path_in_tree [OF assms(1,4) _ _ assms(3), rotated 2]) (auto simp: assms(1))
  from leaf_tree_nodes(2) [OF assms(1) this] obtain x where
    x: "x \<in> tree_inputs P leaves" "blake3 P (LEAF_PREFIX # leaf) = blake3 P x"
      "(\<exists>l\<in>set leaves. x = LEAF_PREFIX # l) \<or> (\<exists>r. x = NODE_PREFIX # r)"
    unfolding hash_leaf_def hash_node_def by (force simp: tree_inputs_def)
  have "LEAF_PREFIX # leaf = x" by (rule inj_onD [OF assms(4) x(2)]) (use x(1) in simp_all)
  with x(3) show ?thesis by auto
qed

theorem merkle_sound_witness:
  "demo_leaf 2 \<in> set [demo_leaf 1, demo_leaf 2]"
proof (rule merkle_sound [where P = tree_prims and pf = "\<lparr>mp_leaf_index = 7, mp_siblings = [(demo_leaf 1, LeftSide)]\<rparr>"])
  show "wide_hash tree_prims" by (rule tree_prims_wide)
  show "inj_on (blake3 tree_prims) (tree_inputs tree_prims [demo_leaf 1, demo_leaf 2] \<union>
      insert (LEAF_PREFIX # demo_leaf 2) (set (path_inputs tree_prims (hash_leaf tree_prims (demo_leaf 2))
        (mp_siblings \<lparr>mp_leaf_index = 7, mp_siblings = [(demo_leaf 1, LeftSide)]\<rparr>))))"
    using demo_tree_inj by simp
  show "verify_proof tree_prims (merkle_root tree_prims [demo_leaf 1, demo_leaf 2]) (demo_leaf 2)
      \<lparr>mp_leaf_index = 7, mp_siblings = [(demo_leaf 1, LeftSide)]\<rparr>"
    by code_simp
qed simp_all

text \<open>A root commits to the whole batch, its order and its size: two batches of distinct leaves with the same root
  are the same list, unless BLAKE3 collides on the inputs of the two trees.\<close>

theorem merkle_root_commits:
  assumes "wide_hash P" and "inj_on (blake3 P) (tree_inputs P xs \<union> tree_inputs P ys)"
    and "distinct xs" and "distinct ys" and "xs \<noteq> []" and "ys \<noteq> []"
    and "merkle_root P xs = merkle_root P ys"
  shows "xs = ys"
  using equal_roots_equal_leaves [OF assms(1-6)] assms(5-7) by (simp add: merkle_root_top)

theorem merkle_root_commits_witness:
  "[demo_leaf 1, demo_leaf 2] = [demo_leaf (2 - 1), demo_leaf (1 + 1)]"
proof (rule merkle_root_commits [where P = tree_prims])
  show "wide_hash tree_prims" by (rule tree_prims_wide)
  show "inj_on (blake3 tree_prims) (tree_inputs tree_prims [demo_leaf 1, demo_leaf 2] \<union>
      tree_inputs tree_prims [demo_leaf (2 - 1), demo_leaf (1 + 1)])"
    using inj_on_subset [OF demo_tree_inj, of "tree_inputs tree_prims [demo_leaf 1, demo_leaf 2]", OF Un_upper1] by simp
qed simp_all

end
