(* ===== verification/Anchor.thy ===== *)
theory Anchor
  imports Merkle Watermark
begin

text \<open>
  Anchored batches: the payload committed on a chain (\<^verbatim>\<open>audit/anchor.rs\<close>), the signed records kept in the
  bucket and their readers (\<^verbatim>\<open>audit/batch.rs\<close>). JSON is a parameter; \<^verbatim>\<open>usize\<close> counts are natural numbers.
\<close>

section \<open>Definitions\<close>

definition ANCHOR_TAG :: bytes where "ANCHOR_TAG = as_bytes ''hippius-memory-anchor/v1''"
definition ROOT_LEN :: nat where "ROOT_LEN = 32"

record batch_meta =
  bm_team :: string
  bm_first_lamport :: u64
  bm_last_lamport :: u64
  bm_op_count :: nat

datatype anchor_ref = Local u64 | OnChain string string

record anchor_receipt =
  rc_root :: blake3_hash
  rc_reference :: anchor_ref

definition anchor_payload :: "(batch_meta \<Rightarrow> bytes) \<Rightarrow> blake3_hash \<Rightarrow> batch_meta \<Rightarrow> bytes" where
  "anchor_payload enc root meta = ANCHOR_TAG @ root @ enc meta"

definition parse_anchor_payload :: "(bytes \<Rightarrow> batch_meta option) \<Rightarrow> bytes \<Rightarrow> mem_error + (blake3_hash \<times> batch_meta)" where
  "parse_anchor_payload dec bs =
     (case strip_prefix ANCHOR_TAG bs of
        None \<Rightarrow> Inl (Malformed ''anchor payload: missing domain tag'')
      | Some after_tag \<Rightarrow>
          if length after_tag < ROOT_LEN then Inl (Malformed ''anchor payload: truncated root'')
          else case dec (drop ROOT_LEN after_tag) of
                 None \<Rightarrow> Inl Serialize
               | Some meta \<Rightarrow> Inr (take ROOT_LEN after_tag, meta))"

definition decode_remark_signer :: "bytes option \<Rightarrow> mem_error + bytes" where
  "decode_remark_signer address_bytes =
     (case address_bytes of
        None \<Rightarrow> Inl (Storage ''anchor extrinsic is unsigned'')
      | Some address \<Rightarrow>
          (case address of
             b # account \<Rightarrow>
               if b = 0 \<and> length address = 33 then Inr account
               else Inl (Storage ''anchor extrinsic signer is not a MultiAddress::Id account'')
           | [] \<Rightarrow> Inl (Storage ''anchor extrinsic signer is not a MultiAddress::Id account'')))"

definition decode_remark_payload :: "(bytes \<Rightarrow> batch_meta option) \<Rightarrow> bytes \<Rightarrow> mem_error + blake3_hash" where
  "decode_remark_payload dec remark = r_bind (parse_anchor_payload dec remark) (\<lambda>(root, _). Inr root)"

text \<open>The two anchors without a chain.\<close>

definition noop_anchor :: "blake3_hash \<Rightarrow> batch_meta \<Rightarrow> anchor_receipt" where
  "noop_anchor root meta = \<lparr>rc_root = root, rc_reference = Local 0\<rparr>"

definition recording_anchor ::
    "(blake3_hash \<times> batch_meta) list \<Rightarrow> blake3_hash \<Rightarrow> batch_meta \<Rightarrow> anchor_receipt \<times> (blake3_hash \<times> batch_meta) list" where
  "recording_anchor records root meta =
     (\<lparr>rc_root = root, rc_reference = Local (word_of_nat (length records))\<rparr>, records @ [(root, meta)])"

subsection \<open>Records\<close>

record anchor_record =
  ar_seq :: u64
  ar_author_key :: verifying_key
  ar_root :: blake3_hash
  ar_meta :: batch_meta
  ar_leaves :: "blake3_hash list"
  ar_receipt :: anchor_receipt
  ar_sig :: "signature option"

definition ANCHOR_RECORD_SIGNING_DOMAIN :: bytes where
  "ANCHOR_RECORD_SIGNING_DOMAIN = as_bytes ''hippius-memory-anchor-record/v1''"

datatype anchor_signature_state = Valid | Unsigned | Invalid
datatype unsigned_anchor_policy = Accept | Reject

definition anchor_signing_bytes :: "anchor_record \<Rightarrow> bytes" where
  "anchor_signing_bytes r =
     (let buf = ANCHOR_RECORD_SIGNING_DOMAIN;
          buf = buf @ u64_le_bytes (ar_seq r);
          buf = buf @ ar_author_key r;
          buf = buf @ ar_root r;
          buf = push_framed buf (as_bytes (bm_team (ar_meta r)));
          buf = buf @ u64_le_bytes (bm_first_lamport (ar_meta r));
          buf = buf @ u64_le_bytes (bm_last_lamport (ar_meta r));
          buf = buf @ u64_le_bytes (u64_of_len (bm_op_count (ar_meta r)));
          buf = buf @ u64_le_bytes (u64_of_len (length (ar_leaves r)));
          buf = foldl (\<lambda>b leaf. b @ leaf) buf (ar_leaves r);
          buf = buf @ rc_root (ar_receipt r)
      in case rc_reference (ar_receipt r) of
           Local seq \<Rightarrow> (buf @ [0]) @ u64_le_bytes seq
         | OnChain block_hash extrinsic_hash \<Rightarrow>
             push_framed (push_framed (buf @ [1]) (as_bytes block_hash)) (as_bytes extrinsic_hash))"

definition anchor_sign_with :: "signer \<Rightarrow> anchor_record \<Rightarrow> anchor_record" where
  "anchor_sign_with sg r = r\<lparr>ar_sig := Some (signer_sign sg (anchor_signing_bytes r))\<rparr>"

definition signature_state :: "prims \<Rightarrow> anchor_record \<Rightarrow> anchor_signature_state" where
  "signature_state P r =
     (case ar_sig r of
        None \<Rightarrow> Unsigned
      | Some sg \<Rightarrow> if verify P (ar_author_key r) (anchor_signing_bytes r) sg then Valid else Invalid)"

definition anchors_prefix :: "string \<Rightarrow> string" where
  "anchors_prefix tm = tm @ ''/_anchors/''"

definition anchor_record_key :: "string \<Rightarrow> verifying_key \<Rightarrow> u64 \<Rightarrow> string" where
  "anchor_record_key tm k seq = tm @ ''/_anchors/'' @ key_to_hex k @ ''/'' @ pad20 (unat seq)"

definition persist_anchor_record ::
    "(anchor_record \<Rightarrow> bytes) \<Rightarrow> ('s \<Rightarrow> string \<Rightarrow> bytes \<Rightarrow> 'r) \<Rightarrow> 's \<Rightarrow> string \<Rightarrow> anchor_record \<Rightarrow> 'r" where
  "persist_anchor_record enc put s tm r = put s (anchor_record_key tm (ar_author_key r) (ar_seq r)) (enc r)"

definition anchor_record_exists ::
    "(string \<Rightarrow> mem_error + bytes) \<Rightarrow> string \<Rightarrow> verifying_key \<Rightarrow> u64 \<Rightarrow> mem_error + bool" where
  "anchor_record_exists get tm k seq =
     (case get (anchor_record_key tm k seq) of
        Inr _ \<Rightarrow> Inr True
      | Inl (NotFound _) \<Rightarrow> Inr False
      | Inl e \<Rightarrow> Inl e)"

subsection \<open>Reading\<close>

record scanned_anchor =
  sa_object_key :: string
  sa_record :: anchor_record
  sa_signature :: anchor_signature_state

record anchor_scan =
  as_records :: "scanned_anchor list"
  as_skipped_malformed :: nat

record anchor_records_read =
  rr_records :: "anchor_record list"
  rr_unsigned_records :: nat
  rr_skipped_malformed :: nat

text \<open>The duplicate check walks the leaves with the set of those seen.\<close>

fun has_duplicate :: "blake3_hash set \<Rightarrow> blake3_hash list \<Rightarrow> bool" where
  "has_duplicate seen [] = False"
| "has_duplicate seen (leaf # rest) = (if leaf \<in> seen then True else has_duplicate (insert leaf seen) rest)"

definition anchor_malformed :: "anchor_record \<Rightarrow> bool" where
  "anchor_malformed r =
     (if ar_leaves r = [] then True
      else if ar_root r \<noteq> rc_root (ar_receipt r) then True
      else if bm_op_count (ar_meta r) \<noteq> length (ar_leaves r) then True
      else has_duplicate {} (ar_leaves r))"

fun scan_loop ::
    "prims \<Rightarrow> (bytes \<Rightarrow> anchor_record option) \<Rightarrow> (string \<times> (mem_error + bytes)) list
      \<Rightarrow> scanned_anchor list \<times> nat \<Rightarrow> mem_error + (scanned_anchor list \<times> nat)" where
  "scan_loop P dec [] (scanned, skipped) = Inr (scanned, skipped)"
| "scan_loop P dec ((key, res) # rest) (scanned, skipped) =
     (case res of
        Inl e \<Rightarrow> Inl e
      | Inr bs \<Rightarrow>
          (case dec bs of
             None \<Rightarrow> scan_loop P dec rest (scanned, skipped + 1)
           | Some r \<Rightarrow>
               if anchor_malformed r then scan_loop P dec rest (scanned, skipped + 1)
               else scan_loop P dec rest
                      (scanned @ [\<lparr>sa_object_key = key, sa_record = r, sa_signature = signature_state P r\<rparr>], skipped)))"

definition scan_anchor_records ::
    "prims \<Rightarrow> (bytes \<Rightarrow> anchor_record option) \<Rightarrow> blob_view \<Rightarrow> string \<Rightarrow> mem_error + anchor_scan" where
  "scan_anchor_records P dec bv tm =
     r_bind (bv_list bv (anchors_prefix tm)) (\<lambda>keys.
     r_bind (scan_loop P dec (sort_key fst (fetch_bytes bv keys)) ([], 0)) (\<lambda>(scanned, skipped).
     Inr \<lparr>as_records = sort_key (\<lambda>e. (ar_author_key (sa_record e), ar_seq (sa_record e))) scanned,
          as_skipped_malformed = skipped\<rparr>))"

fun policy_loop :: "unsigned_anchor_policy \<Rightarrow> scanned_anchor list \<Rightarrow> anchor_record list \<times> nat" where
  "policy_loop policy [] = ([], 0)"
| "policy_loop policy (entry # rest) =
     (let (records, unsigned_count) = policy_loop policy rest in
      case sa_signature entry of
        Invalid \<Rightarrow> (records, unsigned_count)
      | Unsigned \<Rightarrow>
          if policy = Reject then (records, unsigned_count + 1) else (sa_record entry # records, unsigned_count + 1)
      | Valid \<Rightarrow> (sa_record entry # records, unsigned_count))"

definition read_anchor_records_with_policy ::
    "prims \<Rightarrow> (bytes \<Rightarrow> anchor_record option) \<Rightarrow> blob_view \<Rightarrow> string \<Rightarrow> unsigned_anchor_policy
      \<Rightarrow> mem_error + anchor_records_read" where
  "read_anchor_records_with_policy P dec bv tm policy =
     r_bind (scan_anchor_records P dec bv tm) (\<lambda>sc.
       let (records, unsigned_count) = policy_loop policy (as_records sc)
       in Inr \<lparr>rr_records = records, rr_unsigned_records = unsigned_count, rr_skipped_malformed = as_skipped_malformed sc\<rparr>)"

definition read_anchor_records ::
    "prims \<Rightarrow> (bytes \<Rightarrow> anchor_record option) \<Rightarrow> blob_view \<Rightarrow> string \<Rightarrow> mem_error + anchor_record list" where
  "read_anchor_records P dec bv tm =
     r_bind (read_anchor_records_with_policy P dec bv tm Accept) (\<lambda>rd. Inr (rr_records rd))"

section \<open>Lemmas\<close>

lemma foldl_append_concat: "foldl (\<lambda>b x. b @ x) buf xs = buf @ concat xs"
  by (induction xs arbitrary: buf) auto

subsection \<open>Signed bytes\<close>

definition leaves_bytes :: "blake3_hash list \<Rightarrow> bytes" where
  "leaves_bytes ls = u64_le_bytes (u64_of_len (length ls)) @ concat ls"

definition reference_bytes :: "anchor_ref \<Rightarrow> bytes" where
  "reference_bytes r =
     (case r of
        Local seq \<Rightarrow> 0 # u64_le_bytes seq
      | OnChain b e \<Rightarrow> 1 # framed (as_bytes b) @ framed (as_bytes e))"

definition reference_wf :: "anchor_ref \<Rightarrow> bool" where
  "reference_wf r = (case r of Local _ \<Rightarrow> True | OnChain b e \<Rightarrow> length b < 2 ^ 64 \<and> length e < 2 ^ 64)"

text \<open>The widths of Rust's arrays, the 64-bit \<^verbatim>\<open>usize\<close> and the size any in-memory value has.\<close>

definition anchor_wf :: "anchor_record \<Rightarrow> bool" where
  "anchor_wf r \<longleftrightarrow> length (ar_author_key r) = 32 \<and> length (ar_root r) = 32 \<and> length (rc_root (ar_receipt r)) = 32 \<and>
     length (bm_team (ar_meta r)) < 2 ^ 64 \<and> bm_op_count (ar_meta r) < 2 ^ 64 \<and> length (ar_leaves r) < 2 ^ 64 \<and>
     list_all (\<lambda>l. length l = 32) (ar_leaves r) \<and> reference_wf (rc_reference (ar_receipt r))"

lemma concat_fixed_width:
  "length xs = length ys \<Longrightarrow> list_all (\<lambda>l. length l = n) (xs @ ys) \<Longrightarrow> concat xs @ r = concat ys @ s \<Longrightarrow> xs = ys \<and> r = s"
  by (induction xs ys rule: list_induct2) auto

interpretation leaf_list: prefix_free leaves_bytes "\<lambda>ls. length ls < 2 ^ 64 \<and> list_all (\<lambda>l. length l = 32) ls"
proof
  fix a b :: "blake3_hash list" and r s
  assume ok: "length a < 2 ^ 64 \<and> list_all (\<lambda>l. length l = 32) a" "length b < 2 ^ 64 \<and> list_all (\<lambda>l. length l = 32) b"
    and eq: "leaves_bytes a @ r = leaves_bytes b @ s"
  from eq have "u64_of_len (length a) = u64_of_len (length b)" and rest: "concat a @ r = concat b @ s"
    by (simp_all add: leaves_bytes_def le64.enc_append_iff)
  with ok have "length a = length b" by (simp add: u64_of_len_inject)
  from concat_fixed_width [OF this _ rest, of 32] ok show "a = b \<and> r = s" by simp
qed

interpretation reference: prefix_free reference_bytes reference_wf
proof
  fix a b r s
  assume "reference_wf a" "reference_wf b" "reference_bytes a @ r = reference_bytes b @ s"
  then show "a = b \<and> r = s"
    by (cases a; cases b) (simp_all add: reference_wf_def reference_bytes_def le64.enc_append_iff frame.enc_append_iff)
qed

lemma anchor_signing_bytes_eq:
  "anchor_signing_bytes r =
     ANCHOR_RECORD_SIGNING_DOMAIN @ u64_le_bytes (ar_seq r) @ ar_author_key r @ ar_root r @
     framed (as_bytes (bm_team (ar_meta r))) @ u64_le_bytes (bm_first_lamport (ar_meta r)) @
     u64_le_bytes (bm_last_lamport (ar_meta r)) @ u64_le_bytes (u64_of_len (bm_op_count (ar_meta r))) @
     leaves_bytes (ar_leaves r) @ rc_root (ar_receipt r) @ reference_bytes (rc_reference (ar_receipt r))"
  by (simp add: anchor_signing_bytes_def Let_def push_framed_eq foldl_append_concat leaves_bytes_def reference_bytes_def
      split: anchor_ref.split)

lemma anchor_signing_bytes_sig [simp]: "anchor_signing_bytes (r\<lparr>ar_sig := sg\<rparr>) = anchor_signing_bytes r"
  by (simp add: anchor_signing_bytes_eq)

lemma anchor_signing_bytes_unique:
  assumes "anchor_wf a" and "anchor_wf b" and "anchor_signing_bytes a = anchor_signing_bytes b"
  shows "a = b\<lparr>ar_sig := ar_sig a\<rparr>"
proof -
  note w = assms(1,2) [unfolded anchor_wf_def]
  from assms(3) w have 1: "ar_seq a = ar_seq b" "ar_author_key a = ar_author_key b" "ar_root a = ar_root b"
      "bm_team (ar_meta a) = bm_team (ar_meta b)" "bm_first_lamport (ar_meta a) = bm_first_lamport (ar_meta b)"
      "bm_last_lamport (ar_meta a) = bm_last_lamport (ar_meta b)"
      "u64_of_len (bm_op_count (ar_meta a)) = u64_of_len (bm_op_count (ar_meta b))"
      "leaves_bytes (ar_leaves a) @ rc_root (ar_receipt a) @ reference_bytes (rc_reference (ar_receipt a)) =
       leaves_bytes (ar_leaves b) @ rc_root (ar_receipt b) @ reference_bytes (rc_reference (ar_receipt b))"
    by (simp_all add: anchor_signing_bytes_eq le64.enc_append_iff frame.enc_append_iff)
  from 1(8) w have 2: "ar_leaves a = ar_leaves b" "rc_root (ar_receipt a) = rc_root (ar_receipt b)"
      "reference_bytes (rc_reference (ar_receipt a)) = reference_bytes (rc_reference (ar_receipt b))"
    by (simp_all add: leaf_list.enc_append_iff)
  from 2(3) w have 3: "rc_reference (ar_receipt a) = rc_reference (ar_receipt b)" by (simp add: reference.enc_inject)
  from 1(7) w have 4: "bm_op_count (ar_meta a) = bm_op_count (ar_meta b)" by (simp add: u64_of_len_inject)
  have "ar_meta a = ar_meta b" using 1(4,5,6) 4 by (intro batch_meta.equality) simp_all
  moreover have "ar_receipt a = ar_receipt b" using 2(2) 3 by (intro anchor_receipt.equality) simp_all
  ultimately show ?thesis using 1(1,2,3) 2(1) by (intro anchor_record.equality) simp_all
qed

subsection \<open>Reading\<close>

lemma has_duplicate_iff: "has_duplicate seen xs \<longleftrightarrow> \<not> distinct xs \<or> set xs \<inter> seen \<noteq> {}"
  by (induction seen xs rule: has_duplicate.induct) auto

lemma anchor_malformed_iff:
  "anchor_malformed r \<longleftrightarrow> ar_leaves r = [] \<or> ar_root r \<noteq> rc_root (ar_receipt r) \<or>
     bm_op_count (ar_meta r) \<noteq> length (ar_leaves r) \<or> \<not> distinct (ar_leaves r)"
  by (simp add: anchor_malformed_def has_duplicate_iff)

text \<open>Sorting the fetched objects by key undoes the order in which the fetches completed.\<close>

lemma map_sort_key: "sort_key fst (map (\<lambda>k. (k, g k)) ks) = map (\<lambda>k. (k, g k)) (sort ks)"
proof -
  have "insort_key fst (x, g x) (map (\<lambda>k. (k, g k)) ks) = map (\<lambda>k. (k, g k)) (insort x ks)" for x ks
    by (induction ks) auto
  then show ?thesis by (induction ks) auto
qed

lemma sorted_fetch:
  assumes "fair bv"
  shows "sort_key fst (fetch_bytes bv keys) = map (\<lambda>k. (k, bv_get bv k)) (sort keys)"
proof -
  have "sort (bv_order bv keys) = sort keys"
    using assms by (metis fair_def sorted_list_of_multiset_mset)
  then show ?thesis by (simp add: fetch_bytes_def map_sort_key)
qed

definition scan_entry :: "prims \<Rightarrow> (bytes \<Rightarrow> anchor_record option) \<Rightarrow> (string \<Rightarrow> mem_error + bytes) \<Rightarrow> string \<Rightarrow> scanned_anchor option" where
  "scan_entry P dec get key =
     (case get key of
        Inl _ \<Rightarrow> None
      | Inr bs \<Rightarrow>
          (case dec bs of
             None \<Rightarrow> None
           | Some r \<Rightarrow>
               if anchor_malformed r then None
               else Some \<lparr>sa_object_key = key, sa_record = r, sa_signature = signature_state P r\<rparr>))"

lemma scan_loop_eq:
  "scan_loop P dec (map (\<lambda>k. (k, get k)) keys) (s, n) =
     (case find (\<lambda>k. isl (get k)) keys of
        Some k \<Rightarrow> Inl (projl (get k))
      | None \<Rightarrow> Inr (s @ List.map_filter (scan_entry P dec get) keys, n + length (filter (\<lambda>k. scan_entry P dec get k = None) keys)))"
proof (induction keys arbitrary: s n)
  case (Cons k keys)
  show ?case
  proof (cases "get k")
    case (Inr bs)
    then show ?thesis
      by (cases "dec bs"; cases "anchor_malformed (the (dec bs))")
        (simp_all add: Cons.IH scan_entry_def List.map_filter_simps split: option.splits)
  qed simp
qed (simp add: List.map_filter_simps)

definition accepted :: "unsigned_anchor_policy \<Rightarrow> scanned_anchor \<Rightarrow> bool" where
  "accepted policy e \<longleftrightarrow> sa_signature e = Valid \<or> (sa_signature e = Unsigned \<and> policy = Accept)"

lemma policy_loop_eq:
  "policy_loop policy es = (map sa_record (filter (accepted policy) es), length (filter (\<lambda>e. sa_signature e = Unsigned) es))"
proof (induction es)
  case (Cons e es)
  then show ?case by (cases "sa_signature e"; cases policy) (simp_all add: accepted_def)
qed simp

text \<open>A structurally sound record under a key: it decodes, has leaves, all distinct and as many as it says, and one
  root.\<close>

definition anchored_at :: "(bytes \<Rightarrow> anchor_record option) \<Rightarrow> blob_view \<Rightarrow> string \<Rightarrow> anchor_record \<Rightarrow> bool" where
  "anchored_at dec bv k r \<longleftrightarrow>
     (\<exists>bs. bv_get bv k = Inr bs \<and> dec bs = Some r) \<and> ar_leaves r \<noteq> [] \<and> ar_root r = rc_root (ar_receipt r) \<and>
     bm_op_count (ar_meta r) = length (ar_leaves r) \<and> distinct (ar_leaves r)"

lemma scan_entry_Some:
  "scan_entry P dec (bv_get bv) k = Some e \<longleftrightarrow>
     sa_object_key e = k \<and> anchored_at dec bv k (sa_record e) \<and> sa_signature e = signature_state P (sa_record e)"
  by (cases e) (auto simp: scan_entry_def anchored_at_def anchor_malformed_iff split: sum.splits option.splits)

lemma scan_entry_None: "scan_entry P dec (bv_get bv) k = None \<longleftrightarrow> (\<nexists>r. anchored_at dec bv k r)"
  by (auto simp: scan_entry_def anchored_at_def anchor_malformed_iff split: sum.splits option.splits)

lemma anchored_at_unique: "anchored_at dec bv k r \<Longrightarrow> anchored_at dec bv k r' \<Longrightarrow> r = r'"
  by (auto simp: anchored_at_def)

lemma scan_eq:
  assumes "fair bv" and "bv_list bv (anchors_prefix tm) = Inr keys"
  shows "scan_anchor_records P dec bv tm =
    (case find (\<lambda>k. isl (bv_get bv k)) (sort keys) of
       Some k \<Rightarrow> Inl (projl (bv_get bv k))
     | None \<Rightarrow> Inr \<lparr>as_records = sort_key (\<lambda>e. (ar_author_key (sa_record e), ar_seq (sa_record e)))
                     (List.map_filter (scan_entry P dec (bv_get bv)) (sort keys)),
                  as_skipped_malformed = length (filter (\<lambda>k. scan_entry P dec (bv_get bv) k = None) (sort keys))\<rparr>)"
  by (simp add: scan_anchor_records_def assms(2) sorted_fetch [OF assms(1)] scan_loop_eq split: option.split)

lemma length_filter_sort: "length (filter Q (sort xs)) = length (filter Q xs)"
  by (metis mset_filter mset_sort size_mset)

lemma length_filter_map_filter:
  "length (filter Q (List.map_filter f xs)) = length (filter (\<lambda>x. case f x of None \<Rightarrow> False | Some y \<Rightarrow> Q y) xs)"
  by (induction xs) (auto simp: List.map_filter_simps split: option.splits)

lemma length_filter_sort_key: "length (filter Q (sort_key f xs)) = length (filter Q xs)"
  by (metis mset_filter mset_sort size_mset)

lemma unsigned_count:
  "length (filter (\<lambda>e. sa_signature e = Unsigned) (List.map_filter (scan_entry P dec (bv_get bv)) ks)) =
     length (filter (\<lambda>k. \<exists>r. anchored_at dec bv k r \<and> signature_state P r = Unsigned) ks)"
proof -
  have "(case scan_entry P dec (bv_get bv) k of None \<Rightarrow> False | Some e \<Rightarrow> sa_signature e = Unsigned) \<longleftrightarrow>
      (\<exists>r. anchored_at dec bv k r \<and> signature_state P r = Unsigned)" for k
  proof (cases "scan_entry P dec (bv_get bv) k")
    case None
    from this have "\<nexists>r. anchored_at dec bv k r" unfolding scan_entry_None .
    then show ?thesis unfolding None by simp
  next
    case (Some e)
    then have "anchored_at dec bv k (sa_record e)" "sa_signature e = signature_state P (sa_record e)"
      by (simp_all add: scan_entry_Some)
    moreover have "r = sa_record e" if "anchored_at dec bv k r" for r
      by (rule anchored_at_unique [OF that \<open>anchored_at dec bv k (sa_record e)\<close>])
    ultimately show ?thesis unfolding Some option.case by metis
  qed
  then show ?thesis by (simp only: length_filter_map_filter)
qed

lemma read_anchors_total:
  assumes "fair bv" and "bv_list bv (anchors_prefix tm) = Inr keys"
  shows "(\<exists>rd. read_anchor_records_with_policy P dec bv tm policy = Inr rd) \<longleftrightarrow> (\<forall>k\<in>set keys. \<not> isl (bv_get bv k))"
proof (cases "find (\<lambda>k. isl (bv_get bv k)) (sort keys)")
  case None
  then show ?thesis by (simp add: read_anchor_records_with_policy_def scan_eq [OF assms] policy_loop_eq) (simp add: find_None_iff)
next
  case (Some k)
  then show ?thesis using find_SomeD [OF Some]
    by (auto simp: read_anchor_records_with_policy_def scan_eq [OF assms])
qed

lemma read_anchors_Inr:
  assumes "fair bv" and "bv_list bv (anchors_prefix tm) = Inr keys"
    and "read_anchor_records_with_policy P dec bv tm policy = Inr rd"
  shows "set (rr_records rd) = {r. \<exists>k\<in>set keys. anchored_at dec bv k r \<and>
        (signature_state P r = Valid \<or> signature_state P r = Unsigned \<and> policy = Accept)}"
    and "sorted (map (\<lambda>r. (ar_author_key r, ar_seq r)) (rr_records rd))"
    and "rr_skipped_malformed rd = length (filter (\<lambda>k. \<nexists>r. anchored_at dec bv k r) keys)"
    and "rr_unsigned_records rd = length (filter (\<lambda>k. \<exists>r. anchored_at dec bv k r \<and> signature_state P r = Unsigned) keys)"
proof -
  let ?key = "\<lambda>r. (ar_author_key r, ar_seq r)"
  let ?es = "List.map_filter (scan_entry P dec (bv_get bv)) (sort keys)"
  from assms(3) have rd: "rd = \<lparr>rr_records = map sa_record (filter (accepted policy) (sort_key (\<lambda>e. ?key (sa_record e)) ?es)),
      rr_unsigned_records = length (filter (\<lambda>e. sa_signature e = Unsigned) (sort_key (\<lambda>e. ?key (sa_record e)) ?es)),
      rr_skipped_malformed = length (filter (\<lambda>k. scan_entry P dec (bv_get bv) k = None) (sort keys))\<rparr>"
    by (simp add: read_anchor_records_with_policy_def scan_eq [OF assms(1,2)] policy_loop_eq split: option.splits)
  show "set (rr_records rd) = {r. \<exists>k\<in>set keys. anchored_at dec bv k r \<and>
        (signature_state P r = Valid \<or> signature_state P r = Unsigned \<and> policy = Accept)}"
  proof (rule set_eqI)
    fix r
    have "r \<in> set (rr_records rd) \<longleftrightarrow> (\<exists>e k. k \<in> set keys \<and> scan_entry P dec (bv_get bv) k = Some e \<and> accepted policy e \<and> r = sa_record e)"
      by (auto simp: rd in_map_filter)
    also have "\<dots> \<longleftrightarrow> (\<exists>k\<in>set keys. anchored_at dec bv k r \<and> accepted policy \<lparr>sa_object_key = k, sa_record = r, sa_signature = signature_state P r\<rparr>)"
      unfolding scan_entry_Some by (fastforce intro: exI [of _ "\<lparr>sa_object_key = _, sa_record = r, sa_signature = signature_state P r\<rparr>"] simp: accepted_def)
    finally show "r \<in> set (rr_records rd) \<longleftrightarrow> r \<in> {r. \<exists>k\<in>set keys. anchored_at dec bv k r \<and>
        (signature_state P r = Valid \<or> signature_state P r = Unsigned \<and> policy = Accept)}"
      by (simp add: accepted_def)
  qed
  have "sorted (map (\<lambda>e. ?key (sa_record e)) (filter (accepted policy) (sort_key (\<lambda>e. ?key (sa_record e)) ?es)))"
    by (rule sorted_filter) simp
  then show "sorted (map ?key (rr_records rd))" by (simp add: rd comp_def)
  show "rr_skipped_malformed rd = length (filter (\<lambda>k. \<nexists>r. anchored_at dec bv k r) keys)"
    by (simp add: rd length_filter_sort scan_entry_None)
  show "rr_unsigned_records rd = length (filter (\<lambda>k. \<exists>r. anchored_at dec bv k r \<and> signature_state P r = Unsigned) keys)"
    by (simp add: rd length_filter_sort_key unsigned_count length_filter_sort)
qed

text \<open>A record for witnesses: one leaf, the root of the tree over it under the demo digest.\<close>

definition demo_anchor :: "string \<Rightarrow> byte \<Rightarrow> byte \<Rightarrow> signature option \<Rightarrow> anchor_record" where
  "demo_anchor tm a n sg =
     \<lparr>ar_seq = 0, ar_author_key = replicate 32 a, ar_root = replicate 32 n,
      ar_meta = \<lparr>bm_team = tm, bm_first_lamport = 1, bm_last_lamport = 1, bm_op_count = 1\<rparr>,
      ar_leaves = [replicate 32 n],
      ar_receipt = \<lparr>rc_root = replicate 32 n, rc_reference = Local 0\<rparr>, ar_sig = sg\<rparr>"

text \<open>Two bytes stand for a signed record, three for an unsigned one, anything else does not decode.\<close>

definition demo_anchor_dec :: "string \<Rightarrow> bytes \<Rightarrow> anchor_record option" where
  "demo_anchor_dec tm bs =
     (case bs of [a, n] \<Rightarrow> Some (demo_anchor tm a n (Some (replicate 64 a)))
      | [a, n, _] \<Rightarrow> Some (demo_anchor tm a n None) | _ \<Rightarrow> None)"

definition demo_anchors_view :: blob_view where
  "demo_anchors_view =
     \<lparr>bv_list = (\<lambda>_. Inr [''t/_anchors/c'', ''t/_anchors/b'', ''t/_anchors/a'']),
      bv_get = (\<lambda>k. Inr (if k = ''t/_anchors/a'' then [1, 5] else if k = ''t/_anchors/b'' then [2, 6, 0] else [])),
      bv_order = rev\<rparr>"

lemma demo_anchor_state:
  "a \<noteq> 0 \<Longrightarrow> signature_state demo_prims (demo_anchor tm a n (Some (replicate 64 a))) = Valid"
  "signature_state demo_prims (demo_anchor tm a n None) = Unsigned"
  by (simp_all add: signature_state_def verify_def is_identity_point_def demo_anchor_def) (simp add: demo_prims_def)

section \<open>Properties\<close>

text \<open>Signatures do not travel between the signed types: the signed bytes of an anchor record, of a head and
  of an op always differ, although all three are made under one signing context; and two records with the
  same signed bytes agree in every signed field, the list of leaves and the chain reference included.\<close>

theorem signed_types_separate:
  assumes "anchor_wf r" and "anchor_wf r'"
  shows "anchor_signing_bytes r \<noteq> signing_bytes x \<and> anchor_signing_bytes r \<noteq> head_signing_bytes h \<and>
    head_signing_bytes h \<noteq> signing_bytes x \<and>
    (anchor_signing_bytes r = anchor_signing_bytes r' \<longleftrightarrow> r = r'\<lparr>ar_sig := ar_sig r\<rparr>)"
proof -
  have take: "take 18 (anchor_signing_bytes r) = take 18 ANCHOR_RECORD_SIGNING_DOMAIN"
    "take 18 (head_signing_bytes h) = take 18 HEAD_DOMAIN" "take 18 (signing_bytes x) = take 18 SIGNING_DOMAIN"
    by (simp_all add: anchor_signing_bytes_eq ANCHOR_RECORD_SIGNING_DOMAIN_def head_signing_bytes_eq HEAD_DOMAIN_def
        signing_bytes_eq SIGNING_DOMAIN_def)
  have "take 18 ANCHOR_RECORD_SIGNING_DOMAIN \<noteq> take 18 SIGNING_DOMAIN"
    "take 18 ANCHOR_RECORD_SIGNING_DOMAIN \<noteq> take 18 HEAD_DOMAIN" "take 18 HEAD_DOMAIN \<noteq> take 18 SIGNING_DOMAIN"
    by (simp_all add: ANCHOR_RECORD_SIGNING_DOMAIN_def SIGNING_DOMAIN_def HEAD_DOMAIN_def as_bytes_def)
  with take have "anchor_signing_bytes r \<noteq> signing_bytes x" "anchor_signing_bytes r \<noteq> head_signing_bytes h"
    "head_signing_bytes h \<noteq> signing_bytes x" by metis+
  then show ?thesis using anchor_signing_bytes_unique [OF assms] anchor_signing_bytes_sig by metis
qed

theorem signed_types_separate_witness:
  "anchor_signing_bytes (demo_anchor ''t'' 1 5 None) \<noteq> anchor_signing_bytes (demo_anchor ''t'' 1 6 None) \<and>
   anchor_signing_bytes (demo_anchor ''t'' 1 5 None) \<noteq> signing_bytes (demo_op 1 1 blake3_zero)"
proof -
  have wf: "anchor_wf (demo_anchor ''t'' 1 n None)" for n by (simp add: anchor_wf_def demo_anchor_def reference_wf_def)
  from signed_types_separate [OF wf wf, of 5 "demo_op 1 1 blake3_zero" undefined 6] show ?thesis
    by (simp add: demo_anchor_def)
qed

text \<open>A read of the anchor records fails exactly when a listed object cannot be fetched. Otherwise it returns, by
  author and sequence number, every structurally sound record whose signature verifies, under \<open>Accept\<close> also
  those without one, and it counts what it left out: no planted object hides the others, none with a bad
  signature gets through, and the unsigned count is the same under both policies.\<close>

theorem read_anchors_exact:
  assumes "fair bv" and "bv_list bv (anchors_prefix tm) = Inr keys"
  shows "((\<exists>rd. read_anchor_records_with_policy P dec bv tm policy = Inr rd) \<longleftrightarrow> (\<forall>k\<in>set keys. \<not> isl (bv_get bv k))) \<and>
    (\<forall>rd. read_anchor_records_with_policy P dec bv tm policy = Inr rd \<longrightarrow>
       set (rr_records rd) = {r. \<exists>k\<in>set keys. anchored_at dec bv k r \<and>
         (signature_state P r = Valid \<or> signature_state P r = Unsigned \<and> policy = Accept)} \<and>
       sorted (map (\<lambda>r. (ar_author_key r, ar_seq r)) (rr_records rd)) \<and>
       rr_skipped_malformed rd = length (filter (\<lambda>k. \<nexists>r. anchored_at dec bv k r) keys) \<and>
       rr_unsigned_records rd = length (filter (\<lambda>k. \<exists>r. anchored_at dec bv k r \<and> signature_state P r = Unsigned) keys))"
proof (intro conjI allI impI)
  show "(\<exists>rd. read_anchor_records_with_policy P dec bv tm policy = Inr rd) \<longleftrightarrow> (\<forall>k\<in>set keys. \<not> isl (bv_get bv k))"
    by (rule read_anchors_total [OF assms])
qed (use read_anchors_Inr [OF assms] in \<open>blast+\<close>)

theorem read_anchors_exact_witness:
  "\<exists>rd. read_anchor_records_with_policy demo_prims (demo_anchor_dec ''t'') demo_anchors_view ''t'' Reject = Inr rd \<and>
     demo_anchor ''t'' 1 5 (Some (replicate 64 1)) \<in> set (rr_records rd) \<and>
     demo_anchor ''t'' 2 6 None \<notin> set (rr_records rd) \<and> rr_skipped_malformed rd = 1"
proof -
  let ?keys = "[''t/_anchors/c'', ''t/_anchors/b'', ''t/_anchors/a'']" and ?dec = "demo_anchor_dec ''t''"
  have fair: "fair demo_anchors_view" by (simp add: fair_def demo_anchors_view_def)
  have keys: "bv_list demo_anchors_view (anchors_prefix ''t'') = Inr ?keys" by (simp add: demo_anchors_view_def)
  note read = read_anchors_exact [OF fair keys, of demo_prims ?dec Reject]
  have at: "anchored_at ?dec demo_anchors_view ''t/_anchors/a'' r \<longleftrightarrow> r = demo_anchor ''t'' 1 5 (Some (replicate 64 1))"
    "anchored_at ?dec demo_anchors_view ''t/_anchors/b'' r \<longleftrightarrow> r = demo_anchor ''t'' 2 6 None"
    "\<not> anchored_at ?dec demo_anchors_view ''t/_anchors/c'' r" for r
    by (auto simp: anchored_at_def demo_anchors_view_def demo_anchor_dec_def demo_anchor_def)
  obtain rd where rd: "read_anchor_records_with_policy demo_prims ?dec demo_anchors_view ''t'' Reject = Inr rd"
    using read by (auto simp: demo_anchors_view_def)
  with read have recs: "set (rr_records rd) = {r. \<exists>k\<in>set ?keys. anchored_at ?dec demo_anchors_view k r \<and>
      (signature_state demo_prims r = Valid \<or> signature_state demo_prims r = Unsigned \<and> Reject = Accept)}"
    and skipped: "rr_skipped_malformed rd = length (filter (\<lambda>k. \<nexists>r. anchored_at ?dec demo_anchors_view k r) ?keys)"
    by blast+
  have "demo_anchor ''t'' 1 5 (Some (replicate 64 1)) \<in> set (rr_records rd)" "demo_anchor ''t'' 2 6 None \<notin> set (rr_records rd)"
    unfolding recs by (simp_all add: at demo_anchor_state)
  moreover have "rr_skipped_malformed rd = 1" unfolding skipped by (simp add: at)
  ultimately show ?thesis using rd by blast
qed

end
