(* ===== verification/Reconcile.thy ===== *)
theory Reconcile
  imports Anchor
begin

text \<open>
  The audit of a team's bucket (\<^verbatim>\<open>audit/reconcile.rs\<close>): anchored leaves against the visible op-log, signed
  heads against visible tips, heads against this machine's marks, roots against the chain. The three reads
  of one audit are given one view of the bucket each; the chain reader is a parameter.
\<close>

section \<open>Definitions\<close>

record missing_op =
  mo_op_hash :: blake3_hash
  mo_author_key :: verifying_key
  mo_anchor_seq :: u64
  mo_anchor_ref :: anchor_ref

record suppressed_tail =
  st_author :: ss58
  st_author_key :: verifying_key
  st_claimed_tip :: blake3_hash
  st_claimed_lamport :: u64
  st_visible_lamport :: "u64 option"

text \<open>Author key, anchor sequence number, stored root, and what contradicts it.\<close>

datatype root_mismatch =
    LeafRecomputation verifying_key u64 blake3_hash blake3_hash
  | ChainDisagreement verifying_key u64 blake3_hash blake3_hash
  | ChainSignerMismatch verifying_key u64 verifying_key
  | ChainUnverifiable verifying_key u64 mem_error

datatype verification = BucketOnly | ChainVerified

record reconcile_report =
  rp_checked_batches :: nat
  rp_total_anchored_ops :: nat
  rp_unsigned_anchor_records :: nat
  rp_skipped_malformed_objects :: nat
  rp_missing_ops :: "missing_op list"
  rp_root_mismatches :: "root_mismatch list"
  rp_quarantined_authors :: "quarantined_author list"
  rp_suppressed_tails :: "suppressed_tail list"
  rp_head_regressions :: "head_regression list"
  rp_ok :: bool
  rp_verification :: verification

definition visible_lamports :: "op list \<Rightarrow> (verifying_key, u64) mapping" where
  "visible_lamports ops =
     foldl (\<lambda>m x. Mapping.update (op_author_key x)
              (case Mapping.lookup m (op_author_key x) of
                 Some highest \<Rightarrow> max highest (op_lamport x)
               | None \<Rightarrow> op_lamport x) m)
       Mapping.empty ops"

definition suppressed_tails_against :: "head_pointer list \<Rightarrow> op list \<Rightarrow> blake3_hash set \<Rightarrow> suppressed_tail list" where
  "suppressed_tails_against heads ops present =
     (let lamports = visible_lamports ops in
      map (\<lambda>head. \<lparr>st_author = hp_author head, st_author_key = hp_author_key head, st_claimed_tip = hp_tip_hash head,
                   st_claimed_lamport = hp_lamport head,
                   st_visible_lamport = Mapping.lookup lamports (hp_author_key head)\<rparr>)
        (filter (\<lambda>head. hp_tip_hash head \<notin> present) heads))"

definition find_suppressed_tails :: "prims \<Rightarrow> verified_heads \<Rightarrow> op list \<Rightarrow> suppressed_tail list" where
  "find_suppressed_tails P heads ops = suppressed_tails_against (heads_of heads) ops (set (map (op_hash P) ops))"

definition missing_op_of :: "anchor_record \<Rightarrow> blake3_hash \<Rightarrow> missing_op" where
  "missing_op_of r leaf =
     \<lparr>mo_op_hash = leaf, mo_author_key = ar_author_key r, mo_anchor_seq = ar_seq r,
      mo_anchor_ref = rc_reference (ar_receipt r)\<rparr>"

definition check_record ::
    "prims \<Rightarrow> blake3_hash set \<Rightarrow> blake3_hash set \<times> missing_op list \<times> root_mismatch list \<Rightarrow> anchor_record
      \<Rightarrow> blake3_hash set \<times> missing_op list \<times> root_mismatch list" where
  "check_record P present st r =
     (let (distinct_anchored, missing, mismatches) = st;
          recomputed_root = merkle_root P (ar_leaves r);
          mismatches' =
            (if recomputed_root \<noteq> ar_root r
             then mismatches @ [LeafRecomputation (ar_author_key r) (ar_seq r) (ar_root r) recomputed_root]
             else mismatches);
          (distinct_anchored', missing') =
            foldl (\<lambda>(seen, miss) leaf.
                (insert leaf seen, if leaf \<notin> present then miss @ [missing_op_of r leaf] else miss))
              (distinct_anchored, missing) (ar_leaves r)
      in (distinct_anchored', missing', mismatches'))"

definition reconcile_records ::
    "prims \<Rightarrow> anchor_record list \<Rightarrow> op list \<Rightarrow> verified_heads \<Rightarrow> quarantined_author list \<Rightarrow> head_regression list \<Rightarrow> nat \<Rightarrow> nat
      \<Rightarrow> reconcile_report" where
  "reconcile_records P records ops heads quarantined regressions unsigned_records skipped =
     (let present = set (map (op_hash P) ops);
          (distinct_anchored, missing, mismatches) = foldl (check_record P present) ({}, [], []) records;
          tails = suppressed_tails_against (heads_of heads) ops present
      in \<lparr>rp_checked_batches = length records, rp_total_anchored_ops = card distinct_anchored,
          rp_unsigned_anchor_records = unsigned_records, rp_skipped_malformed_objects = skipped,
          rp_missing_ops = missing, rp_root_mismatches = mismatches, rp_quarantined_authors = quarantined,
          rp_suppressed_tails = tails, rp_head_regressions = regressions,
          rp_ok = (missing = [] \<and> mismatches = [] \<and> quarantined = [] \<and> tails = [] \<and> regressions = []),
          rp_verification = BucketOnly\<rparr>)"

text \<open>The wire formats the audit reads.\<close>

record codecs =
  dec_op :: "bytes \<Rightarrow> op option"
  dec_head :: "bytes \<Rightarrow> head_pointer option"
  dec_anchor :: "bytes \<Rightarrow> anchor_record option"
  dec_marks :: "bytes \<Rightarrow> watermark_file option"
  enc_marks :: "watermark_file \<Rightarrow> bytes"

text \<open>Anchors, then heads, then the marks, then the ops; the marks stay advanced when the ops cannot be read.
  Without watermarks the comparison is skipped. The outcome carries the records, for the chain pass.\<close>

definition reconcile_reads ::
    "prims \<Rightarrow> codecs \<Rightarrow> blob_view \<Rightarrow> blob_view \<Rightarrow> blob_view \<Rightarrow> string \<Rightarrow> op_cache \<Rightarrow> (marks \<times> disk) option \<Rightarrow> io_env \<Rightarrow> path
      \<Rightarrow> unsigned_anchor_policy
      \<Rightarrow> ((mem_error + (anchor_record list \<times> reconcile_report)) \<times> op_cache \<times> (marks \<times> disk) option) option" where
  "reconcile_reads P C bvA bvH bvO tm cache wm env p policy =
     (case read_anchor_records_with_policy P (dec_anchor C) bvA tm policy of
        Inl e \<Rightarrow> Some (Inl e, cache, wm)
      | Inr rd \<Rightarrow>
      case read_heads P (dec_head C) bvH tm of
        Inl e \<Rightarrow> Some (Inl e, cache, wm)
      | Inr heads \<Rightarrow>
          let (regressions, wm') =
                (case wm of
                   None \<Rightarrow> ([], None)
                 | Some (ms, d) \<Rightarrow>
                     (let (rs, ms', d') = observe_heads P (dec_marks C) (enc_marks C) read_file wm_write env p ms d heads
                      in (rs, Some (ms', d'))))
          in map_option (\<lambda>(r, cache').
               (case r of
                  Inl e \<Rightarrow> Inl e
                | Inr (v, quarantined) \<Rightarrow>
                    Inr (rr_records rd,
                      reconcile_records P (rr_records rd) (ops_of v) heads quarantined regressions
                        (rr_unsigned_records rd) (rr_skipped_malformed rd)),
                cache', wm'))
               (read_verified P (dec_op C) bvO tm cache))"

definition reconcile_with_watermarks where
  "reconcile_with_watermarks P C bvA bvH bvO tm cache wm env p policy =
     map_option (\<lambda>(r, rest). (case r of Inl e \<Rightarrow> Inl e | Inr (_, rp) \<Rightarrow> Inr rp, rest))
       (reconcile_reads P C bvA bvH bvO tm cache wm env p policy)"

definition reconcile where
  "reconcile P C bvA bvH bvO tm cache env p = reconcile_with_watermarks P C bvA bvH bvO tm cache None env p Accept"

subsection \<open>The chain pass\<close>

record anchored_extrinsic =
  ae_root :: blake3_hash
  ae_signer :: bytes

type_synonym chain_root_reader = "string \<Rightarrow> string \<Rightarrow> mem_error + anchored_extrinsic"

definition verify_record :: "chain_root_reader \<Rightarrow> root_mismatch list \<times> nat \<Rightarrow> anchor_record \<Rightarrow> root_mismatch list \<times> nat" where
  "verify_record reader st r =
     (let (mismatches, chain_checked) = st in
      case rc_reference (ar_receipt r) of
        Local _ \<Rightarrow> (mismatches, chain_checked)
      | OnChain block_hash extrinsic_hash \<Rightarrow>
          (case reader block_hash extrinsic_hash of
             Inl e \<Rightarrow> (mismatches @ [ChainUnverifiable (ar_author_key r) (ar_seq r) e], chain_checked)
           | Inr anchored \<Rightarrow>
               let m1 = (if ae_signer anchored \<noteq> ar_author_key r
                         then mismatches @ [ChainSignerMismatch (ar_author_key r) (ar_seq r) (ae_signer anchored)]
                         else mismatches);
                   m2 = (if ae_root anchored \<noteq> ar_root r
                         then m1 @ [ChainDisagreement (ar_author_key r) (ar_seq r) (ar_root r) (ae_root anchored)]
                         else m1)
               in (m2, chain_checked + 1)))"

definition verify_on_chain_roots :: "anchor_record list \<Rightarrow> reconcile_report \<Rightarrow> chain_root_reader \<Rightarrow> reconcile_report" where
  "verify_on_chain_roots records rp reader =
     (let (mismatches, chain_checked) = foldl (verify_record reader) (rp_root_mismatches rp, 0) records;
          rp = rp\<lparr>rp_root_mismatches := mismatches\<rparr>;
          rp = rp\<lparr>rp_ok := (rp_missing_ops rp = [] \<and> rp_root_mismatches rp = [] \<and> rp_quarantined_authors rp = [] \<and>
                   rp_suppressed_tails rp = [] \<and> rp_head_regressions rp = [])\<rparr>
      in if chain_checked > 0 then rp\<lparr>rp_verification := ChainVerified\<rparr> else rp)"

definition reconcile_with_chain where
  "reconcile_with_chain P C bvA bvH bvO tm cache reader wm env p policy =
     map_option (\<lambda>(r, rest).
         (case r of Inl e \<Rightarrow> Inl e | Inr (records, rp) \<Rightarrow> Inr (verify_on_chain_roots records rp reader), rest))
       (reconcile_reads P C bvA bvH bvO tm cache wm env p policy)"

section \<open>Lemmas\<close>

abbreviation hashes :: "prims \<Rightarrow> op list \<Rightarrow> blake3_hash set" where
  "hashes P ops \<equiv> op_hash P ` set ops"

definition missing_of :: "blake3_hash set \<Rightarrow> anchor_record \<Rightarrow> missing_op list" where
  "missing_of present r = map (missing_op_of r) (filter (\<lambda>l. l \<notin> present) (ar_leaves r))"

definition leaf_mismatch :: "prims \<Rightarrow> anchor_record \<Rightarrow> root_mismatch list" where
  "leaf_mismatch P r =
     (if merkle_root P (ar_leaves r) \<noteq> ar_root r
      then [LeafRecomputation (ar_author_key r) (ar_seq r) (ar_root r) (merkle_root P (ar_leaves r))] else [])"

lemma leaves_fold:
  "foldl (\<lambda>(seen, miss) leaf. (insert leaf seen, if leaf \<notin> present then miss @ [missing_op_of r leaf] else miss)) (d, m) ls =
     (d \<union> set ls, m @ map (missing_op_of r) (filter (\<lambda>l. l \<notin> present) ls))"
  by (induction ls arbitrary: d m) auto

lemma check_record_eq:
  "check_record P present (d, m, x) r = (d \<union> set (ar_leaves r), m @ missing_of present r, x @ leaf_mismatch P r)"
  by (simp add: check_record_def leaves_fold missing_of_def leaf_mismatch_def)

lemma missing_ofI: "l \<in> set (ar_leaves r) \<Longrightarrow> l \<notin> present \<Longrightarrow> missing_of present r \<noteq> []"
  by (auto simp: missing_of_def filter_empty_conv)

lemma records_fold:
  "foldl (check_record P present) (d, m, x) rs =
     (d \<union> (\<Union>r\<in>set rs. set (ar_leaves r)), m @ concat (map (missing_of present) rs), x @ concat (map (leaf_mismatch P) rs))"
  by (induction rs arbitrary: d m x) (auto simp: check_record_eq)

lemma reconcile_records_eq:
  "reconcile_records P rs ops heads q regs u sk =
     (let missing = concat (map (missing_of (hashes P ops)) rs); mismatches = concat (map (leaf_mismatch P) rs);
          tails = find_suppressed_tails P heads ops
      in \<lparr>rp_checked_batches = length rs, rp_total_anchored_ops = card (\<Union>r\<in>set rs. set (ar_leaves r)),
          rp_unsigned_anchor_records = u, rp_skipped_malformed_objects = sk, rp_missing_ops = missing,
          rp_root_mismatches = mismatches, rp_quarantined_authors = q, rp_suppressed_tails = tails, rp_head_regressions = regs,
          rp_ok = (missing = [] \<and> mismatches = [] \<and> q = [] \<and> tails = [] \<and> regs = []), rp_verification = BucketOnly\<rparr>)"
  by (simp add: reconcile_records_def records_fold find_suppressed_tails_def)

lemma tails_Nil: "find_suppressed_tails P heads ops = [] \<longleftrightarrow> (\<forall>h\<in>set (heads_of heads). hp_tip_hash h \<in> hashes P ops)"
  by (auto simp: find_suppressed_tails_def suppressed_tails_against_def filter_empty_conv)

lemma Max_snoc: "xs \<noteq> [] \<Longrightarrow> Max (set (xs @ [y])) = max (Max (set xs)) (y :: 'a::linorder)"
  by (simp add: max.commute)

lemma visible_lamports_lookup:
  "Mapping.lookup (visible_lamports ops) k =
     (let own = map op_lamport (filter (\<lambda>x. op_author_key x = k) ops) in if own = [] then None else Some (Max (set own)))"
proof (induction ops rule: rev_induct)
  case (snoc x ops)
  show ?case
  proof (cases "op_author_key x = k")
    case True
    let ?own = "map op_lamport (filter (\<lambda>x. op_author_key x = k) ops)"
    have step: "Mapping.lookup (visible_lamports (ops @ [x])) k =
        Some (case Mapping.lookup (visible_lamports ops) k of Some h \<Rightarrow> max h (op_lamport x) | None \<Rightarrow> op_lamport x)"
      using True by (simp add: visible_lamports_def lookup_update')
    show ?thesis
    proof (cases "?own = []")
      case True
      then show ?thesis unfolding step snoc.IH by (simp add: Let_def \<open>op_author_key x = k\<close>)
    next
      case False
      from False Max_snoc [OF False, of "op_lamport x"] show ?thesis
        unfolding step snoc.IH Let_def by (simp only: filter_append map_append filter.simps if_True \<open>op_author_key x = k\<close> list.map) simp
    qed
  next
    case False
    have "Mapping.lookup (visible_lamports (ops @ [x])) k = Mapping.lookup (visible_lamports ops) k"
      using False by (simp add: visible_lamports_def lookup_update')
    then show ?thesis using False snoc.IH by simp
  qed
qed (simp add: visible_lamports_def lookup_empty)

lemma report_ok_iff:
  "rp_ok (reconcile_records P rs ops heads q regs u sk) \<longleftrightarrow>
     (\<forall>r\<in>set rs. merkle_root P (ar_leaves r) = ar_root r \<and> set (ar_leaves r) \<subseteq> hashes P ops) \<and>
     (\<forall>h\<in>set (heads_of heads). hp_tip_hash h \<in> hashes P ops) \<and> q = [] \<and> regs = []"
  by (auto simp: reconcile_records_eq Let_def tails_Nil missing_of_def leaf_mismatch_def filter_empty_conv split: if_splits)

lemma no_regressions:
  assumes "marks_ok ms" and "inj_on hp_author_key (set heads)"
    and "cm_regressions (fst (compare_then_advance P ms heads)) = []" and "Mapping.lookup ms k = Some m"
  shows "\<exists>h\<in>set heads. hp_author_key h = k \<and> is_at_or_above h m"
proof (rule ccontr)
  assume none: "\<not> ?thesis"
  have "\<exists>r. r \<in> set (cm_regressions (fst (compare_then_advance P ms heads)))"
  proof (cases "k \<in> hp_author_key ` set heads")
    case True
    then obtain h where "h \<in> set heads" "hp_author_key h = k" by auto
    with none show ?thesis unfolding in_regressions [OF assms(1,2)] using assms(4) by blast
  next
    case False
    then show ?thesis unfolding in_regressions [OF assms(1,2)] using assms(4) by blast
  qed
  with assms(3) show False by simp
qed

subsection \<open>The chain pass\<close>

definition chain_mismatches :: "chain_root_reader \<Rightarrow> anchor_record \<Rightarrow> root_mismatch list" where
  "chain_mismatches reader r =
     (case rc_reference (ar_receipt r) of
        Local _ \<Rightarrow> []
      | OnChain b x \<Rightarrow>
          (case reader b x of
             Inl e \<Rightarrow> [ChainUnverifiable (ar_author_key r) (ar_seq r) e]
           | Inr a \<Rightarrow>
               (if ae_signer a \<noteq> ar_author_key r then [ChainSignerMismatch (ar_author_key r) (ar_seq r) (ae_signer a)] else []) @
               (if ae_root a \<noteq> ar_root r then [ChainDisagreement (ar_author_key r) (ar_seq r) (ar_root r) (ae_root a)] else [])))"

definition on_chain_readable :: "chain_root_reader \<Rightarrow> anchor_record \<Rightarrow> bool" where
  "on_chain_readable reader r =
     (case rc_reference (ar_receipt r) of Local _ \<Rightarrow> False | OnChain b x \<Rightarrow> \<not> isl (reader b x))"

lemma verify_record_eq:
  "verify_record reader (m, n) r = (m @ chain_mismatches reader r, n + (if on_chain_readable reader r then 1 else 0))"
  by (auto simp: verify_record_def chain_mismatches_def on_chain_readable_def Let_def split: anchor_ref.splits sum.splits)

lemma verify_fold:
  "foldl (verify_record reader) (m, n) rs =
     (m @ concat (map (chain_mismatches reader) rs), n + length (filter (on_chain_readable reader) rs))"
  by (induction rs arbitrary: m n) (simp_all add: verify_record_eq)

lemma chain_mismatches_Nil:
  "chain_mismatches reader r = [] \<longleftrightarrow>
     (\<forall>b x. rc_reference (ar_receipt r) = OnChain b x \<longrightarrow>
        (\<exists>a. reader b x = Inr a \<and> ae_root a = ar_root r \<and> ae_signer a = ar_author_key r))"
  by (auto simp: chain_mismatches_def split: anchor_ref.splits sum.splits)

subsection \<open>A concrete audit\<close>

text \<open>One author: a root op, a head naming it, and one signed anchor record of another team's or this team's batch.\<close>

definition demo_ops_view :: blob_view where
  "demo_ops_view = \<lparr>bv_list = \<lambda>_. Inr [''a''], bv_get = \<lambda>_. Inr [1, 1, 0], bv_order = id\<rparr>"

definition demo_one_head_view :: blob_view where
  "demo_one_head_view = \<lparr>bv_list = \<lambda>_. Inr [head_key ''t'' (replicate 32 1)], bv_get = \<lambda>_. Inr [1, 1], bv_order = id\<rparr>"

definition demo_one_anchor_view :: "byte \<Rightarrow> blob_view" where
  "demo_one_anchor_view n = \<lparr>bv_list = \<lambda>_. Inr [''t/_anchors/a''], bv_get = \<lambda>_. Inr [1, n], bv_order = id\<rparr>"

definition demo_codecs :: "string \<Rightarrow> codecs" where
  "demo_codecs tm = \<lparr>dec_op = demo_dec, dec_head = demo_head_dec, dec_anchor = demo_anchor_dec tm, dec_marks = wm_dec, enc_marks = wm_enc\<rparr>"

lemma demo_views_fair: "fair demo_ops_view" "fair demo_one_head_view" "fair (demo_one_anchor_view n)"
  by (simp_all add: fair_def demo_ops_view_def demo_one_head_view_def demo_one_anchor_view_def)

lemma demo_ops_read:
  "\<exists>c. read_verified demo_prims demo_dec demo_ops_view ''t'' Mapping.empty =
     Some (Inr (VerifiedOps [demo_op 1 1 (replicate 32 0)], []), c)"
proof -
  let ?x = "demo_op 1 1 (replicate 32 0)"
  have l: "bv_list demo_ops_view (oplog_prefix ''t'') = Inr [''a'']" by (simp add: demo_ops_view_def)
  have s: "served demo_prims demo_dec demo_ops_view ''t'' Mapping.empty [''a''] = {?x}"
    by (auto simp: served_def lookup_empty demo_ops_view_def demo_dec_def)
  have h: "hash_ok demo_prims (served demo_prims demo_dec demo_ops_view ''t'' Mapping.empty [''a''])"
    by (simp add: s hash_ok_def genesis_simps)
  note r = read_ops_facts [OF demo_views_fair(1) h]
  let ?ops = "read_ops demo_prims demo_dec demo_ops_view ''t'' Mapping.empty [''a'']"
  have ops: "?ops = [?x]"
  proof -
    have "length ?ops = card {?x}" using distinct_card [OF r(3)] r(1) s by simp
    then obtain y where "?ops = [y]" by (auto simp: length_Suc_conv)
    with r(1) s show ?thesis by simp
  qed
  have chains: "\<forall>k. \<exists>q. linked demo_prims (set ?ops) GENESIS_PREV q \<and> set q = set (ops_by ?ops k)"
  proof
    fix k
    show "\<exists>q. linked demo_prims (set ?ops) GENESIS_PREV q \<and> set q = set (ops_by ?ops k)"
      unfolding ops by (intro exI [of _ "if k = replicate 32 1 then [?x] else []"]) (auto simp: genesis_simps)
  qed
  have "failed_gets demo_ops_view Mapping.empty [''a''] = []" by (simp add: failed_gets_def demo_ops_view_def)
  then show ?thesis
    unfolding read_verified_ops [OF demo_views_fair(1) l h] whole_chains_survive [OF r(2,3) chains]
    by (simp add: systemic_outage_def collateral_def ops)
qed

lemma demo_head_read:
  "\<exists>v. read_heads demo_prims demo_head_dec demo_one_head_view ''t'' = Inr v \<and> set (heads_of v) = {demo_head 1 1}"
proof -
  have l: "bv_list demo_one_head_view (heads_prefix ''t'') = Inr [head_key ''t'' (replicate 32 1)]" by (simp add: demo_one_head_view_def)
  obtain v where v: "read_heads demo_prims demo_head_dec demo_one_head_view ''t'' = Inr v"
    using read_heads_total [OF demo_views_fair(2) l, of demo_prims demo_head_dec] by (auto simp: demo_one_head_view_def)
  have "genuine_head demo_prims demo_head_dec demo_one_head_view ''t'' [head_key ''t'' (replicate 32 1)] h \<longleftrightarrow> h = demo_head 1 1" for h
    using demo_head_ok [of 1 1] by (auto simp: genuine_head_def demo_one_head_view_def demo_head_dec_def) (simp_all add: demo_head_def)
  with v read_heads_Inr(1) [OF demo_views_fair(2) l v] show ?thesis by auto
qed

lemma demo_anchors_read:
  "\<exists>rd. read_anchor_records_with_policy demo_prims (demo_anchor_dec tm) (demo_one_anchor_view n) ''t'' policy = Inr rd \<and>
     set (rr_records rd) = {demo_anchor tm 1 n (Some (replicate 64 1))}"
proof -
  have l: "bv_list (demo_one_anchor_view n) (anchors_prefix ''t'') = Inr [''t/_anchors/a'']" by (simp add: demo_one_anchor_view_def)
  obtain rd where rd: "read_anchor_records_with_policy demo_prims (demo_anchor_dec tm) (demo_one_anchor_view n) ''t'' policy = Inr rd"
    using read_anchors_total [OF demo_views_fair(3) l, of demo_prims "demo_anchor_dec tm" policy] by (auto simp: demo_one_anchor_view_def)
  have at: "anchored_at (demo_anchor_dec tm) (demo_one_anchor_view n) ''t/_anchors/a'' r \<longleftrightarrow> r = demo_anchor tm 1 n (Some (replicate 64 1))" for r
    by (auto simp: anchored_at_def demo_one_anchor_view_def demo_anchor_dec_def demo_anchor_def)
  have "set (rr_records rd) = {demo_anchor tm 1 n (Some (replicate 64 1))}"
    using demo_anchor_state(1) [of 1 tm n] unfolding read_anchors_Inr(1) [OF demo_views_fair(3) l rd] by (auto simp: at)
  with rd show ?thesis by blast
qed

lemma demo_root: "merkle_root demo_prims [replicate 32 n] = replicate 32 n"
  by (simp add: merkle_root_top hash_leaf_def demo_prims_def demo_digest_def)

text \<open>The outcome of the audit of these objects on a machine that marked the head.\<close>

lemma demo_audit:
  "\<exists>rp rest. reconcile_with_watermarks demo_prims (demo_codecs tm) (demo_one_anchor_view n) demo_one_head_view demo_ops_view ''t''
       Mapping.empty (Some (Mapping.empty, Mapping.empty)) quiet_env (''d'', ''f'') policy = Some (Inr rp, rest) \<and>
     (rp_ok rp \<longleftrightarrow> n = 1) \<and> (n \<noteq> 1 \<longrightarrow> rp_missing_ops rp \<noteq> [])"
proof -
  obtain c where ops: "read_verified demo_prims demo_dec demo_ops_view ''t'' Mapping.empty =
     Some (Inr (VerifiedOps [demo_op 1 1 (replicate 32 0)], []), c)" using demo_ops_read by blast
  obtain v where v: "read_heads demo_prims demo_head_dec demo_one_head_view ''t'' = Inr v" "set (heads_of v) = {demo_head 1 1}"
    using demo_head_read by blast
  obtain rd where rd: "read_anchor_records_with_policy demo_prims (demo_anchor_dec tm) (demo_one_anchor_view n) ''t'' policy = Inr rd"
      "set (rr_records rd) = {demo_anchor tm 1 n (Some (replicate 64 1))}" using demo_anchors_read by blast
  obtain ms' d' where ob: "observe_heads demo_prims wm_dec wm_enc read_file wm_write quiet_env (''d'', ''f'') Mapping.empty Mapping.empty v = ([], ms', d')"
  proof -
    have "cm_regressions (fst (compare_then_advance demo_prims Mapping.empty (heads_of v))) = []"
      by (simp add: compare_then_advance_def Let_def btree_values_def Mapping.ordered_keys_def List.map_filter_simps split: prod.splits)
    then show ?thesis using that
      by (cases "compare_then_advance demo_prims Mapping.empty (heads_of v)") (simp add: observe_heads_def Let_def)
  qed
  let ?rp = "reconcile_records demo_prims (rr_records rd) [demo_op 1 1 (replicate 32 0)] v [] [] (rr_unsigned_records rd) (rr_skipped_malformed rd)"
  have "reconcile_with_watermarks demo_prims (demo_codecs tm) (demo_one_anchor_view n) demo_one_head_view demo_ops_view ''t''
       Mapping.empty (Some (Mapping.empty, Mapping.empty)) quiet_env (''d'', ''f'') policy = Some (Inr ?rp, c, Some (ms', d'))"
    by (simp add: reconcile_with_watermarks_def reconcile_reads_def demo_codecs_def rd(1) v(1) ob ops)
  moreover have "rp_ok ?rp \<longleftrightarrow> n = 1"
    unfolding report_ok_iff using rd(2) v(2) by (simp add: demo_anchor_def demo_root) (simp add: demo_head_def)
  moreover have "rp_missing_ops ?rp \<noteq> []" if "n \<noteq> 1"
  proof -
    have "replicate 32 n \<in> set (ar_leaves (demo_anchor tm 1 n (Some (replicate 64 1))))" by (simp add: demo_anchor_def)
    moreover have "replicate 32 n \<notin> hashes demo_prims [demo_op 1 1 (replicate 32 0)]" using that by simp
    ultimately have "missing_of (hashes demo_prims [demo_op 1 1 (replicate 32 0)]) (demo_anchor tm 1 n (Some (replicate 64 1))) \<noteq> []"
      by (rule missing_ofI)
    moreover have "demo_anchor tm 1 n (Some (replicate 64 1)) \<in> set (rr_records rd)" using rd(2) by simp
    ultimately show ?thesis by (auto simp: reconcile_records_eq Let_def)
  qed
  ultimately show ?thesis by blast
qed

section \<open>Properties\<close>



text \<open>C17. What a clean report means, end to end: on a machine whose marks are well formed, if the audit of a bucket
  ends with \<open>ok\<close>, then every structurally sound record the policy admits has the Merkle root of its leaves and
  each leaf is the hash of an op the verified read returned, every genuine head names such an op, no op was
  quarantined, and every head this machine ever marked is still served or was overtaken.\<close>

theorem clean_audit_means:
  assumes "fair bvA" and "fair bvH" and "bv_list bvA (anchors_prefix tm) = Inr keysA"
    and "bv_list bvH (heads_prefix tm) = Inr keysH" and "marks_ok ms"
    and "reconcile_with_watermarks P C bvA bvH bvO tm cache (Some (ms, d)) env p policy = Some (Inr rp, rest)" and "rp_ok rp"
  shows "\<exists>ops cache'. read_verified P (dec_op C) bvO tm cache = Some (Inr (VerifiedOps ops, []), cache') \<and>
    (\<forall>k\<in>set keysA. \<forall>r. anchored_at (dec_anchor C) bvA k r \<and>
        (signature_state P r = Valid \<or> signature_state P r = Unsigned \<and> policy = Accept) \<longrightarrow>
        merkle_root P (ar_leaves r) = ar_root r \<and> set (ar_leaves r) \<subseteq> hashes P ops) \<and>
    (\<forall>h. genuine_head P (dec_head C) bvH tm keysH h \<longrightarrow> hp_tip_hash h \<in> hashes P ops) \<and>
    (\<forall>k m. Mapping.lookup ms k = Some m \<longrightarrow>
        (\<exists>h. genuine_head P (dec_head C) bvH tm keysH h \<and> hp_author_key h = k \<and> is_at_or_above h m))"
proof -
  obtain rd where rd: "read_anchor_records_with_policy P (dec_anchor C) bvA tm policy = Inr rd"
    using assms(6) by (cases "read_anchor_records_with_policy P (dec_anchor C) bvA tm policy")
      (auto simp: reconcile_with_watermarks_def reconcile_reads_def)
  obtain heads where hd: "read_heads P (dec_head C) bvH tm = Inr heads"
    using assms(6) by (cases "read_heads P (dec_head C) bvH tm") (auto simp: rd reconcile_with_watermarks_def reconcile_reads_def)
  obtain rs ms' d' where ob: "observe_heads P (dec_marks C) (enc_marks C) read_file wm_write env p ms d heads = (rs, ms', d')"
    using prod_cases3 by blast
  then have regs: "rs = cm_regressions (fst (compare_then_advance P ms (heads_of heads)))"
    by (auto simp: observe_heads_def Let_def split: prod.splits)
  obtain v q cache' where ops: "read_verified P (dec_op C) bvO tm cache = Some (Inr (v, q), cache')"
    and rp: "rp = reconcile_records P (rr_records rd) (ops_of v) heads q rs (rr_unsigned_records rd) (rr_skipped_malformed rd)"
  proof (cases "read_verified P (dec_op C) bvO tm cache")
    case None
    with assms(6) show ?thesis by (simp add: reconcile_with_watermarks_def reconcile_reads_def rd hd ob)
  next
    case (Some y)
    obtain r c where y: "y = (r, c)" by (cases y)
    show ?thesis
    proof (cases r)
      case (Inl e)
      with assms(6) Some y show ?thesis by (simp add: reconcile_with_watermarks_def reconcile_reads_def rd hd ob)
    next
      case (Inr vq)
      with assms(6) Some y that [of "fst vq" "snd vq" c] show ?thesis
        by (cases vq) (simp add: reconcile_with_watermarks_def reconcile_reads_def rd hd ob)
    qed
  qed
  note ok = assms(7) [unfolded rp report_ok_iff]
  note A = read_anchors_Inr(1) [OF assms(1,3) rd] and H = read_heads_Inr(1) [OF assms(2,4) hd]
  have inj: "inj_on hp_author_key (set (heads_of heads))" unfolding H using genuine_head_unique by (auto simp: inj_on_def)
  have "\<exists>h. genuine_head P (dec_head C) bvH tm keysH h \<and> hp_author_key h = k \<and> is_at_or_above h m"
    if "Mapping.lookup ms k = Some m" for k m
    using no_regressions [OF assms(5) inj _ that, of P] ok regs H by auto
  moreover have "v = VerifiedOps (ops_of v)" by simp
  ultimately show ?thesis using ops ok A H by (intro exI [of _ "ops_of v"] exI [of _ cache']) auto
qed

theorem clean_audit_means_witness:
  "\<exists>ops. replicate 32 1 \<in> hashes demo_prims ops \<and>
     reconcile_with_watermarks demo_prims (demo_codecs ''t'') (demo_one_anchor_view 1) demo_one_head_view demo_ops_view ''t''
       Mapping.empty (Some (Mapping.empty, Mapping.empty)) quiet_env (''d'', ''f'') Reject \<noteq> None"
proof -
  obtain rp rest where run: "reconcile_with_watermarks demo_prims (demo_codecs ''t'') (demo_one_anchor_view 1) demo_one_head_view demo_ops_view ''t''
       Mapping.empty (Some (Mapping.empty, Mapping.empty)) quiet_env (''d'', ''f'') Reject = Some (Inr rp, rest)" and ok: "rp_ok rp"
    using demo_audit [of "''t''" 1 Reject] by auto
  have l: "bv_list (demo_one_anchor_view 1) (anchors_prefix ''t'') = Inr [''t/_anchors/a'']"
    "bv_list demo_one_head_view (heads_prefix ''t'') = Inr [head_key ''t'' (replicate 32 1)]"
    by (simp_all add: demo_one_anchor_view_def demo_one_head_view_def)
  obtain ops where "\<forall>h. genuine_head demo_prims (dec_head (demo_codecs ''t'')) demo_one_head_view ''t'' [head_key ''t'' (replicate 32 1)] h \<longrightarrow>
      hp_tip_hash h \<in> hashes demo_prims ops"
    using clean_audit_means [OF demo_views_fair(3,2) l marks_ok_empty run ok] by blast
  moreover have "genuine_head demo_prims (dec_head (demo_codecs ''t'')) demo_one_head_view ''t'' [head_key ''t'' (replicate 32 1)] (demo_head 1 1)"
    using demo_head_ok [of 1 1] by (simp add: genuine_head_def demo_codecs_def demo_one_head_view_def demo_head_dec_def) (simp add: demo_head_def)
  ultimately have "hp_tip_hash (demo_head 1 1) \<in> hashes demo_prims ops" by blast
  then have "replicate 32 1 \<in> hashes demo_prims ops" by (simp add: demo_head_def)
  with run show ?thesis by blast
qed

text \<open>What honest writers put, in order: an op, and a head only after the op it names.\<close>

datatype bucket_write = Appended op | HeadPut head_pointer

fun honest_writes :: "prims \<Rightarrow> blake3_hash set \<Rightarrow> bucket_write list \<Rightarrow> bool" where
  "honest_writes P seen [] = True"
| "honest_writes P seen (Appended x # ws) = honest_writes P (insert (op_hash P x) seen) ws"
| "honest_writes P seen (HeadPut h # ws) = (hp_tip_hash h \<in> seen \<and> honest_writes P seen ws)"

lemma honest_head_seen:
  "honest_writes P seen ws \<Longrightarrow> HeadPut h \<in> set (take s ws) \<Longrightarrow> s \<le> t \<Longrightarrow>
     hp_tip_hash h \<in> seen \<or> (\<exists>x. Appended x \<in> set (take t ws) \<and> hp_tip_hash h = op_hash P x)"
proof (induction P seen ws arbitrary: s t rule: honest_writes.induct)
  case (2 P seen x ws)
  then obtain s' t' where "s = Suc s'" "t = Suc t'" by (cases s; cases t) auto
  with 2 show ?case by fastforce
next
  case (3 P seen h' ws)
  then obtain s' t' where "s = Suc s'" "t = Suc t'" by (cases s; cases t) auto
  with 3 show ?case by fastforce
qed simp

text \<open>Reading the heads before the ops never accuses an honest writer: when every head was put after the op it
  names was appended, heads as of any time and all the ops as of the same or a later time give no suppressed
  tail, however many writes fall between the two reads.\<close>

theorem heads_before_ops:
  assumes "honest_writes P {} ws" and "s \<le> t" and "set hs \<subseteq> {h. HeadPut h \<in> set (take s ws)}"
    and "{x. Appended x \<in> set (take t ws)} \<subseteq> set ops"
  shows "find_suppressed_tails P (VerifiedHeads hs) ops = []"
  unfolding tails_Nil using honest_head_seen [OF assms(1) _ assms(2)] assms(3,4) by fastforce

theorem heads_before_ops_witness:
  "find_suppressed_tails demo_prims (VerifiedHeads [demo_head 1 1]) [demo_op 1 1 blake3_zero, demo_op 1 2 (replicate 32 1)] = []"
proof (rule heads_before_ops [where s = 2 and t = 4])
  let ?ws = "[Appended (demo_op 1 1 blake3_zero), HeadPut (demo_head 1 1), Appended (demo_op 1 2 (replicate 32 1)), HeadPut (demo_head 1 2)]"
  show "honest_writes demo_prims {} ?ws" by (simp add: genesis_simps) (simp add: demo_head_def)
  show "set [demo_head 1 1] \<subseteq> {h. HeadPut h \<in> set (take 2 ?ws)}" by (simp add: numeral_eq_Suc)
  show "{x. Appended x \<in> set (take 4 ?ws)} \<subseteq> set [demo_op 1 1 blake3_zero, demo_op 1 2 (replicate 32 1)]" by auto
qed simp

text \<open>The other order accuses: one honest write between an ops read and a later heads read.\<close>

lemma ops_first_accuses:
  "honest_writes demo_prims {} [Appended (demo_op 1 1 blake3_zero), HeadPut (demo_head 1 1)] \<and>
   find_suppressed_tails demo_prims (VerifiedHeads [demo_head 1 1]) [] \<noteq> []"
proof
  show "honest_writes demo_prims {} [Appended (demo_op 1 1 blake3_zero), HeadPut (demo_head 1 1)]"
    by (simp add: genesis_simps) (simp add: demo_head_def)
  show "find_suppressed_tails demo_prims (VerifiedHeads [demo_head 1 1]) [] \<noteq> []" by (simp add: tails_Nil)
qed

lemma on_chain_readable_iff:
  "on_chain_readable reader r \<longleftrightarrow> (\<exists>b x. rc_reference (ar_receipt r) = OnChain b x \<and> \<not> isl (reader b x))"
  by (cases "rc_reference (ar_receipt r)") (simp_all add: on_chain_readable_def)

text \<open>The chain pass keeps every finding of the first pass and adds one for each on-chain record that cannot be
  read back, names another signer or another root: \<open>ok\<close> stands exactly if it stood before and every record
  with a chain reference was confirmed, and the report is labelled chain-verified exactly if at least one
  reference could be read back.\<close>

theorem chain_pass_exact:
  assumes "rp_ok rp \<longleftrightarrow> rp_missing_ops rp = [] \<and> rp_root_mismatches rp = [] \<and> rp_quarantined_authors rp = [] \<and>
      rp_suppressed_tails rp = [] \<and> rp_head_regressions rp = []" and "rp_verification rp = BucketOnly"
  shows "(rp_ok (verify_on_chain_roots rs rp reader) \<longleftrightarrow> rp_ok rp \<and>
       (\<forall>r\<in>set rs. \<forall>b x. rc_reference (ar_receipt r) = OnChain b x \<longrightarrow>
          (\<exists>a. reader b x = Inr a \<and> ae_root a = ar_root r \<and> ae_signer a = ar_author_key r))) \<and>
    (rp_verification (verify_on_chain_roots rs rp reader) = ChainVerified \<longleftrightarrow>
       (\<exists>r\<in>set rs. \<exists>b x. rc_reference (ar_receipt r) = OnChain b x \<and> \<not> isl (reader b x))) \<and>
    set (rp_root_mismatches rp) \<subseteq> set (rp_root_mismatches (verify_on_chain_roots rs rp reader))"
proof -
  have "concat (map (chain_mismatches reader) rs) = [] \<longleftrightarrow> (\<forall>r\<in>set rs. \<forall>b x. rc_reference (ar_receipt r) = OnChain b x \<longrightarrow>
          (\<exists>a. reader b x = Inr a \<and> ae_root a = ar_root r \<and> ae_signer a = ar_author_key r))"
    unfolding concat_eq_Nil_conv by (auto simp: chain_mismatches_Nil)
  moreover have "0 < length (filter (on_chain_readable reader) rs) \<longleftrightarrow>
      (\<exists>r\<in>set rs. \<exists>b x. rc_reference (ar_receipt r) = OnChain b x \<and> \<not> isl (reader b x))"
    by (auto simp: filter_empty_conv on_chain_readable_iff)
  ultimately show ?thesis using assms by (auto simp: verify_on_chain_roots_def verify_fold Let_def)
qed

text \<open>An unreadable reference is an entry of the report, not an error of the audit.\<close>

definition demo_chain_record :: anchor_record where
  "demo_chain_record = (demo_anchor ''t'' 1 1 None)
     \<lparr>ar_receipt := \<lparr>rc_root = replicate 32 1, rc_reference = OnChain ''0x1'' ''0x2''\<rparr>\<rparr>"

theorem chain_pass_exact_witness:
  "\<not> rp_ok (verify_on_chain_roots [demo_chain_record]
       (reconcile_records demo_prims [] [] (VerifiedHeads []) [] [] 0 0) (\<lambda>b x. Inl (Storage ''no such block'')))"
proof -
  let ?rp = "reconcile_records demo_prims [] [] (VerifiedHeads []) [] [] 0 0"
  have "rp_ok ?rp \<longleftrightarrow> rp_missing_ops ?rp = [] \<and> rp_root_mismatches ?rp = [] \<and> rp_quarantined_authors ?rp = [] \<and>
      rp_suppressed_tails ?rp = [] \<and> rp_head_regressions ?rp = []" and "rp_verification ?rp = BucketOnly"
    by (simp_all add: reconcile_records_eq Let_def)
  from chain_pass_exact [OF this, of "[demo_chain_record]" "\<lambda>b x. Inl (Storage ''no such block'')"] show ?thesis
    by (simp add: demo_chain_record_def)
qed

text \<open>Neither the key nor the team of an anchor record is checked: a record of another team, validly signed by an
  author of this one and copied under this team's prefix by the bucket, is read even when unsigned records are
  rejected, and the audit reports its op as missing and fails.\<close>

theorem foreign_anchor_accuses:
  "signature_state demo_prims (demo_anchor ''other'' 1 9 (Some (replicate 64 1))) = Valid \<and>
   bm_team (ar_meta (demo_anchor ''other'' 1 9 (Some (replicate 64 1)))) \<noteq> ''t'' \<and>
   (\<exists>rp rest. reconcile_with_watermarks demo_prims (demo_codecs ''other'') (demo_one_anchor_view 9) demo_one_head_view demo_ops_view ''t''
       Mapping.empty (Some (Mapping.empty, Mapping.empty)) quiet_env (''d'', ''f'') Reject = Some (Inr rp, rest) \<and>
     \<not> rp_ok rp \<and> rp_missing_ops rp \<noteq> [])"
proof (intro conjI)
  show "signature_state demo_prims (demo_anchor ''other'' 1 9 (Some (replicate 64 1))) = Valid" by (rule demo_anchor_state) simp
  show "bm_team (ar_meta (demo_anchor ''other'' 1 9 (Some (replicate 64 1)))) \<noteq> ''t''" by (simp add: demo_anchor_def)
  show "\<exists>rp rest. reconcile_with_watermarks demo_prims (demo_codecs ''other'') (demo_one_anchor_view 9) demo_one_head_view demo_ops_view ''t''
       Mapping.empty (Some (Mapping.empty, Mapping.empty)) quiet_env (''d'', ''f'') Reject = Some (Inr rp, rest) \<and>
     \<not> rp_ok rp \<and> rp_missing_ops rp \<noteq> []"
    using demo_audit [of "''other''" 9 Reject] by auto
qed

end
