(* ===== verification/Manifest.thy ===== *)
theory Manifest
  imports Anchor Watermark "HOL-Library.FSet"
begin

text \<open>
  Team membership (\<^verbatim>\<open>identity/manifest.rs\<close>, \<^verbatim>\<open>identity/marker.rs\<close> and the membership part of
  \<^verbatim>\<open>store/mod.rs\<close>): the founder-signed manifest, its chain-of-custody election from an untrusted bucket, the
  refusal to go back to an older one within a process and, through a local file, across restarts, and the
  founder's publishing operations. The JSON codec is a parameter.
\<close>

section \<open>Definitions\<close>

definition MANIFEST_DOMAIN :: bytes where
  "MANIFEST_DOMAIN = as_bytes ''hippius-memory-manifest/v1''"

definition MANIFEST_DOMAIN_V2 :: bytes where
  "MANIFEST_DOMAIN_V2 = as_bytes ''hippius-memory-manifest/v2''"

record team_manifest =
  tm_team :: string
  tm_members :: "ss58 fset"
  tm_version :: u64
  tm_founder :: ss58
  tm_founder_key :: verifying_key
  tm_recovery_key :: "verifying_key option"
  tm_sig :: signature

definition manifest_signing_bytes :: "team_manifest \<Rightarrow> bytes" where
  "manifest_signing_bytes m =
     (let buf = (case tm_recovery_key m of None \<Rightarrow> MANIFEST_DOMAIN | Some _ \<Rightarrow> MANIFEST_DOMAIN_V2);
          buf = push_framed buf (as_bytes (tm_team m));
          buf = buf @ u64_le_bytes (u64_of_len (fcard (tm_members m)));
          buf = foldl (\<lambda>b member. push_framed b (as_bytes member)) buf (sorted_list_of_fset (tm_members m));
          buf = buf @ u64_le_bytes (tm_version m);
          buf = push_framed buf (as_bytes (tm_founder m));
          buf = buf @ tm_founder_key m;
          buf = (case tm_recovery_key m of None \<Rightarrow> buf | Some recovery_key \<Rightarrow> buf @ recovery_key)
      in buf)"

definition manifest_create_signed_with_recovery ::
    "signer \<Rightarrow> string \<Rightarrow> ss58 fset \<Rightarrow> u64 \<Rightarrow> verifying_key option \<Rightarrow> team_manifest" where
  "manifest_create_signed_with_recovery sg team members version recovery_key =
     (let manifest = \<lparr>tm_team = team, tm_members = finsert (signer_author_ss58 sg) members, tm_version = version,
                      tm_founder = signer_author_ss58 sg, tm_founder_key = signer_verifying_key sg,
                      tm_recovery_key = recovery_key, tm_sig = replicate 64 0\<rparr>
      in manifest\<lparr>tm_sig := signer_sign sg (manifest_signing_bytes manifest)\<rparr>)"

definition manifest_create_signed :: "signer \<Rightarrow> string \<Rightarrow> ss58 fset \<Rightarrow> u64 \<Rightarrow> team_manifest" where
  "manifest_create_signed sg team members version = manifest_create_signed_with_recovery sg team members version None"

definition trusted_recovery_key :: "team_manifest \<Rightarrow> verifying_key option" where
  "trusted_recovery_key m =
     (case tm_recovery_key m of None \<Rightarrow> None | Some key \<Rightarrow> if is_identity_point key then None else Some key)"

definition authorizes_provisioner :: "team_manifest \<Rightarrow> verifying_key \<Rightarrow> bool" where
  "authorizes_provisioner m key \<longleftrightarrow> key = tm_founder_key m \<or> trusted_recovery_key m = Some key"

definition manifest_verify :: "prims \<Rightarrow> team_manifest \<Rightarrow> bool" where
  "manifest_verify P m \<longleftrightarrow>
     verify P (tm_founder_key m) (manifest_signing_bytes m) (tm_sig m) \<and>
     address_names_key P (tm_founder m) (tm_founder_key m)"

definition manifest_key :: "string \<Rightarrow> u64 \<Rightarrow> string" where
  "manifest_key team version = team @ ''/_manifest/'' @ pad20 (unat version)"

definition manifest_prefix :: "string \<Rightarrow> string" where
  "manifest_prefix team = team @ ''/_manifest/''"

definition publish_manifest ::
    "prims \<Rightarrow> (team_manifest \<Rightarrow> bytes) \<Rightarrow> ('s \<Rightarrow> string \<Rightarrow> bytes \<Rightarrow> mem_error + 's) \<Rightarrow> 's \<Rightarrow> team_manifest \<Rightarrow> mem_error + 's" where
  "publish_manifest P enc put s m =
     (if \<not> manifest_verify P m then Inl (Unauthorized ''refusing to publish an unverifiable manifest'')
      else put s (manifest_key (tm_team m) (tm_version m)) (enc m))"

subsection \<open>Loading and election\<close>

definition content_rank :: "prims \<Rightarrow> team_manifest \<Rightarrow> blake3_hash" where
  "content_rank P m = content_hash P (manifest_signing_bytes m)"

text \<open>\<^verbatim>\<open>Iterator::min_by_key\<close> returns the first of several minimal elements.\<close>

fun min_by_key :: "('a \<Rightarrow> 'k::linorder) \<Rightarrow> 'a list \<Rightarrow> 'a option" where
  "min_by_key f [] = None"
| "min_by_key f (x # xs) = Some (foldl (\<lambda>a b. if f b < f a then b else a) x xs)"

text \<open>\<^verbatim>\<open>slice::chunk_by\<close>\<close>

fun chunk_by :: "('a \<Rightarrow> 'a \<Rightarrow> bool) \<Rightarrow> 'a list \<Rightarrow> 'a list list" where
  "chunk_by R [] = []"
| "chunk_by R [x] = [[x]]"
| "chunk_by R (x # y # ys) =
     (if R x y then (case chunk_by R (y # ys) of [] \<Rightarrow> [[x]] | g # gs \<Rightarrow> (x # g) # gs)
      else [x] # chunk_by R (y # ys))"

text \<open>What one listed object contributes: the arms of the match, in order.\<close>

definition manifest_at :: "prims \<Rightarrow> (bytes \<Rightarrow> team_manifest option) \<Rightarrow> blob_view \<Rightarrow> string \<Rightarrow> string \<Rightarrow> team_manifest option" where
  "manifest_at P dec bv team key =
     (case bv_get bv key of
        Inl _ \<Rightarrow> None
      | Inr bs \<Rightarrow>
          (case dec bs of
             None \<Rightarrow> None
           | Some m \<Rightarrow>
               if is_identity_point (tm_founder_key m) then None
               else if key \<noteq> manifest_key team (tm_version m) then None
               else if manifest_verify P m \<and> tm_team m = team then Some m
               else None))"

datatype authority = Founder | Recovery

definition authority_of :: "team_manifest \<Rightarrow> team_manifest \<Rightarrow> authority option" where
  "authority_of live candidate =
     (if is_identity_point (tm_founder_key candidate) then None
      else if tm_founder_key candidate = tm_founder_key live then Some Founder
      else if trusted_recovery_key live = Some (tm_founder_key candidate) then Some Recovery
      else None)"

definition elect_from_group :: "prims \<Rightarrow> team_manifest \<Rightarrow> team_manifest list \<Rightarrow> team_manifest option" where
  "elect_from_group P live grp =
     (let lowest_ranked = (\<lambda>wanted. min_by_key (content_rank P) (filter (\<lambda>c. authority_of live c = Some wanted) grp))
      in case lowest_ranked Founder of Some m \<Rightarrow> Some m | None \<Rightarrow> lowest_ranked Recovery)"

definition can_anchor :: "ss58 \<Rightarrow> team_manifest \<Rightarrow> bool" where
  "can_anchor anchor_founder m \<longleftrightarrow> tm_founder m = anchor_founder \<and> \<not> is_identity_point (tm_founder_key m)"

definition elect_anchor :: "prims \<Rightarrow> ss58 \<Rightarrow> team_manifest list \<Rightarrow> team_manifest option" where
  "elect_anchor P anchor_founder grp = min_by_key (content_rank P) (filter (can_anchor anchor_founder) grp)"

text \<open>The first group with an anchor, and the groups after it.\<close>

fun find_anchor :: "prims \<Rightarrow> ss58 \<Rightarrow> team_manifest list list \<Rightarrow> (team_manifest \<times> team_manifest list list) option" where
  "find_anchor P f [] = None"
| "find_anchor P f (g # gs) =
     (case elect_anchor P f g of Some m \<Rightarrow> Some (m, gs) | None \<Rightarrow> find_anchor P f gs)"

definition walk_step :: "prims \<Rightarrow> team_manifest \<Rightarrow> team_manifest list \<Rightarrow> team_manifest" where
  "walk_step P live grp = (case elect_from_group P live grp of Some next \<Rightarrow> next | None \<Rightarrow> live)"

definition elect_live :: "prims \<Rightarrow> team_manifest list \<Rightarrow> ss58 \<Rightarrow> team_manifest option" where
  "elect_live P valid anchor_founder =
     (let groups = chunk_by (\<lambda>a b. tm_version a = tm_version b) (sort_key (\<lambda>m. (tm_version m, content_rank P m)) valid)
      in case find_anchor P anchor_founder groups of
           None \<Rightarrow> None
         | Some (m, rest) \<Rightarrow> Some (foldl (walk_step P) m rest))"

definition load_manifest ::
    "prims \<Rightarrow> (bytes \<Rightarrow> team_manifest option) \<Rightarrow> blob_view \<Rightarrow> string \<Rightarrow> ss58 option \<Rightarrow> mem_error + team_manifest option" where
  "load_manifest P dec bv team expected_founder =
     r_bind (bv_list bv (manifest_prefix team)) (\<lambda>keys.
       let valid = List.map_filter (manifest_at P dec bv team) keys in
       case expected_founder of
         Some pinned \<Rightarrow> Inr (elect_live P valid pinned)
       | None \<Rightarrow>
           (case min_by_key (\<lambda>m. (tm_version m, content_rank P m)) valid of
              None \<Rightarrow> Inr None
            | Some genesis \<Rightarrow> Inr (elect_live P valid (tm_founder genesis))))"

definition filter_by_manifest :: "verified_ops \<Rightarrow> team_manifest option \<Rightarrow> verified_ops" where
  "filter_by_manifest ops manifest =
     (case manifest of Some m \<Rightarrow> vo_filter ops (\<lambda>x. op_author x |\<in>| tm_members m) | None \<Rightarrow> ops)"

subsection \<open>The applied manifest and its marker file\<close>

text \<open>The manifest to use, and the one applied from now on.\<close>

definition monotonic_manifest ::
    "team_manifest option \<Rightarrow> team_manifest option \<Rightarrow> team_manifest option \<times> team_manifest option" where
  "monotonic_manifest applied loaded =
     (case loaded of
        Some new \<Rightarrow>
          (case applied of
             Some current \<Rightarrow> if tm_version new < tm_version current then (Some current, applied) else (Some new, Some new)
           | None \<Rightarrow> (Some new, Some new))
      | None \<Rightarrow> (applied, applied))"

definition manifest_is_trusted :: "prims \<Rightarrow> string \<Rightarrow> team_manifest \<Rightarrow> ss58 option \<Rightarrow> bool" where
  "manifest_is_trusted P team m trusted_founder \<longleftrightarrow>
     manifest_verify P m \<and> tm_team m = team \<and> (case trusted_founder of None \<Rightarrow> True | Some f \<Rightarrow> tm_founder m = f)"

definition marker_load ::
    "(bytes \<Rightarrow> team_manifest option) \<Rightarrow> io_env \<Rightarrow> disk \<Rightarrow> path \<Rightarrow> mem_error + team_manifest option" where
  "marker_load dec e d p =
     (case read_file e d p of
        Inr bs \<Rightarrow> (case dec bs of None \<Rightarrow> Inl Serialize | Some m \<Rightarrow> Inr (Some m))
      | Inl IoNotFound \<Rightarrow> Inr None
      | Inl _ \<Rightarrow> Inl Io)"

definition marker_write :: "io_env \<Rightarrow> disk \<Rightarrow> path \<Rightarrow> bytes \<Rightarrow> (io_error + unit) \<times> disk" where
  "marker_write env d p bs =
     (let (r, states) = write_atomically env d p ''.manifest-'' ''.tmp'' bs in (r, last states))"

definition marker_store ::
    "(team_manifest \<Rightarrow> bytes) \<Rightarrow> io_env \<Rightarrow> disk \<Rightarrow> path \<Rightarrow> team_manifest \<Rightarrow> (mem_error + unit) \<times> disk" where
  "marker_store enc e d p m =
     (let (r, d') = marker_write e d p (enc m) in (case r of Inl _ \<Rightarrow> Inl Io | Inr u \<Rightarrow> Inr u, d'))"

definition load_verified_marker ::
    "prims \<Rightarrow> (bytes \<Rightarrow> team_manifest option) \<Rightarrow> string \<Rightarrow> io_env \<Rightarrow> disk \<Rightarrow> path option \<Rightarrow> ss58 option \<Rightarrow> team_manifest option" where
  "load_verified_marker P dec team e d marker trusted_founder =
     (case marker of
        None \<Rightarrow> None
      | Some p \<Rightarrow>
          (case marker_load dec e d p of
             Inr (Some m) \<Rightarrow> if manifest_is_trusted P team m trusted_founder then Some m else None
           | _ \<Rightarrow> None))"

text \<open>The result, the applied manifest and the disk afterwards; \<open>pin\<close> is the configured founder.\<close>

definition current_manifest ::
    "prims \<Rightarrow> (bytes \<Rightarrow> team_manifest option) \<Rightarrow> (team_manifest \<Rightarrow> bytes) \<Rightarrow> blob_view \<Rightarrow> string \<Rightarrow> ss58 option \<Rightarrow> path option
      \<Rightarrow> io_env \<Rightarrow> team_manifest option \<Rightarrow> disk \<Rightarrow> (mem_error + team_manifest option) \<times> team_manifest option \<times> disk" where
  "current_manifest P dec enc bv team pin marker e applied d =
     (case load_manifest P dec bv team pin of
        Inl x \<Rightarrow> (Inl x, applied, d)
      | Inr loaded \<Rightarrow>
          let trusted_founder = (case pin of Some f \<Rightarrow> Some f | None \<Rightarrow> map_option tm_founder loaded);
              from_marker = load_verified_marker P dec team e d marker trusted_founder;
              applied1 = (case from_marker of Some m \<Rightarrow> snd (monotonic_manifest applied (Some m)) | None \<Rightarrow> applied);
              (manifest, applied2) = monotonic_manifest applied1 loaded;
              d' = (case (manifest, marker) of
                      (Some m, Some p) \<Rightarrow>
                        if map_option tm_version from_marker \<noteq> Some (tm_version m) then snd (marker_store enc e d p m) else d
                    | _ \<Rightarrow> d)
          in (Inr manifest, applied2, d'))"

subsection \<open>Publishing\<close>

definition publish_membership ::
    "prims \<Rightarrow> (bytes \<Rightarrow> team_manifest option) \<Rightarrow> (team_manifest \<Rightarrow> bytes) \<Rightarrow> ('s \<Rightarrow> blob_view) \<Rightarrow> ('s \<Rightarrow> string \<Rightarrow> bytes \<Rightarrow> mem_error + 's)
      \<Rightarrow> signer \<Rightarrow> string \<Rightarrow> ss58 option \<Rightarrow> ss58 fset \<Rightarrow> 's \<Rightarrow> mem_error + 's" where
  "publish_membership P dec enc bv put sg team pin members s =
     (if (case pin of Some pinned \<Rightarrow> signer_author_ss58 sg \<noteq> pinned | None \<Rightarrow> False)
      then Inl (Unauthorized ''only the pinned team founder may change membership'')
      else r_bind (load_manifest P dec (bv s) team pin) (\<lambda>current.
           r_bind (case current of
                     Some m \<Rightarrow>
                       if tm_founder m \<noteq> signer_author_ss58 sg
                       then Inl (Unauthorized ''only the team founder may change membership'')
                       else Inr (u64_saturating_succ (tm_version m))
                   | None \<Rightarrow> Inr 0) (\<lambda>next_version.
           let recovery_key = (case current of Some m \<Rightarrow> trusted_recovery_key m | None \<Rightarrow> None) in
           publish_manifest P enc put s
             (manifest_create_signed_with_recovery sg team members next_version recovery_key))))"

definition publish_recovery_key ::
    "prims \<Rightarrow> (bytes \<Rightarrow> team_manifest option) \<Rightarrow> (team_manifest \<Rightarrow> bytes) \<Rightarrow> ('s \<Rightarrow> blob_view) \<Rightarrow> ('s \<Rightarrow> string \<Rightarrow> bytes \<Rightarrow> mem_error + 's)
      \<Rightarrow> signer \<Rightarrow> string \<Rightarrow> ss58 option \<Rightarrow> verifying_key \<Rightarrow> 's \<Rightarrow> mem_error + (team_manifest \<times> verifying_key option \<times> 's)" where
  "publish_recovery_key P dec enc bv put sg team pin recovery_key s =
     (if is_identity_point recovery_key
      then Inl (Malformed ''refusing to name the Ristretto identity point as a recovery key'')
      else r_bind (load_manifest P dec (bv s) team pin) (\<lambda>current.
           case current of
             None \<Rightarrow> Inl (ManifestUnavailable team)
           | Some live \<Rightarrow>
               if tm_founder live \<noteq> signer_author_ss58 sg
               then Inl (Unauthorized ''only the team founder may name a recovery key'')
               else let previous = trusted_recovery_key live;
                        m = manifest_create_signed_with_recovery sg team (tm_members live)
                              (u64_saturating_succ (tm_version live)) (Some recovery_key)
                    in r_bind (publish_manifest P enc put s m) (\<lambda>s'. Inr (m, previous, s'))))"

definition recover_founder ::
    "prims \<Rightarrow> (bytes \<Rightarrow> team_manifest option) \<Rightarrow> (team_manifest \<Rightarrow> bytes) \<Rightarrow> ('s \<Rightarrow> blob_view) \<Rightarrow> ('s \<Rightarrow> string \<Rightarrow> bytes \<Rightarrow> mem_error + 's)
      \<Rightarrow> signer \<Rightarrow> string \<Rightarrow> ss58 option \<Rightarrow> verifying_key \<Rightarrow> 's \<Rightarrow> mem_error + (team_manifest \<times> 's)" where
  "recover_founder P dec enc bv put recovery_signer team pin fresh_recovery_key s =
     (if is_identity_point fresh_recovery_key
      then Inl (Malformed ''refusing to name the Ristretto identity point as the fresh recovery key'')
      else r_bind (load_manifest P dec (bv s) team pin) (\<lambda>current.
           case current of
             None \<Rightarrow> Inl (ManifestUnavailable team)
           | Some live \<Rightarrow>
               if trusted_recovery_key live \<noteq> Some (signer_verifying_key recovery_signer)
               then Inl (Unauthorized ''the provided recovery seed does not match the published recovery key'')
               else let m = manifest_create_signed_with_recovery recovery_signer team (tm_members live)
                              (u64_saturating_succ (tm_version live)) (Some fresh_recovery_key)
                    in r_bind (publish_manifest P enc put s m) (\<lambda>s'. Inr (m, s'))))"

definition members :: "prims \<Rightarrow> (bytes \<Rightarrow> team_manifest option) \<Rightarrow> blob_view \<Rightarrow> string \<Rightarrow> ss58 option \<Rightarrow> mem_error + ss58 fset" where
  "members P dec bv team pin =
     r_bind (load_manifest P dec bv team pin) (\<lambda>m. Inr (case m of Some m \<Rightarrow> tm_members m | None \<Rightarrow> {||}))"

section \<open>Chain of custody\<close>

text \<open>
  The abstract election, over a set of manifests with distinct versions: start at the founder's oldest, and
  as long as some newer manifest is signed by the current founder key or the recovery key the current one
  names, go to the oldest such.
\<close>

definition authorized :: "team_manifest \<Rightarrow> team_manifest \<Rightarrow> bool" where
  "authorized live c \<longleftrightarrow> authority_of live c \<noteq> None"

definition anchors :: "team_manifest set \<Rightarrow> ss58 \<Rightarrow> team_manifest \<Rightarrow> bool" where
  "anchors S f m \<longleftrightarrow> m \<in> S \<and> can_anchor f m \<and> (\<forall>c\<in>S. can_anchor f c \<longrightarrow> tm_version m \<le> tm_version c)"

definition successors :: "team_manifest set \<Rightarrow> team_manifest \<Rightarrow> team_manifest set" where
  "successors S live = {c \<in> S. tm_version live < tm_version c \<and> authorized live c}"

definition succeeds :: "team_manifest set \<Rightarrow> team_manifest \<Rightarrow> team_manifest \<Rightarrow> bool" where
  "succeeds S live c \<longleftrightarrow> c \<in> successors S live \<and> (\<forall>x\<in>successors S live. tm_version c \<le> tm_version x)"

definition governs :: "team_manifest set \<Rightarrow> ss58 \<Rightarrow> team_manifest \<Rightarrow> bool" where
  "governs S f m \<longleftrightarrow> (\<exists>a. anchors S f a \<and> (succeeds S)\<^sup>*\<^sup>* a m) \<and> successors S m = {}"

lemma authorized_iff:
  "authorized live c \<longleftrightarrow> \<not> is_identity_point (tm_founder_key c) \<and>
     (tm_founder_key c = tm_founder_key live \<or> trusted_recovery_key live = Some (tm_founder_key c))"
  by (simp add: authorized_def authority_of_def)

lemma governs_unique:
  assumes "inj_on tm_version S" and "governs S f m" and "governs S f m'"
  shows "m = m'"
proof -
  have fn: "succeeds S x y \<Longrightarrow> succeeds S x z \<Longrightarrow> y = z" for x y z
    unfolding succeeds_def successors_def using assms(1) by (metis (mono_tags, lifting) inj_onD mem_Collect_eq order_antisym)
  have stuck: "governs S f x \<Longrightarrow> \<not> succeeds S x y" for x y
    unfolding governs_def succeeds_def by blast
  have det: "(succeeds S)\<^sup>*\<^sup>* a m \<Longrightarrow> (succeeds S)\<^sup>*\<^sup>* a m' \<Longrightarrow> m = m'" for a
  proof (induction rule: converse_rtranclp_induct)
    case base
    then show ?case using stuck [OF assms(2)] by (auto elim: converse_rtranclpE)
  next
    case (step a b)
    from step.prems step.hyps(1) stuck [OF assms(3)] obtain c where "succeeds S a c" "(succeeds S)\<^sup>*\<^sup>* c m'"
      by (auto elim: converse_rtranclpE)
    with fn [OF step.hyps(1)] step.IH show ?case by blast
  qed
  have "anchors S f a \<Longrightarrow> anchors S f b \<Longrightarrow> a = b" for a b
    unfolding anchors_def using assms(1) by (metis inj_onD order_antisym)
  with assms(2,3) det show ?thesis unfolding governs_def by metis
qed

subsection \<open>Grouping by version\<close>

lemma min_by_key_in: "min_by_key f xs = Some m \<Longrightarrow> m \<in> set xs"
proof (cases xs)
  case (Cons x ys)
  have "foldl (\<lambda>a b. if f b < f a then b else a) x ys \<in> insert x (set ys)"
    by (induction ys arbitrary: x) (auto simp: insert_commute split: if_splits)
  moreover assume "min_by_key f xs = Some m"
  ultimately show ?thesis using Cons by auto
qed simp

lemma min_by_key_None [simp]: "min_by_key f xs = None \<longleftrightarrow> xs = []"
  by (cases xs) simp_all

lemma min_fold_le:
  fixes f :: "'a \<Rightarrow> 'k::linorder"
  shows "f (foldl (\<lambda>a b. if f b < f a then b else a) y ys) \<le> f y \<and>
    (\<forall>z\<in>set ys. f (foldl (\<lambda>a b. if f b < f a then b else a) y ys) \<le> f z)"
proof (induction ys arbitrary: y)
  case (Cons z zs)
  from Cons.IH [of "if f z < f y then z else y"] show ?case
    by (cases "f z < f y") (auto intro: order_trans order.strict_implies_order simp: not_less)
qed simp

lemma min_by_key_le: "min_by_key f xs = Some m \<Longrightarrow> x \<in> set xs \<Longrightarrow> f m \<le> f x"
  by (cases xs) (use min_fold_le [of f] in auto)

text \<open>Groups: non-empty, one version each, and every version below those of the later groups.\<close>

primrec ascending :: "team_manifest list list \<Rightarrow> bool" where
  "ascending [] = True"
| "ascending (g # gs) =
     (g \<noteq> [] \<and> (\<exists>v. \<forall>a\<in>set g. tm_version a = v) \<and> (\<forall>a\<in>set g. \<forall>b\<in>set (concat gs). tm_version a < tm_version b) \<and>
      ascending gs)"

lemma ascending_append:
  "ascending (gs @ hs) \<longleftrightarrow> ascending gs \<and> ascending hs \<and>
     (\<forall>a\<in>set (concat gs). \<forall>b\<in>set (concat hs). tm_version a < tm_version b)"
  by (induction gs) (simp_all add: ball_Un, blast)

lemma ascending_ConsD:
  assumes "ascending (g # gs)"
  shows "a \<in> set g \<Longrightarrow> y \<in> set (concat gs) \<Longrightarrow> tm_version a < tm_version y"
    and "a \<in> set g \<Longrightarrow> b \<in> set g \<Longrightarrow> tm_version a = tm_version b"
  using assms by fastforce+

lemma chunk_by_Cons:
  "\<exists>g gs. chunk_by R (x # xs) = (x # g) # gs \<and> x # xs = (x # g) @ concat gs"
proof (induction xs arbitrary: x)
  case (Cons y ys)
  from Cons.IH [of y] obtain g gs where "chunk_by R (y # ys) = (y # g) # gs" "y # ys = (y # g) @ concat gs" by blast
  then show ?case by simp
qed simp

lemma concat_chunk_by: "concat (chunk_by R xs) = xs"
proof (cases xs)
  case (Cons y ys)
  obtain g gs where "chunk_by R (y # ys) = (y # g) # gs" "y # ys = (y # g) @ concat gs"
    using chunk_by_Cons [of R y ys] by blast
  with Cons show ?thesis by simp
qed simp

lemma ascending_chunks:
  "sorted (map tm_version xs) \<Longrightarrow> ascending (chunk_by (\<lambda>a b. tm_version a = tm_version b) xs)"
proof (induction xs rule: induct_list012)
  case (3 x y ys)
  let ?R = "\<lambda>(a::team_manifest) (b::team_manifest). tm_version a = tm_version b"
  obtain g gs where ch: "chunk_by ?R (y # ys) = (y # g) # gs" "y # ys = (y # g) @ concat gs"
    using chunk_by_Cons [of ?R y ys] by blast
  have "sorted (map tm_version (y # ys))" using "3.prems" by simp
  from "3.IH"(2) [OF this] have IH: "ascending ((y # g) # gs)" unfolding ch(1) .
  show ?case
  proof (cases "tm_version x = tm_version y")
    case True
    then have "chunk_by ?R (x # y # ys) = (x # y # g) # gs" using ch(1) by simp
    moreover from IH obtain v where "\<forall>a\<in>set (y # g). tm_version a = v" by auto
    ultimately show ?thesis using IH True by simp
  next
    case False
    then have "chunk_by ?R (x # y # ys) = [x] # (y # g) # gs" using ch(1) by simp
    moreover have "tm_version x < tm_version z" if "z \<in> set (concat ((y # g) # gs))" for z
    proof -
      have "tm_version x < tm_version y" using "3.prems" False by (simp add: order_less_le)
      moreover have "tm_version y \<le> tm_version z" using "3.prems" that unfolding concat.simps ch(2) [symmetric] by auto
      ultimately show ?thesis by simp
    qed
    ultimately show ?thesis using IH by simp
  qed
qed simp_all

subsection \<open>The walk\<close>

lemma elect_from_group_None: "elect_from_group P live g = None \<longleftrightarrow> (\<forall>c\<in>set g. \<not> authorized live c)"
proof -
  have "authorized live c \<longleftrightarrow> authority_of live c = Some Founder \<or> authority_of live c = Some Recovery" for c
    by (cases "authority_of live c"; cases "the (authority_of live c)") (auto simp: authorized_def)
  then show ?thesis
    by (auto simp: elect_from_group_def Let_def filter_empty_conv split: option.splits dest!: min_by_key_in)
qed

lemma elect_from_group_Some: "elect_from_group P live g = Some c \<Longrightarrow> c \<in> set g \<and> authorized live c"
  by (auto simp: elect_from_group_def Let_def authorized_def split: option.splits dest!: min_by_key_in)

lemma walk_governs:
  assumes "inj_on tm_version S" and "ascending gs" and "set (concat gs) \<subseteq> S"
    and "\<And>x. x \<in> S \<Longrightarrow> x \<in> set (concat gs) \<or> (\<forall>y\<in>set (concat gs). tm_version x < tm_version y)"
    and "\<And>x. x \<in> S \<Longrightarrow> tm_version live < tm_version x \<Longrightarrow> authorized live x \<Longrightarrow> x \<in> set (concat gs)"
    and "\<And>y. y \<in> set (concat gs) \<Longrightarrow> tm_version live < tm_version y"
  shows "(succeeds S)\<^sup>*\<^sup>* live (foldl (walk_step P) live gs) \<and> successors S (foldl (walk_step P) live gs) = {}"
  using assms(2-)
proof (induction gs arbitrary: live)
  case Nil
  then show ?case by (auto simp: successors_def)
next
  case (Cons g gs)
  have asc: "ascending gs" using Cons.prems(1) by simp
  note gt = ascending_ConsD(1) [OF Cons.prems(1)]
  have same: "a = b" if "a \<in> set g" "b \<in> set g" for a b
    using that ascending_ConsD(2) [OF Cons.prems(1) that] Cons.prems(2) by (intro inj_onD [OF assms(1)]) auto
  have split: "x \<in> set (concat gs) \<or> (\<forall>y\<in>set (concat gs). tm_version x < tm_version y)" if "x \<in> S" for x
    using Cons.prems(3) [OF that] gt by auto
  show ?case
  proof (cases "elect_from_group P live g")
    case None
    then have "x \<in> set (concat gs)" if "x \<in> S" "tm_version live < tm_version x" "authorized live x" for x
      using Cons.prems(4) [OF that] that(3) unfolding elect_from_group_None by auto
    then have "(succeeds S)\<^sup>*\<^sup>* live (foldl (walk_step P) live gs) \<and> successors S (foldl (walk_step P) live gs) = {}"
      by (intro Cons.IH [OF asc _ split]) (use Cons.prems(2,5) in auto)
    moreover from None have "walk_step P live g = live" by (simp add: walk_step_def)
    ultimately show ?thesis by (simp only: foldl.simps)
  next
    case (Some c)
    then have c: "c \<in> set g" "authorized live c" using elect_from_group_Some by blast+
    have next_c: "succeeds S live c"
      unfolding succeeds_def
    proof (intro conjI ballI)
      show "c \<in> successors S live" using c Cons.prems(2,5) by (auto simp: successors_def)
      fix x assume "x \<in> successors S live"
      then have "x \<in> set g \<union> set (concat gs)" using Cons.prems(4) [of x] by (auto simp: successors_def)
      then show "tm_version c \<le> tm_version x" using same [OF c(1)] gt [OF c(1)] by (auto intro: less_imp_le)
    qed
    have above: "x \<in> set (concat gs)" if x: "x \<in> S" and lt: "tm_version c < tm_version x" for x
    proof -
      consider "x \<in> set g" | "x \<in> set (concat gs)" | "tm_version x < tm_version c"
        using Cons.prems(3) [OF x] c(1) by auto
      then show ?thesis using same [OF c(1)] lt by cases auto
    qed
    have "(succeeds S)\<^sup>*\<^sup>* c (foldl (walk_step P) c gs) \<and> successors S (foldl (walk_step P) c gs) = {}"
      by (rule Cons.IH [OF asc _ split]) (use Cons.prems(2) above gt [OF c(1)] in auto)
    moreover from Some have "walk_step P live g = c" by (simp add: walk_step_def)
    ultimately show ?thesis using next_c by (simp only: foldl.simps) (metis converse_rtranclp_into_rtranclp)
  qed
qed

lemma elect_anchor_None: "elect_anchor P f g = None \<longleftrightarrow> (\<forall>c\<in>set g. \<not> can_anchor f c)"
  by (auto simp: elect_anchor_def filter_empty_conv)

lemma elect_anchor_Some: "elect_anchor P f g = Some m \<Longrightarrow> m \<in> set g \<and> can_anchor f m"
  by (auto simp: elect_anchor_def dest: min_by_key_in)

lemma find_anchor_None: "find_anchor P f gs = None \<longleftrightarrow> (\<forall>c\<in>set (concat gs). \<not> can_anchor f c)"
  by (induction gs) (auto simp: elect_anchor_None split: option.splits dest: elect_anchor_Some)

lemma find_anchor_Some:
  "find_anchor P f gs = Some (m, rest) \<Longrightarrow>
     \<exists>pre g. gs = pre @ g # rest \<and> m \<in> set g \<and> can_anchor f m \<and> (\<forall>c\<in>set (concat pre). \<not> can_anchor f c)"
proof (induction gs)
  case (Cons g gs)
  show ?case
  proof (cases "elect_anchor P f g")
    case None
    with Cons obtain pre h where "gs = pre @ h # rest" "m \<in> set h" "can_anchor f m" "\<forall>c\<in>set (concat pre). \<not> can_anchor f c"
      by auto
    with None show ?thesis by (intro exI [of _ "g # pre"] exI [of _ h]) (auto simp: elect_anchor_None)
  next
    case (Some a)
    with Cons.prems show ?thesis
      by (intro exI [of _ "[]"] exI [of _ g]) (auto dest: elect_anchor_Some)
  qed
qed simp

lemma elect_live_governs:
  assumes "inj_on tm_version (set valid)"
  shows "case elect_live P valid f of
      None \<Rightarrow> \<forall>c\<in>set valid. \<not> can_anchor f c
    | Some m \<Rightarrow> governs (set valid) f m"
proof -
  let ?xs = "sort_key (\<lambda>m. (tm_version m, content_rank P m)) valid"
  let ?gs = "chunk_by (\<lambda>a b. tm_version a = tm_version b) ?xs"
  have "sorted (map (\<lambda>m. (tm_version m, content_rank P m)) ?xs)" by simp
  then have "sorted (map tm_version ?xs)" unfolding sorted_map by (rule sorted_wrt_mono_rel [rotated]) auto
  then have asc: "ascending ?gs" by (rule ascending_chunks)
  have all: "set (concat ?gs) = set valid" by (simp only: concat_chunk_by set_sort)
  show ?thesis
  proof (cases "find_anchor P f ?gs")
    case None
    moreover from this have "\<forall>c\<in>set valid. \<not> can_anchor f c" unfolding find_anchor_None all .
    ultimately show ?thesis by (simp add: elect_live_def)
  next
    case (Some x)
    obtain a rest where x: "x = (a, rest)" by (cases x)
    from find_anchor_Some [OF Some [unfolded x]] obtain pre g where gs: "?gs = pre @ g # rest" and a: "a \<in> set g" "can_anchor f a"
      and before: "\<forall>c\<in>set (concat pre). \<not> can_anchor f c" by blast
    have S: "set valid = set (concat pre) \<union> set g \<union> set (concat rest)" using all unfolding gs by auto
    have parts: "ascending (g # rest)"
        "\<forall>y\<in>set (concat pre). \<forall>z\<in>set (concat (g # rest)). tm_version y < tm_version z"
      using asc unfolding gs ascending_append by blast+
    have lo: "tm_version y < tm_version a" if "y \<in> set (concat pre)" for y using parts(2) that a(1) by auto
    have apart: "tm_version y < tm_version z" if "y \<in> set (concat pre)" "z \<in> set (concat rest)" for y z
      using parts(2) that by auto
    note hi = ascending_ConsD(1) [OF parts(1) a(1)] and same = ascending_ConsD(2) [OF parts(1) _ a(1)]
    have rest: "ascending rest" using parts(1) by simp
    have "(succeeds (set valid))\<^sup>*\<^sup>* a (foldl (walk_step P) a rest) \<and> successors (set valid) (foldl (walk_step P) a rest) = {}"
    proof (rule walk_governs [OF assms rest])
      show "set (concat rest) \<subseteq> set valid" unfolding S by blast
      show "y \<in> set (concat rest) \<or> (\<forall>z\<in>set (concat rest). tm_version y < tm_version z)" if "y \<in> set valid" for y
      proof -
        consider "y \<in> set (concat pre)" | "y \<in> set g" | "y \<in> set (concat rest)" using \<open>y \<in> set valid\<close> unfolding S by blast
        then show ?thesis using apart same hi by cases metis+
      qed
      show "y \<in> set (concat rest)" if "y \<in> set valid" "tm_version a < tm_version y" for y
        using that lo [of y] same [of y] unfolding S by (metis UnE order_less_asym order_less_irrefl)
    qed (rule hi)
    moreover have "anchors (set valid) f a"
      unfolding anchors_def
    proof (intro conjI ballI impI)
      show "a \<in> set valid" using a(1) unfolding S by blast
      fix c assume c: "c \<in> set valid" "can_anchor f c"
      with before have "c \<in> set g \<union> set (concat rest)" unfolding S by blast
      then show "tm_version a \<le> tm_version c" using same [of c] hi [of c] by (metis UnE order_refl less_imp_le)
    qed (rule a(2))
    ultimately show ?thesis using Some x by (auto simp: elect_live_def governs_def)
  qed
qed

subsection \<open>What a bucket serves\<close>

definition served_manifests ::
    "prims \<Rightarrow> (bytes \<Rightarrow> team_manifest option) \<Rightarrow> blob_view \<Rightarrow> string \<Rightarrow> string list \<Rightarrow> team_manifest set" where
  "served_manifests P dec bv team keys = {m. \<exists>k\<in>set keys. manifest_at P dec bv team k = Some m}"

lemma manifest_at_Some:
  "manifest_at P dec bv team k = Some m \<longleftrightarrow>
     k = manifest_key team (tm_version m) \<and> \<not> is_identity_point (tm_founder_key m) \<and> manifest_verify P m \<and> tm_team m = team \<and>
     (\<exists>bs. bv_get bv k = Inr bs \<and> dec bs = Some m)"
  by (auto simp: manifest_at_def split: sum.splits option.splits if_splits)

lemma served_inj: "inj_on tm_version (served_manifests P dec bv team keys)"
proof (rule inj_onI)
  fix m m' assume "m \<in> served_manifests P dec bv team keys" "m' \<in> served_manifests P dec bv team keys" and v: "tm_version m = tm_version m'"
  then obtain k k' where k: "manifest_at P dec bv team k = Some m" "manifest_at P dec bv team k' = Some m'"
    by (auto simp: served_manifests_def)
  from manifest_at_Some [THEN iffD1, OF k(1)] manifest_at_Some [THEN iffD1, OF k(2)] v have "k = k'" by simp
  with k show "m = m'" by simp
qed

lemma set_map_filter_at: "set (List.map_filter (manifest_at P dec bv team) keys) = served_manifests P dec bv team keys"
  by (simp add: set_eq_iff in_map_filter served_manifests_def)

definition first_manifest :: "team_manifest set \<Rightarrow> team_manifest \<Rightarrow> bool" where
  "first_manifest S g \<longleftrightarrow> g \<in> S \<and> (\<forall>c\<in>S. tm_version g \<le> tm_version c)"

text \<open>The founder the chain starts from: the configured one, or the oldest manifest's.\<close>

definition anchored_on :: "team_manifest set \<Rightarrow> ss58 option \<Rightarrow> ss58 \<Rightarrow> bool" where
  "anchored_on S pin f \<longleftrightarrow> (case pin of Some pinned \<Rightarrow> f = pinned | None \<Rightarrow> \<exists>g. first_manifest S g \<and> tm_founder g = f)"

lemma load_manifest_governs:
  fixes P :: prims and dec :: "bytes \<Rightarrow> team_manifest option"
  assumes "bv_list bv (manifest_prefix team) = Inr keys"
  defines "S \<equiv> served_manifests P dec bv team keys"
  shows "\<exists>r. load_manifest P dec bv team pin = Inr r \<and>
    (case r of
       Some m \<Rightarrow> \<exists>f. anchored_on S pin f \<and> governs S f m
     | None \<Rightarrow> \<forall>f. anchored_on S pin f \<longrightarrow> (\<forall>c\<in>S. \<not> can_anchor f c))"
proof -
  let ?valid = "List.map_filter (manifest_at P dec bv team) keys"
  have valid: "set ?valid = S" by (simp add: set_map_filter_at S_def)
  have inj: "inj_on tm_version (set ?valid)" unfolding valid S_def by (rule served_inj)
  have elect: "case elect_live P ?valid f of None \<Rightarrow> \<forall>c\<in>S. \<not> can_anchor f c | Some m \<Rightarrow> governs S f m" for f
    using elect_live_governs [OF inj] unfolding valid .
  show ?thesis
  proof (cases pin)
    case (Some f)
    with elect [of f] show ?thesis using assms(1) by (simp add: load_manifest_def anchored_on_def split: option.splits)
  next
    case None
    show ?thesis
    proof (cases "min_by_key (\<lambda>m. (tm_version m, content_rank P m)) ?valid")
      case min: None
      then have "S = {}" using valid by simp
      with None min show ?thesis using assms(1) by (simp add: load_manifest_def anchored_on_def first_manifest_def)
    next
      case min: (Some g)
      have g: "first_manifest S g"
        using min_by_key_in [OF min] min_by_key_le [OF min] unfolding valid first_manifest_def by fastforce
      then have only: "anchored_on S None f \<longleftrightarrow> f = tm_founder g" for f
        using served_inj [of P dec bv team keys] unfolding anchored_on_def first_manifest_def S_def
        by (auto dest: inj_onD intro: antisym)
      have "load_manifest P dec bv team pin = Inr (elect_live P ?valid (tm_founder g))"
        using assms(1) None min by (simp add: load_manifest_def)
      with elect [of "tm_founder g"] show ?thesis unfolding None only by (auto split: option.splits)
    qed
  qed
qed

lemma anchored_on_unique:
  "anchored_on (served_manifests P dec bv team keys) pin f \<Longrightarrow> anchored_on (served_manifests P dec bv team keys) pin f' \<Longrightarrow> f = f'"
  using served_inj [of P dec bv team keys] unfolding anchored_on_def first_manifest_def
  by (cases pin) (auto, metis inj_onD order_antisym)

lemma load_manifest_unique:
  assumes "bv_list bv (manifest_prefix team) = Inr keys"
    and "anchored_on (served_manifests P dec bv team keys) pin f" and "governs (served_manifests P dec bv team keys) f m"
  shows "load_manifest P dec bv team pin = Inr (Some m)"
proof -
  let ?S = "served_manifests P dec bv team keys"
  obtain r where r: "load_manifest P dec bv team pin = Inr r"
      "case r of Some m \<Rightarrow> \<exists>f. anchored_on ?S pin f \<and> governs ?S f m
       | None \<Rightarrow> \<forall>f. anchored_on ?S pin f \<longrightarrow> (\<forall>c\<in>?S. \<not> can_anchor f c)"
    using load_manifest_governs [OF assms(1), of P dec pin] by blast
  show ?thesis
  proof (cases r)
    case None
    moreover obtain a where "a \<in> ?S" "can_anchor f a" using assms(3) unfolding governs_def anchors_def by blast
    ultimately show ?thesis using r(2) assms(2) by auto
  next
    case (Some m')
    then obtain f' where "anchored_on ?S pin f'" "governs ?S f' m'" using r(2) by auto
    moreover from this(1) assms(2) have "f' = f" by (rule anchored_on_unique)
    ultimately have "m' = m" using governs_unique [OF served_inj] assms(3) by blast
    with r(1) Some show ?thesis by simp
  qed
qed

subsection \<open>Outsiders\<close>

lemma address_names_one_key: "address_names_key P f k \<Longrightarrow> address_names_key P f k' \<Longrightarrow> k = k'"
  by (auto simp: address_names_key_def split: sum.splits prod.splits)

text \<open>Keys closed under what manifests signed by them name.\<close>

definition closed_keys :: "team_manifest set \<Rightarrow> verifying_key set \<Rightarrow> bool" where
  "closed_keys S K \<longleftrightarrow> (\<forall>m\<in>S. \<forall>r. tm_founder_key m \<in> K \<and> trusted_recovery_key m = Some r \<longrightarrow> r \<in> K)"

lemma governs_insiders:
  assumes "closed_keys S K" and "\<And>c. c \<in> S \<Longrightarrow> can_anchor f c \<Longrightarrow> tm_founder_key c \<in> K"
  shows "governs S f m \<longleftrightarrow> governs {c \<in> S. tm_founder_key c \<in> K} f m"
proof -
  let ?T = "{c \<in> S. tm_founder_key c \<in> K}"
  have opts: "successors S x = successors ?T x" if "x \<in> ?T" for x
    using that assms(1) unfolding successors_def closed_keys_def authorized_iff by auto
  then have succ: "succeeds S x y \<longleftrightarrow> succeeds ?T x y" if "x \<in> ?T" for x y using that unfolding succeeds_def by simp
  have anc: "anchors S f a \<longleftrightarrow> anchors ?T f a" for a using assms(2) unfolding anchors_def by blast
  have inT: "a \<in> ?T" if "anchors ?T f a" for a using that unfolding anchors_def by blast
  have stay: "succeeds ?T x y \<Longrightarrow> y \<in> ?T" for x y unfolding succeeds_def successors_def by blast
  have there: "(succeeds S)\<^sup>*\<^sup>* a b \<Longrightarrow> a \<in> ?T \<Longrightarrow> (succeeds ?T)\<^sup>*\<^sup>* a b \<and> b \<in> ?T" for a b
  proof (induction rule: rtranclp_induct)
    case (step x y)
    then have x: "(succeeds ?T)\<^sup>*\<^sup>* a x" "x \<in> ?T" by blast+
    have "succeeds ?T x y" using step.hyps(2) succ [OF x(2)] by blast
    with x(1) stay show ?case by (blast intro: rtranclp.rtrancl_into_rtrancl)
  qed simp
  have fro: "(succeeds ?T)\<^sup>*\<^sup>* a b \<Longrightarrow> a \<in> ?T \<Longrightarrow> (succeeds S)\<^sup>*\<^sup>* a b \<and> b \<in> ?T" for a b
  proof (induction rule: rtranclp_induct)
    case (step x y)
    then have x: "(succeeds S)\<^sup>*\<^sup>* a x" "x \<in> ?T" by blast+
    have "succeeds S x y" using step.hyps(2) succ [OF x(2)] by blast
    with x(1) stay step.hyps(2) show ?case by (blast intro: rtranclp.rtrancl_into_rtrancl)
  qed simp
  show ?thesis
  proof
    assume "governs S f m"
    then obtain a where a: "anchors ?T f a" "(succeeds S)\<^sup>*\<^sup>* a m" "successors S m = {}" unfolding governs_def anc by blast
    with there [OF a(2) inT [OF a(1)]] opts [of m] show "governs ?T f m" unfolding governs_def by auto
  next
    assume "governs ?T f m"
    then obtain a where a: "anchors ?T f a" "(succeeds ?T)\<^sup>*\<^sup>* a m" "successors ?T m = {}" unfolding governs_def by blast
    with fro [OF a(2) inT [OF a(1)]] opts [of m] show "governs S f m" unfolding governs_def anc by auto
  qed
qed

subsection \<open>The marker\<close>

interpretation manifest_file: small_file "target_ok ''.manifest-''" Mapping.lookup read_file marker_write
  unfolding marker_write_def by (rule small_file_contract)

text \<open>The version the marker file vouches for to a machine that trusts founder \<open>f\<close>.\<close>

definition marker_version ::
    "prims \<Rightarrow> (bytes \<Rightarrow> team_manifest option) \<Rightarrow> string \<Rightarrow> ss58 \<Rightarrow> disk \<Rightarrow> path \<Rightarrow> u64 option" where
  "marker_version P dec team f d p =
     (case Option.bind (Mapping.lookup d p) dec of
        Some m \<Rightarrow> if manifest_is_trusted P team m (Some f) then Some (tm_version m) else None
      | None \<Rightarrow> None)"

lemma marker_version_Some:
  "marker_version P dec team f d p = Some v \<longleftrightarrow>
     (\<exists>bs m. Mapping.lookup d p = Some bs \<and> dec bs = Some m \<and> manifest_is_trusted P team m (Some f) \<and> tm_version m = v)"
  by (auto simp: marker_version_def bind_eq_Some_conv split: option.splits if_splits)

lemma load_manifest_Some:
  assumes "load_manifest P dec bv team pin = Inr (Some m)"
  shows "manifest_verify P m \<and> tm_team m = team"
proof -
  obtain keys where keys: "bv_list bv (manifest_prefix team) = Inr keys"
    using assms by (auto simp: load_manifest_def r_bind_Inr_iff)
  obtain f where "governs (served_manifests P dec bv team keys) f m"
    using load_manifest_governs [OF keys, of P dec pin] assms by auto
  then have "m \<in> served_manifests P dec bv team keys"
    unfolding governs_def anchors_def succeeds_def successors_def by (auto elim: rtranclp.cases)
  then show ?thesis by (auto simp: served_manifests_def manifest_at_Some)
qed

lemma monotonic_from:
  "fst (monotonic_manifest a l) = Some m \<or> snd (monotonic_manifest a l) = Some m \<Longrightarrow> a = Some m \<or> l = Some m"
  by (auto simp: monotonic_manifest_def split: option.splits if_splits)

lemma monotonic_ge: "\<exists>m'. fst (monotonic_manifest (Some m) l) = Some m' \<and> tm_version m \<le> tm_version m'"
  by (auto simp: monotonic_manifest_def not_less split: option.splits)

text \<open>One call that finds a trusted marker at version \<open>v\<close>.\<close>

lemma current_manifest_keeps:
  assumes "target_ok ''.manifest-'' p" and "\<And>m. dec (enc m) = Some m" and "\<not> io_read_fails e"
    and f: "\<And>m. load_manifest P dec bv team (Some f) = Inr (Some m) \<Longrightarrow> tm_founder m = f"
    and applied: "\<And>m. applied = Some m \<Longrightarrow> manifest_is_trusted P team m (Some f)"
    and run: "current_manifest P dec enc bv team (Some f) (Some p) e applied d = (r, applied', d')"
  shows "\<And>m. applied' = Some m \<Longrightarrow> manifest_is_trusted P team m (Some f)"
    and "marker_version P dec team f d p = Some v \<Longrightarrow> \<exists>v'. marker_version P dec team f d' p = Some v' \<and> v \<le> v'"
    and "marker_version P dec team f d p = Some v \<Longrightarrow> r = Inr x \<Longrightarrow> \<exists>m. x = Some m \<and> v \<le> tm_version m"
proof -
  have loaded: "manifest_is_trusted P team m (Some f)" if "load_manifest P dec bv team (Some f) = Inr (Some m)" for m
    using load_manifest_Some [OF that] f [OF that] by (simp add: manifest_is_trusted_def)
  let ?mk = "load_verified_marker P dec team e d (Some p) (Some f)"
  have mk: "manifest_is_trusted P team m (Some f)" if "?mk = Some m" for m
    using that by (auto simp: load_verified_marker_def split: sum.splits option.splits if_splits)
  have mk_Some: "\<exists>m. ?mk = Some m \<and> tm_version m = v" if "marker_version P dec team f d p = Some v"
    using that assms(3)
    by (auto simp: marker_version_Some load_verified_marker_def marker_load_def read_file_def)
  define a1 where "a1 = (case ?mk of Some m \<Rightarrow> snd (monotonic_manifest applied (Some m)) | None \<Rightarrow> applied)"
  have a1: "manifest_is_trusted P team m (Some f)" if "a1 = Some m" for m
    using that mk applied by (auto simp: a1_def monotonic_manifest_def split: option.splits if_splits)
  have a1_ge: "\<exists>m. a1 = Some m \<and> v \<le> tm_version m" if "marker_version P dec team f d p = Some v"
    using mk_Some [OF that] by (auto simp: a1_def monotonic_manifest_def split: option.splits if_splits)
  define y a2 where "y l = fst (monotonic_manifest a1 l)" and "a2 l = snd (monotonic_manifest a1 l)" for l
  note y_a2_def = this
  have mono: "monotonic_manifest a1 l = (y l, a2 l)" for l by (simp add: y_a2_def)
  have mono_ok: "manifest_is_trusted P team m (Some f)" if "y l = Some m \<or> a2 l = Some m" "load_manifest P dec bv team (Some f) = Inr l" for l m
    using that monotonic_from [of a1 l m] a1 loaded by (auto simp: mono)
  have mono_ge: "\<exists>m. y l = Some m \<and> v \<le> tm_version m" if "marker_version P dec team f d p = Some v" for l
    using a1_ge [OF that] monotonic_ge [of _ l] by (auto simp: y_a2_def(1)) (metis order_trans)
  have stored: "marker_version P dec team f (snd (marker_store enc e d p m)) p \<in> {Some (tm_version m), marker_version P dec team f d p}"
    if "manifest_is_trusted P team m (Some f)" for m
    using manifest_file.wr_cases [OF assms(1), of e d "enc m"] that assms(2)
    by (auto simp: marker_store_def marker_version_def split: prod.splits)
  show "applied' = Some m \<Longrightarrow> manifest_is_trusted P team m (Some f)" for m
    using run applied mono_ok
    by (auto simp: current_manifest_def Let_def a1_def [symmetric] mono split: sum.splits prod.splits)
  show "marker_version P dec team f d p = Some v \<Longrightarrow> r = Inr x \<Longrightarrow> \<exists>m. x = Some m \<and> v \<le> tm_version m"
    using run mono_ge
    by (auto simp: current_manifest_def Let_def a1_def [symmetric] mono split: sum.splits prod.splits)
  show "\<exists>v'. marker_version P dec team f d' p = Some v' \<and> v \<le> v'" if v: "marker_version P dec team f d p = Some v"
  proof (cases "load_manifest P dec bv team (Some f)")
    case (Inl a)
    with run v show ?thesis by (auto simp: current_manifest_def)
  next
    case (Inr l)
    obtain m where m: "y l = Some m" "v \<le> tm_version m" using mono_ge [OF v] by blast
    have "d' = (if map_option tm_version ?mk \<noteq> Some (tm_version m) then snd (marker_store enc e d p m) else d)"
      using run Inr m(1) by (auto simp: current_manifest_def Let_def a1_def [symmetric] mono)
    then show ?thesis using stored [OF mono_ok [OF _ Inr, of m]] m v by (auto split: if_splits)
  qed
qed

subsection \<open>Processes sharing the marker\<close>

text \<open>
  The processes of one machine under one configured founder, the marker file they share, and whatever
  buckets they are served (one of \<open>B\<close> at a time): \<open>ps i\<close> is the manifest process \<open>i\<close> has applied, if it
  runs. A call is one step.
\<close>

type_synonym member_world = "disk \<times> (nat \<Rightarrow> team_manifest option option)"

inductive member_step ::
    "prims \<Rightarrow> (bytes \<Rightarrow> team_manifest option) \<Rightarrow> (team_manifest \<Rightarrow> bytes) \<Rightarrow> string \<Rightarrow> ss58 \<Rightarrow> path \<Rightarrow> io_env set \<Rightarrow> blob_view set
      \<Rightarrow> member_world \<Rightarrow> member_world \<Rightarrow> bool"
  for P dec enc team f p E B where
  start: "member_step P dec enc team f p E B (d, ps) (d, ps(i \<mapsto> None))"
| sync: "ps i = Some applied \<Longrightarrow> e \<in> E \<Longrightarrow> bv \<in> B \<Longrightarrow>
    current_manifest P dec enc bv team (Some f) (Some p) e applied d = (r, applied', d') \<Longrightarrow>
    member_step P dec enc team f p E B (d, ps) (d', ps(i \<mapsto> applied'))"
| stop: "member_step P dec enc team f p E B (d, ps) (d, ps(i := None))"

inductive_cases member_stepE: "member_step P dec enc team f p E B w w'"

definition member_inv ::
    "prims \<Rightarrow> (bytes \<Rightarrow> team_manifest option) \<Rightarrow> string \<Rightarrow> ss58 \<Rightarrow> path \<Rightarrow> u64 \<Rightarrow> member_world \<Rightarrow> bool" where
  "member_inv P dec team f p v w \<longleftrightarrow>
     (\<forall>i m. snd w i = Some (Some m) \<longrightarrow> manifest_is_trusted P team m (Some f)) \<and>
     (\<exists>v'. marker_version P dec team f (fst w) p = Some v' \<and> v \<le> v')"

lemma member_step_inv:
  assumes "member_step P dec enc team f p E B w w'" and "member_inv P dec team f p v w"
    and "target_ok ''.manifest-'' p" and "\<And>m. dec (enc m) = Some m" and "\<And>e. e \<in> E \<Longrightarrow> \<not> io_read_fails e"
    and "\<And>bv m. bv \<in> B \<Longrightarrow> load_manifest P dec bv team (Some f) = Inr (Some m) \<Longrightarrow> tm_founder m = f"
  shows "member_inv P dec team f p v w'"
  using assms(1)
proof cases
  case (sync ps i applied e bv d r applied' d')
  have tr: "manifest_is_trusted P team m (Some f)" if "applied = Some m" for m
    using assms(2) sync(1,3) that by (simp add: member_inv_def)
  obtain v' where v': "marker_version P dec team f d p = Some v'" "v \<le> v'" using assms(2) sync(1) by (auto simp: member_inv_def)
  have "\<exists>v''. marker_version P dec team f d' p = Some v'' \<and> v' \<le> v''"
    by (rule current_manifest_keeps(2) [OF assms(3,4) assms(5) _ _ sync(6) v'(1)]) (use sync(4,5) assms(6) tr in auto)
  moreover have "manifest_is_trusted P team m (Some f)" if "applied' = Some m" for m
    by (rule current_manifest_keeps(1) [OF assms(3,4) assms(5) _ _ sync(6) that]) (use sync(4,5) assms(6) tr in auto)
  ultimately show ?thesis using assms(2) v'(2) sync(1,2) by (auto simp: member_inv_def)
qed (use assms(2) in \<open>auto simp: member_inv_def\<close>)

subsection \<open>Publishing forward\<close>

lemma succeeds_version: "(succeeds S)\<^sup>*\<^sup>* a b \<Longrightarrow> tm_version a \<le> tm_version b"
  by (induction rule: rtranclp_induct) (auto simp: succeeds_def successors_def intro: order_trans less_imp_le)

lemma succeeds_mem: "(succeeds S)\<^sup>*\<^sup>* a b \<Longrightarrow> a \<in> S \<Longrightarrow> b \<in> S"
  by (induction rule: rtranclp_induct) (auto simp: succeeds_def successors_def)

text \<open>The store after a manifest was put at version \<open>tm_version new\<close>.\<close>

definition replaced :: "team_manifest set \<Rightarrow> team_manifest \<Rightarrow> team_manifest set" where
  "replaced S new = insert new {m \<in> S. tm_version m \<noteq> tm_version new}"

lemma governs_next:
  assumes "governs S f live" and "tm_version live < tm_version new"
    and "tm_founder_key new = tm_founder_key live" and "\<not> is_identity_point (tm_founder_key new)"
    and "tm_recovery_key new = trusted_recovery_key live"
    and "\<And>m. m \<in> S \<Longrightarrow> tm_version live < tm_version m \<Longrightarrow> \<not> tm_version m < tm_version new"
  shows "governs (replaced S new) f new"
proof -
  let ?S' = "replaced S new"
  obtain a where a: "anchors S f a" "(succeeds S)\<^sup>*\<^sup>* a live" and last: "successors S live = {}"
    using assms(1) unfolding governs_def by blast
  have old: "x \<in> ?S'" if "x \<in> S" "tm_version x \<le> tm_version live" for x
    using that assms(2) by (auto simp: replaced_def)
  have keep: "succeeds ?S' x y" if "succeeds S x y" "tm_version y \<le> tm_version live" for x y
    using that old [of y] assms(2) unfolding succeeds_def successors_def replaced_def by auto
  have chain: "(succeeds S)\<^sup>*\<^sup>* x live \<Longrightarrow> (succeeds ?S')\<^sup>*\<^sup>* x live" for x
  proof (induction rule: converse_rtranclp_induct)
    case (step x y)
    then have "succeeds ?S' x y" using keep succeeds_version by blast
    from this step.IH show ?case by (rule converse_rtranclp_into_rtranclp)
  qed simp
  have none: "\<not> authorized live x" if "x \<in> S" "tm_version live < tm_version x" for x
    using last that unfolding successors_def by blast
  have "succeeds ?S' live new"
    unfolding succeeds_def
  proof (intro conjI ballI)
    show "new \<in> successors ?S' live" using assms(2,3,4) by (simp add: successors_def replaced_def authorized_iff)
    fix z assume "z \<in> successors ?S' live"
    with none show "tm_version new \<le> tm_version z" by (auto simp: successors_def replaced_def)
  qed
  with chain [OF a(2)] have "(succeeds ?S')\<^sup>*\<^sup>* a new" by (rule rtranclp.rtrancl_into_rtrancl)
  moreover have "anchors ?S' f a"
    using a(1) old [of a] succeeds_version [OF a(2)] assms(2) unfolding anchors_def replaced_def by auto
  moreover have "successors ?S' new = {}"
  proof -
    have "trusted_recovery_key new = trusted_recovery_key live"
      using assms(5) by (auto simp: trusted_recovery_key_def split: option.splits if_splits)
    then have "authorized new z \<longleftrightarrow> authorized live z" for z using assms(3) by (simp add: authorized_iff)
    with none show ?thesis using assms(2) by (auto simp: successors_def replaced_def)
  qed
  ultimately show ?thesis unfolding governs_def by blast
qed

lemma anchored_next:
  assumes "anchored_on S pin f" and "governs S f live" and "tm_version live < tm_version new" and "\<And>m. m \<in> S \<Longrightarrow> can_anchor (tm_founder m) m"
  shows "anchored_on (replaced S new) pin f"
proof (cases pin)
  case None
  with assms(1) obtain g where g: "first_manifest S g" "tm_founder g = f" by (auto simp: anchored_on_def)
  have "live \<in> S" using assms(2) unfolding governs_def anchors_def by (auto dest: succeeds_mem)
  then have "tm_version g < tm_version new" using g(1) assms(3) by (auto simp: first_manifest_def)
  with g None show ?thesis by (auto simp: anchored_on_def first_manifest_def replaced_def)
qed (use assms(1) in \<open>simp add: anchored_on_def\<close>)

context blob_store
begin

lemma served_after_put:
  assumes "inv s" and "put s (manifest_key team v) b = Inr s'"
    and "listing s (manifest_prefix team) = Inr ks" and "listing s' (manifest_prefix team) = Inr ks'"
  shows "served_manifests P dec (view s') team ks' =
    {m \<in> served_manifests P dec (view s) team ks. tm_version m \<noteq> v} \<union>
    {m. manifest_at P dec (view s') team (manifest_key team v) = Some m}"
proof -
  have pre: "prefix (manifest_prefix team) (manifest_key team w)" for w
    by (simp add: manifest_prefix_def manifest_key_def)
  have ks': "set ks' = insert (manifest_key team v) (set ks)" using put_listing [OF assms] pre by simp
  have same: "manifest_at P dec (view s') team k = manifest_at P dec (view s) team k" if "k \<noteq> manifest_key team v" for k
    using that by (simp add: manifest_at_def view_def get_put [OF assms(2)])
  have key: "k = manifest_key team v \<longleftrightarrow> tm_version m = v" if "manifest_at P dec bv team k = Some m" for k m bv
    using that by (auto simp: manifest_at_Some manifest_key_def pad20_inject)
  show ?thesis unfolding served_manifests_def ks' using same key by (auto; metis)
qed

end

lemma manifest_signing_bytes_sig [simp]: "manifest_signing_bytes (m\<lparr>tm_sig := sg\<rparr>) = manifest_signing_bytes m"
  by (simp add: manifest_signing_bytes_def)

lemma created_manifest:
  assumes "\<And>msg. verify P (signer_verifying_key sg) msg (signer_sign sg msg)"
    and "address_names_key P (signer_author_ss58 sg) (signer_verifying_key sg)"
  shows "manifest_verify P (manifest_create_signed_with_recovery sg team ms v rk)"
  unfolding manifest_verify_def manifest_create_signed_with_recovery_def Let_def manifest_signing_bytes_sig
  by (simp add: assms)

lemma created_manifest_fields [simp]:
  "tm_team (manifest_create_signed_with_recovery sg team ms v rk) = team"
  "tm_members (manifest_create_signed_with_recovery sg team ms v rk) = finsert (signer_author_ss58 sg) ms"
  "tm_version (manifest_create_signed_with_recovery sg team ms v rk) = v"
  "tm_founder (manifest_create_signed_with_recovery sg team ms v rk) = signer_author_ss58 sg"
  "tm_founder_key (manifest_create_signed_with_recovery sg team ms v rk) = signer_verifying_key sg"
  "tm_recovery_key (manifest_create_signed_with_recovery sg team ms v rk) = rk"
  by (simp_all add: manifest_create_signed_with_recovery_def Let_def)

subsection \<open>A concrete codec, manifests and buckets, for witnesses\<close>

definition man_enc :: "team_manifest \<Rightarrow> bytes" where
  "man_enc m = enc_text (tm_team m) @ enc_list enc_text (sorted_list_of_fset (tm_members m)) @ enc_word (tm_version m) @
     enc_text (tm_founder m) @ enc_bytes (tm_founder_key m) @
     enc_list enc_bytes (case tm_recovery_key m of None \<Rightarrow> [] | Some k \<Rightarrow> [k]) @ enc_bytes (tm_sig m)"

definition man_dec :: "bytes \<Rightarrow> team_manifest option" where
  "man_dec bs =
     (let (tm, b1) = dec_text bs; (ms, b2) = dec_list dec_text b1; (v, b3) = dec_word b2; (f, b4) = dec_text b3;
          (k, b5) = dec_bytes b4; (rk, b6) = dec_list dec_bytes b5; (sg, _) = dec_bytes b6
      in Some \<lparr>tm_team = tm, tm_members = fset_of_list ms, tm_version = v, tm_founder = f, tm_founder_key = k,
               tm_recovery_key = (case rk of [] \<Rightarrow> None | r # _ \<Rightarrow> Some r), tm_sig = sg\<rparr>)"

lemma man_dec_enc: "man_dec (man_enc m) = Some m"
proof -
  have "dec_bytes (enc_bytes b) = (b, [])" for b using dec_enc_bytes [of b "[]"] by simp
  then show ?thesis by (cases m) (simp add: man_dec_def man_enc_def codec_simps dec_enc_list split: option.split)
qed

definition demo_manifest :: "byte \<Rightarrow> byte \<Rightarrow> byte option \<Rightarrow> team_manifest" where
  "demo_manifest a n r =
     \<lparr>tm_team = ''t'', tm_members = {|ss58_encode demo_prims (replicate 32 a) HIPPIUS|}, tm_version = ucast n,
      tm_founder = ss58_encode demo_prims (replicate 32 a) HIPPIUS, tm_founder_key = replicate 32 a,
      tm_recovery_key = map_option (replicate 32) r, tm_sig = replicate 64 a\<rparr>"

definition demo_bucket :: "team_manifest list \<Rightarrow> blob_view" where
  "demo_bucket ms =
     \<lparr>bv_list = (\<lambda>_. Inr (map (\<lambda>m. manifest_key ''t'' (tm_version m)) ms)),
      bv_get = (\<lambda>k. case find (\<lambda>m. manifest_key ''t'' (tm_version m) = k) ms of Some m \<Rightarrow> Inr (man_enc m) | None \<Rightarrow> Inl (NotFound k)),
      bv_order = id\<rparr>"

abbreviation demo_addr :: "byte \<Rightarrow> ss58" where
  "demo_addr a \<equiv> ss58_encode demo_prims (replicate 32 a) HIPPIUS"

lemma demo_addr_names: "address_names_key demo_prims (demo_addr a) k \<longleftrightarrow> k = replicate 32 a"
  using address_names_key_encode [OF demo_bs58_law, of "replicate 32 a"] address_names_one_key by auto

lemma demo_addr_inject [simp]: "demo_addr a = demo_addr b \<longleftrightarrow> a = b"
  using demo_addr_names [of a] demo_addr_names [of b] by (metis replicate_eq_replicate zero_neq_numeral)

lemma demo_manifest_fields [simp]:
  "tm_version (demo_manifest a n r) = ucast n" "tm_founder (demo_manifest a n r) = demo_addr a"
  "tm_founder_key (demo_manifest a n r) = replicate 32 a" "tm_recovery_key (demo_manifest a n r) = map_option (replicate 32) r"
  "tm_team (demo_manifest a n r) = ''t''"
  by (simp_all add: demo_manifest_def)

lemma demo_manifest_ok:
  "a \<noteq> 0 \<Longrightarrow> manifest_verify demo_prims (demo_manifest a n r) \<and> \<not> is_identity_point (replicate 32 a)"
  by (simp add: manifest_verify_def demo_addr_names verify_def is_identity_point_def)
    (simp add: demo_manifest_def demo_prims_def)

lemma find_by_key:
  "distinct (map f xs) \<Longrightarrow> x \<in> set xs \<Longrightarrow> find (\<lambda>y. f y = f x) xs = Some x"
  by (induction xs) auto

lemma demo_served:
  assumes "distinct (map tm_version ms)"
    and "list_all (\<lambda>m. manifest_verify demo_prims m \<and> \<not> is_identity_point (tm_founder_key m) \<and> tm_team m = ''t'') ms"
  shows "served_manifests demo_prims man_dec (demo_bucket ms) ''t'' (map (\<lambda>m. manifest_key ''t'' (tm_version m)) ms) = set ms"
proof -
  have inj: "manifest_key ''t'' v = manifest_key ''t'' w \<longleftrightarrow> v = w" for v w by (simp add: manifest_key_def pad20_inject)
  have "manifest_at demo_prims man_dec (demo_bucket ms) ''t'' (manifest_key ''t'' (tm_version m)) = Some m" if "m \<in> set ms" for m
    using that assms find_by_key [of tm_version ms m]
    by (simp add: manifest_at_Some demo_bucket_def inj man_dec_enc list_all_iff)
  then show ?thesis by (auto simp: served_manifests_def)
qed

text \<open>A founder, his recovery key's holder who took over, and an outsider with a higher version.\<close>

abbreviation demo_founding :: team_manifest where "demo_founding \<equiv> demo_manifest 1 0 (Some 2)"
abbreviation demo_recovered :: team_manifest where "demo_recovered \<equiv> demo_manifest 2 1 None"
abbreviation demo_outsider :: team_manifest where "demo_outsider \<equiv> demo_manifest 3 7 None"

lemma demo_authorized [simp]:
  "authorized (demo_manifest a n r) (demo_manifest b m q) \<longleftrightarrow> b \<noteq> 0 \<and> (b = a \<or> r = Some b)"
  by (cases r) (auto simp: authorized_iff trusted_recovery_key_def is_identity_point_def)

lemma demo_can_anchor [simp]: "can_anchor (demo_addr a) (demo_manifest b m q) \<longleftrightarrow> b \<noteq> 0 \<and> b = a"
  by (auto simp: can_anchor_def is_identity_point_def)

lemma demo_governs:
  assumes "ms = [demo_outsider, demo_recovered, demo_founding] \<or> ms = [demo_recovered, demo_founding]"
  shows "served_manifests demo_prims man_dec (demo_bucket ms) ''t'' (map (\<lambda>m. manifest_key ''t'' (tm_version m)) ms) = set ms"
    and "governs (set ms) (demo_addr 1) demo_recovered"
proof -
  show "served_manifests demo_prims man_dec (demo_bucket ms) ''t'' (map (\<lambda>m. manifest_key ''t'' (tm_version m)) ms) = set ms"
    by (rule demo_served) (use assms demo_manifest_ok in auto)
  have neq: "demo_recovered \<noteq> demo_founding" "demo_outsider \<noteq> demo_founding" "demo_outsider \<noteq> demo_recovered"
    by (simp_all add: demo_manifest_def)
  have "anchors (set ms) (demo_addr 1) demo_founding" using assms by (auto simp: anchors_def)
  moreover have "successors (set ms) demo_founding = {demo_recovered}" using assms neq by (auto simp: successors_def)
  then have "succeeds (set ms) demo_founding demo_recovered" by (simp add: succeeds_def)
  moreover have "successors (set ms) demo_recovered = {}" using assms by (auto simp: successors_def)
  ultimately show "governs (set ms) (demo_addr 1) demo_recovered" unfolding governs_def by blast
qed

lemma demo_bucket_list: "bv_list (demo_bucket ms) pre = Inr (map (\<lambda>m. manifest_key ''t'' (tm_version m)) ms)"
  by (simp add: demo_bucket_def)

lemma demo_load_one:
  assumes "a \<noteq> 0"
  shows "load_manifest demo_prims man_dec (demo_bucket [demo_manifest a n r]) ''t'' (Some (demo_addr a)) = Inr (Some (demo_manifest a n r))"
proof (rule load_manifest_unique [OF demo_bucket_list, where f = "demo_addr a"])
  let ?m = "demo_manifest a n r"
  have S: "served_manifests demo_prims man_dec (demo_bucket [?m]) ''t'' (map (\<lambda>m. manifest_key ''t'' (tm_version m)) [?m]) = set [?m]"
    by (rule demo_served) (use demo_manifest_ok [OF assms, of n r] in auto)
  show "anchored_on (served_manifests demo_prims man_dec (demo_bucket [?m]) ''t'' (map (\<lambda>m. manifest_key ''t'' (tm_version m)) [?m]))
      (Some (demo_addr a)) (demo_addr a)" by (simp add: anchored_on_def)
  show "governs (served_manifests demo_prims man_dec (demo_bucket [?m]) ''t'' (map (\<lambda>m. manifest_key ''t'' (tm_version m)) [?m]))
      (demo_addr a) ?m"
    unfolding S using assms by (auto simp: governs_def anchors_def successors_def)
qed

section \<open>Properties\<close>

text \<open>C22. Loading never fails over what lies under the prefix, and the manifest it elects governs by custody: it is
  one of the objects stored at the key of its own signed version, signed by the key its founder address
  names and bound to this team; it is reached from the oldest manifest of the configured founder (without
  one, of the founder of the oldest manifest) by steps each signed by the founder key or the trusted
  recovery key of the one before; and nothing newer is authorized by it. No manifest is elected only if
  that founder has none.\<close>

theorem manifest_by_custody:
  assumes "bv_list bv (manifest_prefix team) = Inr keys"
  shows "\<exists>r. load_manifest P dec bv team pin = Inr r \<and>
    (case r of
       Some m \<Rightarrow> \<exists>f. anchored_on (served_manifests P dec bv team keys) pin f \<and>
         governs (served_manifests P dec bv team keys) f m
     | None \<Rightarrow> \<forall>f. anchored_on (served_manifests P dec bv team keys) pin f \<longrightarrow>
         (\<forall>c\<in>served_manifests P dec bv team keys. \<not> can_anchor f c))"
  by (rule load_manifest_governs [OF assms])

theorem manifest_by_custody_witness:
  "load_manifest demo_prims man_dec (demo_bucket [demo_outsider, demo_recovered, demo_founding]) ''t'' (Some (demo_addr 1)) =
     Inr (Some demo_recovered)"
proof -
  let ?ms = "[demo_outsider, demo_recovered, demo_founding]"
  note S = demo_governs [of ?ms, OF disjI1, OF refl]
  obtain r where r: "load_manifest demo_prims man_dec (demo_bucket ?ms) ''t'' (Some (demo_addr 1)) = Inr r"
      "case r of Some m \<Rightarrow> governs (set ?ms) (demo_addr 1) m | None \<Rightarrow> \<forall>c\<in>set ?ms. \<not> can_anchor (demo_addr 1) c"
    using manifest_by_custody [OF demo_bucket_list, where ms1 = ?ms and team = "''t''" and P = demo_prims and dec = man_dec and pin = "Some (demo_addr 1)"]
    unfolding S(1) by (auto simp: anchored_on_def split: option.splits)
  have inj: "inj_on tm_version (set ?ms)" unfolding S(1) [symmetric] by (rule served_inj)
  have "can_anchor (demo_addr 1) demo_founding" "demo_founding \<in> set ?ms" by simp_all
  then obtain m where "r = Some m" "governs (set ?ms) (demo_addr 1) m" using r(2) by (cases r) auto
  with r(1) governs_unique [OF inj _ S(2)] show ?thesis by blast
qed





definition demo_signer :: "byte \<Rightarrow> signer" where
  "demo_signer a = \<lparr>signer_sign = (\<lambda>_. replicate 64 a), signer_verifying_key = replicate 32 a, signer_author_ss58 = demo_addr a\<rparr>"

lemma demo_signer_verifies: "verify demo_prims (replicate 32 1) msg (replicate 64 1)"
  by (simp add: verify_def is_identity_point_def) (simp add: demo_prims_def)

text \<open>A founder's membership change takes effect: on a store where the local signer's address is the live
  founder's, publishing succeeds, and the next load, by anybody with the same configuration, elects exactly
  the new manifest, with the given members and the founder, one version up and with the live recovery key
  carried over, unless the version is already the greatest there is.\<close>

theorem publish_membership_takes_effect:
  assumes "mem_inv s" and "load_manifest P dec (memory.view s) team pin = Inr (Some live)"
    and "tm_founder live = signer_author_ss58 sg" and "tm_version live \<noteq> - 1" and "pin \<in> {None, Some (signer_author_ss58 sg)}"
    and "\<And>msg. verify P (signer_verifying_key sg) msg (signer_sign sg msg)"
    and "address_names_key P (signer_author_ss58 sg) (signer_verifying_key sg)" and "\<And>m. dec (enc m) = Some m"
  shows "\<exists>s' m. publish_membership P dec enc memory.view mem_put sg team pin ms s = Inr s' \<and>
    load_manifest P dec (memory.view s') team pin = Inr (Some m) \<and>
    tm_members m = finsert (signer_author_ss58 sg) ms \<and> tm_version m = tm_version live + 1 \<and>
    tm_recovery_key m = trusted_recovery_key live"
proof -
  let ?v = "u64_saturating_succ (tm_version live)" and ?rk = "trusted_recovery_key live"
  let ?new = "manifest_create_signed_with_recovery sg team ms ?v ?rk"
  have v: "?v = tm_version live + 1" "tm_version live < ?v" using assms(4)
    by (simp_all add: u64_saturating_succ_gt) (simp add: u64_saturating_succ_def)
  have ok: "manifest_verify P ?new" by (rule created_manifest [OF assms(6,7)])
  obtain s' where put: "mem_put s (manifest_key team ?v) (enc ?new) = Inr s'" by (simp add: mem_put_def)
  have publish: "publish_membership P dec enc memory.view mem_put sg team pin ms s = Inr s'"
    using assms(2,3,5) ok put by (auto simp: publish_membership_def publish_manifest_def)
  obtain ks ks' where ks: "mem_list s (manifest_prefix team) = Inr ks" "mem_list s' (manifest_prefix team) = Inr ks'"
    by (simp add: mem_list_def)
  then have lists: "bv_list (memory.view s) (manifest_prefix team) = Inr ks" "bv_list (memory.view s') (manifest_prefix team) = Inr ks'"
    by (simp_all add: memory.view_def)
  let ?S = "served_manifests P dec (memory.view s) team ks" and ?S' = "served_manifests P dec (memory.view s') team ks'"
  obtain f where f: "anchored_on ?S pin f" "governs ?S f live"
    using load_manifest_governs [OF lists(1), of P dec pin] assms(2) by auto
  then have live: "live \<in> ?S" unfolding governs_def anchors_def by (auto dest: succeeds_mem)
  then have "address_names_key P (signer_author_ss58 sg) (tm_founder_key live)" "\<not> is_identity_point (tm_founder_key live)"
    using assms(3) by (auto simp: served_manifests_def manifest_at_Some manifest_verify_def)
  then have key: "tm_founder_key live = signer_verifying_key sg" and id: "\<not> is_identity_point (signer_verifying_key sg)"
    using address_names_one_key [OF _ assms(7)] by metis+
  have "manifest_at P dec (memory.view s') team (manifest_key team ?v) = Some ?new"
    using ok id assms(8) memory.get_put [OF put] by (simp add: manifest_at_Some memory.view_def)
  then have S': "?S' = replaced ?S ?new"
    unfolding memory.served_after_put [OF assms(1) put ks] by (auto simp: replaced_def)
  have between: "\<not> w < ?v" if "tm_version live < w" for w
    using that v(1) by (metis inc_le leD)
  have "governs ?S' f ?new"
    unfolding S' by (rule governs_next [OF f(2)]) (use v(2) key id between in auto)
  moreover have "anchored_on ?S' pin f"
    unfolding S' by (rule anchored_next [OF f]) (use v(2) in \<open>auto simp: can_anchor_def served_manifests_def manifest_at_Some\<close>)
  ultimately have "load_manifest P dec (memory.view s') team pin = Inr (Some ?new)"
    using load_manifest_unique [OF lists(2)] by blast
  with publish v(1) show ?thesis by (intro exI [of _ s'] exI [of _ ?new]) simp
qed

theorem publish_membership_takes_effect_witness:
  "\<exists>s' m. publish_membership demo_prims man_dec man_enc memory.view mem_put (demo_signer 1) ''t'' None {|''x''|}
       (Mapping.update (manifest_key ''t'' 0) (man_enc demo_founding) Mapping.empty) = Inr s' \<and>
     load_manifest demo_prims man_dec (memory.view s') ''t'' None = Inr (Some m) \<and>
     tm_members m = {|demo_addr 1, ''x''|} \<and> tm_version m = 1 \<and> tm_recovery_key m = Some (replicate 32 2)"
proof -
  let ?s = "Mapping.update (manifest_key ''t'' 0) (man_enc demo_founding) Mapping.empty"
  have list: "bv_list (memory.view ?s) (manifest_prefix ''t'') = Inr [manifest_key ''t'' 0]"
    by (simp add: memory.view_def mem_list_def Mapping.ordered_keys_def manifest_prefix_def manifest_key_def)
  have S: "served_manifests demo_prims man_dec (memory.view ?s) ''t'' [manifest_key ''t'' 0] = {demo_founding}"
    using demo_manifest_ok [of 1 0 "Some 2"]
    by (auto simp: served_manifests_def manifest_at_Some memory.view_def mem_get_def lookup_update' man_dec_enc)
  have load: "load_manifest demo_prims man_dec (memory.view ?s) ''t'' None = Inr (Some demo_founding)"
    by (rule load_manifest_unique [OF list, where f = "demo_addr 1"], unfold S)
      (auto simp: anchored_on_def first_manifest_def governs_def anchors_def successors_def)
  have "trusted_recovery_key demo_founding = Some (replicate 32 2)"
    by (simp add: trusted_recovery_key_def is_identity_point_def)
  moreover have "\<exists>s' m. publish_membership demo_prims man_dec man_enc memory.view mem_put (demo_signer 1) ''t'' None {|''x''|} ?s = Inr s' \<and>
      load_manifest demo_prims man_dec (memory.view s') ''t'' None = Inr (Some m) \<and>
      tm_members m = finsert (signer_author_ss58 (demo_signer 1)) {|''x''|} \<and> tm_version m = tm_version demo_founding + 1 \<and>
      tm_recovery_key m = trusted_recovery_key demo_founding"
    by (rule publish_membership_takes_effect [OF _ load])
      (simp_all add: mem_inv_def demo_signer_def man_dec_enc demo_addr_names demo_signer_verifies)
  ultimately show ?thesis by (simp add: demo_signer_def)
qed

text \<open>The marker does not survive a recovery: a machine that still has the first founder configured applies the
  manifest the recovery key's holder signed and writes it to its marker, but after a restart it refuses that
  marker because it names another founder, so a bucket that withholds the newer manifest rolls membership
  back to the version before the recovery, with the newer manifest on the local disk.\<close>

theorem recovered_marker_ignored:
  "\<exists>d. current_manifest demo_prims man_dec man_enc (demo_bucket [demo_recovered, demo_founding]) ''t'' (Some (demo_addr 1))
         (Some (''d'', ''f'')) quiet_env None Mapping.empty = (Inr (Some demo_recovered), Some demo_recovered, d) \<and>
     Option.bind (Mapping.lookup d (''d'', ''f'')) man_dec = Some demo_recovered \<and>
     (\<exists>d'. current_manifest demo_prims man_dec man_enc (demo_bucket [demo_founding]) ''t'' (Some (demo_addr 1))
         (Some (''d'', ''f'')) quiet_env None d = (Inr (Some demo_founding), Some demo_founding, d'))"
proof -
  let ?p = "(''d'', ''f'')"
  obtain d where d: "marker_write quiet_env Mapping.empty ?p (man_enc demo_recovered) = (Inr (), d)"
    by (simp add: marker_write_def write_atomically_def quiet_env_def create_in_with_def CREATE_ATTEMPTS_def numeral_eq_Suc
        open_exclusive_def parent_dir_def persist_temp_def Let_def lookup_update' lookup_delete_iff lookup_empty)
  have on_disk: "Mapping.lookup d ?p = Some (man_enc demo_recovered)"
    by (rule manifest_file.wr_ok [OF _ d]) (simp add: target_ok_def)
  note S = demo_governs [OF disjI2, OF refl]
  have new: "load_manifest demo_prims man_dec (demo_bucket [demo_recovered, demo_founding]) ''t'' (Some (demo_addr 1)) = Inr (Some demo_recovered)"
    by (rule load_manifest_unique [OF demo_bucket_list, where f = "demo_addr 1"], unfold S(1))
      (use S(2) in \<open>simp_all add: anchored_on_def\<close>)
  have old: "load_manifest demo_prims man_dec (demo_bucket [demo_founding]) ''t'' (Some (demo_addr 1)) = Inr (Some demo_founding)"
    by (rule demo_load_one) simp
  have "read_file quiet_env Mapping.empty ?p = Inl IoNotFound" "read_file quiet_env d ?p = Inr (man_enc demo_recovered)"
    by (simp_all add: read_file_def quiet_env_def lookup_empty on_disk)
  then have mk: "load_verified_marker demo_prims man_dec ''t'' quiet_env Mapping.empty (Some ?p) (Some (demo_addr 1)) = None"
      "load_verified_marker demo_prims man_dec ''t'' quiet_env d (Some ?p) (Some (demo_addr 1)) = None"
    by (simp_all add: load_verified_marker_def marker_load_def man_dec_enc manifest_is_trusted_def)
  show ?thesis
    by (rule exI [of _ d], intro conjI)
      (simp_all add: current_manifest_def new old mk Let_def monotonic_manifest_def marker_store_def d on_disk man_dec_enc)
qed

end
