(* ===== verification/Writer.thy ===== *)
theory Writer
  imports Watermark
begin

text \<open>
  One machine writing its author's chain: the cross-process writer lock with the shared tip file
  (\<^verbatim>\<open>oplog/writer_lock.rs\<close>), the op clock and the write path of \<^verbatim>\<open>store/mod.rs\<close> that every mutation goes
  through: adopt the tip, mint, append, reclaim on failure, record the tip, publish the head. The bucket is a
  key-value map whose calls can fail with or without having taken effect.
\<close>

section \<open>The writer lock\<close>

definition TIP_FILE_VERSION :: u32 where "TIP_FILE_VERSION = 1"

text \<open>Milliseconds.\<close>

definition ACQUIRE_TIMEOUT :: nat where "ACQUIRE_TIMEOUT = 10000"
definition POLL_INTERVAL :: nat where "POLL_INTERVAL = 25"

record shared_tip =
  sh_lamport :: u64
  sh_tip_hash :: blake3_hash

record tip_file =
  tf_version :: u32
  tf_tip :: shared_tip

datatype try_lock = Locked | WouldBlock | LockError

text \<open>\<open>now i\<close> is the clock at the \<open>i\<close>-th check of the deadline; the result says whether the lock is held.\<close>

partial_function (option) acquire_loop :: "(nat \<Rightarrow> try_lock) \<Rightarrow> (nat \<Rightarrow> nat) \<Rightarrow> nat \<Rightarrow> nat \<Rightarrow> bool option" where
  "acquire_loop attempt now deadline i =
     (case attempt i of
        Locked \<Rightarrow> Some True
      | LockError \<Rightarrow> Some False
      | WouldBlock \<Rightarrow>
          if now i \<ge> deadline then Some False
          else acquire_loop attempt now deadline (i + 1))"

definition acquire :: "io_error option \<Rightarrow> (nat \<Rightarrow> try_lock) \<Rightarrow> nat \<Rightarrow> (nat \<Rightarrow> nat) \<Rightarrow> bool option" where
  "acquire open_lock_file attempt started now =
     (case open_lock_file of
        Some _ \<Rightarrow> Some False
      | None \<Rightarrow> acquire_loop attempt now (started + ACQUIRE_TIMEOUT) 0)"

text \<open>The guard's operations.\<close>

definition read_shared_tip :: "(bytes \<Rightarrow> tip_file option) \<Rightarrow> io_env \<Rightarrow> disk \<Rightarrow> path \<Rightarrow> shared_tip option" where
  "read_shared_tip dec e d p =
     (case read_file e d p of
        Inl _ \<Rightarrow> None
      | Inr bs \<Rightarrow>
          (case dec bs of
             None \<Rightarrow> None
           | Some tf \<Rightarrow> if tf_version tf \<noteq> TIP_FILE_VERSION then None else Some (tf_tip tf)))"

definition write_tip :: "(tip_file \<Rightarrow> bytes) \<Rightarrow> io_env \<Rightarrow> disk \<Rightarrow> path \<Rightarrow> shared_tip \<Rightarrow> (mem_error + unit) \<times> disk" where
  "write_tip enc e d p tp =
     (let (r, d') = tip_write e d p (enc \<lparr>tf_version = TIP_FILE_VERSION, tf_tip = tp\<rparr>)
      in (case r of Inl _ \<Rightarrow> Inl Io | Inr u \<Rightarrow> Inr u, d'))"

definition record_tip ::
    "(bytes \<Rightarrow> tip_file option) \<Rightarrow> (tip_file \<Rightarrow> bytes) \<Rightarrow> io_env \<Rightarrow> disk \<Rightarrow> path \<Rightarrow> shared_tip \<Rightarrow> disk" where
  "record_tip dec enc e d p tp =
     (case read_shared_tip dec e d p of
        Some existing \<Rightarrow> if sh_lamport existing \<ge> sh_lamport tp then d else snd (write_tip enc e d p tp)
      | None \<Rightarrow> snd (write_tip enc e d p tp))"

section \<open>The op clock\<close>

record op_clock =
  ck_lamport_tip :: u64
  ck_my_last_lamport :: u64
  ck_my_last_hash :: blake3_hash

definition fresh_clock :: op_clock where
  "fresh_clock = \<lparr>ck_lamport_tip = 0, ck_my_last_lamport = 0, ck_my_last_hash = GENESIS_PREV\<rparr>"

definition adopt_shared_tip :: "op_clock \<Rightarrow> shared_tip option \<Rightarrow> op_clock" where
  "adopt_shared_tip clock guard_tip =
     (case guard_tip of
        None \<Rightarrow> clock
      | Some tp \<Rightarrow>
          if sh_lamport tp \<le> ck_my_last_lamport clock then clock
          else clock\<lparr>ck_my_last_lamport := sh_lamport tp, ck_my_last_hash := sh_tip_hash tp,
                     ck_lamport_tip := max (ck_lamport_tip clock) (sh_lamport tp)\<rparr>)"

record own_write_stamp =
  ow_hash :: blake3_hash
  ow_lamport :: u64

definition own_write_stamp_of :: "op_clock \<Rightarrow> own_write_stamp" where
  "own_write_stamp_of clock = \<lparr>ow_hash = ck_my_last_hash clock, ow_lamport = ck_my_last_lamport clock\<rparr>"

datatype own_view = Complete | Lagging u64

text \<open>The re-seed of the clock after a read (\<^verbatim>\<open>read_filtered\<close>): the own ops of the verified log, the greatest Lamport
  time of the members' view.\<close>

definition reseed_clock :: "prims \<Rightarrow> ss58 \<Rightarrow> op list \<Rightarrow> u64 \<Rightarrow> bool \<Rightarrow> op_clock \<Rightarrow> op_clock \<times> own_view" where
  "reseed_clock P author ops members_tip own_chain_quarantined clock =
     (let mine = filter (\<lambda>x. op_author x = author) ops;
          my_last_raw = (case rev mine of [] \<Rightarrow> None | x # _ \<Rightarrow> Some (op_lamport x, op_hash P x));
          my_raw_tip = (case my_last_raw of None \<Rightarrow> 0 | Some (lamport, _) \<Rightarrow> lamport);
          clock1 = clock\<lparr>ck_lamport_tip := max (max (ck_lamport_tip clock) members_tip) my_raw_tip\<rparr>;
          head_visible = (ck_my_last_hash clock = GENESIS_PREV \<or> ck_my_last_hash clock \<in> set (map (op_hash P) mine));
          clock2 =
            (if head_visible
             then clock1\<lparr>ck_my_last_lamport := (case my_last_raw of None \<Rightarrow> 0 | Some (lamport, _) \<Rightarrow> lamport),
                         ck_my_last_hash := (case my_last_raw of None \<Rightarrow> GENESIS_PREV | Some (_, h) \<Rightarrow> h)\<rparr>
             else clock1)
      in (clock2, if head_visible \<or> own_chain_quarantined then Complete else Lagging my_raw_tip))"

section \<open>The bucket under faults\<close>

text \<open>A call is done, is done but its reply is lost, or is refused.\<close>

datatype fate = Done | ReplyLost | Refused

definition faulty_put :: "fate \<Rightarrow> memory_blob_store \<Rightarrow> string \<Rightarrow> bytes \<Rightarrow> (mem_error + unit) \<times> memory_blob_store" where
  "faulty_put f b key bs =
     (case f of
        Done \<Rightarrow> (Inr (), Mapping.update key bs b)
      | ReplyLost \<Rightarrow> (Inl (Storage ''reply lost''), Mapping.update key bs b)
      | Refused \<Rightarrow> (Inl (Storage ''refused''), b))"

definition faulty_delete :: "fate \<Rightarrow> memory_blob_store \<Rightarrow> string \<Rightarrow> (mem_error + unit) \<times> memory_blob_store" where
  "faulty_delete f b key =
     (case f of
        Done \<Rightarrow> (Inr (), Mapping.delete key b)
      | ReplyLost \<Rightarrow> (Inl (Storage ''reply lost''), Mapping.delete key b)
      | Refused \<Rightarrow> (Inl (Storage ''refused''), b))"

section \<open>The write path\<close>

record op_target =
  tg_note_id :: note_id
  tg_object_key :: string
  tg_cid :: blake3_hash
  tg_key_epoch :: u64

text \<open>What a store is built with, the wire formats among it; \<open>wc_tip\<close> is the tip file's path when a writer lock is
  attached, \<open>wc_marks\<close> the watermark file's.\<close>

record writer_config =
  wc_prims :: prims
  wc_team :: string
  wc_signer :: signer
  wc_enc_op :: "op \<Rightarrow> bytes"
  wc_enc_head :: "head_pointer \<Rightarrow> bytes"
  wc_dec_tip :: "bytes \<Rightarrow> tip_file option"
  wc_enc_tip :: "tip_file \<Rightarrow> bytes"
  wc_dec_marks :: "bytes \<Rightarrow> watermark_file option"
  wc_enc_marks :: "watermark_file \<Rightarrow> bytes"
  wc_tip :: "path option"
  wc_marks :: "path option"

text \<open>How the outside behaves during one write: whether the lock is obtained, what becomes of the calls to the
  bucket, what the system answers to the calls on the tip and the watermark file.\<close>

record write_env =
  we_lock :: bool
  we_append :: fate
  we_reclaim :: fate
  we_head :: fate
  we_tip_io :: io_env
  we_record_io :: io_env
  we_marks_io :: io_env

text \<open>What one write works on: this process's clock and marks, the bucket, the machine's disk.\<close>

record write_state =
  ws_clock :: op_clock
  ws_marks :: marks
  ws_bucket :: memory_blob_store
  ws_disk :: disk

text \<open>The tip file's path if the lock is held.\<close>

definition lock_across_processes :: "writer_config \<Rightarrow> write_env \<Rightarrow> path option" where
  "lock_across_processes c env = (case wc_tip c of None \<Rightarrow> None | Some p \<Rightarrow> if we_lock env then Some p else None)"

definition publish_head_for_tip :: "writer_config \<Rightarrow> write_env \<Rightarrow> u64 \<Rightarrow> blake3_hash \<Rightarrow> write_state \<Rightarrow> write_state" where
  "publish_head_for_tip c env lamport tip_h s =
     (let head = head_create_signed (wc_signer c) (wc_team c) lamport tip_h;
          (r, b) = publish_head (wc_enc_head c) (faulty_put (we_head env)) (ws_bucket s) (wc_team c) head;
          s' = s\<lparr>ws_bucket := b\<rparr>
      in case r of
           Inl _ \<Rightarrow> s'
         | Inr _ \<Rightarrow>
             (case wc_marks c of
                None \<Rightarrow> s'
              | Some p \<Rightarrow>
                  let (ms, d) = record_published_head (wc_dec_marks c) (wc_enc_marks c) read_file wm_write (we_marks_io env) p
                                  (ws_marks s') (ws_disk s') head
                  in s'\<lparr>ws_marks := ms, ws_disk := d\<rparr>))"

definition append_under_serialization ::
    "writer_config \<Rightarrow> write_env \<Rightarrow> ulid \<Rightarrow> op_kind \<Rightarrow> op_target \<Rightarrow> write_state \<Rightarrow> (mem_error + op) \<times> write_state" where
  "append_under_serialization c env opid kind target s =
     (let cross = lock_across_processes c env;
          clock = (case cross of
                     None \<Rightarrow> ws_clock s
                   | Some p \<Rightarrow> adopt_shared_tip (ws_clock s) (read_shared_tip (wc_dec_tip c) (we_tip_io env) (ws_disk s) p));
          lamport = u64_saturating_succ (ck_lamport_tip clock);
          x = create_signed (wc_signer c)
                \<lparr>oc_op_id = opid, oc_lamport = lamport, oc_key_epoch = tg_key_epoch target, oc_kind = kind,
                 oc_note_id = tg_note_id target, oc_object_key = tg_object_key target, oc_cid = tg_cid target,
                 oc_prev_op_hash = ck_my_last_hash clock\<rparr>;
          (r, b) = append_op (wc_enc_op c) (faulty_put (we_append env)) (ws_bucket s) (wc_team c) x
      in case r of
           Inl e \<Rightarrow>
             (Inl e, s\<lparr>ws_clock := clock,
                       ws_bucket := reclaim_failed_append (faulty_delete (we_reclaim env)) b (wc_team c) x\<rparr>)
         | Inr _ \<Rightarrow>
             let last = op_hash (wc_prims c) x;
                 s1 = s\<lparr>ws_bucket := b,
                        ws_clock := clock\<lparr>ck_lamport_tip := lamport, ck_my_last_lamport := lamport, ck_my_last_hash := last\<rparr>\<rparr>;
                 s2 = (case cross of
                         None \<Rightarrow> s1
                       | Some p \<Rightarrow>
                           s1\<lparr>ws_disk := record_tip (wc_dec_tip c) (wc_enc_tip c) (we_record_io env) (ws_disk s1) p
                                           \<lparr>sh_lamport = lamport, sh_tip_hash = last\<rparr>\<rparr>)
             in (Inr x, publish_head_for_tip c env lamport last s2))"

definition mint_and_append ::
    "writer_config \<Rightarrow> write_env \<Rightarrow> ulid \<Rightarrow> op_kind \<Rightarrow> op_target \<Rightarrow> write_state \<Rightarrow> (mem_error + op) \<times> write_state" where
  "mint_and_append c env opid kind target s = append_under_serialization c env opid kind target s"

text \<open>Reclaims the ciphertext if the op that names it was not appended.\<close>

definition append_naming_blob ::
    "writer_config \<Rightarrow> write_env \<Rightarrow> fate \<Rightarrow> ulid \<Rightarrow> op_kind \<Rightarrow> op_target \<Rightarrow> write_state \<Rightarrow> (mem_error + op) \<times> write_state" where
  "append_naming_blob c env cleanup opid kind target s =
     (case mint_and_append c env opid kind target s of
        (Inr x, s') \<Rightarrow> (Inr x, s')
      | (Inl e, s') \<Rightarrow> (Inl e, s'\<lparr>ws_bucket := snd (faulty_delete cleanup (ws_bucket s') (tg_object_key target))\<rparr>))"

section \<open>Taking the lock\<close>

lemma acquire_loop_returns:
  assumes "deadline \<le> now (i + n)"
  shows "acquire_loop attempt now deadline i =
    Some (\<exists>k. attempt (i + k) = Locked \<and> (\<forall>j<k. attempt (i + j) = WouldBlock \<and> now (i + j) < deadline))"
    (is "_ = Some (?held i)")
  using assms
proof (induction n arbitrary: i)
  case (0 i)
  then have "\<not> now i < deadline" by simp
  then have "?held i \<longleftrightarrow> attempt i = Locked"
    by (metis add.right_neutral gr0I less_nat_zero_code)
  with 0 show ?case by (subst acquire_loop.simps) (auto split: try_lock.splits)
next
  case (Suc n i)
  have rec: "acquire_loop attempt now deadline (i + 1) = Some (?held (i + 1))" by (rule Suc.IH) (use Suc.prems in simp)
  show ?case
  proof (cases "attempt i = WouldBlock \<and> now i < deadline")
    case True
    have "?held i \<longleftrightarrow> ?held (i + 1)"
    proof
      assume "?held i"
      then obtain k where k: "attempt (i + k) = Locked" "\<forall>j<k. attempt (i + j) = WouldBlock \<and> now (i + j) < deadline" by blast
      with True obtain k' where "k = Suc k'" by (cases k) auto
      with k show "?held (i + 1)" by (intro exI [of _ k']) auto
    next
      assume "?held (i + 1)"
      then obtain k where k: "attempt (i + 1 + k) = Locked" "\<forall>j<k. attempt (i + 1 + j) = WouldBlock \<and> now (i + 1 + j) < deadline" by blast
      have "attempt (i + j) = WouldBlock \<and> now (i + j) < deadline" if "j < Suc k" for j
        using that True k(2) by (cases j) auto
      with k(1) show "?held i" by (intro exI [of _ "Suc k"]) auto
    qed
    with True rec show ?thesis by (subst acquire_loop.simps) auto
  next
    case False
    then have "?held i \<longleftrightarrow> attempt i = Locked"
      by (metis add.right_neutral gr0I less_nat_zero_code)
    with False show ?thesis by (subst acquire_loop.simps) (auto split: try_lock.splits)
  qed
qed

section \<open>Properties of the lock\<close>

text \<open>Taking the writer lock ends whatever the peers do: with the clock moving by at least the poll interval
  between two checks, the loop returns, and says the lock is held exactly when one of at most 401 attempts found
  it free, every earlier one found it taken and none of them ran past the ten seconds.\<close>

theorem acquire_returns:
  assumes "started \<le> now 0" and "\<forall>i. now i + POLL_INTERVAL \<le> now (i + 1)"
  shows "acquire open_lock_file attempt started now =
    Some (open_lock_file = None \<and>
      (\<exists>k\<le>400. attempt k = Locked \<and> (\<forall>j<k. attempt j = WouldBlock \<and> now j < started + ACQUIRE_TIMEOUT)))"
proof -
  have clock: "started + 25 * n \<le> now n" for n
  proof (induction n)
    case (Suc n)
    have "now n + 25 \<le> now (Suc n)" using assms(2) by (simp add: POLL_INTERVAL_def)
    with Suc show ?case by simp
  qed (use assms(1) in simp)
  have late: "\<not> now 400 < started + ACQUIRE_TIMEOUT" using clock [of 400] by (simp add: ACQUIRE_TIMEOUT_def)
  have "k \<le> 400" if "\<forall>j<k. now j < started + ACQUIRE_TIMEOUT" for k
    using that late by (meson not_less)
  then have bound: "(\<exists>k. attempt k = Locked \<and> (\<forall>j<k. attempt j = WouldBlock \<and> now j < started + ACQUIRE_TIMEOUT)) \<longleftrightarrow>
      (\<exists>k\<le>400. attempt k = Locked \<and> (\<forall>j<k. attempt j = WouldBlock \<and> now j < started + ACQUIRE_TIMEOUT))" by blast
  have "acquire_loop attempt now (started + ACQUIRE_TIMEOUT) 0 =
      Some (\<exists>k. attempt k = Locked \<and> (\<forall>j<k. attempt j = WouldBlock \<and> now j < started + ACQUIRE_TIMEOUT))"
    using acquire_loop_returns [of "started + ACQUIRE_TIMEOUT" now 0 400 attempt] late by simp
  then show ?thesis unfolding bound by (auto simp: acquire_def split: option.splits)
qed

theorem acquire_returns_witness:
  "acquire None (\<lambda>i. if i < 3 then WouldBlock else Locked) 0 (\<lambda>i. 30 * i) = Some True"
proof -
  have "acquire None (\<lambda>i. if i < 3 then WouldBlock else Locked) 0 (\<lambda>i. 30 * i) =
    Some (None = (None :: io_error option) \<and> (\<exists>k\<le>400. (if k < (3::nat) then WouldBlock else Locked) = Locked \<and>
      (\<forall>j<k. (if j < 3 then WouldBlock else Locked) = WouldBlock \<and> 30 * j < 0 + ACQUIRE_TIMEOUT)))"
    by (rule acquire_returns) (auto simp: POLL_INTERVAL_def)
  also have "\<dots> = Some True"
    by (simp add: ACQUIRE_TIMEOUT_def) (intro exI [of _ 3]; simp)
  finally show ?thesis .
qed

section \<open>Specification: the processes of one machine\<close>

text \<open>The disk and the bucket the processes share, what each running process keeps in memory, and the ops whose
  write was acknowledged, in that order.\<close>

record machine =
  mc_bucket :: memory_blob_store
  mc_disk :: disk
  mc_procs :: "nat \<Rightarrow> (op_clock \<times> marks) option"
  mc_acked :: "op list"

definition stored :: "writer_config \<Rightarrow> memory_blob_store \<Rightarrow> op \<Rightarrow> bool" where
  "stored c b x \<longleftrightarrow> Mapping.lookup b (oplog_object_key (wc_team c) x) = Some (wc_enc_op c x)"

definition own :: "writer_config \<Rightarrow> op \<Rightarrow> bool" where
  "own c x \<longleftrightarrow> op_author_key x = signer_verifying_key (wc_signer c)"

text \<open>A writer lock is attached, its tip file is not the watermark file nor named like a temp file, the formats
  are read back, the signer's address is its key's.\<close>

definition config_ok :: "writer_config \<Rightarrow> path \<Rightarrow> bool" where
  "config_ok c p \<longleftrightarrow>
     wc_tip c = Some p \<and> target_ok ''.writer-tip-'' p \<and>
     (case wc_marks c of None \<Rightarrow> True | Some q \<Rightarrow> q \<noteq> p \<and> target_ok ''.head-watermarks-'' q) \<and>
     (\<forall>f. wc_dec_tip c (wc_enc_tip c f) = Some f) \<and> inj (wc_enc_op c) \<and>
     address_names_key (wc_prims c) (signer_author_ss58 (wc_signer c)) (signer_verifying_key (wc_signer c))"

text \<open>A write under the lock whose calls on the tip file succeed and whose append, if its reply is lost, is
  reclaimed; the bucket may refuse it, and the head may be lost.\<close>

definition serialized :: "write_env \<Rightarrow> disk \<Rightarrow> path \<Rightarrow> bool" where
  "serialized env d p \<longleftrightarrow>
     we_lock env \<and> \<not> io_read_fails (we_tip_io env) \<and>
     (\<forall>bs. fst (tip_write (we_record_io env) d p bs) = Inr ()) \<and>
     \<not> (we_append env = ReplyLost \<and> we_reclaim env = Refused)"

text \<open>The Lamport times have not reached the end of their range.\<close>

definition below_max :: "op_clock \<Rightarrow> op list \<Rightarrow> bool" where
  "below_max clock acked \<longleftrightarrow> ck_lamport_tip clock \<noteq> - 1 \<and> (\<forall>x\<in>set acked. op_lamport x \<noteq> - 1)"

text \<open>What a verified read can show of this author: ops whose address is its key's, from the bucket; possibly
  not all of them.\<close>

definition shows_own :: "writer_config \<Rightarrow> memory_blob_store \<Rightarrow> op list \<Rightarrow> bool" where
  "shows_own c b ops \<longleftrightarrow>
     (\<forall>x\<in>set ops. op_author x = signer_author_ss58 (wc_signer c) \<longrightarrow> verify_identity (wc_prims c) x \<and> stored c b x)"

inductive machine_step :: "writer_config \<Rightarrow> path \<Rightarrow> machine \<Rightarrow> machine \<Rightarrow> bool" for c p where
  boot: "mc_procs m i = None \<Longrightarrow>
    machine_step c p m (m\<lparr>mc_procs := (mc_procs m)(i \<mapsto> (fresh_clock, load_marks (wc_dec_marks c) read_file e (mc_disk m) q))\<rparr>)"
| quit: "machine_step c p m (m\<lparr>mc_procs := (mc_procs m)(i := None)\<rparr>)"
| wrote: "mc_procs m i = Some (clock, ms) \<Longrightarrow> serialized env (mc_disk m) p \<Longrightarrow> below_max clock (mc_acked m) \<Longrightarrow>
    mint_and_append c env opid kind target
      \<lparr>ws_clock = clock, ws_marks = ms, ws_bucket = mc_bucket m, ws_disk = mc_disk m\<rparr> = (r, s) \<Longrightarrow>
    machine_step c p m
      \<lparr>mc_bucket = ws_bucket s, mc_disk = ws_disk s, mc_procs = (mc_procs m)(i \<mapsto> (ws_clock s, ws_marks s)),
       mc_acked = mc_acked m @ (case r of Inl _ \<Rightarrow> [] | Inr x \<Rightarrow> [x])\<rparr>"
| synced: "mc_procs m i = Some (clock, ms) \<Longrightarrow> shows_own c (mc_bucket m) ops \<Longrightarrow>
    machine_step c p m
      (m\<lparr>mc_procs := (mc_procs m)(i \<mapsto>
           (fst (reseed_clock (wc_prims c) (signer_author_ss58 (wc_signer c)) ops members_tip quarantined clock), ms'))\<rparr>)"
| others: "(\<And>x. own c x \<Longrightarrow> Mapping.lookup b (oplog_object_key (wc_team c) x) =
      Mapping.lookup (mc_bucket m) (oplog_object_key (wc_team c) x)) \<Longrightarrow>
    Mapping.lookup d p = Mapping.lookup (mc_disk m) p \<Longrightarrow>
    machine_step c p m (m\<lparr>mc_bucket := b, mc_disk := d\<rparr>)"

inductive machine_run :: "writer_config \<Rightarrow> path \<Rightarrow> machine \<Rightarrow> bool" for c p where
  start: "(\<And>x. own c x \<Longrightarrow> \<not> stored c b x) \<Longrightarrow> Mapping.lookup d p = None \<Longrightarrow>
    machine_run c p \<lparr>mc_bucket = b, mc_disk = d, mc_procs = (\<lambda>_. None), mc_acked = []\<rparr>"
| step: "machine_run c p m \<Longrightarrow> machine_step c p m m' \<Longrightarrow> machine_run c p m'"

section \<open>The invariant\<close>

definition tip_of :: "prims \<Rightarrow> op list \<Rightarrow> shared_tip option" where
  "tip_of P acked =
     (if acked = [] then None else Some \<lparr>sh_lamport = op_lamport (last acked), sh_tip_hash = op_hash P (last acked)\<rparr>)"

definition tip_bytes :: "writer_config \<Rightarrow> op list \<Rightarrow> bytes option" where
  "tip_bytes c acked =
     map_option (\<lambda>t. wc_enc_tip c \<lparr>tf_version = TIP_FILE_VERSION, tf_tip = t\<rparr>) (tip_of (wc_prims c) acked)"

definition clock_at :: "prims \<Rightarrow> op list \<Rightarrow> op_clock \<Rightarrow> bool" where
  "clock_at P acked clock \<longleftrightarrow>
     ck_my_last_lamport clock \<le> ck_lamport_tip clock \<and>
     (ck_my_last_lamport clock = 0 \<and> ck_my_last_hash clock = GENESIS_PREV \<or>
      (\<exists>x\<in>set acked. ck_my_last_lamport clock = op_lamport x \<and> ck_my_last_hash clock = op_hash P x))"

definition chain_ok :: "writer_config \<Rightarrow> op list \<Rightarrow> bool" where
  "chain_ok c acked \<longleftrightarrow>
     linked (wc_prims c) (set acked) GENESIS_PREV acked \<and>
     sorted_wrt (\<lambda>x y. op_lamport x < op_lamport y) acked \<and> (\<forall>x\<in>set acked. own c x \<and> 0 < op_lamport x)"

definition machine_ok :: "writer_config \<Rightarrow> path \<Rightarrow> machine \<Rightarrow> bool" where
  "machine_ok c p m \<longleftrightarrow>
     chain_ok c (mc_acked m) \<and>
     Mapping.lookup (mc_disk m) p = tip_bytes c (mc_acked m) \<and>
     (\<forall>i clock ms. mc_procs m i = Some (clock, ms) \<longrightarrow> clock_at (wc_prims c) (mc_acked m) clock) \<and>
     (\<forall>x. own c x \<longrightarrow> (stored c (mc_bucket m) x \<longleftrightarrow> x \<in> set (mc_acked m)))"

lemma create_signed_sel [simp]:
  "op_lamport (create_signed sg oc) = oc_lamport oc" "op_prev_op_hash (create_signed sg oc) = oc_prev_op_hash oc"
  "op_author_key (create_signed sg oc) = signer_verifying_key sg" "op_author (create_signed sg oc) = signer_author_ss58 sg"
  by (simp_all add: create_signed_def Let_def)

lemma fresh_clock_at [simp]: "clock_at P acked fresh_clock"
  by (simp add: clock_at_def fresh_clock_def)

lemma clock_at_mono: "clock_at P acked clock \<Longrightarrow> clock_at P (acked @ xs) clock"
  by (auto simp: clock_at_def)

lemma chain_last_max: "chain_ok c acked \<Longrightarrow> x \<in> set acked \<Longrightarrow> op_lamport x \<le> op_lamport (last acked)"
  by (cases acked rule: rev_cases) (auto simp: chain_ok_def sorted_wrt_append less_imp_le)

lemma chain_last_unique: "chain_ok c acked \<Longrightarrow> x \<in> set acked \<Longrightarrow> op_lamport (last acked) \<le> op_lamport x \<Longrightarrow> x = last acked"
  by (cases acked rule: rev_cases) (auto simp: chain_ok_def sorted_wrt_append dest: leD)

text \<open>A read under the lock puts the process at the end of the machine's chain.\<close>

lemma adopted_clock:
  assumes "chain_ok c acked" and "clock_at (wc_prims c) acked clock"
  defines "a \<equiv> adopt_shared_tip clock (tip_of (wc_prims c) acked)"
  shows "clock_at (wc_prims c) acked a" "ck_my_last_hash a = tip (wc_prims c) GENESIS_PREV acked"
    "x \<in> set acked \<Longrightarrow> op_lamport x \<le> ck_lamport_tip a" "below_max clock acked \<Longrightarrow> ck_lamport_tip a \<noteq> - 1"
proof -
  let ?P = "wc_prims c"
  have *: "clock_at ?P acked a \<and> ck_my_last_hash a = tip ?P GENESIS_PREV acked \<and>
      (x \<in> set acked \<longrightarrow> op_lamport x \<le> ck_lamport_tip a) \<and> (below_max clock acked \<longrightarrow> ck_lamport_tip a \<noteq> - 1)"
  proof (cases "acked = []")
    case True
    with assms(2) show ?thesis by (auto simp: a_def tip_of_def adopt_shared_tip_def clock_at_def below_max_def)
  next
    case False
    let ?l = "last acked"
    have l: "?l \<in> set acked" "0 < op_lamport ?l" using False assms(1) by (auto simp: chain_ok_def)
    have t: "tip ?P GENESIS_PREV acked = op_hash ?P ?l" using False by (rule tip_snoc)
    show ?thesis
    proof (cases "op_lamport ?l \<le> ck_my_last_lamport clock")
      case True
      then have "\<not> ck_my_last_lamport clock = 0" using l(2) by auto
      with assms(2) obtain y where y: "y \<in> set acked" "ck_my_last_lamport clock = op_lamport y" "ck_my_last_hash clock = op_hash ?P y"
        by (auto simp: clock_at_def)
      with True chain_last_unique [OF assms(1) y(1)] have "y = ?l" by simp
      moreover have "a = clock" using True False by (simp add: a_def tip_of_def adopt_shared_tip_def)
      moreover have "op_lamport x \<le> ck_lamport_tip clock" if "x \<in> set acked"
        using chain_last_max [OF assms(1) that] True assms(2) by (auto simp: clock_at_def)
      ultimately show ?thesis using y assms(2) by (auto simp: t below_max_def)
    next
      case older: False
      have a: "a = clock\<lparr>ck_my_last_lamport := op_lamport ?l, ck_my_last_hash := op_hash ?P ?l,
          ck_lamport_tip := max (ck_lamport_tip clock) (op_lamport ?l)\<rparr>"
        using older False by (simp add: a_def tip_of_def adopt_shared_tip_def)
      have "op_lamport x \<le> max (ck_lamport_tip clock) (op_lamport ?l)" if "x \<in> set acked"
        using chain_last_max [OF assms(1) that] by (simp add: le_max_iff_disj)
      with l(1) show ?thesis by (auto simp: a clock_at_def t below_max_def max_def)
    qed
  qed
  show "clock_at ?P acked a" "ck_my_last_hash a = tip ?P GENESIS_PREV acked"
    "x \<in> set acked \<Longrightarrow> op_lamport x \<le> ck_lamport_tip a" "below_max clock acked \<Longrightarrow> ck_lamport_tip a \<noteq> - 1"
    using * by blast+
qed

lemma read_shared_tip_bytes:
  assumes "config_ok c p" and "Mapping.lookup d p = tip_bytes c acked" and "\<not> io_read_fails e"
  shows "read_shared_tip (wc_dec_tip c) e d p = tip_of (wc_prims c) acked"
proof (cases "acked = []")
  case True
  with assms(2,3) show ?thesis by (simp add: read_shared_tip_def read_file_def tip_bytes_def tip_of_def)
next
  case False
  with assms show ?thesis by (simp add: read_shared_tip_def read_file_def tip_bytes_def tip_of_def config_ok_def)
qed

text \<open>Recording a tip later than the one in the file replaces the file.\<close>

lemma record_later_tip:
  assumes "config_ok c p" and "Mapping.lookup d p = tip_bytes c acked" and "\<forall>x\<in>set acked. op_lamport x < sh_lamport t"
    and "\<forall>bs. fst (tip_write e d p bs) = Inr ()"
  shows "Mapping.lookup (record_tip (wc_dec_tip c) (wc_enc_tip c) e d p t) p =
    Some (wc_enc_tip c \<lparr>tf_version = TIP_FILE_VERSION, tf_tip = t\<rparr>)"
proof -
  let ?bs = "wc_enc_tip c \<lparr>tf_version = TIP_FILE_VERSION, tf_tip = t\<rparr>"
  have "read_shared_tip (wc_dec_tip c) e d p = None \<or> read_shared_tip (wc_dec_tip c) e d p = tip_of (wc_prims c) acked"
    using read_shared_tip_bytes [OF assms(1,2)] by (cases "io_read_fails e") (auto simp: read_shared_tip_def read_file_def)
  moreover have "sh_lamport l < sh_lamport t" if "tip_of (wc_prims c) acked = Some l" for l
    using that assms(3) by (auto simp: tip_of_def split: if_splits)
  ultimately have "record_tip (wc_dec_tip c) (wc_enc_tip c) e d p t = snd (write_tip (wc_enc_tip c) e d p t)"
    unfolding record_tip_def by (auto split: option.splits dest: leD)
  also have "\<dots> = snd (tip_write e d p ?bs)" by (simp add: write_tip_def split_beta)
  moreover have "tip_write e d p ?bs = (Inr (), snd (tip_write e d p ?bs))" using assms(4) by (metis prod.collapse)
  ultimately show ?thesis using tip_file.wr_ok [of p e d ?bs "()"] assms(1) by (simp add: config_ok_def)
qed

lemma persist_marks_frame:
  assumes "target_ok ''.head-watermarks-'' q" and "p \<noteq> q" and "Mapping.lookup d p = Some bs"
  shows "Mapping.lookup (persist_marks dec enc read_file wm_write e d q ms) p = Some bs"
  using assms marks_file.wr_frame [of q p d bs e]
  by (simp add: persist_marks_def write_marks_def Let_def split_beta)

lemma publish_head_frame:
  assumes "config_ok c p" and "Mapping.lookup (ws_disk s) p = Some bs"
  shows "Mapping.lookup (ws_disk (publish_head_for_tip c env l h s)) p = Some bs"
    and "ws_clock (publish_head_for_tip c env l h s) = ws_clock s"
    and "stored c (ws_bucket (publish_head_for_tip c env l h s)) x = stored c (ws_bucket s) x"
proof -
  have key: "head_key tm k \<noteq> oplog_object_key tm x" for tm k
    by (simp add: oplog_object_key_def head_key_def)
  show "Mapping.lookup (ws_disk (publish_head_for_tip c env l h s)) p = Some bs"
    using assms persist_marks_frame [of _ p "ws_disk s" bs]
    by (auto simp: publish_head_for_tip_def record_published_head_def Let_def split_beta config_ok_def split: sum.splits option.splits)
  show "ws_clock (publish_head_for_tip c env l h s) = ws_clock s"
    by (auto simp: publish_head_for_tip_def Let_def split_beta split: sum.splits option.splits)
  show "stored c (ws_bucket (publish_head_for_tip c env l h s)) x = stored c (ws_bucket s) x"
    using key by (auto simp: publish_head_for_tip_def publish_head_def faulty_put_def stored_def Let_def split_beta lookup_update'
      split: sum.splits option.splits fate.splits)
qed

text \<open>The op a write under the lock mints, and what its failure or success leaves.\<close>

lemma serialized_write:
  assumes c: "config_ok c p" and chain: "chain_ok c acked" and clk: "clock_at (wc_prims c) acked clock"
    and room: "below_max clock acked" and env: "serialized env d p" and d: "Mapping.lookup d p = tip_bytes c acked"
    and run: "mint_and_append c env opid kind target \<lparr>ws_clock = clock, ws_marks = ms, ws_bucket = b, ws_disk = d\<rparr> = (r, s)"
  obtains (refused) e x where "r = Inl e" "ws_disk s = d" "clock_at (wc_prims c) acked (ws_clock s)" "x \<notin> set acked"
      "\<forall>y\<in>set acked. op_lamport y < op_lamport x"
      "\<forall>k. k \<noteq> oplog_object_key (wc_team c) x \<longrightarrow> Mapping.lookup (ws_bucket s) k = Mapping.lookup b k"
      "Mapping.lookup (ws_bucket s) (oplog_object_key (wc_team c) x) \<in> {None, Mapping.lookup b (oplog_object_key (wc_team c) x)}"
  | (done_) x where "r = Inr x" "chain_ok c (acked @ [x])" "Mapping.lookup (ws_disk s) p = tip_bytes c (acked @ [x])"
      "clock_at (wc_prims c) (acked @ [x]) (ws_clock s)" "\<forall>y\<in>set acked. op_lamport y < op_lamport x"
      "\<forall>y. stored c (ws_bucket s) y \<longleftrightarrow> stored c (Mapping.update (oplog_object_key (wc_team c) x) (wc_enc_op c x) b) y"
proof -
  let ?P = "wc_prims c"
  let ?k = "oplog_object_key (wc_team c)"
  define a where "a = adopt_shared_tip clock (tip_of ?P acked)"
  note a = adopted_clock [OF chain clk, folded a_def]
  define x where "x = create_signed (wc_signer c)
    \<lparr>oc_op_id = opid, oc_lamport = u64_saturating_succ (ck_lamport_tip a), oc_key_epoch = tg_key_epoch target, oc_kind = kind,
     oc_note_id = tg_note_id target, oc_object_key = tg_object_key target, oc_cid = tg_cid target,
     oc_prev_op_hash = ck_my_last_hash a\<rparr>"
  have lx: "op_lamport x = u64_saturating_succ (ck_lamport_tip a)" by (simp add: x_def)
  have up: "ck_lamport_tip a < op_lamport x" unfolding lx by (rule u64_saturating_succ_gt [OF a(4) [OF room]])
  have later: "\<forall>y\<in>set acked. op_lamport y < op_lamport x" using a(3) up by (meson le_less_trans)
  then have fresh: "x \<notin> set acked" by blast
  have cross: "lock_across_processes c env = Some p" using c env by (simp add: lock_across_processes_def config_ok_def serialized_def)
  have read: "read_shared_tip (wc_dec_tip c) (we_tip_io env) d p = tip_of ?P acked"
    using read_shared_tip_bytes [OF c d] env by (simp add: serialized_def)
  note step = run [unfolded mint_and_append_def append_under_serialization_def cross Let_def option.case write_state.simps read,
    folded a_def, folded x_def]
  show ?thesis
  proof (cases "we_append env = Done")
    case False
    define s' where "s' = \<lparr>ws_clock = a, ws_marks = ms,
      ws_bucket = snd (faulty_delete (we_reclaim env) (snd (faulty_put (we_append env) b (?k x) (wc_enc_op c x))) (?k x)), ws_disk = d\<rparr>"
    from step False obtain e where "r = Inl e" and s: "s = s'"
      by (cases "we_append env") (auto simp: append_op_def reclaim_failed_append_def faulty_put_def s'_def)
    then show ?thesis
    proof (rule_tac refused [of e x])
      show "clock_at ?P acked (ws_clock s)" using a(1) by (simp add: s s'_def)
      show "\<forall>k. k \<noteq> ?k x \<longrightarrow> Mapping.lookup (ws_bucket s) k = Mapping.lookup b k"
        and "Mapping.lookup (ws_bucket s) (?k x) \<in> {None, Mapping.lookup b (?k x)}"
        using False env
        by (cases "we_append env"; cases "we_reclaim env";
            simp add: s s'_def faulty_put_def faulty_delete_def map_simps serialized_def)+
    qed (simp_all add: s s'_def fresh later)
  next
    case True
    let ?tip = "\<lparr>sh_lamport = op_lamport x, sh_tip_hash = op_hash ?P x\<rparr>"
    define s1 where "s1 = \<lparr>ws_clock = a\<lparr>ck_lamport_tip := op_lamport x, ck_my_last_lamport := op_lamport x, ck_my_last_hash := op_hash ?P x\<rparr>,
      ws_marks = ms, ws_bucket = Mapping.update (?k x) (wc_enc_op c x) b,
      ws_disk = record_tip (wc_dec_tip c) (wc_enc_tip c) (we_record_io env) d p ?tip\<rparr>"
    from step True have r: "r = Inr x" and s: "s = publish_head_for_tip c env (op_lamport x) (op_hash ?P x) s1"
      by (auto simp: append_op_def faulty_put_def s1_def lx)
    have d1: "Mapping.lookup (ws_disk s1) p = Some (wc_enc_tip c \<lparr>tf_version = TIP_FILE_VERSION, tf_tip = ?tip\<rparr>)"
      using record_later_tip [OF c d, of ?tip] later env by (simp add: s1_def serialized_def)
    note frame = publish_head_frame [OF c d1, of env "op_lamport x" "op_hash ?P x", folded s]
    have "0 < op_lamport x" using up by (rule le_less_trans [OF word_zero_le])
    then have "chain_ok c (acked @ [x])"
      using chain later a(2) linked_mono [of ?P "set acked" GENESIS_PREV acked "insert x (set acked)"]
      by (auto simp: chain_ok_def sorted_wrt_append own_def x_def)
    moreover have "Mapping.lookup (ws_disk s) p = tip_bytes c (acked @ [x])"
      using frame(1) by (simp add: tip_bytes_def tip_of_def)
    moreover have "clock_at ?P (acked @ [x]) (ws_clock s)" by (simp add: frame(2) s1_def clock_at_def)
    moreover have "\<forall>y. stored c (ws_bucket s) y \<longleftrightarrow> stored c (Mapping.update (?k x) (wc_enc_op c x) b) y"
      by (simp add: frame(3) s1_def)
    ultimately show ?thesis using done_ [OF r] later by blast
  qed
qed

text \<open>The re-seed after a read keeps the process on its chain, whatever part of it the read showed.\<close>

lemma reseeded_clock:
  assumes "clock_at P acked clock" and "\<forall>x\<in>set ops. op_author x = author \<longrightarrow> x \<in> set acked"
  shows "clock_at P acked (fst (reseed_clock P author ops members_tip quarantined clock))"
proof (cases "filter (\<lambda>x. op_author x = author) ops" rule: rev_cases)
  case Nil
  with assms(1) show ?thesis by (auto simp: reseed_clock_def Let_def clock_at_def max_def)
next
  case (snoc ys y)
  then have "y \<in> set (filter (\<lambda>x. op_author x = author) ops)" by simp
  with assms(2) have "y \<in> set acked" by simp
  with snoc assms(1) show ?thesis by (auto simp: reseed_clock_def Let_def clock_at_def max_def)
qed

lemma machine_ok_step:
  assumes c: "config_ok c p" and step: "machine_step c p m m'" and ok: "machine_ok c p m"
  shows "machine_ok c p m'"
  using step
proof cases
  case (boot i e q)
  with ok show ?thesis by (auto simp: machine_ok_def split: if_splits)
next
  case (quit i)
  with ok show ?thesis by (auto simp: machine_ok_def split: if_splits)
next
  case (synced i clock ms ops members_tip quarantined ms')
  let ?sg = "wc_signer c"
  have "x \<in> set (mc_acked m)" if "x \<in> set ops" "op_author x = signer_author_ss58 ?sg" for x
  proof -
    from synced(3) that have v: "verify_identity (wc_prims c) x" "stored c (mc_bucket m) x" by (auto simp: shows_own_def)
    from v(1) c that(2) have "own c x"
      by (auto simp: own_def config_ok_def verify_identity_def address_names_key_def split: sum.splits)
    with v(2) ok show ?thesis by (auto simp: machine_ok_def)
  qed
  with reseeded_clock [of "wc_prims c" "mc_acked m" clock ops "signer_author_ss58 ?sg" members_tip quarantined] ok synced
  show ?thesis by (auto simp: machine_ok_def split: if_splits)
next
  case (others b d)
  with ok show ?thesis by (auto simp: machine_ok_def stored_def)
next
  case (wrote i clock ms env opid kind target r s)
  note m' = wrote(1)
  from ok have chain: "chain_ok c (mc_acked m)" and d: "Mapping.lookup (mc_disk m) p = tip_bytes c (mc_acked m)"
    and procs: "\<And>j cl ms. mc_procs m j = Some (cl, ms) \<Longrightarrow> clock_at (wc_prims c) (mc_acked m) cl"
    and b: "\<And>x. own c x \<Longrightarrow> stored c (mc_bucket m) x \<longleftrightarrow> x \<in> set (mc_acked m)"
    unfolding machine_ok_def by blast+
  show ?thesis
    using c chain procs [OF wrote(2)] wrote(4,3) d wrote(5)
  proof (cases rule: serialized_write)
    case (refused e x)
    have "stored c (ws_bucket s) y \<longleftrightarrow> y \<in> set (mc_acked m)" if "own c y" for y
    proof (cases "oplog_object_key (wc_team c) y = oplog_object_key (wc_team c) x")
      case True
      then have "op_lamport y = op_lamport x" by (simp add: oplog_key_eq_iff)
      with refused(5) have "y \<notin> set (mc_acked m)" by auto
      with b [OF that] refused(7) True show ?thesis by (auto simp: stored_def)
    next
      case False
      with refused(6) b [OF that] show ?thesis by (simp add: stored_def)
    qed
    with refused chain d procs show ?thesis by (auto simp: m' machine_ok_def split: if_splits)
  next
    case (done_ x)
    have "stored c (ws_bucket s) y \<longleftrightarrow> y \<in> set (mc_acked m @ [x])" if "own c y" for y
    proof (cases "oplog_object_key (wc_team c) y = oplog_object_key (wc_team c) x")
      case True
      then have "op_lamport y = op_lamport x" by (simp add: oplog_key_eq_iff)
      with done_(5) have "y \<notin> set (mc_acked m)" by auto
      moreover have "wc_enc_op c x = wc_enc_op c y \<longleftrightarrow> x = y" using c by (auto simp: config_ok_def inj_eq)
      moreover have "stored c (ws_bucket s) y \<longleftrightarrow> wc_enc_op c x = wc_enc_op c y"
        unfolding done_(6) [rule_format] by (simp add: stored_def lookup_update' True)
      ultimately show ?thesis by auto
    next
      case False
      then have "y \<noteq> x" by blast
      with b [OF that] False show ?thesis unfolding done_(6) [rule_format] by (simp add: stored_def lookup_update')
    qed
    with done_ procs show ?thesis by (auto simp: m' machine_ok_def clock_at_mono split: if_splits)
  qed
qed

lemma machine_ok_run: "machine_run c p m \<Longrightarrow> config_ok c p \<Longrightarrow> machine_ok c p m"
proof (induction rule: machine_run.induct)
  case (start b d)
  then show ?case by (auto simp: machine_ok_def chain_ok_def tip_bytes_def tip_of_def)
next
  case (step m m')
  then show ?case using machine_ok_step by blast
qed

lemma chain_kept_whole:
  assumes "hash_ok P (set acked)" and "linked P (set acked) GENESIS_PREV acked" and "distinct view" and "set view = set acked"
  shows "longest_rooted_chain P view = Some (op_hash P ` set acked)"
proof -
  obtain q where q: "elected P (set view) GENESIS_PREV q" "longest_rooted_chain P view = Some (op_hash P ` set q)"
    by (rule longest_rooted_chain_elected [of P view]) (use assms in auto)
  have "set q = set view" by (rule elected_whole [of P view q acked]) (use assms q(1) in auto)
  with q(2) assms(4) show ?thesis by simp
qed

lemma unrooted_chain:
  assumes "hash_ok P (insert z (set later))" and "linked P (set later) (op_hash P z) later" and "distinct later"
  shows "longest_rooted_chain P later = Some {}"
proof -
  have ok: "hash_ok P (set later)" using hash_ok_mono [OF assms(1)] by blast
  obtain q where q: "elected P (set later) GENESIS_PREV q" "longest_rooted_chain P later = Some (op_hash P ` set q)"
    by (rule longest_rooted_chain_elected [OF ok assms(3)])
  have "op_prev_op_hash x \<noteq> GENESIS_PREV" if "x \<in> set later" for x
    using linked_prev [OF assms(2) that] hash_ok_genesis [OF assms(1)] by auto
  then have "q = []" using q(1) by (cases q) auto
  with q(2) show ?thesis by simp
qed

section \<open>A concrete machine\<close>

text \<open>A codec for ops and tip files, and a machine with two processes that write one after the other.\<close>

fun kind_code :: "op_kind \<Rightarrow> nat \<times> nat \<times> nat" where
  "kind_code Remember = (0, 0, 0)"
| "kind_code Edit = (1, 0, 0)"
| "kind_code Forget = (2, 0, 0)"
| "kind_code Redact = (3, 0, 0)"
| "kind_code (Link n) = (4, unat (as_ulid n), 0)"
| "kind_code (Relate n r) = (5, unat (as_ulid n), unat (wire_tag r))"
| "kind_code Reinforce = (6, 0, 0)"

definition demo_enc_op :: "op \<Rightarrow> bytes" where
  "demo_enc_op x =
     (case kind_code (op_kind x) of (a, b, r) \<Rightarrow> enc_nat a @ enc_nat b @ enc_nat r) @
     enc_word (op_id x) @ enc_text (op_author x) @ enc_bytes (op_author_key x) @ enc_word (op_lamport x) @
     enc_word (op_key_epoch x) @ enc_word (as_ulid (op_note_id x)) @ enc_text (op_object_key x) @
     enc_bytes (op_cid x) @ enc_bytes (op_prev_op_hash x) @ enc_bytes (op_sig x)"

lemma kind_code_inject: "kind_code a = kind_code b \<Longrightarrow> a = b"
  by (cases a; cases b) (auto intro: note_id.expand simp flip: word_unat_eq_iff)

lemma enc_eq_iff:
  "enc_nat m @ r = enc_nat n @ s \<longleftrightarrow> m = n \<and> r = s" "enc_bytes b @ r = enc_bytes b' @ s \<longleftrightarrow> b = b' \<and> r = s"
  "enc_text t @ r = enc_text t' @ s \<longleftrightarrow> t = t' \<and> r = s" "enc_word v @ r = enc_word w @ s \<longleftrightarrow> v = w \<and> r = s"
  "enc_bytes b = enc_bytes b' \<longleftrightarrow> b = b'"
  by (metis codec_simps prod.inject) (metis codec_simps prod.inject append_Nil2)+

lemma demo_enc_op_inj: "inj demo_enc_op"
proof (rule injI)
  fix x y
  assume "demo_enc_op x = demo_enc_op y"
  then have k: "kind_code (op_kind x) = kind_code (op_kind y)" and n: "as_ulid (op_note_id x) = as_ulid (op_note_id y)"
    and rest: "op_id x = op_id y" "op_author x = op_author y" "op_author_key x = op_author_key y" "op_lamport x = op_lamport y"
      "op_key_epoch x = op_key_epoch y" "op_object_key x = op_object_key y" "op_cid x = op_cid y"
      "op_prev_op_hash x = op_prev_op_hash y" "op_sig x = op_sig y"
    by (auto simp: demo_enc_op_def enc_eq_iff split: prod.splits)
  from kind_code_inject [OF k] note_id.expand [OF n] rest show "x = y" by (intro op.equality) simp_all
qed

definition demo_enc_tip :: "tip_file \<Rightarrow> bytes" where
  "demo_enc_tip f = enc_word (tf_version f) @ enc_word (sh_lamport (tf_tip f)) @ enc_bytes (sh_tip_hash (tf_tip f))"

definition demo_dec_tip :: "bytes \<Rightarrow> tip_file option" where
  "demo_dec_tip bs =
     (let (v, r) = dec_word bs; (l, r) = dec_word r; (h, r) = dec_bytes r
      in Some \<lparr>tf_version = v, tf_tip = \<lparr>sh_lamport = l, sh_tip_hash = h\<rparr>\<rparr>)"

lemma demo_dec_enc_tip [simp]: "demo_dec_tip (demo_enc_tip f) = Some f"
proof -
  have "dec_bytes (enc_bytes h) = (h, [])" for h using dec_enc_bytes [of h "[]"] by simp
  then show ?thesis by (simp add: demo_dec_tip_def demo_enc_tip_def codec_simps)
qed

definition demo_writer :: "byte \<Rightarrow> signer" where
  "demo_writer k = \<lparr>signer_sign = (\<lambda>_. replicate 64 k), signer_verifying_key = replicate 32 k,
     signer_author_ss58 = ss58_encode demo_prims (replicate 32 k) HIPPIUS\<rparr>"

definition demo_config :: "byte \<Rightarrow> writer_config" where
  "demo_config k = \<lparr>wc_prims = demo_prims, wc_team = ''t'', wc_signer = demo_writer k, wc_enc_op = demo_enc_op,
     wc_enc_head = (\<lambda>_. []), wc_dec_tip = demo_dec_tip, wc_enc_tip = demo_enc_tip,
     wc_dec_marks = (\<lambda>_. None), wc_enc_marks = (\<lambda>_. []), wc_tip = Some (''s'', ''tip''), wc_marks = None\<rparr>"

definition quiet_write :: write_env where
  "quiet_write = \<lparr>we_lock = True, we_append = Done, we_reclaim = Done, we_head = Done,
     we_tip_io = quiet_env, we_record_io = quiet_env, we_marks_io = quiet_env\<rparr>"

definition demo_target :: op_target where
  "demo_target = \<lparr>tg_note_id = NoteId 1, tg_object_key = ''t/r'', tg_cid = replicate 32 1, tg_key_epoch = 0\<rparr>"

lemma demo_config_ok: "config_ok (demo_config 7) (''s'', ''tip'')"
  by (simp add: config_ok_def demo_config_def demo_writer_def target_ok_def demo_enc_op_inj)
     (code_simp)

lemma quiet_tip_write:
  "Mapping.lookup d (''s'', ''.writer-tip-x.tmp'') = None \<Longrightarrow>
     tip_write quiet_env d (''s'', ''tip'') bs = (Inr (), Mapping.update (''s'', ''tip'') bs d)"
  by (simp add: tip_write_def write_atomically_def parent_dir_def create_in_with_def CREATE_ATTEMPTS_def quiet_env_def
    create_in_loop.simps numeral_eq_Suc open_exclusive_def persist_temp_def lookup_update' Let_def)

text \<open>A first op: the process adopts nothing, mints Lamport time 1, records the tip.\<close>

lemma first_write:
  obtains x s where "mint_and_append (demo_config k) quiet_write opid kind demo_target
      \<lparr>ws_clock = fresh_clock, ws_marks = ms, ws_bucket = Mapping.empty, ws_disk = Mapping.empty\<rparr> = (Inr x, s)"
    and "op_lamport x = 1" and "op_prev_op_hash x = GENESIS_PREV" and "op_hash demo_prims x = replicate 32 k"
    and "ws_disk s = Mapping.update (''s'', ''tip'') (demo_enc_tip \<lparr>tf_version = TIP_FILE_VERSION,
       tf_tip = \<lparr>sh_lamport = 1, sh_tip_hash = replicate 32 k\<rparr>\<rparr>) Mapping.empty"
proof -
  have no: "read_shared_tip dec quiet_env Mapping.empty p = None" for dec p
    by (simp add: read_shared_tip_def read_file_def quiet_env_def lookup_empty)
  have succ: "u64_saturating_succ 0 = 1" by (simp add: u64_saturating_succ_def)
  define x where "x = create_signed (demo_writer k) \<lparr>oc_op_id = opid, oc_lamport = 1, oc_key_epoch = 0, oc_kind = kind,
     oc_note_id = NoteId 1, oc_object_key = ''t/r'', oc_cid = replicate 32 1, oc_prev_op_hash = GENESIS_PREV\<rparr>"
  have h: "op_hash demo_prims x = replicate 32 k"
    by (subst demo_op_hash_eq) (simp_all add: x_def create_signed_def demo_writer_def Let_def)
  have "mint_and_append (demo_config k) quiet_write opid kind demo_target
      \<lparr>ws_clock = fresh_clock, ws_marks = ms, ws_bucket = Mapping.empty, ws_disk = Mapping.empty\<rparr> =
    (Inr x, \<lparr>ws_clock = \<lparr>ck_lamport_tip = 1, ck_my_last_lamport = 1, ck_my_last_hash = replicate 32 k\<rparr>, ws_marks = ms,
      ws_bucket = Mapping.update (head_key ''t'' (replicate 32 k)) []
        (Mapping.update (oplog_object_key ''t'' x) (demo_enc_op x) Mapping.empty),
      ws_disk = Mapping.update (''s'', ''tip'') (demo_enc_tip \<lparr>tf_version = TIP_FILE_VERSION,
       tf_tip = \<lparr>sh_lamport = 1, sh_tip_hash = replicate 32 k\<rparr>\<rparr>) Mapping.empty\<rparr>)"
    using h unfolding x_def
    by (simp add: mint_and_append_def append_under_serialization_def lock_across_processes_def demo_config_def quiet_write_def
      adopt_shared_tip_def no fresh_clock_def succ demo_target_def append_op_def faulty_put_def record_tip_def write_tip_def
      quiet_tip_write lookup_empty publish_head_for_tip_def publish_head_def Let_def head_create_signed_def demo_writer_def)
  then show ?thesis using that h by (simp add: x_def)
qed

lemma quiet_append:
  obtains y s where "mint_and_append ((demo_config k)\<lparr>wc_signer := demo_writer j\<rparr>) quiet_write opid kind demo_target w = (Inr y, s)"
    and "op_hash demo_prims y = replicate 32 j"
proof -
  have "op_hash demo_prims (create_signed (demo_writer j) oc) = replicate 32 j" for oc
    by (subst demo_op_hash_eq) (simp_all add: create_signed_def demo_writer_def Let_def)
  with that show ?thesis
    by (auto simp: mint_and_append_def append_under_serialization_def Let_def append_op_def faulty_put_def quiet_write_def)
qed

lemma demo_machine:
  obtains m x where "machine_run (demo_config k) (''s'', ''tip'') m" and "mc_acked m = [x]"
    and "op_hash demo_prims x = replicate 32 k" and "serialized quiet_write (mc_disk m) (''s'', ''tip'')"
proof -
  let ?c = "demo_config k"
  let ?p = "(''s'', ''tip'')"
  let ?m0 = "\<lparr>mc_bucket = Mapping.empty, mc_disk = Mapping.empty, mc_procs = (\<lambda>_. None), mc_acked = []\<rparr>"
  let ?ms = "load_marks (wc_dec_marks ?c) read_file quiet_env (Mapping.empty :: disk) ?p"
  let ?m1 = "\<lparr>mc_bucket = Mapping.empty, mc_disk = Mapping.empty, mc_procs = [0 \<mapsto> (fresh_clock, ?ms)], mc_acked = []\<rparr>"
  have "machine_run ?c ?p ?m0" by (rule machine_run.start) (simp_all add: stored_def lookup_empty)
  moreover have "machine_step ?c ?p ?m0 ?m1" using machine_step.boot [of ?m0 0 ?c ?p quiet_env ?p] by simp
  ultimately have r1: "machine_run ?c ?p ?m1" by (rule machine_run.step)
  obtain x s where w: "mint_and_append ?c quiet_write 1 Remember demo_target
      \<lparr>ws_clock = fresh_clock, ws_marks = ?ms, ws_bucket = Mapping.empty, ws_disk = Mapping.empty\<rparr> = (Inr x, s)"
    and x: "op_hash demo_prims x = replicate 32 k"
    and d: "ws_disk s = Mapping.update ?p (demo_enc_tip \<lparr>tf_version = TIP_FILE_VERSION,
       tf_tip = \<lparr>sh_lamport = 1, sh_tip_hash = replicate 32 k\<rparr>\<rparr>) Mapping.empty"
    by (rule first_write)
  have ser: "serialized quiet_write d ?p" if "Mapping.lookup d (''s'', ''.writer-tip-x.tmp'') = None" for d
    using quiet_tip_write [OF that] by (simp add: serialized_def quiet_write_def) (simp add: quiet_env_def)
  let ?m2 = "\<lparr>mc_bucket = ws_bucket s, mc_disk = ws_disk s, mc_procs = [0 \<mapsto> (ws_clock s, ws_marks s)], mc_acked = [x]\<rparr>"
  have "machine_step ?c ?p ?m1 ?m2"
    using machine_step.wrote [of ?m1 0 fresh_clock ?ms quiet_write ?p ?c 1 Remember demo_target "Inr x" s] w
    by (simp add: ser lookup_empty below_max_def fresh_clock_def)
  from machine_run.step [OF r1 this] have "machine_run ?c ?p ?m2" .
  moreover have "serialized quiet_write (mc_disk ?m2) ?p" by (rule ser) (simp add: d lookup_update' lookup_empty)
  ultimately show ?thesis using that [of ?m2 x] x by simp
qed

section \<open>Properties of the write path\<close>



text \<open>C30. The tip file is the profile's, not the author's: once the processes of a machine have written under one key, a
  process of the same profile under another key, its own chain empty, mints its first op onto the other author's last op,
  and no continuation of it is ever rooted, so every read drops all it writes.\<close>

theorem foreign_tip_orphans:
  assumes "config_ok c p" and "machine_run c p m" and "mc_acked m \<noteq> []"
    and "c' = c\<lparr>wc_signer := sg\<rparr>" and "serialized env (mc_disk m) p"
    and "mint_and_append c' env opid kind target
      \<lparr>ws_clock = fresh_clock, ws_marks = ms, ws_bucket = mc_bucket m, ws_disk = mc_disk m\<rparr> = (Inr y, s)"
  shows "own c' y \<and> op_prev_op_hash y = op_hash (wc_prims c) (last (mc_acked m)) \<and>
    (\<forall>rest. linked (wc_prims c) (set (y # rest)) (op_prev_op_hash y) (y # rest) \<and> distinct (y # rest) \<and>
       hash_ok (wc_prims c) (insert (last (mc_acked m)) (set (y # rest))) \<longrightarrow>
       longest_rooted_chain (wc_prims c) (y # rest) = Some {})"
proof -
  let ?P = "wc_prims c"
  let ?l = "last (mc_acked m)"
  from machine_ok_run [OF assms(2,1)] have chain: "chain_ok c (mc_acked m)" and d: "Mapping.lookup (mc_disk m) p = tip_bytes c (mc_acked m)"
    by (auto simp: machine_ok_def)
  have l: "0 < op_lamport ?l" using chain assms(3) by (simp add: chain_ok_def)
  have cross: "lock_across_processes c' env = Some p"
    using assms(1,4,5) by (simp add: lock_across_processes_def config_ok_def serialized_def)
  have read: "read_shared_tip (wc_dec_tip c') (we_tip_io env) (mc_disk m) p = tip_of ?P (mc_acked m)"
    using read_shared_tip_bytes [OF assms(1) d] assms(4,5) by (simp add: serialized_def)
  have "own c' y \<and> op_prev_op_hash y = op_hash ?P ?l"
    using assms(6) l assms(3)
    by (auto simp: mint_and_append_def append_under_serialization_def cross read Let_def append_op_def faulty_put_def
      own_def tip_of_def adopt_shared_tip_def fresh_clock_def split: fate.splits)
  with unrooted_chain [of ?P ?l] show ?thesis by metis
qed

theorem foreign_tip_orphans_witness:
  "\<exists>x y. op_author_key x = replicate 32 7 \<and> op_author_key y = replicate 32 9 \<and>
     op_prev_op_hash y = op_hash demo_prims x \<and> longest_rooted_chain demo_prims [y] = Some {}"
proof -
  obtain m x where run: "machine_run (demo_config 7) (''s'', ''tip'') m" "mc_acked m = [x]" "op_hash demo_prims x = replicate 32 7"
      "serialized quiet_write (mc_disk m) (''s'', ''tip'')"
    using demo_machine [of 7] .
  let ?c = "demo_config 7"
  let ?c' = "?c\<lparr>wc_signer := demo_writer 9\<rparr>"
  obtain y s where y: "mint_and_append ?c' quiet_write 2 Remember demo_target
      \<lparr>ws_clock = fresh_clock, ws_marks = Mapping.empty, ws_bucket = mc_bucket m, ws_disk = mc_disk m\<rparr> = (Inr y, s)"
    and yh: "op_hash demo_prims y = replicate 32 9"
    using quiet_append .
  have P: "wc_prims ?c = demo_prims" by (simp add: demo_config_def)
  have ok: "hash_ok demo_prims (insert x (set [y]))"
    by (simp add: hash_ok_def inj_on_def run(3) yh GENESIS_PREV_def blake3_zero_def)
  have "op_author_key x = replicate 32 7"
    using machine_ok_run [OF run(1) demo_config_ok] run(2)
    by (simp add: machine_ok_def chain_ok_def own_def demo_config_def demo_writer_def)
  moreover note f = foreign_tip_orphans [OF demo_config_ok run(1) _ refl run(4) y]
  have "own ?c' y" "op_prev_op_hash y = op_hash demo_prims x" "longest_rooted_chain demo_prims [y] = Some {}"
    using f ok run(2) by (auto simp: P)
  ultimately show ?thesis by (auto simp: own_def demo_writer_def)
qed

end
