(* ===== verification/Anchoring.thy ===== *)
theory Anchoring
  imports Anchor Writer
begin

text \<open>
  The anchor scheduler of the store (\<^verbatim>\<open>store/mod.rs\<close>): op leaves wait in \<^verbatim>\<open>pending\<close>, a full or forced batch is
  drained, its root anchored, a sequence number reserved under the cross-process lock and the signed record
  persisted; a failed or cancelled commit puts its leaves back. Then the in-place signing of legacy records.
  What the bucket answers to each read of one call is a sequence of views.
\<close>

section \<open>Definitions\<close>

record pending_leaf =
  pl_hash :: blake3_hash
  pl_lamport :: u64

record anchor_state =
  an_pending :: "pending_leaf list"
  an_next_seq :: u64

text \<open>The drained batch is its leaves.\<close>

definition drain_batch :: "anchor_state \<Rightarrow> pending_leaf list \<times> anchor_state" where
  "drain_batch st = (an_pending st, st\<lparr>an_pending := []\<rparr>)"

definition restore :: "pending_leaf list \<Rightarrow> anchor_state \<Rightarrow> anchor_state" where
  "restore batch st = st\<lparr>an_pending := batch @ an_pending st\<rparr>"

text \<open>The part of \<^verbatim>\<open>schedule_anchor\<close> under the lock: the batch to commit, if the threshold is reached.\<close>

definition schedule_anchor :: "nat \<Rightarrow> blake3_hash \<Rightarrow> u64 \<Rightarrow> anchor_state \<Rightarrow> pending_leaf list option \<times> anchor_state" where
  "schedule_anchor threshold leaf lamport st =
     (let st1 = st\<lparr>an_pending := an_pending st @ [\<lparr>pl_hash = leaf, pl_lamport = lamport\<rparr>]\<rparr> in
      if length (an_pending st1) \<ge> threshold
      then (let (batch, st2) = drain_batch st1 in (Some batch, st2))
      else (None, st1))"

text \<open>The same of \<^verbatim>\<open>flush_anchors\<close>.\<close>

definition flush_drain :: "anchor_state \<Rightarrow> pending_leaf list option \<times> anchor_state" where
  "flush_drain st =
     (if an_pending st = [] then (None, st) else let (batch, st1) = drain_batch st in (Some batch, st1))"

definition min_or_zero :: "u64 list \<Rightarrow> u64" where
  "min_or_zero xs = (case xs of [] \<Rightarrow> 0 | x # rest \<Rightarrow> foldl min x rest)"

definition max_or_zero :: "u64 list \<Rightarrow> u64" where
  "max_or_zero xs = (case xs of [] \<Rightarrow> 0 | x # rest \<Rightarrow> foldl max x rest)"

record anchor_config =
  ac_prims :: prims
  ac_team :: string
  ac_signer :: signer
  ac_enc :: "anchor_record \<Rightarrow> bytes"
  ac_dec :: "bytes \<Rightarrow> anchor_record option"
  ac_threshold :: nat

definition author_key :: "anchor_config \<Rightarrow> verifying_key" where
  "author_key c = signer_verifying_key (ac_signer c)"

text \<open>The outcome, and the state afterwards.\<close>

definition reseed_next_seq :: "anchor_config \<Rightarrow> blob_view \<Rightarrow> anchor_state \<Rightarrow> (mem_error + unit) \<times> anchor_state" where
  "reseed_next_seq c bv st =
     (case read_anchor_records (ac_prims c) (ac_dec c) bv (ac_team c) of
        Inl e \<Rightarrow> (Inl e, st)
      | Inr records \<Rightarrow>
          let own = filter (\<lambda>r. ar_author_key r = author_key c) records;
              next = max_or_zero (map (\<lambda>r. u64_saturating_succ (ar_seq r)) own)
          in (Inr (), st\<lparr>an_next_seq := max (an_next_seq st) next\<rparr>))"

definition stamp_seq :: "u64 \<Rightarrow> anchor_record \<Rightarrow> anchor_record" where
  "stamp_seq seq r =
     r\<lparr>ar_seq := seq,
       ar_receipt := (ar_receipt r)\<lparr>rc_reference :=
         (case rc_reference (ar_receipt r) of Local _ \<Rightarrow> Local seq | OnChain b x \<Rightarrow> OnChain b x)\<rparr>\<rparr>"

text \<open>Round \<open>i\<close> asks view \<open>2 * i + 1\<close> whether the record exists and, if so, re-seeds from view \<open>2 * i + 2\<close>.\<close>

partial_function (option) reserve_loop ::
    "anchor_config \<Rightarrow> (nat \<Rightarrow> blob_view) \<Rightarrow> nat \<Rightarrow> anchor_record \<Rightarrow> anchor_state
      \<Rightarrow> ((mem_error + anchor_record) \<times> anchor_state) option" where
  "reserve_loop c views i r st =
     (let seq = an_next_seq st;
          st1 = st\<lparr>an_next_seq := u64_saturating_succ seq\<rparr>;
          r1 = stamp_seq seq r
      in case anchor_record_exists (bv_get (views (2 * i + 1))) (ac_team c) (ar_author_key r1) (ar_seq r1) of
           Inl e \<Rightarrow> Some (Inl e, st1)
         | Inr taken \<Rightarrow>
             if \<not> taken then Some (Inr r1, st1)
             else (case reseed_next_seq c (views (2 * i + 2)) st1 of
                     (Inl e, st2) \<Rightarrow> Some (Inl e, st2)
                   | (Inr _, st2) \<Rightarrow> reserve_loop c views (i + 1) r1 st2))"

definition reserve_seq_and_persist ::
    "anchor_config \<Rightarrow> (nat \<Rightarrow> blob_view) \<Rightarrow> fate \<Rightarrow> anchor_record \<Rightarrow> anchor_state \<Rightarrow> memory_blob_store
      \<Rightarrow> ((mem_error + anchor_record) \<times> anchor_state \<times> memory_blob_store) option" where
  "reserve_seq_and_persist c views put r st b =
     (case reseed_next_seq c (views 0) st of
        (Inl e, st1) \<Rightarrow> Some (Inl e, st1, b)
      | (Inr _, st1) \<Rightarrow>
          map_option (\<lambda>(res, st2).
            case res of
              Inl e \<Rightarrow> (Inl e, st2, b)
            | Inr r1 \<Rightarrow>
                let r2 = anchor_sign_with (ac_signer c) r1;
                    (outcome, b') = persist_anchor_record (ac_enc c) (faulty_put put) b (ac_team c) r2
                in (case outcome of Inl e \<Rightarrow> Inl e | Inr _ \<Rightarrow> Inr r2, st2, b'))
            (reserve_loop c views 0 r st1))"

text \<open>What one commit meets: the anchor sink, the bucket's answers, the fate of the put.\<close>

record commit_env =
  ce_anchor :: "blake3_hash \<Rightarrow> batch_meta \<Rightarrow> mem_error + anchor_receipt"
  ce_views :: "nat \<Rightarrow> blob_view"
  ce_put :: fate

definition batch_meta_of :: "string \<Rightarrow> pending_leaf list \<Rightarrow> batch_meta" where
  "batch_meta_of tm batch =
     \<lparr>bm_team = tm, bm_first_lamport = min_or_zero (map pl_lamport batch), bm_last_lamport = max_or_zero (map pl_lamport batch),
      bm_op_count = length batch\<rparr>"

definition batch_record :: "anchor_config \<Rightarrow> pending_leaf list \<Rightarrow> anchor_receipt \<Rightarrow> anchor_record" where
  "batch_record c batch receipt =
     (let leaves = map pl_hash batch in
      \<lparr>ar_seq = 0, ar_author_key = author_key c, ar_root = merkle_root (ac_prims c) leaves,
       ar_meta = batch_meta_of (ac_team c) batch, ar_leaves = leaves, ar_receipt = receipt, ar_sig = None\<rparr>)"

definition commit_batch ::
    "anchor_config \<Rightarrow> commit_env \<Rightarrow> pending_leaf list \<Rightarrow> anchor_state \<Rightarrow> memory_blob_store
      \<Rightarrow> ((mem_error + anchor_receipt) \<times> anchor_state \<times> memory_blob_store) option" where
  "commit_batch c env batch st b =
     (case ce_anchor env (merkle_root (ac_prims c) (map pl_hash batch)) (batch_meta_of (ac_team c) batch) of
        Inl e \<Rightarrow> Some (Inl e, restore batch st, b)
      | Inr receipt \<Rightarrow>
          map_option (\<lambda>(res, st1, b1).
            case res of
              Inl e \<Rightarrow> (Inl e, restore batch st1, b1)
            | Inr r1 \<Rightarrow> (Inr (ar_receipt r1), st1, b1))
          (reserve_seq_and_persist c (ce_views env) (ce_put env) (batch_record c batch receipt) st b))"

text \<open>A commit dropped while it waits (\<^verbatim>\<open>BatchGuard::drop\<close>): whatever the reservation did by then, the leaves return.\<close>

definition drop_commit :: "pending_leaf list \<Rightarrow> anchor_state \<Rightarrow> anchor_state" where
  "drop_commit batch st = restore batch st"

text \<open>\<^verbatim>\<open>flush_anchors\<close> as a whole.\<close>

definition flush_anchors ::
    "anchor_config \<Rightarrow> commit_env \<Rightarrow> anchor_state \<Rightarrow> memory_blob_store
      \<Rightarrow> ((mem_error + anchor_receipt option) \<times> anchor_state \<times> memory_blob_store) option" where
  "flush_anchors c env st b =
     (case flush_drain st of
        (None, st1) \<Rightarrow> Some (Inr None, st1, b)
      | (Some batch, st1) \<Rightarrow>
          map_option (\<lambda>(res, st2, b2). (case res of Inl e \<Rightarrow> Inl e | Inr receipt \<Rightarrow> Inr (Some receipt), st2, b2))
            (commit_batch c env batch st1 b))"

subsection \<open>Signing legacy records\<close>

record anchor_resign_report =
  rs_resigned :: nat
  rs_already_signed :: nat
  rs_invalid_skipped :: nat
  rs_other_author :: nat

text \<open>The loop over the scanned records; \<open>puts i\<close> is the fate of the \<open>i\<close>-th put.\<close>

fun resign_loop ::
    "anchor_config \<Rightarrow> (nat \<Rightarrow> fate) \<Rightarrow> scanned_anchor list \<Rightarrow> anchor_resign_report \<Rightarrow> u64 list \<Rightarrow> memory_blob_store
      \<Rightarrow> (mem_error + (anchor_resign_report \<times> u64 list)) \<times> memory_blob_store" where
  "resign_loop c puts [] report seqs b = (Inr (report, seqs), b)"
| "resign_loop c puts (entry # rest) report seqs b =
     (if ar_author_key (sa_record entry) \<noteq> author_key c
      then resign_loop c puts rest (report\<lparr>rs_other_author := rs_other_author report + 1\<rparr>) seqs b
      else
        case sa_signature entry of
          Valid \<Rightarrow> resign_loop c puts rest (report\<lparr>rs_already_signed := rs_already_signed report + 1\<rparr>) seqs b
        | Invalid \<Rightarrow> resign_loop c puts rest (report\<lparr>rs_invalid_skipped := rs_invalid_skipped report + 1\<rparr>) seqs b
        | Unsigned \<Rightarrow>
            let r = anchor_sign_with (ac_signer c) (sa_record entry);
                (outcome, b') = persist_anchor_record (ac_enc c) (faulty_put (puts (length seqs))) b (ac_team c) r
            in case outcome of
                 Inl e \<Rightarrow> (Inl e, b')
               | Inr _ \<Rightarrow> resign_loop c puts rest (report\<lparr>rs_resigned := rs_resigned report + 1\<rparr>) (seqs @ [ar_seq r]) b')"

definition reads_valid :: "anchor_config \<Rightarrow> anchor_scan \<Rightarrow> u64 \<Rightarrow> bool" where
  "reads_valid c reread seq \<longleftrightarrow>
     list_ex (\<lambda>e. ar_author_key (sa_record e) = author_key c \<and> ar_seq (sa_record e) = seq \<and> sa_signature e = Valid) (as_records reread)"

text \<open>\<open>look b\<close> is what a scan of the bucket \<open>b\<close> sees.\<close>

definition resign_anchor_records ::
    "anchor_config \<Rightarrow> (memory_blob_store \<Rightarrow> blob_view) \<Rightarrow> (nat \<Rightarrow> fate) \<Rightarrow> memory_blob_store
      \<Rightarrow> (mem_error + anchor_resign_report) \<times> memory_blob_store" where
  "resign_anchor_records c look puts b =
     (case scan_anchor_records (ac_prims c) (ac_dec c) (look b) (ac_team c) of
        Inl e \<Rightarrow> (Inl e, b)
      | Inr scanned \<Rightarrow>
          (case resign_loop c puts (as_records scanned)
                  \<lparr>rs_resigned = 0, rs_already_signed = 0, rs_invalid_skipped = 0, rs_other_author = 0\<rparr> [] b of
             (Inl e, b1) \<Rightarrow> (Inl e, b1)
           | (Inr (report, seqs), b1) \<Rightarrow>
               if seqs = [] then (Inr report, b1)
               else
                 (case scan_anchor_records (ac_prims c) (ac_dec c) (look b1) (ac_team c) of
                    Inl e \<Rightarrow> (Inl e, b1)
                  | Inr reread \<Rightarrow>
                      if list_all (reads_valid c reread) seqs then (Inr report, b1)
                      else (Inl (Storage ''resign verification failed''), b1))))"

section \<open>Specification: one author's processes\<close>

text \<open>The object key of this author's record with a sequence number.\<close>

abbreviation own_key :: "anchor_config \<Rightarrow> u64 \<Rightarrow> string" where
  "own_key c s \<equiv> anchor_record_key (ac_team c) (author_key c) s"

text \<open>What the lock and a bucket that serves what it holds give: no get of an own record that exists says there is
  none. Lists may be stale, gets may fail, other objects may be anything.\<close>

definition honest_views :: "anchor_config \<Rightarrow> memory_blob_store \<Rightarrow> (nat \<Rightarrow> blob_view) \<Rightarrow> bool" where
  "honest_views c b views \<longleftrightarrow>
     (\<forall>j s n. Mapping.lookup b (own_key c s) \<noteq> None \<longrightarrow> bv_get (views j) (own_key c s) \<noteq> Inl (NotFound n))"

text \<open>The bucket, each running process's scheduler, its batches in flight, and the leaves its writes scheduled.\<close>

record anchoring =
  ag_bucket :: memory_blob_store
  ag_procs :: "nat \<Rightarrow> anchor_state option"
  ag_flight :: "nat \<Rightarrow> pending_leaf list list"
  ag_scheduled :: "nat \<Rightarrow> blake3_hash set"

definition fresh_state :: anchor_state where
  "fresh_state = \<lparr>an_pending = [], an_next_seq = 0\<rparr>"

definition flight_of :: "pending_leaf list option \<Rightarrow> pending_leaf list list" where
  "flight_of batch = (case batch of None \<Rightarrow> [] | Some x \<Rightarrow> [x])"

inductive anchor_step :: "anchor_config \<Rightarrow> anchoring \<Rightarrow> anchoring \<Rightarrow> bool" for c where
  starts: "ag_procs m i = None \<Longrightarrow>
    anchor_step c m (m\<lparr>ag_procs := (ag_procs m)(i \<mapsto> fresh_state), ag_flight := (ag_flight m)(i := []),
                     ag_scheduled := (ag_scheduled m)(i := {})\<rparr>)"
| ends: "anchor_step c m (m\<lparr>ag_procs := (ag_procs m)(i := None)\<rparr>)"
| schedules: "ag_procs m i = Some st \<Longrightarrow> schedule_anchor (ac_threshold c) h l st = (batch, st') \<Longrightarrow>
    anchor_step c m (m\<lparr>ag_procs := (ag_procs m)(i \<mapsto> st'), ag_flight := (ag_flight m)(i := ag_flight m i @ flight_of batch),
                     ag_scheduled := (ag_scheduled m)(i := insert h (ag_scheduled m i))\<rparr>)"
| flushes: "ag_procs m i = Some st \<Longrightarrow> flush_drain st = (batch, st') \<Longrightarrow>
    anchor_step c m (m\<lparr>ag_procs := (ag_procs m)(i \<mapsto> st'), ag_flight := (ag_flight m)(i := ag_flight m i @ flight_of batch)\<rparr>)"
| commits: "ag_procs m i = Some st \<Longrightarrow> ag_flight m i = xs @ batch # ys \<Longrightarrow> honest_views c (ag_bucket m) (ce_views env) \<Longrightarrow>
    commit_batch c env batch st (ag_bucket m) = Some (res, st', b) \<Longrightarrow>
    anchor_step c m (m\<lparr>ag_procs := (ag_procs m)(i \<mapsto> st'), ag_flight := (ag_flight m)(i := xs @ ys), ag_bucket := b\<rparr>)"
| drops: "ag_procs m i = Some st \<Longrightarrow> ag_flight m i = xs @ batch # ys \<Longrightarrow> honest_views c (ag_bucket m) views \<Longrightarrow>
    ar_author_key r = author_key c \<Longrightarrow>
    reserve_seq_and_persist c views put r st (ag_bucket m) = Some (res, st', b) \<Longrightarrow> b' \<in> {ag_bucket m, b} \<Longrightarrow>
    anchor_step c m (m\<lparr>ag_procs := (ag_procs m)(i \<mapsto> drop_commit batch (st\<lparr>an_next_seq := n\<rparr>)),
                     ag_flight := (ag_flight m)(i := xs @ ys), ag_bucket := b'\<rparr>)"
| others: "(\<And>s. Mapping.lookup b (own_key c s) = Mapping.lookup (ag_bucket m) (own_key c s)) \<Longrightarrow>
    anchor_step c m (m\<lparr>ag_bucket := b\<rparr>)"

definition anchoring_start :: "memory_blob_store \<Rightarrow> anchoring" where
  "anchoring_start b = \<lparr>ag_bucket = b, ag_procs = (\<lambda>_. None), ag_flight = (\<lambda>_. []), ag_scheduled = (\<lambda>_. {})\<rparr>"

text \<open>A leaf a stored record of this author commits to.\<close>

definition recorded :: "anchor_config \<Rightarrow> memory_blob_store \<Rightarrow> blake3_hash \<Rightarrow> bool" where
  "recorded c b h \<longleftrightarrow>
     (\<exists>r. Mapping.lookup b (own_key c (ar_seq r)) = Some (ac_enc c r) \<and> ar_author_key r = author_key c \<and> h \<in> set (ar_leaves r) \<and>
       ar_root r = merkle_root (ac_prims c) (ar_leaves r) \<and> ar_sig r = Some (signer_sign (ac_signer c) (anchor_signing_bytes r)))"

definition kept_leaf :: "anchor_config \<Rightarrow> anchoring \<Rightarrow> nat \<Rightarrow> blake3_hash \<Rightarrow> bool" where
  "kept_leaf c m i h \<longleftrightarrow>
     (\<exists>st. ag_procs m i = Some st \<and> h \<in> pl_hash ` set (an_pending st)) \<or>
     (\<exists>batch\<in>set (ag_flight m i). h \<in> pl_hash ` set batch) \<or> recorded c (ag_bucket m) h"

section \<open>Lemmas\<close>

lemma foldl_max_ge: "y \<le> foldl max y xs" "x \<in> set xs \<Longrightarrow> x \<le> foldl max y xs" for y :: "'a::linorder"
  by (induction xs arbitrary: y) (simp_all add: max_def, (meson order_trans linear)+)

lemma foldl_min_le: "foldl min y xs \<le> y" "x \<in> set xs \<Longrightarrow> foldl min y xs \<le> x" for y :: "'a::linorder"
  by (induction xs arbitrary: y) (simp_all add: min_def, (meson order_trans linear)+)

lemma max_or_zero_ge: "x \<in> set xs \<Longrightarrow> x \<le> max_or_zero xs"
  by (cases xs) (auto simp: max_or_zero_def foldl_max_ge)

lemma min_or_zero_le: "x \<in> set xs \<Longrightarrow> min_or_zero xs \<le> x"
  by (cases xs) (auto simp: min_or_zero_def foldl_min_le)

lemma stamp_seq_sel [simp]:
  "ar_seq (stamp_seq s r) = s" "ar_author_key (stamp_seq s r) = ar_author_key r" "ar_root (stamp_seq s r) = ar_root r"
  "ar_meta (stamp_seq s r) = ar_meta r" "ar_leaves (stamp_seq s r) = ar_leaves r" "ar_sig (stamp_seq s r) = ar_sig r"
  "rc_root (ar_receipt (stamp_seq s r)) = rc_root (ar_receipt r)" "stamp_seq s (stamp_seq t r) = stamp_seq s r"
  by (simp_all add: stamp_seq_def split: anchor_ref.split)

lemma stamp_seq_local: "rc_reference (ar_receipt (stamp_seq s r)) = Local t \<Longrightarrow> t = s"
  by (simp add: stamp_seq_def split: anchor_ref.splits)

lemma anchor_sign_with_sel [simp]:
  "ar_seq (anchor_sign_with sg r) = ar_seq r" "ar_author_key (anchor_sign_with sg r) = ar_author_key r"
  "ar_root (anchor_sign_with sg r) = ar_root r" "ar_meta (anchor_sign_with sg r) = ar_meta r"
  "ar_leaves (anchor_sign_with sg r) = ar_leaves r" "ar_receipt (anchor_sign_with sg r) = ar_receipt r"
  "ar_sig (anchor_sign_with sg r) = Some (signer_sign sg (anchor_signing_bytes r))"
  "anchor_signing_bytes (anchor_sign_with sg r) = anchor_signing_bytes r"
  by (simp_all add: anchor_sign_with_def)

lemma anchor_record_key_inject [simp]:
  "length k = 32 \<Longrightarrow> length k' = 32 \<Longrightarrow> anchor_record_key tm k s = anchor_record_key tm k' t \<longleftrightarrow> k = k' \<and> s = t"
  by (simp add: anchor_record_key_def key_to_hex_def pad20_inject append_eq_append_conv)

lemma own_key_inject [simp]: "anchor_record_key tm k s = anchor_record_key tm k t \<longleftrightarrow> s = t"
  by (simp add: anchor_record_key_def pad20_inject)

lemma exists_False: "anchor_record_exists get tm k s = Inr False \<longleftrightarrow> (\<exists>n. get (anchor_record_key tm k s) = Inl (NotFound n))"
  by (auto simp: anchor_record_exists_def split: sum.splits mem_error.splits)

lemma exists_True: "anchor_record_exists get tm k s = Inr True \<longleftrightarrow> (\<exists>bs. get (anchor_record_key tm k s) = Inr bs)"
  by (auto simp: anchor_record_exists_def split: sum.splits mem_error.splits)

lemma reseed_pending: "reseed_next_seq c bv st = (res, st') \<Longrightarrow> an_pending st' = an_pending st \<and> an_next_seq st \<le> an_next_seq st'"
  by (auto simp: reseed_next_seq_def Let_def split: sum.splits)

text \<open>A reservation that returns hands out a sequence number whose key was free when asked.\<close>

lemma reserve_loop_result:
  "reserve_loop c views i r st = Some y \<Longrightarrow>
     an_pending (snd y) = an_pending st \<and>
     (case fst y of
        Inl _ \<Rightarrow> True
      | Inr r' \<Rightarrow> \<exists>s j n. r' = stamp_seq s r \<and> bv_get (views j) (anchor_record_key (ac_team c) (ar_author_key r) s) = Inl (NotFound n))"
proof (induction rule: reserve_loop.raw_induct [rotated, consumes 1, case_names step])
  case (step loop c views i r st y)
  let ?s = "an_next_seq st"
  let ?st1 = "st\<lparr>an_next_seq := u64_saturating_succ ?s\<rparr>"
  let ?ex = "anchor_record_exists (bv_get (views (2 * i + 1))) (ac_team c) (ar_author_key r) ?s"
  consider (err) e where "?ex = Inl e" | (free) "?ex = Inr False" | (taken) "?ex = Inr True" by (cases ?ex) auto
  then show ?case
  proof cases
    case err
    with step(2) show ?thesis by (auto simp: Let_def)
  next
    case free
    then obtain n where "bv_get (views (2 * i + 1)) (anchor_record_key (ac_team c) (ar_author_key r) ?s) = Inl (NotFound n)"
      by (auto simp: exists_False)
    moreover from step(2) free have "y = (Inr (stamp_seq ?s r), ?st1)" by (simp add: Let_def)
    ultimately show ?thesis by (auto intro!: exI [of _ ?s])
  next
    case taken
    obtain res st2 where seed: "reseed_next_seq c (views (2 * i + 2)) ?st1 = (res, st2)" by fastforce
    show ?thesis
    proof (cases res)
      case (Inl e)
      with step(2) taken seed reseed_pending [OF seed] show ?thesis by (auto simp: Let_def)
    next
      case (Inr u)
      with step(2) taken seed have "loop c views (i + 1) (stamp_seq ?s r) st2 = Some y" by (simp add: Let_def)
      from step(1) [OF this] reseed_pending [OF seed] show ?thesis by (cases "fst y") simp_all
    qed
  qed
qed

text \<open>What a reservation leaves in the bucket: nothing, or the signed record under a key that was free.\<close>

lemma reserve_seq_and_persist_result:
  assumes "reserve_seq_and_persist c views put r st b = Some (res, st', b')"
  shows "an_pending st' = an_pending st \<and>
    ((\<exists>e. res = Inl e) \<and> b' = b \<or>
     (\<exists>s j n. let r' = anchor_sign_with (ac_signer c) (stamp_seq s r); k = anchor_record_key (ac_team c) (ar_author_key r) s in
        bv_get (views j) k = Inl (NotFound n) \<and>
        (res = Inr r' \<and> b' = Mapping.update k (ac_enc c r') b \<or>
         (\<exists>e. res = Inl e) \<and> (b' = b \<or> b' = Mapping.update k (ac_enc c r') b))))"
proof -
  obtain res0 st0 where seed: "reseed_next_seq c (views 0) st = (res0, st0)" by fastforce
  show ?thesis
  proof (cases res0)
    case (Inl e)
    with assms seed reseed_pending [OF seed] show ?thesis by (auto simp: reserve_seq_and_persist_def)
  next
    case (Inr u)
    with assms seed obtain res1 st1 where loop: "reserve_loop c views 0 r st0 = Some (res1, st1)"
      by (auto simp: reserve_seq_and_persist_def)
    note l = reserve_loop_result [OF loop, simplified]
    from l reseed_pending [OF seed] have p: "an_pending st1 = an_pending st" by simp
    show ?thesis
    proof (cases res1)
      case (Inl e)
      with assms seed \<open>res0 = Inr u\<close> loop p show ?thesis by (auto simp: reserve_seq_and_persist_def)
    next
      case (Inr r1)
      with l obtain s j n where s: "r1 = stamp_seq s r"
        "bv_get (views j) (anchor_record_key (ac_team c) (ar_author_key r) s) = Inl (NotFound n)" by auto
      let ?r = "anchor_sign_with (ac_signer c) (stamp_seq s r)" and ?k = "anchor_record_key (ac_team c) (ar_author_key r) s"
      from assms seed \<open>res0 = Inr u\<close> loop have "st' = st1" and
        put: "(res, b') = (let (outcome, b1) = faulty_put put b ?k (ac_enc c ?r)
                           in (case outcome of Inl e \<Rightarrow> Inl e | Inr _ \<Rightarrow> Inr ?r, b1))"
        unfolding Inr s(1) by (auto simp: reserve_seq_and_persist_def persist_anchor_record_def Let_def split: prod.splits)
      from put have "res = Inr ?r \<and> b' = Mapping.update ?k (ac_enc c ?r) b \<or>
          (\<exists>e. res = Inl e) \<and> (b' = b \<or> b' = Mapping.update ?k (ac_enc c ?r) b)"
        by (cases put) (auto simp: faulty_put_def)
      with s(2) p \<open>st' = st1\<close> show ?thesis unfolding Let_def by blast
    qed
  qed
qed

text \<open>Own objects stay as they are; what is written is a record of this author under its key.\<close>

definition own_kept :: "anchor_config \<Rightarrow> memory_blob_store \<Rightarrow> memory_blob_store \<Rightarrow> bool" where
  "own_kept c b b' \<longleftrightarrow> (\<forall>s x. Mapping.lookup b (own_key c s) = Some x \<longrightarrow> Mapping.lookup b' (own_key c s) = Some x)"

lemma own_kept_refl [simp]: "own_kept c b b" by (simp add: own_kept_def)

lemma own_kept_trans: "own_kept c a b \<Longrightarrow> own_kept c b d \<Longrightarrow> own_kept c a d" by (simp add: own_kept_def)

lemma recorded_kept: "own_kept c b b' \<Longrightarrow> recorded c b h \<Longrightarrow> recorded c b' h"
  by (auto simp: own_kept_def recorded_def)

lemma reserve_kept:
  assumes "reserve_seq_and_persist c views put r st b = Some (res, st', b')" and "honest_views c b views"
    and "ar_author_key r = author_key c"
  shows "own_kept c b b'" "an_pending st' = an_pending st"
    and "res = Inr r' \<Longrightarrow> Mapping.lookup b' (own_key c (ar_seq r')) = Some (ac_enc c r')"
    and "res = Inr r' \<Longrightarrow> \<exists>s. r' = anchor_sign_with (ac_signer c) (stamp_seq s r)"
proof -
  note r = reserve_seq_and_persist_result [OF assms(1), unfolded assms(3) Let_def]
  from r show "an_pending st' = an_pending st" ..
  have fresh: "Mapping.lookup b (own_key c s) = None" if "bv_get (views j) (own_key c s) = Inl (NotFound n)" for s j n
    using assms(2) that unfolding honest_views_def by blast
  have "own_kept c b (Mapping.update (own_key c s) x b)" if "Mapping.lookup b (own_key c s) = None" for s x
    using that by (auto simp: own_kept_def lookup_update')
  with r fresh show "own_kept c b b'" by auto
  show "res = Inr r' \<Longrightarrow> Mapping.lookup b' (own_key c (ar_seq r')) = Some (ac_enc c r')"
    "res = Inr r' \<Longrightarrow> \<exists>s. r' = anchor_sign_with (ac_signer c) (stamp_seq s r)"
    using r by auto
qed

lemma batch_record_sel [simp]:
  "ar_author_key (batch_record c batch rc) = author_key c" "ar_leaves (batch_record c batch rc) = map pl_hash batch"
  "ar_root (batch_record c batch rc) = merkle_root (ac_prims c) (map pl_hash batch)" "ar_receipt (batch_record c batch rc) = rc"
  "ar_meta (batch_record c batch rc) = batch_meta_of (ac_team c) batch"
  by (simp_all add: batch_record_def Let_def)

lemma commit_batch_cases:
  assumes "commit_batch c env batch st b = Some (res, st', b')"
  obtains (refused) e where "res = Inl e" "st' = restore batch st" "b' = b"
  | (failed) rc e st1 where "reserve_seq_and_persist c (ce_views env) (ce_put env) (batch_record c batch rc) st b = Some (Inl e, st1, b')"
      "res = Inl e" "st' = restore batch st1"
  | (stored) rc r where "ce_anchor env (merkle_root (ac_prims c) (map pl_hash batch)) (batch_meta_of (ac_team c) batch) = Inr rc"
      "reserve_seq_and_persist c (ce_views env) (ce_put env) (batch_record c batch rc) st b = Some (Inr r, st', b')"
      "res = Inr (ar_receipt r)"
proof (cases "ce_anchor env (merkle_root (ac_prims c) (map pl_hash batch)) (batch_meta_of (ac_team c) batch)")
  case (Inl e)
  with assms have "res = Inl e" "st' = restore batch st" "b' = b" by (simp_all add: commit_batch_def)
  then show ?thesis by (rule refused)
next
  case (Inr rc)
  with assms obtain res1 st1 b1 where
    res: "reserve_seq_and_persist c (ce_views env) (ce_put env) (batch_record c batch rc) st b = Some (res1, st1, b1)"
    by (auto simp: commit_batch_def)
  show ?thesis
  proof (cases res1)
    case (Inl e)
    with assms res \<open>ce_anchor _ _ _ = Inr rc\<close> show ?thesis by (intro failed [of rc e st1]) (auto simp: commit_batch_def)
  next
    case (Inr r)
    with assms res \<open>ce_anchor _ _ _ = Inr rc\<close> show ?thesis by (intro stored [of rc r]) (auto simp: commit_batch_def)
  qed
qed

text \<open>One commit: its leaves are back in front of the pending ones, or a record holds them.\<close>

lemma commit_batch_result:
  assumes run: "commit_batch c env batch st b = Some (res, st', b')" and honest: "honest_views c b (ce_views env)"
  shows "own_kept c b b'"
    and "an_pending st' = batch @ an_pending st \<or> an_pending st' = an_pending st \<and> (\<forall>h\<in>pl_hash ` set batch. recorded c b' h)"
proof -
  have "own_kept c b b' \<and> (an_pending st' = batch @ an_pending st \<or>
      an_pending st' = an_pending st \<and> (\<forall>h\<in>pl_hash ` set batch. recorded c b' h))"
    using run
  proof (cases rule: commit_batch_cases)
    case (refused e)
    then show ?thesis by (simp add: restore_def)
  next
    case (failed rc e st1)
    with reserve_kept(1,2) [OF failed(1) honest] show ?thesis by (simp add: restore_def)
  next
    case (stored rc r)
    note k = reserve_kept [OF stored(2) honest batch_record_sel(1)]
    from k(4) [OF refl] obtain s where r: "r = anchor_sign_with (ac_signer c) (stamp_seq s (batch_record c batch rc))" by blast
    have "recorded c b' h" if "h \<in> pl_hash ` set batch" for h
      unfolding recorded_def using k(3) [OF refl] that by (intro exI [of _ r]) (auto simp: r)
    with k show ?thesis by simp
  qed
  then show "own_kept c b b'"
    and "an_pending st' = batch @ an_pending st \<or> an_pending st' = an_pending st \<and> (\<forall>h\<in>pl_hash ` set batch. recorded c b' h)"
    by blast+
qed

section \<open>The processes of one author\<close>

lemma schedule_anchor_leaves:
  "schedule_anchor t h l st = (batch, st') \<Longrightarrow>
     an_pending st @ [\<lparr>pl_hash = h, pl_lamport = l\<rparr>] = concat (flight_of batch) @ an_pending st'"
  by (auto simp: schedule_anchor_def drain_batch_def flight_of_def Let_def split: if_splits)

lemma flush_drain_leaves: "flush_drain st = (batch, st') \<Longrightarrow> an_pending st = concat (flight_of batch) @ an_pending st'"
  by (auto simp: flush_drain_def drain_batch_def flight_of_def split: if_splits)

text \<open>The leaves a process still has to anchor.\<close>

definition leaves_of :: "anchoring \<Rightarrow> nat \<Rightarrow> blake3_hash set" where
  "leaves_of m i = pl_hash ` ((case ag_procs m i of None \<Rightarrow> {} | Some st \<Rightarrow> set (an_pending st)) \<union> \<Union>(set ` set (ag_flight m i)))"

lemma kept_leaf_iff: "kept_leaf c m i h \<longleftrightarrow> h \<in> leaves_of m i \<or> recorded c (ag_bucket m) h"
  by (auto simp: kept_leaf_def leaves_of_def split: option.splits)

lemma anchor_step_kept: "anchor_step c m m' \<Longrightarrow> own_kept c (ag_bucket m) (ag_bucket m')"
proof (induction rule: anchor_step.induct)
  case (drops m i st xs batch ys views r put res st' b b' n)
  from reserve_kept(1) [OF drops(5,3,4)] drops(6) show ?case by auto
qed (auto simp: own_kept_def dest: commit_batch_result(1))

definition scheduled_kept :: "anchor_config \<Rightarrow> anchoring \<Rightarrow> bool" where
  "scheduled_kept c m \<longleftrightarrow> (\<forall>i h. ag_procs m i \<noteq> None \<longrightarrow> h \<in> ag_scheduled m i \<longrightarrow> h \<in> leaves_of m i \<or> recorded c (ag_bucket m) h)"

lemma scheduled_keptD:
  "scheduled_kept c m \<Longrightarrow> ag_procs m i = Some st \<Longrightarrow> h \<in> ag_scheduled m i \<Longrightarrow> h \<in> leaves_of m i \<or> recorded c (ag_bucket m) h"
  by (simp add: scheduled_kept_def)

text \<open>A step of one process: the leaves of the others and the records stay.\<close>

lemma scheduled_keptI:
  assumes "scheduled_kept c m" and "own_kept c (ag_bucket m) (ag_bucket m')"
    and "\<And>j. j \<noteq> i \<Longrightarrow> ag_procs m' j = ag_procs m j \<and> ag_flight m' j = ag_flight m j \<and> ag_scheduled m' j = ag_scheduled m j"
    and "\<And>h. ag_procs m' i \<noteq> None \<Longrightarrow> h \<in> ag_scheduled m' i \<Longrightarrow> h \<in> leaves_of m' i \<or> recorded c (ag_bucket m') h"
  shows "scheduled_kept c m'"
  unfolding scheduled_kept_def
proof (intro allI impI)
  fix j h
  assume run: "ag_procs m' j \<noteq> None" "h \<in> ag_scheduled m' j"
  show "h \<in> leaves_of m' j \<or> recorded c (ag_bucket m') h"
  proof (cases "j = i")
    case False
    note same = assms(3) [OF False]
    from same have "leaves_of m' j = leaves_of m j" by (simp add: leaves_of_def)
    moreover have "h \<in> leaves_of m j \<or> recorded c (ag_bucket m) h"
      using assms(1) run same unfolding scheduled_kept_def by simp
    ultimately show ?thesis using recorded_kept [OF assms(2)] by metis
  qed (use run assms(4) in simp)
qed

lemma anchor_step_leaves:
  assumes "anchor_step c m m'" and ok: "scheduled_kept c m"
  shows "scheduled_kept c m'"
  using assms(1)
proof cases
  case (schedules i st h l batch st')
  show ?thesis
  proof (rule scheduled_keptI [OF ok anchor_step_kept [OF assms(1)], of i])
    fix h'
    assume "h' \<in> ag_scheduled m' i"
    moreover have "leaves_of m' i = insert h (leaves_of m i)"
    proof -
      let ?L = "\<Union>(set ` set (ag_flight m i))"
      have eq: "\<Union>(set ` set (flight_of batch)) \<union> set (an_pending st') = insert \<lparr>pl_hash = h, pl_lamport = l\<rparr> (set (an_pending st))"
        using arg_cong [OF schedule_anchor_leaves [OF schedules(3)], of set] by simp
      have "leaves_of m' i = pl_hash ` (?L \<union> (\<Union>(set ` set (flight_of batch)) \<union> set (an_pending st')))"
        by (simp add: leaves_of_def schedules(1) Un_ac)
      also have "\<dots> = insert h (leaves_of m i)" unfolding eq by (simp add: leaves_of_def schedules(2) Un_ac)
      finally show ?thesis .
    qed
    ultimately show "h' \<in> leaves_of m' i \<or> recorded c (ag_bucket m') h'"
      using scheduled_keptD [OF ok schedules(2)] schedules(1) by auto
  qed (simp_all add: schedules(1))
next
  case (flushes i st batch st')
  have "leaves_of m' i = leaves_of m i"
    using arg_cong [OF flush_drain_leaves [OF flushes(3)], of set] flushes(1,2) by (auto simp: leaves_of_def)
  with scheduled_keptD [OF ok flushes(2)] show ?thesis
    by (intro scheduled_keptI [OF ok anchor_step_kept [OF assms(1)], of i]) (auto simp: flushes(1))
next
  case (commits i st xs batch ys env res st' b)
  have "h \<in> leaves_of m i \<Longrightarrow> h \<in> leaves_of m' i \<or> recorded c b h" for h
    using commit_batch_result(2) [OF commits(5,4)] commits(1,2,3) by (auto simp: leaves_of_def)
  with scheduled_keptD [OF ok commits(2)] recorded_kept [OF anchor_step_kept [OF assms(1)]] show ?thesis
    by (intro scheduled_keptI [OF ok anchor_step_kept [OF assms(1)], of i]) (auto simp: commits(1))
next
  case (drops i st xs batch ys views r put res st' b b' n)
  have "h \<in> leaves_of m i \<Longrightarrow> h \<in> leaves_of m' i" for h
    using drops(1,2,3) by (auto simp: leaves_of_def drop_commit_def restore_def)
  with scheduled_keptD [OF ok drops(2)] recorded_kept [OF anchor_step_kept [OF assms(1)]] show ?thesis
    by (intro scheduled_keptI [OF ok anchor_step_kept [OF assms(1)], of i]) (auto simp: drops(1))
next
  case (starts i)
  then show ?thesis by (intro scheduled_keptI [OF ok anchor_step_kept [OF assms(1)], of i]) auto
next
  case (ends i)
  then show ?thesis by (intro scheduled_keptI [OF ok anchor_step_kept [OF assms(1)], of i]) auto
next
  case (others b)
  have "leaves_of m' = leaves_of m" by (simp add: others(1) leaves_of_def fun_eq_iff)
  with ok recorded_kept [OF anchor_step_kept [OF assms(1)]] others show ?thesis by (auto simp: scheduled_kept_def)
qed

lemma anchor_run_kept:
  assumes "(anchor_step c)\<^sup>*\<^sup>* m m'" and "scheduled_kept c m"
  shows "scheduled_kept c m' \<and> own_kept c (ag_bucket m) (ag_bucket m')"
  using assms
proof (induction rule: rtranclp_induct)
  case (step m1 m2)
  then show ?case using anchor_step_leaves anchor_step_kept own_kept_trans by metis
qed simp

section \<open>A bucket that answers\<close>

text \<open>The first sequence number a reservation tries.\<close>

definition first_seq :: "anchor_config \<Rightarrow> anchor_record list \<Rightarrow> anchor_state \<Rightarrow> u64" where
  "first_seq c records st =
     max (an_next_seq st) (max_or_zero (map (\<lambda>r. u64_saturating_succ (ar_seq r)) (filter (\<lambda>r. ar_author_key r = author_key c) records)))"

text \<open>The readable records are \<open>records\<close>, and every get of an own record key is answered, with the object or with
  its absence.\<close>

definition answers :: "anchor_config \<Rightarrow> blob_view \<Rightarrow> anchor_record list \<Rightarrow> bool" where
  "answers c bv records \<longleftrightarrow>
     read_anchor_records (ac_prims c) (ac_dec c) bv (ac_team c) = Inr records \<and>
     (\<forall>s. isl (bv_get bv (own_key c s)) \<longrightarrow> (\<exists>n. bv_get bv (own_key c s) = Inl (NotFound n)))"

definition seq_free :: "anchor_config \<Rightarrow> blob_view \<Rightarrow> u64 \<Rightarrow> bool" where
  "seq_free c bv s \<longleftrightarrow> isl (bv_get bv (own_key c s))"

lemma answers_exists:
  "answers c bv records \<Longrightarrow> anchor_record_exists (bv_get bv) (ac_team c) (author_key c) s = Inr (\<not> seq_free c bv s)"
proof (cases "bv_get bv (own_key c s)")
  case (Inl e)
  assume "answers c bv records"
  with Inl obtain n where "e = NotFound n" unfolding answers_def by (metis sum.sel(1) sum.disc(1))
  with Inl show ?thesis by (simp add: seq_free_def anchor_record_exists_def)
qed (simp add: seq_free_def anchor_record_exists_def)

lemma answers_reseed:
  "answers c bv records \<Longrightarrow> reseed_next_seq c bv st = (Inr (), st\<lparr>an_next_seq := first_seq c records st\<rparr>)"
  by (simp add: answers_def reseed_next_seq_def first_seq_def Let_def)

lemma first_seq_mono:
  "first_seq c records st \<le> an_next_seq st' \<Longrightarrow> first_seq c records st' = an_next_seq st'"
  by (simp add: first_seq_def max.absorb1)

lemma u64_succ_le: "s < t \<Longrightarrow> u64_saturating_succ s \<le> t" "s < t \<Longrightarrow> unat (u64_saturating_succ s) = Suc (unat s)"
proof -
  assume less: "s < t"
  then have "s \<noteq> - 1" using word_order.extremum_strict [of t] by auto
  then show eq: "unat (u64_saturating_succ s) = Suc (unat s)"
    by (simp add: u64_saturating_succ_def u64_not_max_iff unat_word_ariths)
  with less show "u64_saturating_succ s \<le> t" by (simp add: word_le_nat_alt word_less_nat_alt)
qed

text \<open>The loop stops at the first free number at or after the counter.\<close>

lemma reserve_loop_least:
  assumes bv: "answers c bv records" and "\<forall>j. views j = bv" and "seq_free c bv free"
  shows "an_next_seq st \<le> free \<Longrightarrow> first_seq c records st = an_next_seq st \<Longrightarrow> ar_author_key r = author_key c \<Longrightarrow>
    \<exists>s. an_next_seq st \<le> s \<and> s \<le> free \<and> seq_free c bv s \<and> (\<forall>t. an_next_seq st \<le> t \<and> t < s \<longrightarrow> \<not> seq_free c bv t) \<and>
      reserve_loop c views i r st = Some (Inr (stamp_seq s r), st\<lparr>an_next_seq := u64_saturating_succ s\<rparr>)"
proof (induction "unat free - unat (an_next_seq st)" arbitrary: st r i rule: less_induct)
  case less
  let ?s = "an_next_seq st"
  note ex = answers_exists [OF bv, of ?s]
  show ?case
  proof (cases "seq_free c bv ?s")
    case True
    then show ?thesis using ex less.prems assms(2)
      by (intro exI [of _ ?s]) (subst reserve_loop.simps, auto simp: Let_def)
  next
    case False
    with less.prems(1) assms(3) have "?s < free" by (metis order_le_imp_less_or_eq)
    let ?st = "st\<lparr>an_next_seq := u64_saturating_succ ?s\<rparr>"
    have first: "first_seq c records ?st = an_next_seq ?st"
      by (rule first_seq_mono [of _ _ st]) (use less.prems(2) u64_saturating_succ_ge [of ?s] in simp)
    have step: "reserve_loop c views i r st = reserve_loop c views (i + 1) (stamp_seq ?s r) ?st"
      using ex False less.prems(3) assms(2) answers_reseed [OF bv, of ?st] first
      by (subst reserve_loop.simps) (simp add: Let_def)
    have "unat free - unat (an_next_seq ?st) < unat free - unat ?s"
      using u64_succ_le(2) [OF \<open>?s < free\<close>] \<open>?s < free\<close> by (simp add: word_less_nat_alt)
    from less.hyps [OF this _ first, of "stamp_seq ?s r" "i + 1"] u64_succ_le(1) [OF \<open>?s < free\<close>] less.prems(3)
    obtain s where s: "an_next_seq ?st \<le> s" "s \<le> free" "seq_free c bv s" "\<forall>t. an_next_seq ?st \<le> t \<and> t < s \<longrightarrow> \<not> seq_free c bv t"
      "reserve_loop c views (i + 1) (stamp_seq ?s r) ?st = Some (Inr (stamp_seq s r), st\<lparr>an_next_seq := u64_saturating_succ s\<rparr>)"
      by auto
    have "\<not> seq_free c bv t" if "?s \<le> t" "t < s" for t
      using that s(4) False u64_succ_le(1) [of ?s t] by (cases "t = ?s") (auto simp: order_le_less)
    with s u64_saturating_succ_ge [of ?s] step show ?thesis by (intro exI [of _ s]) auto
  qed
qed

text \<open>A commit whose sink, reads and put all answer.\<close>

lemma commit_answered:
  assumes "ce_anchor env (merkle_root (ac_prims c) (map pl_hash batch)) (batch_meta_of (ac_team c) batch) = Inr receipt"
    and "answers c bv records" and "\<forall>j. ce_views env j = bv" and "ce_put env = Done"
    and "seq_free c bv free" and "first_seq c records st \<le> free"
  obtains s r where "first_seq c records st \<le> s" "s \<le> free" "seq_free c bv s"
    "\<forall>t. first_seq c records st \<le> t \<and> t < s \<longrightarrow> \<not> seq_free c bv t"
    "r = anchor_sign_with (ac_signer c) (stamp_seq s (batch_record c batch receipt))"
    "commit_batch c env batch st b =
      Some (Inr (ar_receipt r), st\<lparr>an_next_seq := u64_saturating_succ s\<rparr>, Mapping.update (own_key c s) (ac_enc c r) b)"
proof -
  let ?st = "st\<lparr>an_next_seq := first_seq c records st\<rparr>"
  let ?r = "batch_record c batch receipt"
  have "first_seq c records ?st = an_next_seq ?st" by (rule first_seq_mono [of _ _ st]) simp
  from reserve_loop_least [OF assms(2,3,5) _ this, of ?r] assms(6)
  obtain s where s: "first_seq c records st \<le> s" "s \<le> free" "seq_free c bv s"
    "\<forall>t. first_seq c records st \<le> t \<and> t < s \<longrightarrow> \<not> seq_free c bv t"
    "reserve_loop c (ce_views env) 0 ?r ?st = Some (Inr (stamp_seq s ?r), ?st\<lparr>an_next_seq := u64_saturating_succ s\<rparr>)"
    by auto
  have seed: "reseed_next_seq c (ce_views env 0) st = (Inr (), ?st)"
    using answers_reseed [OF assms(2), of st] assms(3) by simp
  have "commit_batch c env batch st b = Some (Inr (ar_receipt (anchor_sign_with (ac_signer c) (stamp_seq s ?r))),
      st\<lparr>an_next_seq := u64_saturating_succ s\<rparr>, Mapping.update (own_key c s) (ac_enc c (anchor_sign_with (ac_signer c) (stamp_seq s ?r))) b)"
    using s(5) assms(1,4)
    by (simp add: commit_batch_def reserve_seq_and_persist_def seed persist_anchor_record_def faulty_put_def Let_def)
  with s(1-4) that show ?thesis by blast
qed

text \<open>A counter at the end of its range whose object exists: the loop goes round for ever.\<close>

lemma reserve_loop_stuck:
  "reserve_loop c views i r st = Some y \<Longrightarrow> (\<forall>j. \<exists>records. answers c (views j) records \<and> \<not> seq_free c (views j) (- 1)) \<Longrightarrow>
     an_next_seq st = - 1 \<Longrightarrow> ar_author_key r = author_key c \<Longrightarrow> False"
proof (induction rule: reserve_loop.raw_induct [rotated, consumes 1, case_names step])
  case (step loop c views i r st y)
  obtain records where a: "answers c (views (2 * i + 1)) records" "\<not> seq_free c (views (2 * i + 1)) (- 1)" using step.prems(1) by blast
  obtain records' where a': "answers c (views (2 * i + 2)) records'" using step.prems(1) by blast
  have last: "u64_saturating_succ (- 1) = - 1" by (simp add: u64_saturating_succ_def)
  have "max (- 1) n = - 1" for n :: u64 by (rule max_absorb1) simp
  then have "first_seq c records' st = - 1" by (simp add: first_seq_def step.prems(2))
  moreover have "st\<lparr>an_next_seq := - 1\<rparr> = st" by (rule anchor_state.equality) (simp_all add: step.prems(2))
  ultimately have "reseed_next_seq c (views (2 * i + 2)) (st\<lparr>an_next_seq := - 1\<rparr>) = (Inr (), st)"
    using answers_reseed [OF a', of st] by simp
  then have "loop c views (i + 1) (stamp_seq (- 1) r) st = Some y"
    using step(2) answers_exists [OF a(1), of "- 1"] a(2) step.prems(2,3) last by (simp add: Let_def)
  from step(1) [OF this step.prems(1,2)] step.prems(3) show False by simp
qed

section \<open>Signing legacy records\<close>

definition own_unsigned :: "anchor_config \<Rightarrow> scanned_anchor list \<Rightarrow> anchor_record list" where
  "own_unsigned c es = map sa_record (filter (\<lambda>e. ar_author_key (sa_record e) = author_key c \<and> sa_signature e = Unsigned) es)"

definition resign_all :: "anchor_config \<Rightarrow> anchor_record list \<Rightarrow> memory_blob_store \<Rightarrow> memory_blob_store" where
  "resign_all c rs b = foldl (\<lambda>b r. Mapping.update (own_key c (ar_seq r)) (ac_enc c (anchor_sign_with (ac_signer c) r)) b) b rs"

lemma resign_loop_done:
  "resign_loop c (\<lambda>_. Done) es rep seqs b =
     (Inr (\<lparr>rs_resigned = rs_resigned rep + length (own_unsigned c es),
            rs_already_signed = rs_already_signed rep + length (filter (\<lambda>e. ar_author_key (sa_record e) = author_key c \<and> sa_signature e = Valid) es),
            rs_invalid_skipped = rs_invalid_skipped rep + length (filter (\<lambda>e. ar_author_key (sa_record e) = author_key c \<and> sa_signature e = Invalid) es),
            rs_other_author = rs_other_author rep + length (filter (\<lambda>e. ar_author_key (sa_record e) \<noteq> author_key c) es)\<rparr>,
           seqs @ map ar_seq (own_unsigned c es)),
      resign_all c (own_unsigned c es) b)"
proof (induction es arbitrary: rep seqs b)
  case (Cons e es)
  show ?case
    by (cases "sa_signature e"; cases "ar_author_key (sa_record e) = author_key c")
      (simp_all add: Cons.IH own_unsigned_def resign_all_def persist_anchor_record_def faulty_put_def Let_def)
qed (simp add: own_unsigned_def resign_all_def)

lemma resign_all_lookup:
  "Mapping.lookup (resign_all c rs b) k =
     (let ys = filter (\<lambda>r. own_key c (ar_seq r) = k) rs in
      if ys = [] then Mapping.lookup b k else Some (ac_enc c (anchor_sign_with (ac_signer c) (last ys))))"
  by (simp add: resign_all_def foldl_update_lookup)

lemma resign_all_inv: "mem_inv b \<Longrightarrow> mem_inv (resign_all c rs b)"
  by (induction rs rule: rev_induct) (auto simp: resign_all_def mem_inv_def)

text \<open>What a scan of an honest bucket sees.\<close>

lemma memory_scan:
  assumes "mem_inv b"
  obtains sc where "scan_anchor_records P dec (memory.view b) tm = Inr sc"
    and "\<And>k r. (\<exists>e\<in>set (as_records sc). sa_object_key e = k \<and> sa_record e = r \<and> sa_signature e = signature_state P r) \<longleftrightarrow>
      prefix (anchors_prefix tm) k \<and> (\<exists>bs. Mapping.lookup b k = Some bs \<and> dec bs = Some r) \<and> \<not> anchor_malformed r"
    and "\<And>e. e \<in> set (as_records sc) \<Longrightarrow> sa_signature e = signature_state P (sa_record e)"
proof -
  let ?v = "memory.view b"
  obtain keys where keys: "mem_list b (anchors_prefix tm) = Inr keys" by (simp add: mem_list_def)
  then have listed: "bv_list ?v (anchors_prefix tm) = Inr keys" by (simp add: memory.view_def)
  have ks: "set keys = {k. prefix (anchors_prefix tm) k \<and> (\<exists>x. mem_get b k = Inr x)}"
    by (rule memory.listing_exact [OF assms keys])
  have fair: "fair ?v" by (simp add: fair_def memory.view_def)
  have get: "bv_get ?v k = Inr bs \<longleftrightarrow> Mapping.lookup b k = Some bs" for k bs
    by (simp add: memory.view_def mem_get_def split: option.splits)
  have "find (\<lambda>k. isl (bv_get ?v k)) (sort keys) = None"
    unfolding find_None_iff using ks by (auto simp: memory.view_def)
  then obtain sc where sc: "scan_anchor_records P dec ?v tm = Inr sc"
    and recs: "set (as_records sc) = {e. \<exists>k\<in>set keys. scan_entry P dec (bv_get ?v) k = Some e}"
    by (simp add: scan_eq [OF fair listed] set_eq_iff in_map_filter)
  have at: "anchored_at dec ?v k r \<longleftrightarrow> (\<exists>bs. Mapping.lookup b k = Some bs \<and> dec bs = Some r) \<and> \<not> anchor_malformed r" for k r
    by (auto simp: anchored_at_def get anchor_malformed_iff)
  have mem: "e \<in> set (as_records sc) \<longleftrightarrow> sa_object_key e \<in> set keys \<and> anchored_at dec ?v (sa_object_key e) (sa_record e) \<and>
      sa_signature e = signature_state P (sa_record e)" for e
    unfolding recs mem_Collect_eq scan_entry_Some by blast
  have "(\<exists>e\<in>set (as_records sc). sa_object_key e = k \<and> sa_record e = r \<and> sa_signature e = signature_state P r) \<longleftrightarrow>
      k \<in> set keys \<and> anchored_at dec ?v k r" for k r
  proof
    assume "k \<in> set keys \<and> anchored_at dec ?v k r"
    then show "\<exists>e\<in>set (as_records sc). sa_object_key e = k \<and> sa_record e = r \<and> sa_signature e = signature_state P r"
      unfolding Bex_def mem by (intro exI [of _ "\<lparr>sa_object_key = k, sa_record = r, sa_signature = signature_state P r\<rparr>"]) simp
  next
    assume "\<exists>e\<in>set (as_records sc). sa_object_key e = k \<and> sa_record e = r \<and> sa_signature e = signature_state P r"
    then obtain e where "e \<in> set (as_records sc)" "sa_object_key e = k" "sa_record e = r" by blast
    then show "k \<in> set keys \<and> anchored_at dec ?v k r" using mem [of e] by simp
  qed
  moreover have "k \<in> set keys \<longleftrightarrow> prefix (anchors_prefix tm) k \<and> Mapping.lookup b k \<noteq> None" for k
    using ks by (auto simp: mem_get_def split: option.splits)
  ultimately have "(\<exists>e\<in>set (as_records sc). sa_object_key e = k \<and> sa_record e = r \<and> sa_signature e = signature_state P r) \<longleftrightarrow>
      prefix (anchors_prefix tm) k \<and> (\<exists>bs. Mapping.lookup b k = Some bs \<and> dec bs = Some r) \<and> \<not> anchor_malformed r" for k r
    unfolding at by (metis option.distinct(1))
  from that [OF sc this] mem show ?thesis by blast
qed

text \<open>An object that counts as a legacy record of this author.\<close>

definition legacy :: "anchor_config \<Rightarrow> memory_blob_store \<Rightarrow> string \<Rightarrow> anchor_record \<Rightarrow> bool" where
  "legacy c b k r \<longleftrightarrow>
     prefix (anchors_prefix (ac_team c)) k \<and> (\<exists>bs. Mapping.lookup b k = Some bs \<and> ac_dec c bs = Some r) \<and> \<not> anchor_malformed r \<and>
     ar_author_key r = author_key c \<and> ar_sig r = None"

definition resign_ok :: "anchor_config \<Rightarrow> bool" where
  "resign_ok c \<longleftrightarrow> (\<forall>r. ac_dec c (ac_enc c r) = Some r) \<and>
     (\<forall>msg. verify (ac_prims c) (author_key c) msg (signer_sign (ac_signer c) msg))"

lemma unsigned_iff: "signature_state P r = Unsigned \<longleftrightarrow> ar_sig r = None"
  by (auto simp: signature_state_def split: option.splits)

lemma own_key_prefix: "prefix (anchors_prefix (ac_team c)) (own_key c s)"
  by (simp add: anchors_prefix_def anchor_record_key_def prefix_def)

lemma signed_valid: "resign_ok c \<Longrightarrow> ar_author_key r = author_key c \<Longrightarrow> signature_state (ac_prims c) (anchor_sign_with (ac_signer c) r) = Valid"
  by (simp add: signature_state_def resign_ok_def)

lemma sign_malformed [simp]: "anchor_malformed (anchor_sign_with sg r) = anchor_malformed r"
  by (simp add: anchor_malformed_iff)

text \<open>Against an honest bucket the call succeeds; what it did is \<open>resign_all\<close> of the legacy records.\<close>

lemma resign_result:
  assumes b: "mem_inv b" and ok: "resign_ok c"
  obtains rep F where "resign_anchor_records c memory.view (\<lambda>_. Done) b = (Inr rep, resign_all c F b)"
    and "set F = {r. \<exists>k. legacy c b k r}" and "rs_resigned rep = length F"
proof -
  let ?P = "ac_prims c" and ?tm = "ac_team c" and ?dec = "ac_dec c"
  obtain sc where sc: "scan_anchor_records ?P ?dec (memory.view b) ?tm = Inr sc"
    and mem: "\<And>k r. (\<exists>e\<in>set (as_records sc). sa_object_key e = k \<and> sa_record e = r \<and> sa_signature e = signature_state ?P r) \<longleftrightarrow>
      prefix (anchors_prefix ?tm) k \<and> (\<exists>bs. Mapping.lookup b k = Some bs \<and> ?dec bs = Some r) \<and> \<not> anchor_malformed r"
    and sig: "\<And>e. e \<in> set (as_records sc) \<Longrightarrow> sa_signature e = signature_state ?P (sa_record e)"
    by (rule memory_scan [OF b, of ?P ?dec ?tm]) (rule that)
  define F where "F = own_unsigned c (as_records sc)"
  have F: "r \<in> set F \<longleftrightarrow> (\<exists>k. legacy c b k r)" for r
  proof -
    have "r \<in> set F \<longleftrightarrow> (\<exists>e\<in>set (as_records sc). sa_record e = r \<and> ar_author_key r = author_key c \<and> ar_sig r = None)"
      using sig unsigned_iff by (fastforce simp: F_def own_unsigned_def)
    also have "\<dots> \<longleftrightarrow> (\<exists>k. legacy c b k r)" unfolding legacy_def using mem [of _ r] sig by blast
    finally show ?thesis .
  qed
  let ?b = "resign_all c F b"
  obtain rep where loop: "resign_loop c (\<lambda>_. Done) (as_records sc)
      \<lparr>rs_resigned = 0, rs_already_signed = 0, rs_invalid_skipped = 0, rs_other_author = 0\<rparr> [] b = (Inr (rep, map ar_seq F), ?b)"
    and rep: "rs_resigned rep = length F"
    by (simp add: resign_loop_done F_def)
  obtain sc' where sc': "scan_anchor_records ?P ?dec (memory.view ?b) ?tm = Inr sc'"
    and mem': "\<And>k r. (\<exists>e\<in>set (as_records sc'). sa_object_key e = k \<and> sa_record e = r \<and> sa_signature e = signature_state ?P r) \<longleftrightarrow>
      prefix (anchors_prefix ?tm) k \<and> (\<exists>bs. Mapping.lookup ?b k = Some bs \<and> ?dec bs = Some r) \<and> \<not> anchor_malformed r"
    by (rule memory_scan [OF resign_all_inv [OF b, of c F], of ?P ?dec ?tm]) (rule that)
  have "reads_valid c sc' (ar_seq r)" if "r \<in> set F" for r
  proof -
    let ?ys = "filter (\<lambda>x. own_key c (ar_seq x) = own_key c (ar_seq r)) F"
    have "?ys \<noteq> []" using that by (auto simp: filter_empty_conv)
    then have last: "last ?ys \<in> set F" "ar_seq (last ?ys) = ar_seq r" using last_in_set [of ?ys] by auto
    let ?r = "anchor_sign_with (ac_signer c) (last ?ys)"
    have "Mapping.lookup ?b (own_key c (ar_seq r)) = Some (ac_enc c ?r)" using \<open>?ys \<noteq> []\<close> by (simp add: resign_all_lookup Let_def)
    moreover from last(1) have "ar_author_key (last ?ys) = author_key c" "\<not> anchor_malformed (last ?ys)"
      using F by (auto simp: legacy_def)
    ultimately have "\<exists>e\<in>set (as_records sc'). sa_object_key e = own_key c (ar_seq r) \<and> sa_record e = ?r \<and> sa_signature e = signature_state ?P ?r"
      using ok own_key_prefix by (subst mem') (simp add: resign_ok_def)
    then obtain e where "e \<in> set (as_records sc')" "sa_record e = ?r" "sa_signature e = signature_state ?P ?r" by blast
    then show ?thesis using signed_valid [OF ok \<open>ar_author_key (last ?ys) = author_key c\<close>] last(2) \<open>ar_author_key (last ?ys) = author_key c\<close>
      unfolding reads_valid_def list_ex_iff by (intro bexI [of _ e]) simp_all
  qed
  then have "resign_anchor_records c memory.view (\<lambda>_. Done) b = (Inr rep, ?b)"
    by (simp add: resign_anchor_records_def sc loop sc' list_all_iff)
  with F rep that show ?thesis by blast
qed

section \<open>A concrete author\<close>

definition anchor_enc :: "anchor_record \<Rightarrow> bytes" where
  "anchor_enc r =
     enc_word (ar_seq r) @ enc_bytes (ar_author_key r) @ enc_bytes (ar_root r) @ enc_text (bm_team (ar_meta r)) @
     enc_word (bm_first_lamport (ar_meta r)) @ enc_word (bm_last_lamport (ar_meta r)) @ enc_nat (bm_op_count (ar_meta r)) @
     enc_list enc_bytes (ar_leaves r) @ enc_bytes (rc_root (ar_receipt r)) @
     (case rc_reference (ar_receipt r) of
        Local s \<Rightarrow> enc_nat 0 @ enc_word s @ enc_text [] | OnChain b x \<Rightarrow> enc_nat 1 @ enc_text b @ enc_text x) @
     (case ar_sig r of None \<Rightarrow> enc_nat 0 @ [] | Some sg \<Rightarrow> enc_nat 1 @ enc_bytes sg)"

definition anchor_dec :: "bytes \<Rightarrow> anchor_record option" where
  "anchor_dec bs =
     (let (sq, bs) = dec_word bs; (k, bs) = dec_bytes bs; (root, bs) = dec_bytes bs; (tm, bs) = dec_text bs;
          (lo, bs) = dec_word bs; (hi, bs) = dec_word bs; (n, bs) = dec_nat bs; (ls, bs) = dec_list dec_bytes bs;
          (rroot, bs) = dec_bytes bs; (tag, bs) = dec_nat bs;
          (ref, bs) = (if tag = 0 then (let (s, bs) = dec_word bs; (_, bs) = dec_text bs in (Local s, bs))
                       else (let (b, bs) = dec_text bs; (x, bs) = dec_text bs in (OnChain b x, bs)));
          (has, bs) = dec_nat bs; sg = (if has = 0 then None else Some (fst (dec_bytes bs)))
      in Some \<lparr>ar_seq = sq, ar_author_key = k, ar_root = root,
           ar_meta = \<lparr>bm_team = tm, bm_first_lamport = lo, bm_last_lamport = hi, bm_op_count = n\<rparr>, ar_leaves = ls,
           ar_receipt = \<lparr>rc_root = rroot, rc_reference = ref\<rparr>, ar_sig = sg\<rparr>)"

lemma anchor_dec_enc [simp]: "anchor_dec (anchor_enc r) = Some r"
proof -
  have "dec_bytes (enc_bytes x) = (x, [])" for x using dec_enc_bytes [of x "[]"] by simp
  moreover have "dec_nat (enc_nat n) = (n, [])" for n using dec_enc_nat [of n "[]"] by simp
  ultimately show ?thesis
    by (cases r; cases "ar_meta r"; cases "ar_receipt r")
      (simp add: anchor_dec_def anchor_enc_def codec_simps dec_enc_list Let_def split: anchor_ref.split option.split)
qed

definition demo_author :: anchor_config where
  "demo_author = \<lparr>ac_prims = tree_prims, ac_team = ''t'', ac_signer = demo_writer 7, ac_enc = anchor_enc, ac_dec = anchor_dec,
     ac_threshold = 2\<rparr>"

definition empty_view :: blob_view where
  "empty_view = \<lparr>bv_list = (\<lambda>_. Inr []), bv_get = (\<lambda>k. Inl (NotFound k)), bv_order = id\<rparr>"

definition quiet_commit :: "blob_view \<Rightarrow> commit_env" where
  "quiet_commit bv = \<lparr>ce_anchor = (\<lambda>root meta. Inr (noop_anchor root meta)), ce_views = (\<lambda>_. bv), ce_put = Done\<rparr>"

text \<open>An unsigned record in the author's name, with the given number.\<close>

definition planted :: "u64 \<Rightarrow> byte \<Rightarrow> anchor_record" where
  "planted s n = \<lparr>ar_seq = s, ar_author_key = replicate 32 7, ar_root = replicate 32 n,
     ar_meta = \<lparr>bm_team = ''t'', bm_first_lamport = 1, bm_last_lamport = 1, bm_op_count = 1\<rparr>, ar_leaves = [replicate 32 n],
     ar_receipt = \<lparr>rc_root = replicate 32 n, rc_reference = Local s\<rparr>, ar_sig = None\<rparr>"

definition planted_view :: blob_view where
  "planted_view =
     (let k = anchor_record_key ''t'' (replicate 32 7) (- 1) in
      \<lparr>bv_list = (\<lambda>_. Inr [k]), bv_get = (\<lambda>j. if j = k then Inr (anchor_enc (planted (- 1) 5)) else Inl (NotFound j)), bv_order = id\<rparr>)"

lemma demo_author_sel [simp]:
  "ac_prims demo_author = tree_prims" "ac_team demo_author = ''t''" "ac_enc demo_author = anchor_enc" "ac_dec demo_author = anchor_dec"
  "author_key demo_author = replicate 32 7" "ac_threshold demo_author = 2"
  "signer_sign (ac_signer demo_author) = (\<lambda>_. replicate 64 7)"
  by (simp_all add: demo_author_def author_key_def demo_writer_def)

lemma demo_author_ok: "resign_ok demo_author"
  by (simp add: resign_ok_def verify_def is_identity_point_def tree_prims_def demo_prims_def)

lemma planted_sel [simp]:
  "ar_seq (planted s n) = s" "ar_author_key (planted s n) = replicate 32 7" "ar_leaves (planted s n) = [replicate 32 n]"
  "ar_sig (planted s n) = None" "\<not> anchor_malformed (planted s n)"
  by (simp_all add: planted_def anchor_malformed_iff)

lemma empty_answers: "answers demo_author empty_view []" "seq_free demo_author empty_view s"
  by (simp_all add: answers_def seq_free_def empty_view_def read_anchor_records_def read_anchor_records_with_policy_def
    scan_anchor_records_def fetch_bytes_def)

lemma planted_answers: "answers demo_author planted_view [planted (- 1) 5]" "\<not> seq_free demo_author planted_view (- 1)"
proof -
  have "signature_state tree_prims (planted s n) = Unsigned" for s n by (simp add: unsigned_iff)
  then show "answers demo_author planted_view [planted (- 1) 5]"
    by (auto simp: answers_def planted_view_def read_anchor_records_def read_anchor_records_with_policy_def
      scan_anchor_records_def fetch_bytes_def Let_def)
qed (simp add: seq_free_def planted_view_def Let_def)

section \<open>Properties\<close>





text \<open>C33. A record that says it is this author's with the last sequence number stops the author's anchoring for good:
  it need not be signed, since the counter is seeded from unsigned records too; once an object sits at the last
  key, a flush that finds leaves pending never returns, nor does the write that triggers a full batch.\<close>

theorem planted_last_seq_hangs:
  assumes "\<forall>j. \<exists>records. answers c (ce_views env j) records \<and> \<not> seq_free c (ce_views env j) (- 1) \<and>
      (\<exists>r\<in>set records. ar_author_key r = author_key c \<and> ar_seq r = - 1)"
    and "ce_anchor env (merkle_root (ac_prims c) (map pl_hash batch)) (batch_meta_of (ac_team c) batch) = Inr receipt"
  shows "commit_batch c env batch st b = None \<and> (an_pending st = batch \<and> batch \<noteq> [] \<longrightarrow> flush_anchors c env st b = None)"
proof -
  obtain records r where a: "answers c (ce_views env 0) records" "r \<in> set records" "ar_author_key r = author_key c" "ar_seq r = - 1"
    using assms(1) by blast
  have "- 1 \<le> max_or_zero (map (\<lambda>r. u64_saturating_succ (ar_seq r)) (filter (\<lambda>r. ar_author_key r = author_key c) records))"
    using a(2-4) by (intro max_or_zero_ge) (force simp: u64_saturating_succ_def)
  then have "first_seq c records st = - 1" for st
    unfolding first_seq_def by (metis max.absorb2 word_order.extremum word_order.extremum_uniqueI)
  then have seed: "reseed_next_seq c (ce_views env 0) st = (Inr (), st\<lparr>an_next_seq := - 1\<rparr>)" for st
    by (simp add: answers_reseed [OF a(1)])
  have stuck: "\<forall>j. \<exists>records. answers c (ce_views env j) records \<and> \<not> seq_free c (ce_views env j) (- 1)" using assms(1) by blast
  have "reserve_loop c (ce_views env) 0 r st = None" if "an_next_seq st = - 1" "ar_author_key r = author_key c" for r st
    using reserve_loop_stuck [OF _ stuck that] by (cases "reserve_loop c (ce_views env) 0 r st") blast+
  then have commit: "commit_batch c env batch st b = None" for st
    using assms(2) by (simp add: commit_batch_def Let_def reserve_seq_and_persist_def seed)
  then show ?thesis by (auto simp: flush_anchors_def flush_drain_def drain_batch_def)
qed

theorem planted_last_seq_hangs_witness:
  "flush_anchors demo_author (quiet_commit planted_view) \<lparr>an_pending = [\<lparr>pl_hash = demo_leaf 1, pl_lamport = 3\<rparr>], an_next_seq = 0\<rparr> Mapping.empty = None"
proof -
  let ?batch = "[\<lparr>pl_hash = demo_leaf 1, pl_lamport = 3\<rparr>]"
  have "\<forall>j. \<exists>records. answers demo_author (ce_views (quiet_commit planted_view) j) records \<and>
      \<not> seq_free demo_author (ce_views (quiet_commit planted_view) j) (- 1) \<and>
      (\<exists>r\<in>set records. ar_author_key r = author_key demo_author \<and> ar_seq r = - 1)"
    using planted_answers by (auto simp: quiet_commit_def intro!: exI [of _ "[planted (- 1) 5]"])
  from planted_last_seq_hangs [OF this, of ?batch _ _ Mapping.empty] show ?thesis by (simp add: quiet_commit_def)
qed

text \<open>C34. What a commit stores is well formed: under the author's own key, with leaves, one root that they hash to, as
  many as it says and none twice, a Lamport range that covers the batch, a local reference that is its own number,
  and a signature that verifies; so no reader counts it as malformed or unsigned.\<close>

theorem committed_record_well_formed:
  assumes "commit_batch c env batch st b = Some (Inr receipt, st', b')"
    and "honest_views c b (ce_views env)" and "batch \<noteq> []" and "distinct (map pl_hash batch)"
    and "\<forall>root meta rc. ce_anchor env root meta = Inr rc \<longrightarrow> rc_root rc = root"
    and "\<forall>msg. verify (ac_prims c) (author_key c) msg (signer_sign (ac_signer c) msg)"
  shows "\<exists>r. Mapping.lookup b' (own_key c (ar_seq r)) = Some (ac_enc c r) \<and> ar_receipt r = receipt \<and>
    ar_author_key r = author_key c \<and> \<not> anchor_malformed r \<and> signature_state (ac_prims c) r = Valid \<and>
    ar_leaves r = map pl_hash batch \<and> ar_root r = merkle_root (ac_prims c) (ar_leaves r) \<and>
    (\<forall>x\<in>set batch. bm_first_lamport (ar_meta r) \<le> pl_lamport x \<and> pl_lamport x \<le> bm_last_lamport (ar_meta r)) \<and>
    (\<forall>t. rc_reference receipt = Local t \<longrightarrow> t = ar_seq r)"
proof -
  let ?meta = "batch_meta_of (ac_team c) batch"
  obtain rc r1 where rc: "ce_anchor env (merkle_root (ac_prims c) (map pl_hash batch)) ?meta = Inr rc" and
    res: "reserve_seq_and_persist c (ce_views env) (ce_put env) (batch_record c batch rc) st b = Some (Inr r1, st', b')"
      "receipt = ar_receipt r1"
    using assms(1) by (cases rule: commit_batch_cases) auto
  from rc have root: "rc_root rc = merkle_root (ac_prims c) (map pl_hash batch)" using assms(5) by blast
  note k = reserve_kept [OF res(1) assms(2) batch_record_sel(1)]
  from k(4) [OF refl] obtain s where r1: "r1 = anchor_sign_with (ac_signer c) (stamp_seq s (batch_record c batch rc))" by blast
  have "bm_first_lamport ?meta \<le> pl_lamport x \<and> pl_lamport x \<le> bm_last_lamport ?meta" if "x \<in> set batch" for x
    using that by (simp add: batch_meta_of_def min_or_zero_le max_or_zero_ge)
  moreover have "\<not> anchor_malformed r1"
    using assms(3,4) root by (simp add: anchor_malformed_iff r1 batch_meta_of_def)
  moreover have "signature_state (ac_prims c) r1 = Valid"
    using assms(6) by (simp add: signature_state_def r1)
  ultimately show ?thesis
    using k(3) [OF refl] res(2) stamp_seq_local [of s "batch_record c batch rc"] by (intro exI [of _ r1]) (auto simp: r1)
qed

theorem committed_record_well_formed_witness:
  "\<exists>b' st' r. commit_batch demo_author (quiet_commit empty_view) [\<lparr>pl_hash = demo_leaf 1, pl_lamport = 3\<rparr>] fresh_state Mapping.empty =
       Some (Inr (ar_receipt r), st', b') \<and>
     Mapping.lookup b' (own_key demo_author (ar_seq r)) = Some (anchor_enc r) \<and> signature_state tree_prims r = Valid \<and> \<not> anchor_malformed r"
proof -
  let ?batch = "[\<lparr>pl_hash = demo_leaf 1, pl_lamport = 3\<rparr>]" and ?env = "quiet_commit empty_view"
  have "first_seq demo_author [] fresh_state \<le> 0" by (simp add: first_seq_def max_or_zero_def fresh_state_def)
  then obtain rc st' b' where run: "commit_batch demo_author ?env ?batch fresh_state Mapping.empty = Some (Inr rc, st', b')"
    by (rule_tac commit_answered [of ?env demo_author ?batch _ empty_view "[]" 0 fresh_state Mapping.empty])
      (use empty_answers in \<open>auto simp: quiet_commit_def\<close>)
  have "honest_views demo_author Mapping.empty (ce_views ?env)" by (simp add: honest_views_def lookup_empty)
  moreover have "\<forall>root meta rc. ce_anchor ?env root meta = Inr rc \<longrightarrow> rc_root rc = root" by (auto simp: quiet_commit_def noop_anchor_def)
  ultimately show ?thesis
    using committed_record_well_formed [OF run] demo_author_ok run by (auto simp: resign_ok_def)
qed

text \<open>Signing the legacy records in place: on an honest bucket whose legacy records of this author are all where they
  belong, the call succeeds, signs each of them and touches no other object, and no legacy record is left, so a strict
  reader loses none of them.\<close>

theorem resign_exact:
  assumes "mem_inv b" and "resign_ok c" and "\<forall>k r. legacy c b k r \<longrightarrow> k = own_key c (ar_seq r)"
  shows "\<exists>rep b'. resign_anchor_records c memory.view (\<lambda>_. Done) b = (Inr rep, b') \<and>
    (\<forall>k r. legacy c b k r \<longrightarrow> Mapping.lookup b' k = Some (ac_enc c (anchor_sign_with (ac_signer c) r))) \<and>
    (\<forall>k. (\<nexists>r. legacy c b k r) \<longrightarrow> Mapping.lookup b' k = Mapping.lookup b k) \<and>
    (\<forall>k r. \<not> legacy c b' k r)"
proof -
  obtain rep F where run: "resign_anchor_records c memory.view (\<lambda>_. Done) b = (Inr rep, resign_all c F b)"
    and F: "set F = {r. \<exists>k. legacy c b k r}" and "rs_resigned rep = length F"
    using resign_result [OF assms(1,2)] .
  let ?b = "resign_all c F b"
  have one: "legacy c b k r \<Longrightarrow> legacy c b k r' \<Longrightarrow> r = r'" for k r r' by (auto simp: legacy_def)
  have signed: "Mapping.lookup ?b k = Some (ac_enc c (anchor_sign_with (ac_signer c) r))" if leg: "legacy c b k r" for k r
  proof -
    let ?ys = "filter (\<lambda>x. own_key c (ar_seq x) = k) F"
    have k: "k = own_key c (ar_seq r)" using assms(3) leg by blast
    have "r \<in> set ?ys" using leg F k by auto
    then have "?ys \<noteq> []" by (metis empty_iff list.set(1))
    have "x = r" if x: "x \<in> set ?ys" for x
    proof -
      from x F obtain k' where "legacy c b k' x" "own_key c (ar_seq x) = k" by auto
      with assms(3) leg show ?thesis using one by blast
    qed
    with \<open>?ys \<noteq> []\<close> have "last ?ys = r" by (meson last_in_set)
    with \<open>?ys \<noteq> []\<close> show ?thesis by (simp add: resign_all_lookup Let_def)
  qed
  have other: "Mapping.lookup ?b k = Mapping.lookup b k" if "\<nexists>r. legacy c b k r" for k
  proof -
    have "filter (\<lambda>x. own_key c (ar_seq x) = k) F = []"
      using that F assms(3) by (auto simp: filter_empty_conv)
    then show ?thesis by (simp add: resign_all_lookup)
  qed
  have "\<not> legacy c ?b k r" for k r
  proof
    assume l: "legacy c ?b k r"
    show False
    proof (cases "\<exists>r'. legacy c b k r'")
      case True
      then obtain r' where "legacy c b k r'" ..
      from signed [OF this] l assms(2) have "r = anchor_sign_with (ac_signer c) r'" by (simp add: legacy_def resign_ok_def)
      with l show False by (simp add: legacy_def)
    next
      case False
      from l other [OF False] have "legacy c b k r" by (simp add: legacy_def)
      with False show False by blast
    qed
  qed
  with run signed other show ?thesis by blast
qed

theorem resign_exact_witness:
  "\<exists>rep b'. resign_anchor_records demo_author memory.view (\<lambda>_. Done) (Mapping.update (own_key demo_author 3) (anchor_enc (planted 3 5)) Mapping.empty) =
       (Inr rep, b') \<and> (\<nexists>r. legacy demo_author b' (own_key demo_author 3) r)"
proof -
  let ?b = "Mapping.update (own_key demo_author 3) (anchor_enc (planted 3 5)) Mapping.empty"
  have "mem_inv ?b" by (simp add: mem_inv_def)
  moreover have "\<forall>k r. legacy demo_author ?b k r \<longrightarrow> k = own_key demo_author (ar_seq r)"
    by (auto simp: legacy_def lookup_update' lookup_empty split: if_splits)
  ultimately show ?thesis using resign_exact [OF _ demo_author_ok, of ?b] by blast
qed

text \<open>The scan does not check where a record was found: an unsigned record in this author's name, planted under any
  other key of the prefix, is signed by the author and written over the object at the author's own key of that
  number, even a validly signed record, whose leaves lose their proof; the call reports success.\<close>

theorem resign_overwrites_signed:
  assumes "mem_inv b" and "resign_ok c" and "legacy c b k r" and "k \<noteq> own_key c (ar_seq r)"
    and "\<forall>k' r'. legacy c b k' r' \<and> ar_seq r' = ar_seq r \<longrightarrow> r' = r"
    and "Mapping.lookup b (own_key c (ar_seq r)) = Some (ac_enc c good)" and "ar_leaves good \<noteq> ar_leaves r"
  shows "\<exists>rep b'. resign_anchor_records c memory.view (\<lambda>_. Done) b = (Inr rep, b') \<and>
    Mapping.lookup b' (own_key c (ar_seq r)) = Some (ac_enc c (anchor_sign_with (ac_signer c) r)) \<and>
    Mapping.lookup b' (own_key c (ar_seq r)) \<noteq> Mapping.lookup b (own_key c (ar_seq r))"
proof -
  obtain rep F where run: "resign_anchor_records c memory.view (\<lambda>_. Done) b = (Inr rep, resign_all c F b)"
    and F: "set F = {r. \<exists>k. legacy c b k r}" and "rs_resigned rep = length F"
    using resign_result [OF assms(1,2)] .
  let ?b = "resign_all c F b" and ?ys = "filter (\<lambda>x. own_key c (ar_seq x) = own_key c (ar_seq r)) F"
  have "r \<in> set ?ys" using assms(3) F by auto
  then have "?ys \<noteq> []" by (metis empty_iff list.set(1))
  moreover have "x = r" if "x \<in> set ?ys" for x using that F assms(5) by auto
  ultimately have "last ?ys = r" by (meson last_in_set)
  with \<open>?ys \<noteq> []\<close> have new: "Mapping.lookup ?b (own_key c (ar_seq r)) = Some (ac_enc c (anchor_sign_with (ac_signer c) r))"
    by (simp add: resign_all_lookup Let_def)
  have "ac_enc c (anchor_sign_with (ac_signer c) r) \<noteq> ac_enc c good"
  proof
    assume "ac_enc c (anchor_sign_with (ac_signer c) r) = ac_enc c good"
    then have "anchor_sign_with (ac_signer c) r = good" using assms(2) unfolding resign_ok_def by (metis option.inject)
    with assms(7) show False by auto
  qed
  with new assms(6) run show ?thesis by auto
qed

theorem resign_overwrites_signed_witness:
  "\<exists>rep b'. resign_anchor_records demo_author memory.view (\<lambda>_. Done)
       (Mapping.update ''t/_anchors/x'' (anchor_enc (planted 3 5))
         (Mapping.update (own_key demo_author 3) (anchor_enc (anchor_sign_with (demo_writer 7) (planted 3 6))) Mapping.empty)) = (Inr rep, b') \<and>
     Mapping.lookup b' (own_key demo_author 3) = Some (anchor_enc (anchor_sign_with (demo_writer 7) (planted 3 5)))"
proof -
  let ?good = "anchor_sign_with (demo_writer 7) (planted 3 6)"
  let ?b = "Mapping.update ''t/_anchors/x'' (anchor_enc (planted 3 5)) (Mapping.update (own_key demo_author 3) (anchor_enc ?good) Mapping.empty)"
  have ne: "''t/_anchors/x'' \<noteq> own_key demo_author 3"
  proof
    assume "''t/_anchors/x'' = own_key demo_author 3"
    from arg_cong [OF this, of length] show False by (simp add: anchor_record_key_def key_to_hex_def)
  qed
  have "mem_inv ?b" by (simp add: mem_inv_def)
  moreover have leg: "legacy demo_author ?b k r \<longleftrightarrow> k = ''t/_anchors/x'' \<and> r = planted 3 5" for k r
    using ne by (auto simp: legacy_def lookup_update' lookup_empty anchors_prefix_def split: if_splits)
  moreover have "Mapping.lookup ?b (own_key demo_author 3) = Some (anchor_enc ?good)" using ne by (simp add: lookup_update')
  moreover have "ac_signer demo_author = demo_writer 7" by (simp add: demo_author_def)
  ultimately show ?thesis
    using resign_overwrites_signed [OF _ demo_author_ok, of ?b "''t/_anchors/x''" "planted 3 5" ?good] ne by auto
qed

end
