(* ===== verification/Index.thy ===== *)
theory Index
  imports Converge Objkey Maps "HOL-Library.FSet"
begin

text \<open>
  The retrieval index of \<^verbatim>\<open>index/mod.rs\<close>: the live entries with their removal watermarks and redaction marks, the
  gated insertions, pruning, and the embedding of summaries. The mutex around the state is the order of the calls.
  A float type \<open>'f\<close> stands for \<^verbatim>\<open>f32\<close>; the embedding model is a parameter, its answers may be errors or have any
  number of vectors of any length.
\<close>

section \<open>Definitions\<close>

subsection \<open>Records\<close>

record 'f index_record =
  ir_note_id :: note_id
  ir_object_key :: string
  ir_cid :: blake3_hash
  ir_scope :: scope
  ir_note_type :: note_type
  ir_author :: ss58
  ir_updated :: timestamp
  ir_lamport :: u64
  ir_key_epoch :: u64
  ir_tags :: "string fset"
  ir_summary :: string
  ir_relations :: "typed_link list"
  ir_reinforcers :: "ss58 fset"
  ir_last_reinforced :: "timestamp option"
  ir_embedding :: "'f list option"

record located =
  lc_object_key :: string
  lc_cid :: blake3_hash
  lc_key_epoch :: u64

record 'f entry =
  en_record :: "'f index_record"
  en_embedding :: "'f list"

record 'f index_state =
  ix_entries :: "(note_id, 'f entry) mapping"
  ix_removed :: "(note_id, u64 \<times> string) mapping"
  ix_redacted :: "note_id fset"

definition index_default :: "'f index_state" where
  "index_default = \<lparr>ix_entries = Mapping.empty, ix_removed = Mapping.empty, ix_redacted = {||}\<rparr>"

record 'f embedder =
  em_embed :: "string list \<Rightarrow> mem_error + 'f list list"
  em_embed_queries :: "string list \<Rightarrow> mem_error + 'f list list"
  em_dim :: nat
  em_vector_space :: string
  em_relevance_threshold :: 'f
  em_contributes_semantic_leg :: bool

subsection \<open>The gates\<close>

definition version_key :: "'f index_record \<Rightarrow> u64 \<times> string" where
  "version_key r = (ir_lamport r, ir_object_key r)"

definition record_removal :: "'f index_state \<Rightarrow> note_id \<Rightarrow> u64 \<Rightarrow> string \<Rightarrow> 'f index_state" where
  "record_removal st i lamport key =
     (let candidate = (lamport, key);
          should_update = (case Mapping.lookup (ix_removed st) i of None \<Rightarrow> True | Some existing \<Rightarrow> candidate > existing)
      in st\<lparr>ix_entries := Mapping.delete i (ix_entries st),
            ix_removed := (if should_update then Mapping.update i candidate (ix_removed st) else ix_removed st)\<rparr>)"

definition is_stale_rollback :: "(note_id, 'f entry) mapping \<Rightarrow> 'f index_record \<Rightarrow> bool" where
  "is_stale_rollback entries incoming =
     (case Mapping.lookup entries (ir_note_id incoming) of
        None \<Rightarrow> False | Some existing \<Rightarrow> version_key (en_record existing) > version_key incoming)"

definition is_at_or_below_removal_watermark :: "(note_id, u64 \<times> string) mapping \<Rightarrow> 'f index_record \<Rightarrow> bool" where
  "is_at_or_below_removal_watermark removed incoming =
     (case Mapping.lookup removed (ir_note_id incoming) of None \<Rightarrow> False | Some w \<Rightarrow> version_key incoming \<le> w)"

definition embedding_matches_dim :: "'f list option \<Rightarrow> nat \<Rightarrow> bool" where
  "embedding_matches_dim v dim = (case v of None \<Rightarrow> False | Some xs \<Rightarrow> length xs = dim)"

definition apply_record :: "'f index_state \<Rightarrow> 'f index_record \<Rightarrow> 'f list \<Rightarrow> bool \<Rightarrow> 'f index_state" where
  "apply_record st r embedding refuse_rollback =
     (if ir_note_id r |\<in>| ix_redacted st \<or> (refuse_rollback \<and> is_stale_rollback (ix_entries st) r) \<or>
         is_at_or_below_removal_watermark (ix_removed st) r
      then st
      else st\<lparr>ix_removed := Mapping.delete (ir_note_id r) (ix_removed st),
              ix_entries := Mapping.update (ir_note_id r) \<lparr>en_record = r, en_embedding = embedding\<rparr> (ix_entries st)\<rparr>)"

subsection \<open>Insertions\<close>

text \<open>The embedding stored under the record's id, if the summary is the same.\<close>

definition reusable :: "'f index_state \<Rightarrow> 'f index_record \<Rightarrow> 'f list option" where
  "reusable st r =
     (case Mapping.lookup (ix_entries st) (ir_note_id r) of
        Some e \<Rightarrow> if ir_summary (en_record e) = ir_summary r then Some (en_embedding e) else None
      | None \<Rightarrow> None)"

definition first_or_default :: "'f list list \<Rightarrow> 'f list" where
  "first_or_default vs = (case vs of [] \<Rightarrow> [] | v # _ \<Rightarrow> v)"

definition upsert :: "'f embedder \<Rightarrow> 'f index_state \<Rightarrow> 'f index_record \<Rightarrow> (mem_error + unit) \<times> 'f index_state" where
  "upsert em st r =
     (let r1 = r\<lparr>ir_embedding := None\<rparr>;
          reused = (if embedding_matches_dim (ir_embedding r) (em_dim em) then ir_embedding r else reusable st r)
      in case reused of
           Some v \<Rightarrow> (Inr (), apply_record st r1 v True)
         | None \<Rightarrow>
             (case em_embed em [ir_summary r] of
                Inl e \<Rightarrow> (Inl e, st)
              | Inr vs \<Rightarrow> (Inr (), apply_record st r1 (first_or_default vs) True)))"

text \<open>The second pass of a batch: each record with its reused embedding, the fresh ones in order.\<close>

fun apply_all :: "nat \<Rightarrow> bool \<Rightarrow> ('f index_record \<times> 'f list option) list \<Rightarrow> 'f list list \<Rightarrow> 'f index_state \<Rightarrow> 'f index_state" where
  "apply_all dim refuse [] fresh st = st"
| "apply_all dim refuse ((r, hit) # rest) fresh st =
     (let r1 = r\<lparr>ir_embedding := None\<rparr> in
      case (if embedding_matches_dim (ir_embedding r) dim then ir_embedding r else hit) of
        Some v \<Rightarrow> apply_all dim refuse rest fresh (apply_record st r1 v refuse)
      | None \<Rightarrow> apply_all dim refuse rest (tl fresh) (apply_record st r1 (first_or_default fresh) refuse))"

definition apply_batch :: "'f embedder \<Rightarrow> 'f index_state \<Rightarrow> 'f index_record list \<Rightarrow> bool \<Rightarrow> (mem_error + unit) \<times> 'f index_state" where
  "apply_batch em st records refuse =
     (if records = [] then (Inr (), st)
      else
        let dim = em_dim em;
            reused = map (\<lambda>r. if embedding_matches_dim (ir_embedding r) dim then None else reusable st r) records;
            summaries = map (\<lambda>(r, _). ir_summary r)
              (filter (\<lambda>(r, hit). hit = None \<and> \<not> embedding_matches_dim (ir_embedding r) dim) (zip records reused))
        in case em_embed em summaries of
             Inl e \<Rightarrow> (Inl e, st)
           | Inr vs \<Rightarrow>
               let fresh = take (length summaries) (vs @ replicate (length summaries) [])
               in (Inr (), apply_all dim refuse (zip records reused) fresh st))"

definition upsert_batch :: "'f embedder \<Rightarrow> 'f index_state \<Rightarrow> 'f index_record list \<Rightarrow> (mem_error + unit) \<times> 'f index_state" where
  "upsert_batch em st records = apply_batch em st records True"

definition replace_batch :: "'f embedder \<Rightarrow> 'f index_state \<Rightarrow> 'f index_record list \<Rightarrow> (mem_error + unit) \<times> 'f index_state" where
  "replace_batch em st records = apply_batch em st records False"

definition embed_summary :: "'f embedder \<Rightarrow> string \<Rightarrow> mem_error + 'f list" where
  "embed_summary em summary = r_bind (em_embed em [summary]) (\<lambda>vs. Inr (first_or_default vs))"

definition embed_summaries :: "'f embedder \<Rightarrow> string list \<Rightarrow> mem_error + 'f list list" where
  "embed_summaries em summaries = (if summaries = [] then Inr [] else em_embed em summaries)"

subsection \<open>Removal, pruning and lookup\<close>

definition index_remove :: "'f index_state \<Rightarrow> note_id \<Rightarrow> 'f index_state" where
  "index_remove st i = st\<lparr>ix_entries := Mapping.delete i (ix_entries st)\<rparr>"

definition remove_at :: "'f index_state \<Rightarrow> note_id \<Rightarrow> u64 \<Rightarrow> string \<Rightarrow> 'f index_state" where
  "remove_at st i lamport key = record_removal st i lamport key"

definition redact_at :: "'f index_state \<Rightarrow> note_id \<Rightarrow> u64 \<Rightarrow> string \<Rightarrow> 'f index_state" where
  "redact_at st i lamport key =
     (let st1 = record_removal st i lamport key in st1\<lparr>ix_redacted := finsert i (ix_redacted st1)\<rparr>)"

definition is_redacted :: "'f index_state \<Rightarrow> note_id \<Rightarrow> bool" where
  "is_redacted st i \<longleftrightarrow> i |\<in>| ix_redacted st"

definition locate :: "'f index_state \<Rightarrow> note_id \<Rightarrow> located option" where
  "locate st i =
     map_option (\<lambda>e. \<lparr>lc_object_key = ir_object_key (en_record e), lc_cid = ir_cid (en_record e),
                     lc_key_epoch = ir_key_epoch (en_record e)\<rparr>) (Mapping.lookup (ix_entries st) i)"

definition retain :: "'f index_state \<Rightarrow> note_id set \<Rightarrow> u64 \<Rightarrow> 'f index_state" where
  "retain st keep baseline_lamport =
     st\<lparr>ix_entries := Mapping.filter (\<lambda>i e. \<not> (i |\<in>| ix_redacted st) \<and>
                        (i \<in> keep \<or> ir_lamport (en_record e) > baseline_lamport)) (ix_entries st),
        ix_removed := Mapping.filter (\<lambda>i _. i \<in> keep) (ix_removed st)\<rparr>"

definition all_records :: "'f index_state \<Rightarrow> 'f index_record list" where
  "all_records st =
     map (\<lambda>e. if en_embedding e = [] then en_record e else (en_record e)\<lparr>ir_embedding := Some (en_embedding e)\<rparr>)
       (btree_values (ix_entries st))"

section \<open>Specification: one slot per note\<close>

text \<open>What the index shows of one note: the version that is live, the version it was last removed at, whether it was
  redacted.\<close>

record slot =
  sl_live :: "(u64 \<times> string) option"
  sl_mark :: "(u64 \<times> string) option"
  sl_gone :: bool

datatype slot_event =
    Offer "u64 \<times> string" bool
  | Hide
  | HideAt "u64 \<times> string"
  | Erase "u64 \<times> string"
  | Prune bool u64

definition raise_mark :: "u64 \<times> string \<Rightarrow> (u64 \<times> string) option \<Rightarrow> (u64 \<times> string) option" where
  "raise_mark v m = (case m of None \<Rightarrow> Some v | Some w \<Rightarrow> Some (max v w))"

fun slot_apply :: "slot \<Rightarrow> slot_event \<Rightarrow> slot" where
  "slot_apply s (Offer v refuse) =
     (if sl_gone s \<or> (refuse \<and> (\<exists>u\<in>set_option (sl_live s). u > v)) \<or> (\<exists>w\<in>set_option (sl_mark s). v \<le> w) then s
      else s\<lparr>sl_live := Some v, sl_mark := None\<rparr>)"
| "slot_apply s Hide = s\<lparr>sl_live := None\<rparr>"
| "slot_apply s (HideAt v) = s\<lparr>sl_live := None, sl_mark := raise_mark v (sl_mark s)\<rparr>"
| "slot_apply s (Erase v) = s\<lparr>sl_live := None, sl_mark := raise_mark v (sl_mark s), sl_gone := True\<rparr>"
| "slot_apply s (Prune kept baseline) =
     s\<lparr>sl_live := (case sl_live s of Some u \<Rightarrow> if \<not> sl_gone s \<and> (kept \<or> fst u > baseline) then Some u else None | None \<Rightarrow> None),
       sl_mark := (if kept then sl_mark s else None)\<rparr>"

definition slot_of :: "'f index_state \<Rightarrow> note_id \<Rightarrow> slot" where
  "slot_of st i =
     \<lparr>sl_live = map_option (\<lambda>e. version_key (en_record e)) (Mapping.lookup (ix_entries st) i),
      sl_mark = Mapping.lookup (ix_removed st) i, sl_gone = is_redacted st i\<rparr>"

text \<open>The calls that change the index, and what each does to one slot.\<close>

datatype 'f index_cmd =
    Upsert "'f index_record"
  | Upsert_Batch "'f index_record list"
  | Replace_Batch "'f index_record list"
  | Remove note_id
  | Remove_At note_id u64 string
  | Redact_At note_id u64 string
  | Retain "note_id set" u64

fun index_call :: "'f embedder \<Rightarrow> 'f index_state \<Rightarrow> 'f index_cmd \<Rightarrow> (mem_error + unit) \<times> 'f index_state" where
  "index_call em st (Upsert r) = upsert em st r"
| "index_call em st (Upsert_Batch rs) = upsert_batch em st rs"
| "index_call em st (Replace_Batch rs) = replace_batch em st rs"
| "index_call em st (Remove i) = (Inr (), index_remove st i)"
| "index_call em st (Remove_At i l k) = (Inr (), remove_at st i l k)"
| "index_call em st (Redact_At i l k) = (Inr (), redact_at st i l k)"
| "index_call em st (Retain keep l) = (Inr (), retain st keep l)"

definition offers :: "note_id \<Rightarrow> bool \<Rightarrow> 'f index_record list \<Rightarrow> slot_event list" where
  "offers i refuse rs = map (\<lambda>r. Offer (version_key r) refuse) (filter (\<lambda>r. ir_note_id r = i) rs)"

fun slot_events :: "note_id \<Rightarrow> 'f index_cmd \<Rightarrow> slot_event list" where
  "slot_events i (Upsert r) = offers i True [r]"
| "slot_events i (Upsert_Batch rs) = offers i True rs"
| "slot_events i (Replace_Batch rs) = offers i False rs"
| "slot_events i (Remove j) = (if j = i then [Hide] else [])"
| "slot_events i (Remove_At j l k) = (if j = i then [HideAt (l, k)] else [])"
| "slot_events i (Redact_At j l k) = (if j = i then [Erase (l, k)] else [])"
| "slot_events i (Retain keep l) = [Prune (i \<in> keep) l]"

text \<open>A run of calls: the calls that succeeded, and the state.\<close>

fun index_run :: "'f embedder \<Rightarrow> 'f index_state \<Rightarrow> 'f index_cmd list \<Rightarrow> 'f index_cmd list \<times> 'f index_state" where
  "index_run em st [] = ([], st)"
| "index_run em st (c # cs) =
     (case index_call em st c of
        (Inl e, st1) \<Rightarrow> index_run em st1 cs
      | (Inr _, st1) \<Rightarrow> (let (ok, st2) = index_run em st1 cs in (c # ok, st2)))"

definition index_inv :: "'f index_state \<Rightarrow> bool" where
  "index_inv st \<longleftrightarrow>
     finite_map (ix_entries st) \<and> finite_map (ix_removed st) \<and>
     (\<forall>i e. Mapping.lookup (ix_entries st) i = Some e \<longrightarrow>
        ir_note_id (en_record e) = i \<and> ir_embedding (en_record e) = None \<and> \<not> is_redacted st i \<and>
        Mapping.lookup (ix_removed st) i = None)"

section \<open>Lemmas\<close>

lemma lookup_filter_iff:
  "Mapping.lookup (Mapping.filter P m) k = (case Mapping.lookup m k of None \<Rightarrow> None | Some v \<Rightarrow> if P k v then Some v else None)"
  by (simp add: Mapping.lookup_filter)

lemma finite_map_filter [simp]: "finite_map m \<Longrightarrow> finite_map (Mapping.filter P m)"
  unfolding finite_map_def by (rule finite_subset [of _ "Mapping.keys m"]) (auto simp: keys_dom_lookup lookup_filter_iff split: option.splits)

lemma version_key_embedding [simp]: "version_key (r\<lparr>ir_embedding := v\<rparr>) = version_key r"
  by (simp add: version_key_def)

lemma fst_version_key [simp]: "fst (version_key r) = ir_lamport r"
  by (simp add: version_key_def)

lemma gates_ignore_embedding [simp]:
  "is_at_or_below_removal_watermark removed (r\<lparr>ir_embedding := v\<rparr>) = is_at_or_below_removal_watermark removed r"
  "is_stale_rollback entries (r\<lparr>ir_embedding := v\<rparr>) = is_stale_rollback entries r"
  by (simp_all add: is_at_or_below_removal_watermark_def is_stale_rollback_def split: option.split)

lemma slot_of_apply_record:
  "slot_of (apply_record st r v refuse) i =
     (if ir_note_id r = i then slot_apply (slot_of st i) (Offer (version_key r) refuse) else slot_of st i)"
  by (auto simp: apply_record_def slot_of_def is_stale_rollback_def is_at_or_below_removal_watermark_def is_redacted_def
      map_simps split: option.splits)

lemma slot_of_apply_all:
  "slot_of (apply_all dim refuse rs fresh st) i = foldl slot_apply (slot_of st i) (offers i refuse (map fst rs))"
proof (induction rs arbitrary: fresh st)
  case (Cons x rs)
  obtain r hit where "x = (r, hit)" by fastforce
  with Cons show ?case
    by (simp add: offers_def slot_of_apply_record Let_def option.case_eq_if del: slot_apply.simps)
qed (simp add: offers_def)

lemma record_removal_sel [simp]:
  "ix_entries (record_removal st i l k) = Mapping.delete i (ix_entries st)"
  "ix_redacted (record_removal st i l k) = ix_redacted st"
  "Mapping.lookup (ix_removed (record_removal st i l k)) j =
     (if j = i then raise_mark (l, k) (Mapping.lookup (ix_removed st) i) else Mapping.lookup (ix_removed st) j)"
  "finite_map (ix_removed (record_removal st i l k)) = finite_map (ix_removed st)"
  by (auto simp: record_removal_def raise_mark_def map_simps max_def Let_def split: option.splits)

lemma slot_of_removal: "slot_of (record_removal st i l k) j = (if j = i then slot_apply (slot_of st i) (HideAt (l, k)) else slot_of st j)"
  by (simp add: slot_of_def is_redacted_def)

lemma slot_of_redact: "slot_of (redact_at st i l k) j = (if j = i then slot_apply (slot_of st i) (Erase (l, k)) else slot_of st j)"
  by (simp add: slot_of_def is_redacted_def redact_at_def Let_def)

lemma slot_of_remove: "slot_of (index_remove st i) j = (if j = i then slot_apply (slot_of st i) Hide else slot_of st j)"
  by (simp add: slot_of_def is_redacted_def index_remove_def)

lemma slot_of_retain: "slot_of (retain st keep l) i = slot_apply (slot_of st i) (Prune (i \<in> keep) l)"
  by (simp add: retain_def slot_of_def is_redacted_def lookup_filter_iff version_key_def split: option.splits)

lemma slot_of_batch:
  "apply_batch em st rs refuse = (res, st') \<Longrightarrow>
    slot_of st' i = (case res of Inl _ \<Rightarrow> slot_of st i | Inr _ \<Rightarrow> foldl slot_apply (slot_of st i) (offers i refuse rs))"
  by (auto simp: apply_batch_def Let_def slot_of_apply_all offers_def split: sum.splits if_splits)

lemma slot_of_upsert:
  "upsert em st r = (res, st') \<Longrightarrow>
    slot_of st' i = (case res of Inl _ \<Rightarrow> slot_of st i | Inr _ \<Rightarrow> foldl slot_apply (slot_of st i) (offers i True [r]))"
  by (auto simp: upsert_def Let_def slot_of_apply_record offers_def simp del: slot_apply.simps split: option.splits sum.splits if_splits)

lemma index_call_slots:
  assumes "index_call em st c = (res, st')"
  shows "slot_of st' i = (case res of Inl _ \<Rightarrow> slot_of st i | Inr _ \<Rightarrow> foldl slot_apply (slot_of st i) (slot_events i c))"
proof (cases c)
  case (Upsert_Batch rs)
  with slot_of_batch [of em st rs True res st' i] assms show ?thesis by (cases res) (simp_all add: upsert_batch_def)
next
  case (Replace_Batch rs)
  with slot_of_batch [of em st rs False res st' i] assms show ?thesis by (cases res) (simp_all add: replace_batch_def)
next
  case (Upsert r)
  with slot_of_upsert [of em st r res st' i] assms show ?thesis by (cases res) simp_all
qed (use assms in \<open>auto simp: remove_at_def slot_of_removal slot_of_redact slot_of_remove slot_of_retain simp del: slot_apply.simps\<close>)

lemma index_inv_default [simp]: "index_inv index_default"
  by (simp add: index_inv_def index_default_def lookup_empty)

lemma index_inv_apply_record: "index_inv st \<Longrightarrow> ir_embedding r = None \<Longrightarrow> index_inv (apply_record st r v refuse)"
  by (auto simp: index_inv_def apply_record_def is_redacted_def map_simps split: if_splits)

lemma index_inv_apply_all: "index_inv st \<Longrightarrow> index_inv (apply_all dim refuse rs fresh st)"
proof (induction rs arbitrary: fresh st)
  case (Cons x rs)
  obtain r hit where "x = (r, hit)" by fastforce
  with Cons show ?case by (simp add: index_inv_apply_record Let_def option.case_eq_if)
qed simp

lemma index_inv_removal: "index_inv st \<Longrightarrow> index_inv (record_removal st i l k)"
  by (auto simp: index_inv_def is_redacted_def map_simps split: if_splits)

lemma index_inv_batch: "index_inv st \<Longrightarrow> apply_batch em st rs refuse = (res, st') \<Longrightarrow> index_inv st'"
  by (auto simp: apply_batch_def Let_def index_inv_apply_all split: sum.splits if_splits)

lemma index_inv_upsert: "index_inv st \<Longrightarrow> upsert em st r = (res, st') \<Longrightarrow> index_inv st'"
  by (auto simp: upsert_def Let_def index_inv_apply_record split: sum.splits option.splits)

lemma index_inv_redact: "index_inv st \<Longrightarrow> index_inv (redact_at st i l k)"
  by (auto simp: redact_at_def Let_def index_inv_def is_redacted_def map_simps split: if_splits)

lemma index_inv_remove: "index_inv st \<Longrightarrow> index_inv (index_remove st i)"
  by (auto simp: index_inv_def is_redacted_def index_remove_def map_simps split: if_splits)

lemma index_inv_retain: "index_inv st \<Longrightarrow> index_inv (retain st keep l)"
  by (auto simp: index_inv_def is_redacted_def retain_def lookup_filter_iff split: if_splits option.splits)

lemmas index_inv_intros = index_inv_batch index_inv_upsert index_inv_redact index_inv_remove index_inv_retain index_inv_removal

lemma index_inv_call: "index_inv st \<Longrightarrow> index_call em st c = (res, st') \<Longrightarrow> index_inv st'"
  by (cases c) (auto simp: upsert_batch_def replace_batch_def remove_at_def intro: index_inv_intros)

lemma index_run_slots:
  "index_run em st cs = (ok, st') \<Longrightarrow> slot_of st' i = foldl slot_apply (slot_of st i) (concat (map (slot_events i) ok))"
proof (induction cs arbitrary: st ok)
  case (Cons c cs)
  obtain res st1 where call: "index_call em st c = (res, st1)" by fastforce
  show ?case
  proof (cases res)
    case (Inl e)
    with Cons call show ?thesis using index_call_slots [OF call, of i] by simp
  next
    case (Inr u)
    with Cons call obtain ok1 where "index_run em st1 cs = (ok1, st')" and "ok = c # ok1" by (auto split: prod.splits)
    with Cons.IH [of st1 ok1] index_call_slots [OF call, of i] Inr show ?thesis by simp
  qed
qed simp

lemma index_run_inv: "index_run em st cs = (ok, st') \<Longrightarrow> index_inv st \<Longrightarrow> index_inv st'"
proof (induction cs arbitrary: st ok)
  case (Cons c cs)
  obtain res st1 where call: "index_call em st c = (res, st1)" by fastforce
  with Cons show ?case using index_inv_call [OF Cons.prems(2) call]
    by (cases res) (auto split: prod.splits)
qed simp

lemma index_run_ok: "index_run em st cs = (ok, st') \<Longrightarrow> set ok \<subseteq> set cs"
  by (induction cs arbitrary: st ok) (fastforce split: prod.splits sum.splits)+

lemma upsert_ok: "\<forall>ts. \<exists>vs. em_embed em ts = Inr vs \<Longrightarrow> fst (upsert em st r) = Inr ()"
  by (auto simp: upsert_def Let_def option.case_eq_if split: sum.splits) (metis sum.distinct(1))+

lemma apply_batch_ok: "\<forall>ts. \<exists>vs. em_embed em ts = Inr vs \<Longrightarrow> fst (apply_batch em st rs refuse) = Inr ()"
  by (metis (no_types, lifting) apply_batch_def fst_conv sum.case(2))

lemma index_call_ok: "\<forall>ts. \<exists>vs. em_embed em ts = Inr vs \<Longrightarrow> fst (index_call em st c) = Inr ()"
  by (cases c) (simp_all add: upsert_ok upsert_batch_def replace_batch_def apply_batch_ok)

lemma index_run_all: "\<forall>ts. \<exists>vs. em_embed em ts = Inr vs \<Longrightarrow> index_run em st cs = (ok, st') \<Longrightarrow> ok = cs"
proof (induction cs arbitrary: st ok)
  case (Cons c cs)
  obtain st1 where "index_call em st c = (Inr (), st1)" using index_call_ok [OF Cons.prems(1)] by (metis prod.collapse)
  with Cons show ?case by (auto split: prod.splits)
qed simp

lemma index_run_append:
  "index_run em st (cs @ ds) = (let (ok1, st1) = index_run em st cs; (ok2, st2) = index_run em st1 ds in (ok1 @ ok2, st2))"
  by (induction cs arbitrary: st) (auto split: prod.splits sum.splits)

lemma locate_None: "locate st i = None \<longleftrightarrow> sl_live (slot_of st i) = None"
  by (simp add: locate_def slot_of_def)

lemma in_all_records:
  assumes "index_inv st" and "r \<in> set (all_records st)"
  shows "locate st (ir_note_id r) \<noteq> None"
proof -
  obtain e where "e \<in> set (btree_values (ix_entries st))" and r: "ir_note_id r = ir_note_id (en_record e)"
    using assms(2) by (auto simp: all_records_def split: if_splits)
  then obtain i where "Mapping.lookup (ix_entries st) i = Some e"
    using assms(1) set_btree_values [of "ix_entries st"] unfolding index_inv_def by auto
  with assms(1) r show ?thesis by (auto simp: locate_def index_inv_def)
qed

lemma gone_stays: "sl_gone s \<Longrightarrow> sl_live s = None \<Longrightarrow> sl_gone (foldl slot_apply s es) \<and> sl_live (foldl slot_apply s es) = None"
proof (induction es arbitrary: s)
  case (Cons e es)
  then show ?case by (cases e) simp_all
qed simp

text \<open>An event that cannot bring back what was hidden at version \<open>v\<close>.\<close>

fun keeps_hidden :: "u64 \<times> string \<Rightarrow> slot_event \<Rightarrow> bool" where
  "keeps_hidden v (Offer w _) \<longleftrightarrow> w \<le> v"
| "keeps_hidden v (Prune kept _) \<longleftrightarrow> kept"
| "keeps_hidden v _ \<longleftrightarrow> True"

definition hidden_at :: "u64 \<times> string \<Rightarrow> slot \<Rightarrow> bool" where
  "hidden_at v s \<longleftrightarrow> sl_live s = None \<and> (case sl_mark s of None \<Rightarrow> False | Some w \<Rightarrow> v \<le> w)"

lemma hidden_step: "hidden_at v s \<Longrightarrow> keeps_hidden v e \<Longrightarrow> hidden_at v (slot_apply s e)"
proof -
  assume "hidden_at v s" and e: "keeps_hidden v e"
  then obtain w where s: "sl_live s = None" "sl_mark s = Some w" "v \<le> w" by (auto simp: hidden_at_def split: option.splits)
  then have up: "v \<le> max u w" for u by (simp add: le_max_iff_disj)
  show "hidden_at v (slot_apply s e)"
  proof (cases e)
    case (Offer u r)
    with e s(3) have "u \<le> w" by (metis keeps_hidden.simps(1) order_trans)
    with Offer s show ?thesis by (simp add: hidden_at_def)
  qed (use s up e in \<open>simp_all add: hidden_at_def raise_mark_def\<close>)
qed

lemma hidden_stays: "hidden_at v s \<Longrightarrow> list_all (keeps_hidden v) es \<Longrightarrow> hidden_at v (foldl slot_apply s es)"
  by (induction es arbitrary: s) (simp_all add: hidden_step)

subsection \<open>Batches\<close>

lemma apply_record_other: "j \<noteq> ir_note_id r \<Longrightarrow> Mapping.lookup (ix_entries (apply_record st r v refuse)) j = Mapping.lookup (ix_entries st) j"
  by (simp add: apply_record_def map_simps)

definition misses :: "nat \<Rightarrow> ('f index_record \<times> 'f list option) list \<Rightarrow> 'f index_record list" where
  "misses dim rs = map fst (filter (\<lambda>(r, hit). hit = None \<and> \<not> embedding_matches_dim (ir_embedding r) dim) rs)"

lemma apply_all_serial:
  assumes "\<forall>ts. em_embed em ts = Inr (map emb ts)" and "distinct (map ir_note_id rs)"
    and "\<forall>r\<in>set rs. reusable st r = reusable st0 r" and "dim = em_dim em"
    and "pairs = map (\<lambda>r. (r, if embedding_matches_dim (ir_embedding r) dim then None else reusable st0 r)) rs"
  shows "apply_all dim True pairs (map (emb \<circ> ir_summary) (misses dim pairs)) st = foldl (\<lambda>st r. snd (upsert em st r)) st rs"
  using assms(2,3,5)
proof (induction rs arbitrary: st pairs)
  case (Cons r rs)
  let ?hit = "if embedding_matches_dim (ir_embedding r) dim then None else reusable st0 r"
  let ?rest = "map (\<lambda>r. (r, if embedding_matches_dim (ir_embedding r) dim then None else reusable st0 r)) rs"
  have pairs: "pairs = (r, ?hit) # ?rest" using Cons.prems(3) by simp
  have next_ok: "\<forall>x\<in>set rs. reusable (apply_record st (r\<lparr>ir_embedding := None\<rparr>) v True) x = reusable st0 x" for v
    using Cons.prems(1,2) by (auto simp: reusable_def apply_record_other image_iff)
  note IH = Cons.IH [OF _ next_ok refl]
  have reuse: "reusable st r = reusable st0 r" using Cons.prems(2) by simp
  show ?case
  proof (cases "embedding_matches_dim (ir_embedding r) dim")
    case True
    then obtain v where "ir_embedding r = Some v" by (auto simp: embedding_matches_dim_def split: option.splits)
    with True Cons.prems(1) assms(4) IH show ?thesis by (simp add: pairs misses_def upsert_def Let_def)
  next
    case False
    show ?thesis
    proof (cases "reusable st0 r")
      case None
      with False Cons.prems(1) assms(1,4) reuse IH show ?thesis by (simp add: pairs misses_def upsert_def Let_def first_or_default_def)
    next
      case (Some v)
      with False Cons.prems(1) assms(4) reuse IH show ?thesis by (simp add: pairs misses_def upsert_def Let_def)
    qed
  qed
qed (simp add: misses_def)

lemma zip_map_same: "zip xs (map f xs) = map (\<lambda>x. (x, f x)) xs"
  by (induction xs) simp_all

section \<open>A concrete index\<close>

definition demo_embedder :: "int embedder" where
  "demo_embedder = \<lparr>em_embed = (\<lambda>ts. Inr (map (\<lambda>t. [int (length t)]) ts)), em_embed_queries = (\<lambda>ts. Inr (map (\<lambda>t. [int (length t)]) ts)),
     em_dim = 1, em_vector_space = ''demo/1'', em_relevance_threshold = 0, em_contributes_semantic_leg = False\<rparr>"

definition demo_note :: note_id where "demo_note = NoteId 7"

definition demo_record :: "note_id \<Rightarrow> u64 \<Rightarrow> string \<Rightarrow> int index_record" where
  "demo_record i lamport summary =
     \<lparr>ir_note_id = i, ir_object_key = ''k'', ir_cid = [], ir_scope = \<lparr>scope_team = ''t'', scope_repo = Global\<rparr>, ir_note_type = Gotcha,
      ir_author = ''a'', ir_updated = 0, ir_lamport = lamport, ir_key_epoch = 0, ir_tags = {||}, ir_summary = summary,
      ir_relations = [], ir_reinforcers = {||}, ir_last_reinforced = None, ir_embedding = None\<rparr>"

section \<open>Properties\<close>

text \<open>C9. The index refines one small automaton per note: after any calls, failed embeddings included, what it shows of
  a note is what the automaton reaches on the events of the calls that succeeded; no note's state depends on
  another's, the entries stay consistent, and an embedder that always answers makes every call succeed.\<close>

theorem index_refines_slots:
  assumes "index_inv st" and "index_run em st calls = (ok, st')"
  shows "slot_of st' i = foldl slot_apply (slot_of st i) (concat (map (slot_events i) ok)) \<and>
    index_inv st' \<and> (locate st' i = None \<longleftrightarrow> sl_live (slot_of st' i) = None) \<and>
    ((\<forall>ts. \<exists>vs. em_embed em ts = Inr vs) \<longrightarrow> ok = calls)"
  using index_run_slots [OF assms(2), of i] index_run_inv [OF assms(2,1)] index_run_all [OF _ assms(2)] locate_None [of st' i] by auto

theorem index_refines_slots_witness:
  "let calls = [Upsert (demo_record demo_note 3 ''x''), Remove_At demo_note 5 ''k'', Upsert (demo_record demo_note 4 ''x'')] in
   slot_of (snd (index_run demo_embedder index_default calls)) demo_note = \<lparr>sl_live = None, sl_mark = Some (5, ''k''), sl_gone = False\<rparr>"
proof -
  let ?calls = "[Upsert (demo_record demo_note 3 ''x''), Remove_At demo_note 5 ''k'', Upsert (demo_record demo_note 4 ''x'')]"
  obtain ok st' where run: "index_run demo_embedder index_default ?calls = (ok, st')" by fastforce
  have "\<forall>ts. \<exists>vs. em_embed demo_embedder ts = Inr vs" by (simp add: demo_embedder_def)
  with index_refines_slots [OF index_inv_default run, of demo_note]
  have "slot_of st' demo_note = foldl slot_apply (slot_of (index_default :: int index_state) demo_note) (concat (map (slot_events demo_note) ?calls))"
    by blast
  then have "slot_of st' demo_note = \<lparr>sl_live = None, sl_mark = Some (5, ''k''), sl_gone = False\<rparr>"
    by (simp add: offers_def demo_record_def version_key_def slot_of_def index_default_def is_redacted_def lookup_empty raise_mark_def
        word_less_nat_alt word_le_nat_alt)
  then show ?thesis unfolding Let_def run snd_conv .
qed

text \<open>C10. Redaction is absorbing: once a note is redacted in the index, no call, no replacing rebuild and no newer
  version brings it back; it is never located and in no record handed out.\<close>

theorem redacted_never_returns:
  assumes "index_inv st" and "index_run em st (before @ Redact_At i lamport key # after) = (ok, st')"
  shows "is_redacted st' i \<and> locate st' i = None \<and> i \<notin> ir_note_id ` set (all_records st')"
proof -
  obtain ok1 st1 ok2 where pre: "index_run em st before = (ok1, st1)"
    and post: "index_run em (redact_at st1 i lamport key) after = (ok2, st')"
    using assms(2) by (auto simp: index_run_append split: prod.splits)
  have "sl_gone (slot_of (redact_at st1 i lamport key) i) \<and> sl_live (slot_of (redact_at st1 i lamport key) i) = None"
    by (simp add: slot_of_redact)
  then have "sl_gone (slot_of st' i) \<and> sl_live (slot_of st' i) = None"
    unfolding index_run_slots [OF post, of i] by (simp add: gone_stays)
  then have "is_redacted st' i \<and> locate st' i = None" by (simp add: locate_None) (simp add: slot_of_def)
  with in_all_records [OF index_run_inv [OF assms(2,1)]] show ?thesis by blast
qed

theorem redacted_never_returns_witness:
  "locate (snd (index_run demo_embedder index_default
     [Redact_At demo_note 3 ''k'', Retain {demo_note} 0, Replace_Batch [demo_record demo_note 9 ''x'']])) demo_note = None"
proof -
  let ?after = "[Retain {demo_note} 0, Replace_Batch [demo_record demo_note 9 ''x'']]"
  obtain ok st' where run: "index_run demo_embedder index_default ([] @ Redact_At demo_note 3 ''k'' # ?after) = (ok, st')" by fastforce
  from redacted_never_returns [OF index_inv_default run] run show ?thesis by simp
qed

text \<open>A removed note stays hidden against stale views: while every record offered for it is at or below the version it
  was removed at and every pruning still names it, no insertion brings it back, not even a replacing rebuild; and
  afterwards exactly a record above the mark shows it again, unless it was redacted meanwhile.\<close>

theorem removed_until_newer:
  assumes "index_inv st" and "index_run em st (before @ Remove_At i lamport key # after) = (ok, st')"
    and "\<forall>c\<in>set after. list_all (keeps_hidden (lamport, key)) (slot_events i c)"
  shows "locate st' i = None \<and> (\<exists>w\<ge>(lamport, key). Mapping.lookup (ix_removed st') i = Some w \<and>
    (\<forall>r st''. ir_note_id r = i \<and> upsert em st' r = (Inr (), st'') \<longrightarrow>
       (locate st'' i \<noteq> None \<longleftrightarrow> \<not> is_redacted st' i \<and> version_key r > w)))"
proof -
  obtain ok1 st1 ok2 where pre: "index_run em st before = (ok1, st1)" and post: "index_run em (remove_at st1 i lamport key) after = (ok2, st')"
    using assms(2) by (auto simp: index_run_append split: prod.splits)
  have "hidden_at (lamport, key) (slot_of (remove_at st1 i lamport key) i)"
    by (simp add: remove_at_def slot_of_removal hidden_at_def raise_mark_def option.case_eq_if)
  moreover have "list_all (keeps_hidden (lamport, key)) (concat (map (slot_events i) ok2))"
    using assms(3) index_run_ok [OF post] by (auto simp: list_all_iff)
  ultimately have "hidden_at (lamport, key) (slot_of st' i)" unfolding index_run_slots [OF post, of i] by (rule hidden_stays)
  then obtain w where w: "sl_live (slot_of st' i) = None" "(lamport, key) \<le> w" "sl_mark (slot_of st' i) = Some w"
    by (auto simp: hidden_at_def split: option.splits)
  have "locate st'' i \<noteq> None \<longleftrightarrow> \<not> is_redacted st' i \<and> version_key r > w"
    if "ir_note_id r = i" "upsert em st' r = (Inr (), st'')" for r st''
    using slot_of_upsert [OF that(2), of i] that(1) w by (auto simp: locate_None offers_def not_le) (auto simp: slot_of_def not_less)
  moreover from w have "locate st' i = None" "Mapping.lookup (ix_removed st') i = Some w"
    by (simp_all add: locate_None) (simp_all add: slot_of_def)
  ultimately show ?thesis using w(2) by blast
qed

theorem removed_until_newer_witness:
  "locate (snd (index_run demo_embedder index_default
     [Remove_At demo_note 5 ''k'', Replace_Batch [demo_record demo_note 4 ''x''], Retain {demo_note} 0])) demo_note = None"
proof -
  let ?after = "[Replace_Batch [demo_record demo_note 4 ''x''], Retain {demo_note} 0]"
  obtain ok st' where run: "index_run demo_embedder index_default ([] @ Remove_At demo_note 5 ''k'' # ?after) = (ok, st')" by fastforce
  have "\<forall>c\<in>set ?after. list_all (keeps_hidden (5, ''k'')) (slot_events demo_note c)"
    by (simp add: offers_def demo_record_def version_key_def word_less_nat_alt word_le_nat_alt)
  from removed_until_newer [OF index_inv_default run this] run show ?thesis by simp
qed

text \<open>The removal itself has no such gate: a \<^verbatim>\<open>remove_at\<close> that comes late deletes a live entry of a higher version, so an
  edit indexed between the minting of a forget and its call to the index is hidden, although it is the later op
  and would have stayed had the removal come first.\<close>

theorem late_removal_hides_newer_edit:
  assumes "version_key r > (lamport, key)" and "i = ir_note_id r" and "\<not> is_redacted st i"
    and "\<forall>w. Mapping.lookup (ix_removed st) i = Some w \<longrightarrow> w < version_key r"
    and "\<forall>u. sl_live (slot_of st i) = Some u \<longrightarrow> u \<le> version_key r"
    and "\<forall>ts. \<exists>vs. em_embed em ts = Inr vs"
  shows "locate (snd (index_run em st [Upsert r, Remove_At i lamport key])) i = None \<and>
    locate (snd (index_run em st [Remove_At i lamport key, Upsert r])) i =
      Some \<lparr>lc_object_key = ir_object_key r, lc_cid = ir_cid r, lc_key_epoch = ir_key_epoch r\<rparr>"
proof -
  obtain ok1 st1 where run1: "index_run em st [Upsert r, Remove_At i lamport key] = (ok1, st1)" by fastforce
  from index_run_slots [OF this, of i] index_run_all [OF assms(6) run1]
  have "locate st1 i = None" by (simp add: locate_None)
  moreover
  let ?st = "remove_at st i lamport key"
  obtain st2 where up: "upsert em ?st r = (Inr (), st2)" using upsert_ok [OF assms(6)] by (metis prod.collapse)
  have gates: "\<not> is_redacted ?st i" "Mapping.lookup (ix_entries ?st) i = None"
    "\<not> is_at_or_below_removal_watermark (ix_removed ?st) r"
    using assms(1-4) by (auto simp: remove_at_def is_redacted_def is_at_or_below_removal_watermark_def raise_mark_def not_le
        simp del: split_paired_All split: option.splits)
  then have "locate (apply_record ?st (r\<lparr>ir_embedding := None\<rparr>) v True) i =
      Some \<lparr>lc_object_key = ir_object_key r, lc_cid = ir_cid r, lc_key_epoch = ir_key_epoch r\<rparr>" for v
    using assms(2) by (simp add: apply_record_def locate_def is_redacted_def is_stale_rollback_def map_simps)
  with up have "locate st2 i = Some \<lparr>lc_object_key = ir_object_key r, lc_cid = ir_cid r, lc_key_epoch = ir_key_epoch r\<rparr>"
    by (auto simp: upsert_def Let_def split: option.splits sum.splits)
  moreover have "index_run em st [Remove_At i lamport key, Upsert r] = ([Remove_At i lamport key, Upsert r], st2)" by (simp add: up)
  ultimately show ?thesis unfolding run1 by simp
qed

theorem late_removal_hides_newer_edit_witness:
  "locate (snd (index_run demo_embedder index_default [Upsert (demo_record demo_note 6 ''x''), Remove_At demo_note 5 ''k''])) demo_note = None"
proof -
  have "version_key (demo_record demo_note 6 ''x'') > (5, ''k'')"
    by (simp add: demo_record_def version_key_def word_less_nat_alt)
  from late_removal_hides_newer_edit [OF this, of demo_note index_default demo_embedder] show ?thesis
    by (simp add: demo_record_def index_default_def is_redacted_def lookup_empty slot_of_def demo_embedder_def)
qed

text \<open>A batch is the same as its records one by one, for an embedder that embeds each text by itself: the batching of
  the model calls, the reuse of stored vectors and the pairing of the fresh ones change nothing.\<close>

theorem batch_is_serial:
  assumes "\<forall>ts. em_embed em ts = Inr (map emb ts)" and "distinct (map ir_note_id rs)"
  shows "upsert_batch em st rs = (Inr (), foldl (\<lambda>st r. snd (upsert em st r)) st rs)"
proof (cases "rs = []")
  case False
  let ?hit = "\<lambda>r. if embedding_matches_dim (ir_embedding r) (em_dim em) then None else reusable st r"
  let ?pairs = "map (\<lambda>r. (r, ?hit r)) rs"
  have "map (\<lambda>(r, _). ir_summary r) (filter (\<lambda>(r, hit). hit = None \<and> \<not> embedding_matches_dim (ir_embedding r) (em_dim em)) ?pairs) =
      map ir_summary (misses (em_dim em) ?pairs)"
    by (simp add: misses_def case_prod_beta)
  moreover have "apply_all (em_dim em) True ?pairs (map (emb \<circ> ir_summary) (misses (em_dim em) ?pairs)) st = foldl (\<lambda>st r. snd (upsert em st r)) st rs"
    using apply_all_serial [OF assms(1,2) _ refl refl] by blast
  ultimately show ?thesis
    using False assms(1) unfolding upsert_batch_def apply_batch_def Let_def zip_map_same by simp
qed (simp add: upsert_batch_def apply_batch_def)

theorem batch_is_serial_witness:
  "snd (upsert_batch demo_embedder index_default [demo_record demo_note 3 ''x'', demo_record (NoteId 8) 4 ''y'']) =
    snd (upsert demo_embedder (snd (upsert demo_embedder index_default (demo_record demo_note 3 ''x''))) (demo_record (NoteId 8) 4 ''y''))"
proof -
  have "distinct (map ir_note_id [demo_record demo_note 3 ''x'', demo_record (NoteId 8) 4 ''y''])"
    by (simp add: demo_record_def demo_note_def)
  from batch_is_serial [OF _ this, of demo_embedder "\<lambda>t. [int (length t)]" index_default] show ?thesis by (simp add: demo_embedder_def)
qed

end
