(* ===== verification/Search.thy ===== *)
theory Search
  imports Index Oplog_Store "HOL-Library.Multiset"
begin

text \<open>
  Retrieval over the index (\<^verbatim>\<open>index/mod.rs\<close>): tokens, the lexical and the vector leg, their fusion, recency and
  reinforcement, relations, truncation and the token budget; the write-time duplicate probe; the hashing embedder.
  IEEE arithmetic is not computed: the operations of \<^verbatim>\<open>f32\<close> the code uses are a record of functions on \<open>'f\<close>, whose
  class order is \<^verbatim>\<open>total_cmp\<close>, and the theorems hold for every choice, rounding and NaN included. The Unicode tables
  are parameters too.
\<close>

section \<open>Definitions\<close>

subsection \<open>Floats and text\<close>

text \<open>\<open>fl_lit n d\<close> is the float literal nearest to \<open>n / d\<close>, \<open>fl_of_int\<close> the cast of an integer.\<close>

record 'f floats =
  fl_lit :: "int \<Rightarrow> int \<Rightarrow> 'f"
  fl_of_int :: "int \<Rightarrow> 'f"
  fl_add :: "'f \<Rightarrow> 'f \<Rightarrow> 'f"
  fl_mul :: "'f \<Rightarrow> 'f \<Rightarrow> 'f"
  fl_div :: "'f \<Rightarrow> 'f \<Rightarrow> 'f"
  fl_neg :: "'f \<Rightarrow> 'f"
  fl_sqrt :: "'f \<Rightarrow> 'f"
  fl_ln :: "'f \<Rightarrow> 'f"
  fl_exp :: "'f \<Rightarrow> 'f"
  fl_min :: "'f \<Rightarrow> 'f \<Rightarrow> 'f"
  fl_LN_2 :: 'f
  fl_less :: "'f \<Rightarrow> 'f \<Rightarrow> bool"
  fl_less_eq :: "'f \<Rightarrow> 'f \<Rightarrow> bool"
  fl_is_nan :: "'f \<Rightarrow> bool"

record unicode =
  uc_alphanumeric :: "string \<Rightarrow> bool"
  uc_lowercase :: "string \<Rightarrow> string"
  uc_whitespace :: "string \<Rightarrow> bool"
  uc_control :: "string \<Rightarrow> bool"

text \<open>The characters of UTF-8 text, each as its bytes: a leading byte and its continuation bytes.\<close>

definition is_continuation :: "char \<Rightarrow> bool" where
  "is_continuation c \<longleftrightarrow> byte_of c AND 0xC0 = 0x80"

fun chars_of :: "string \<Rightarrow> string list" where
  "chars_of [] = []"
| "chars_of [c] = [[c]]"
| "chars_of (c # d # s) =
     (if is_continuation d then (c # hd (chars_of (d # s))) # tl (chars_of (d # s)) else [c] # chars_of (d # s))"

text \<open>Rust's \<^verbatim>\<open>split\<close> by a predicate on characters.\<close>

fun split_by :: "('a \<Rightarrow> bool) \<Rightarrow> 'a list \<Rightarrow> 'a list list" where
  "split_by p [] = [[]]"
| "split_by p (x # xs) = (if p x then [] # split_by p xs else (x # hd (split_by p xs)) # tl (split_by p xs))"

definition tokenize :: "unicode \<Rightarrow> string \<Rightarrow> string list" where
  "tokenize U txt =
     map (\<lambda>piece. uc_lowercase U (concat piece))
       (filter (\<lambda>piece. piece \<noteq> []) (split_by (\<lambda>c. \<not> uc_alphanumeric U c) (chars_of txt)))"

definition doc_tokens :: "unicode \<Rightarrow> 'f index_record \<Rightarrow> string list" where
  "doc_tokens U r = tokenize U (ir_summary r) @ concat (map (tokenize U) (sorted_list_of_fset (ir_tags r)))"

definition estimate_tokens :: "string \<Rightarrow> nat" where
  "estimate_tokens txt = (length (chars_of txt) + 3) div 4"

subsection \<open>Vectors and the hashing embedder\<close>

definition cosine :: "'f floats \<Rightarrow> 'f list \<Rightarrow> 'f list \<Rightarrow> 'f" where
  "cosine F left right =
     (if length left \<noteq> length right then fl_lit F 0 1
      else
        let (dot, norm_left, norm_right) =
              foldl (\<lambda>(d, nl, nr) (x, y). (fl_add F d (fl_mul F x y), fl_add F nl (fl_mul F x x), fl_add F nr (fl_mul F y y)))
                (fl_lit F 0 1, fl_lit F 0 1, fl_lit F 0 1) (zip left right);
            denom = fl_mul F (fl_sqrt F norm_left) (fl_sqrt F norm_right)
        in if fl_less_eq F denom (fl_lit F 0 1) then fl_lit F 0 1 else fl_div F dot denom)"

definition FNV_OFFSET_BASIS :: u64 where "FNV_OFFSET_BASIS = 0xcbf29ce484222325"
definition FNV_PRIME :: u64 where "FNV_PRIME = 0x00000100000001b3"

definition fnv1a :: "bytes \<Rightarrow> u64" where
  "fnv1a bs = foldl (\<lambda>h b. (h XOR ucast b) * FNV_PRIME) FNV_OFFSET_BASIS bs"

definition l2_normalize :: "'f floats \<Rightarrow> 'f list \<Rightarrow> 'f list" where
  "l2_normalize F v =
     (let norm = fl_sqrt F (foldl (fl_add F) (fl_lit F 0 1) (map (\<lambda>x. fl_mul F x x) v))
      in if fl_less F (fl_lit F 0 1) norm then map (\<lambda>x. fl_div F x norm) v else v)"

definition embed_one :: "'f floats \<Rightarrow> unicode \<Rightarrow> string \<Rightarrow> nat \<Rightarrow> 'f list" where
  "embed_one F U txt dim =
     (if dim = 0 then []
      else l2_normalize F
        (foldl (\<lambda>v t. let bucket = unat (fnv1a (as_bytes t)) mod dim in v[bucket := fl_add F (v ! bucket) (fl_lit F 1 1)])
          (replicate dim (fl_lit F 0 1)) (tokenize U txt)))"

definition DEFAULT_EMBED_DIM :: nat where "DEFAULT_EMBED_DIM = 64"

definition hash_embedder :: "'f floats \<Rightarrow> unicode \<Rightarrow> nat \<Rightarrow> 'f embedder" where
  "hash_embedder F U dim =
     \<lparr>em_embed = (\<lambda>ts. Inr (map (\<lambda>t. embed_one F U t dim) ts)), em_embed_queries = (\<lambda>ts. Inr (map (\<lambda>t. embed_one F U t dim) ts)),
      em_dim = dim, em_vector_space = ''hash-fnv1a/'' @ nat_dec dim, em_relevance_threshold = fl_lit F 0 1, em_contributes_semantic_leg = False\<rparr>"

subsection \<open>Leg scores\<close>

definition jaccard :: "'f floats \<Rightarrow> string list \<Rightarrow> string list \<Rightarrow> 'f" where
  "jaccard F left right =
     (if left = [] \<or> right = [] then fl_lit F 0 1
      else fl_div F (fl_of_int F (int (card (set left \<inter> set right)))) (fl_of_int F (int (card (set left \<union> set right)))))"

text \<open>The map from a term to its weight: \<open>ln (1 + N / df)\<close> for the terms of the documents.\<close>

definition corpus_idf :: "'f floats \<Rightarrow> string list list \<Rightarrow> string \<Rightarrow> 'f option" where
  "corpus_idf F docs t =
     (let df = length (filter (\<lambda>d. t \<in> set d) docs) in
      if df = 0 then None
      else Some (fl_ln F (fl_add F (fl_lit F 1 1) (fl_div F (fl_of_int F (int (length docs))) (fl_of_int F (int df))))))"

definition K1 :: "'f floats \<Rightarrow> 'f" where "K1 F = fl_lit F 12 10"

fun keyword_loop :: "'f floats \<Rightarrow> string list \<Rightarrow> (string \<Rightarrow> 'f option) option \<Rightarrow> string set \<Rightarrow> 'f \<Rightarrow> string list \<Rightarrow> 'f" where
  "keyword_loop F doc idf seen score [] = score"
| "keyword_loop F doc idf seen score (t # ts) =
     (if t \<in> seen then keyword_loop F doc idf seen score ts
      else
        let freq = count_list doc t in
        if freq = 0 then keyword_loop F doc idf (insert t seen) score ts
        else
          let tf = fl_of_int F (int freq);
              weight = (case idf of None \<Rightarrow> fl_lit F 1 1 | Some m \<Rightarrow> (case m t of None \<Rightarrow> fl_lit F 0 1 | Some w \<Rightarrow> w));
              gain = fl_div F (fl_mul F (fl_mul F weight tf) (fl_add F (K1 F) (fl_lit F 1 1))) (fl_add F tf (K1 F))
          in keyword_loop F doc idf (insert t seen) (fl_add F score gain) ts)"

definition keyword_score :: "'f floats \<Rightarrow> string list \<Rightarrow> string list \<Rightarrow> (string \<Rightarrow> 'f option) option \<Rightarrow> 'f" where
  "keyword_score F query doc idf =
     (if query = [] \<or> doc = [] then fl_lit F 0 1 else keyword_loop F doc idf {} (fl_lit F 0 1) query)"

subsection \<open>Ranking\<close>

text \<open>Rust's stable \<^verbatim>\<open>sort_by\<close>, for a comparison given as its reflexive order.\<close>

fun insort_by :: "('a \<Rightarrow> 'a \<Rightarrow> bool) \<Rightarrow> 'a \<Rightarrow> 'a list \<Rightarrow> 'a list" where
  "insort_by le x [] = [x]"
| "insort_by le x (y # ys) = (if le x y then x # y # ys else y # insort_by le x ys)"

definition sort_by :: "('a \<Rightarrow> 'a \<Rightarrow> bool) \<Rightarrow> 'a list \<Rightarrow> 'a list" where
  "sort_by le xs = foldr (insort_by le) xs []"

text \<open>Greater score first, then the newer, then the smaller id.\<close>

definition leg_order :: "note_id \<times> ('f::linorder) \<times> timestamp \<Rightarrow> note_id \<times> 'f \<times> timestamp \<Rightarrow> bool" where
  "leg_order a b =
     (case (a, b) of ((i, s, t), (j, s', t')) \<Rightarrow> s > s' \<or> (s = s' \<and> (t > t' \<or> (t = t' \<and> i \<le> j))))"

definition rank_leg :: "'f::linorder floats \<Rightarrow> (note_id \<times> 'f \<times> timestamp) list \<Rightarrow> 'f \<Rightarrow> note_id list" where
  "rank_leg F scored lowest = map fst (sort_by leg_order (filter (\<lambda>(i, s, t). fl_less F lowest s) scored))"

definition RANK_CONSTANT :: "'f floats \<Rightarrow> 'f" where "RANK_CONSTANT F = fl_lit F 60 1"
definition RELATION_DEMOTION :: "'f floats \<Rightarrow> 'f" where "RELATION_DEMOTION F = fl_lit F 2 10"
definition REINFORCE_BOOST_K :: "'f floats \<Rightarrow> 'f" where "REINFORCE_BOOST_K F = fl_lit F 5 10"
definition MAX_REINFORCE_BOOST :: "'f floats \<Rightarrow> 'f" where "MAX_REINFORCE_BOOST F = fl_lit F 3 1"
definition DAY_MS :: int where "DAY_MS = 24 * 60 * 60 * 1000"

definition rrf_fuse :: "'f floats \<Rightarrow> note_id list list \<Rightarrow> 'f \<Rightarrow> (note_id \<times> 'f) list" where
  "rrf_fuse F legs rank_constant =
     (let acc = foldl (\<lambda>m leg.
            foldl (\<lambda>m (rank, i).
              let contribution = fl_div F (fl_lit F 1 1) (fl_add F rank_constant (fl_of_int F (int rank)));
                  old = (case Mapping.lookup m i of None \<Rightarrow> fl_lit F 0 1 | Some s \<Rightarrow> s)
              in Mapping.update i (fl_add F old contribution) m) m (enumerate 0 leg)) Mapping.empty legs
      in map (\<lambda>i. (i, the (Mapping.lookup acc i))) (Mapping.ordered_keys acc))"

fun half_life_millis :: "note_type \<Rightarrow> int" where
  "half_life_millis Decision = 365 * DAY_MS"
| "half_life_millis Convention = 365 * DAY_MS"
| "half_life_millis Reference = 365 * DAY_MS"
| "half_life_millis Gotcha = 90 * DAY_MS"
| "half_life_millis Context = 7 * DAY_MS"

definition recency_weight :: "'f floats \<Rightarrow> int \<Rightarrow> note_type \<Rightarrow> 'f" where
  "recency_weight F age nt =
     (let ratio = fl_div F (fl_of_int F (max age 0)) (fl_of_int F (half_life_millis nt))
      in fl_exp F (fl_mul F (fl_neg F (fl_LN_2 F)) ratio))"

definition reinforcement_boost :: "'f floats \<Rightarrow> nat \<Rightarrow> 'f" where
  "reinforcement_boost F n =
     fl_min F (fl_add F (fl_lit F 1 1) (fl_mul F (REINFORCE_BOOST_K F) (fl_ln F (fl_add F (fl_lit F 1 1) (fl_of_int F (int n))))))
       (MAX_REINFORCE_BOOST F)"

text \<open>Rust's \<^verbatim>\<open>saturating_sub\<close> on \<^verbatim>\<open>i64\<close>.\<close>

definition i64_saturating_sub :: "int \<Rightarrow> int \<Rightarrow> int" where
  "i64_saturating_sub a b = max (- (2 ^ 63)) (min (2 ^ 63 - 1) (a - b))"

subsection \<open>Candidates and pointers\<close>

record 'f candidate =
  ca_note_id :: note_id
  ca_keyword :: 'f
  ca_vector :: 'f
  ca_note_type :: note_type
  ca_updated :: timestamp
  ca_lamport :: u64
  ca_summary :: string
  ca_scope :: scope
  ca_author :: ss58
  ca_relations :: "typed_link list"
  ca_reinforcer_count :: nat
  ca_last_reinforced :: "timestamp option"
  ca_doc_tokens :: "string list"

record pointer_relation =
  pr_from :: note_id
  pr_rel :: link_rel

record 'f pointer =
  pt_note_id :: note_id
  pt_summary :: string
  pt_score :: 'f
  pt_scope :: scope
  pt_author :: ss58
  pt_updated :: timestamp
  pt_lamport :: u64
  pt_relations :: "pointer_relation list"

record 'f search_result =
  sr_pointers :: "'f pointer list"
  sr_total_matched :: nat

datatype recall_scope = Repo_Scope repo_scope | All_Repos

record query =
  qu_text :: string
  qu_team :: string
  qu_scope :: recall_scope
  qu_k :: nat
  qu_token_budget :: "nat option"
  qu_now :: timestamp

definition in_scope :: "scope \<Rightarrow> string \<Rightarrow> repo_scope \<Rightarrow> bool" where
  "in_scope s team repo \<longleftrightarrow> scope_team s = team \<and> (scope_repo s = repo \<or> scope_repo s = Global)"

definition query_in_scope :: "scope \<Rightarrow> string \<Rightarrow> recall_scope \<Rightarrow> bool" where
  "query_in_scope s team wanted \<longleftrightarrow>
     (case wanted of Repo_Scope repo \<Rightarrow> in_scope s team repo | All_Repos \<Rightarrow> scope_team s = team)"

definition candidate_score :: "'f floats \<Rightarrow> unicode \<Rightarrow> 'f entry \<Rightarrow> 'f list \<Rightarrow> 'f candidate" where
  "candidate_score F U e query_embedding =
     (let r = en_record e in
      \<lparr>ca_note_id = ir_note_id r, ca_keyword = fl_lit F 0 1, ca_vector = cosine F query_embedding (en_embedding e),
       ca_note_type = ir_note_type r, ca_updated = ir_updated r, ca_lamport = ir_lamport r, ca_summary = ir_summary r,
       ca_scope = ir_scope r, ca_author = ir_author r, ca_relations = ir_relations r,
       ca_reinforcer_count = fcard (ir_reinforcers r), ca_last_reinforced = ir_last_reinforced r, ca_doc_tokens = doc_tokens U r\<rparr>)"

definition to_pointer :: "'f candidate \<Rightarrow> note_id \<Rightarrow> 'f \<Rightarrow> 'f pointer" where
  "to_pointer c i score =
     \<lparr>pt_note_id = i, pt_summary = ca_summary c, pt_score = score, pt_scope = ca_scope c, pt_author = ca_author c,
      pt_updated = ca_updated c, pt_lamport = ca_lamport c, pt_relations = []\<rparr>"

definition push_relation :: "note_id \<Rightarrow> pointer_relation \<Rightarrow> (note_id, pointer_relation list) mapping \<Rightarrow> (note_id, pointer_relation list) mapping" where
  "push_relation i pr m = Mapping.update i ((case Mapping.lookup m i of None \<Rightarrow> [] | Some prs \<Rightarrow> prs) @ [pr]) m"

definition build_incoming_relations :: "(note_id, 'f candidate) mapping \<Rightarrow> (note_id, pointer_relation list) mapping" where
  "build_incoming_relations by_id =
     foldl (\<lambda>m i.
       foldl (\<lambda>m tl.
         let m1 = push_relation (tl_to tl) \<lparr>pr_from = i, pr_rel = tl_rel tl\<rparr> m
         in if tl_rel tl = Contradicts then push_relation i \<lparr>pr_from = tl_to tl, pr_rel = Contradicts\<rparr> m1 else m1)
         m (ca_relations (the (Mapping.lookup by_id i)))) Mapping.empty (Mapping.ordered_keys by_id)"

fun budget_loop :: "nat \<Rightarrow> nat \<Rightarrow> 'f pointer list \<Rightarrow> 'f pointer list" where
  "budget_loop budget used [] = []"
| "budget_loop budget used (p # ps) =
     (let cost = estimate_tokens (pt_summary p) in
      if used + cost > budget then [] else p # budget_loop budget (used + cost) ps)"

definition apply_token_budget :: "'f pointer list \<Rightarrow> nat option \<Rightarrow> 'f pointer list" where
  "apply_token_budget ps budget = (case budget of None \<Rightarrow> ps | Some b \<Rightarrow> budget_loop b 0 ps)"

subsection \<open>Search\<close>

definition candidates_of :: "'f floats \<Rightarrow> unicode \<Rightarrow> 'f index_state \<Rightarrow> query \<Rightarrow> 'f list \<Rightarrow> 'f candidate list" where
  "candidates_of F U st q query_embedding =
     (let scoped = filter (\<lambda>e. query_in_scope (ir_scope (en_record e)) (qu_team q) (qu_scope q)) (btree_values (ix_entries st));
          cands = map (\<lambda>e. candidate_score F U e query_embedding) scoped;
          idf = corpus_idf F (map ca_doc_tokens cands)
      in map (\<lambda>c. c\<lparr>ca_keyword := keyword_score F (tokenize U (qu_text q)) (ca_doc_tokens c) (Some idf)\<rparr>) cands)"

definition fused_legs :: "'f::linorder floats \<Rightarrow> 'f embedder \<Rightarrow> 'f candidate list \<Rightarrow> (note_id \<times> 'f) list" where
  "fused_legs F em cands =
     (let keyword_leg = rank_leg F (map (\<lambda>c. (ca_note_id c, ca_keyword c, ca_updated c)) cands) (fl_lit F 0 1)
      in if em_contributes_semantic_leg em
         then let vector_leg = rank_leg F (map (\<lambda>c. (ca_note_id c, ca_vector c, ca_updated c)) cands) (em_relevance_threshold em)
              in rrf_fuse F [keyword_leg, vector_leg] (RANK_CONSTANT F)
         else rrf_fuse F [keyword_leg] (RANK_CONSTANT F))"

definition effective_updated :: "'f candidate \<Rightarrow> timestamp \<Rightarrow> timestamp" where
  "effective_updated c now =
     (case ca_last_reinforced c of
        Some lr \<Rightarrow> if lr \<le> now then max (ca_updated c) lr else ca_updated c
      | None \<Rightarrow> ca_updated c)"

definition scored_pointer ::
    "'f floats \<Rightarrow> (note_id, pointer_relation list) mapping \<Rightarrow> timestamp \<Rightarrow> note_id \<Rightarrow> 'f \<Rightarrow> 'f candidate \<Rightarrow> 'f pointer" where
  "scored_pointer F incoming now i fused_score c =
     (let age = max (i64_saturating_sub now (effective_updated c now)) 0;
          rels = Mapping.lookup incoming i;
          demotion = (if (case rels of None \<Rightarrow> False | Some rs \<Rightarrow> list_ex (\<lambda>r. demotes_target (pr_rel r)) rs)
                      then RELATION_DEMOTION F else fl_lit F 1 1);
          score = fl_mul F (fl_mul F (fl_mul F fused_score (recency_weight F age (ca_note_type c))) demotion)
                    (reinforcement_boost F (ca_reinforcer_count c));
          p = to_pointer c i score
      in case rels of None \<Rightarrow> p | Some rs \<Rightarrow> p\<lparr>pt_relations := rs\<rparr>)"

definition pointer_order :: "('f::linorder) pointer \<Rightarrow> 'f pointer \<Rightarrow> bool" where
  "pointer_order a b \<longleftrightarrow> pt_score a > pt_score b \<or> (pt_score a = pt_score b \<and> pt_note_id a \<le> pt_note_id b)"

definition search :: "'f::linorder floats \<Rightarrow> unicode \<Rightarrow> 'f embedder \<Rightarrow> 'f index_state \<Rightarrow> query \<Rightarrow> mem_error + 'f search_result" where
  "search F U em st q =
     r_bind (em_embed_queries em [qu_text q]) (\<lambda>vs.
       let cands = candidates_of F U st q (first_or_default vs) in
       if cands = [] then Inr \<lparr>sr_pointers = [], sr_total_matched = 0\<rparr>
       else
         let fused = fused_legs F em cands;
             by_id = collect_map ca_note_id id cands;
             incoming = build_incoming_relations by_id;
             pointers = List.map_filter (\<lambda>(i, s). map_option (scored_pointer F incoming (qu_now q) i s) (Mapping.lookup by_id i)) fused;
             sorted = take (qu_k q) (sort_by pointer_order pointers)
         in Inr \<lparr>sr_pointers = apply_token_budget sorted (qu_token_budget q), sr_total_matched = length pointers\<rparr>)"

subsection \<open>The duplicate probe\<close>

record 'f near_duplicate =
  nd_note_id :: note_id
  nd_similarity :: 'f

definition probe_step :: "'f floats \<Rightarrow> ('f entry \<Rightarrow> 'f) \<Rightarrow> 'f \<Rightarrow> 'f near_duplicate option \<Rightarrow> 'f entry \<Rightarrow> 'f near_duplicate option" where
  "probe_step F sim threshold best e =
     (let similarity = sim e in
      if fl_is_nan F similarity \<or> fl_less F similarity threshold then best
      else if (case best of None \<Rightarrow> True | Some cur \<Rightarrow> fl_less F (nd_similarity cur) similarity)
      then Some \<lparr>nd_note_id = ir_note_id (en_record e), nd_similarity = similarity\<rparr>
      else best)"

definition nearest_duplicate ::
    "'f floats \<Rightarrow> unicode \<Rightarrow> 'f embedder \<Rightarrow> 'f index_state \<Rightarrow> string \<Rightarrow> string \<Rightarrow> repo_scope \<Rightarrow> 'f \<Rightarrow> 'f list option
      \<Rightarrow> mem_error + 'f near_duplicate option" where
  "nearest_duplicate F U em st summary team repo threshold precomputed =
     (let semantic = em_contributes_semantic_leg em in
      r_bind (if semantic
              then (case precomputed of Some v \<Rightarrow> Inr v | None \<Rightarrow> r_bind (em_embed em [summary]) (\<lambda>vs. Inr (first_or_default vs)))
              else Inr []) (\<lambda>query_vec.
        let sim = (\<lambda>e. if semantic then cosine F query_vec (en_embedding e)
                       else jaccard F (tokenize U summary) (doc_tokens U (en_record e)))
        in Inr (foldl (probe_step F sim threshold) None
             (filter (\<lambda>e. in_scope (ir_scope (en_record e)) team repo) (btree_values (ix_entries st))))))"

section \<open>Specification\<close>

text \<open>What makes a candidate count as a match: a leg scores it above that leg's floor.\<close>

definition signal :: "'f floats \<Rightarrow> 'f embedder \<Rightarrow> 'f candidate \<Rightarrow> bool" where
  "signal F em c \<longleftrightarrow> fl_less F (fl_lit F 0 1) (ca_keyword c) \<or>
     (em_contributes_semantic_leg em \<and> fl_less F (em_relevance_threshold em) (ca_vector c))"

definition matched :: "'f floats \<Rightarrow> unicode \<Rightarrow> 'f embedder \<Rightarrow> 'f index_state \<Rightarrow> query \<Rightarrow> 'f list \<Rightarrow> note_id set" where
  "matched F U em st q v = ca_note_id ` {c \<in> set (candidates_of F U st q v). signal F em c}"

text \<open>The whole ranking, before anything is cut off.\<close>

definition by_note :: "'f floats \<Rightarrow> unicode \<Rightarrow> 'f index_state \<Rightarrow> query \<Rightarrow> 'f list \<Rightarrow> (note_id, 'f candidate) mapping" where
  "by_note F U st q v = collect_map ca_note_id id (candidates_of F U st q v)"

definition full_ranking :: "'f::linorder floats \<Rightarrow> unicode \<Rightarrow> 'f embedder \<Rightarrow> 'f index_state \<Rightarrow> query \<Rightarrow> 'f list \<Rightarrow> 'f pointer list" where
  "full_ranking F U em st q v =
     sort_by pointer_order
       (map (\<lambda>(i, s). scored_pointer F (build_incoming_relations (by_note F U st q v)) (qu_now q) i s (the (Mapping.lookup (by_note F U st q v) i)))
         (fused_legs F em (candidates_of F U st q v)))"

text \<open>The similarity the probe measures, and the notes it may name.\<close>

definition similarity_to :: "'f floats \<Rightarrow> unicode \<Rightarrow> 'f embedder \<Rightarrow> string \<Rightarrow> 'f list option \<Rightarrow> 'f entry \<Rightarrow> 'f" where
  "similarity_to F U em summary precomputed e =
     (if em_contributes_semantic_leg em
      then cosine F (case precomputed of Some v \<Rightarrow> v
                     | None \<Rightarrow> (case em_embed em [summary] of Inr vs \<Rightarrow> first_or_default vs | Inl _ \<Rightarrow> [])) (en_embedding e)
      else jaccard F (tokenize U summary) (doc_tokens U (en_record e)))"

definition eligible :: "'f floats \<Rightarrow> ('f entry \<Rightarrow> 'f) \<Rightarrow> 'f index_state \<Rightarrow> string \<Rightarrow> repo_scope \<Rightarrow> 'f \<Rightarrow> note_id \<Rightarrow> 'f \<Rightarrow> bool" where
  "eligible F sim st team repo threshold i s \<longleftrightarrow>
     (\<exists>e. Mapping.lookup (ix_entries st) i = Some e \<and> in_scope (ir_scope (en_record e)) team repo \<and>
        s = sim e \<and> \<not> fl_is_nan F s \<and> \<not> fl_less F s threshold)"

text \<open>A pointer shows what the index holds of its note, in scope.\<close>

definition shows_entry :: "'f index_state \<Rightarrow> query \<Rightarrow> 'f pointer \<Rightarrow> bool" where
  "shows_entry st q p \<longleftrightarrow>
     (\<exists>e. Mapping.lookup (ix_entries st) (pt_note_id p) = Some e \<and> query_in_scope (ir_scope (en_record e)) (qu_team q) (qu_scope q) \<and>
        pt_summary p = ir_summary (en_record e) \<and> pt_scope p = ir_scope (en_record e) \<and> pt_author p = ir_author (en_record e) \<and>
        pt_updated p = ir_updated (en_record e) \<and> pt_lamport p = ir_lamport (en_record e))"

section \<open>Lemmas\<close>

subsection \<open>Sorting\<close>

lemma insort_by_mset [simp]: "mset (insort_by le x xs) = add_mset x (mset xs)"
  by (induction xs) auto

lemma sort_by_mset [simp]: "mset (sort_by le xs) = mset xs"
  by (induction xs) (simp_all add: sort_by_def)

lemma sort_by_set [simp]: "set (sort_by le xs) = set xs"
  by (metis set_mset_mset sort_by_mset)

lemma sort_by_length [simp]: "length (sort_by le xs) = length xs"
  by (metis size_mset sort_by_mset)

lemma set_map_sort_by: "set (map f (sort_by le xs)) = set (map f xs)"
  by simp

lemma sort_by_Nil [simp]: "sort_by le [] = []"
  by (simp add: sort_by_def)

lemma distinct_map_sort_by [simp]: "distinct (map f (sort_by le xs)) = distinct (map f xs)"
  by (metis mset_eq_imp_distinct_iff mset_map sort_by_mset)

lemma insort_by_sorted:
  assumes "\<And>x y z. le x y \<Longrightarrow> le y z \<Longrightarrow> le x z" and "\<And>x y. le x y \<or> le y x"
  shows "sorted_wrt le xs \<Longrightarrow> sorted_wrt le (insort_by le x xs)"
proof (induction xs)
  case (Cons y ys)
  have set: "set (insort_by le x ys) = insert x (set ys)" by (metis insort_by_mset set_mset_add_mset_insert set_mset_mset)
  from Cons show ?case
  proof (cases "le x y")
    case True
    with Cons.prems show ?thesis using assms(1) by auto
  next
    case False
    with Cons assms(2) show ?thesis by (auto simp: set)
  qed
qed simp

lemma sort_by_sorted:
  assumes "\<And>x y z. le x y \<Longrightarrow> le y z \<Longrightarrow> le x z" and "\<And>x y. le x y \<or> le y x"
  shows "sorted_wrt le (sort_by le xs)"
  by (induction xs) (simp_all add: sort_by_def insort_by_sorted [OF assms])

lemma pointer_order_trans: "pointer_order a b \<Longrightarrow> pointer_order b c \<Longrightarrow> pointer_order a c"
  by (auto simp: pointer_order_def)

lemma pointer_order_total: "pointer_order a b \<or> pointer_order b a"
  by (auto simp: pointer_order_def not_less_iff_gr_or_eq)

subsection \<open>Legs and fusion\<close>

lemma set_rank_leg: "set (rank_leg F scored lowest) = {i. \<exists>s t. (i, s, t) \<in> set scored \<and> fl_less F lowest s}"
  by (force simp: rank_leg_def)

lemma fuse_leg_keys:
  "Mapping.keys (foldl (\<lambda>m (rank, i). Mapping.update i (f rank (Mapping.lookup m i)) m) m (enumerate n leg)) = set leg \<union> Mapping.keys m"
  by (induction leg arbitrary: n m) auto

lemma map_fst_rrf_fuse: "map fst (rrf_fuse F legs rc) = sorted_list_of_set (\<Union>(set ` set legs))"
proof -
  define f where "f = (\<lambda>rank old. fl_add F (case old of None \<Rightarrow> fl_lit F 0 1 | Some s \<Rightarrow> s) (fl_div F (fl_lit F 1 1) (fl_add F rc (fl_of_int F (int rank)))))"
  define step where "step = (\<lambda>m leg. foldl (\<lambda>m (rank, i :: note_id). Mapping.update i (f rank (Mapping.lookup m i)) m) m (enumerate 0 leg))"
  have acc: "rrf_fuse F legs rc = (let acc = foldl step Mapping.empty legs in map (\<lambda>i. (i, the (Mapping.lookup acc i))) (Mapping.ordered_keys acc))"
    by (simp add: rrf_fuse_def step_def f_def Let_def)
  have step_keys: "Mapping.keys (step m leg) = set leg \<union> Mapping.keys m" for m leg by (simp add: step_def fuse_leg_keys)
  have "Mapping.keys (foldl step m legs) = \<Union>(set ` set legs) \<union> Mapping.keys m" for m
    by (induction legs arbitrary: m) (auto simp: step_keys)
  from this [of Mapping.empty] show ?thesis by (simp add: acc Let_def comp_def Mapping.ordered_keys_def)
qed

subsection \<open>Candidates\<close>

lemma candidates_ids:
  assumes "index_inv st"
  shows "distinct (map ca_note_id (candidates_of F U st q v))"
proof -
  have "map ca_note_id (candidates_of F U st q v) =
      map (\<lambda>e. ir_note_id (en_record e)) (filter (\<lambda>e. query_in_scope (ir_scope (en_record e)) (qu_team q) (qu_scope q)) (btree_values (ix_entries st)))"
    by (simp add: candidates_of_def Let_def candidate_score_def comp_def)
  moreover have "distinct (map (\<lambda>e. ir_note_id (en_record e)) (btree_values (ix_entries st)))"
    using assms btree_values_sorted [of "ix_entries st" "\<lambda>e. ir_note_id (en_record e)"]
    by (simp add: index_inv_def Mapping.ordered_keys_def)
  ultimately show ?thesis by (simp add: distinct_map_filter)
qed

lemma candidate_entry:
  assumes "index_inv st" and "c \<in> set (candidates_of F U st q v)"
  obtains e where "Mapping.lookup (ix_entries st) (ca_note_id c) = Some e"
    and "query_in_scope (ir_scope (en_record e)) (qu_team q) (qu_scope q)"
    and "ca_summary c = ir_summary (en_record e)" and "ca_scope c = ir_scope (en_record e)" and "ca_author c = ir_author (en_record e)"
    and "ca_updated c = ir_updated (en_record e)" and "ca_lamport c = ir_lamport (en_record e)" and "ca_relations c = ir_relations (en_record e)"
proof -
  from assms(2) obtain e where e: "e \<in> set (btree_values (ix_entries st))" "query_in_scope (ir_scope (en_record e)) (qu_team q) (qu_scope q)"
    and c: "c = (candidate_score F U e v)\<lparr>ca_keyword := ca_keyword c\<rparr>"
    by (auto simp: candidates_of_def Let_def)
  from e(1) assms(1) obtain i where i: "Mapping.lookup (ix_entries st) i = Some e"
    using set_btree_values [of "ix_entries st"] unfolding index_inv_def by auto
  with assms(1) have "ir_note_id (en_record e) = i" by (auto simp: index_inv_def)
  moreover have "ca_note_id c = ir_note_id (en_record e)" "ca_summary c = ir_summary (en_record e)" "ca_scope c = ir_scope (en_record e)"
    "ca_author c = ir_author (en_record e)" "ca_updated c = ir_updated (en_record e)" "ca_lamport c = ir_lamport (en_record e)"
    "ca_relations c = ir_relations (en_record e)"
    by (subst c; simp add: candidate_score_def Let_def)+
  ultimately show thesis using that [of e] i e(2) by simp
qed

lemma entry_candidate:
  assumes "index_inv st" and "Mapping.lookup (ix_entries st) i = Some e" and "query_in_scope (ir_scope (en_record e)) (qu_team q) (qu_scope q)"
  shows "\<exists>c\<in>set (candidates_of F U st q v). ca_note_id c = i \<and> ca_relations c = ir_relations (en_record e)"
proof -
  have e: "e \<in> set (btree_values (ix_entries st))" using assms(1,2) set_btree_values [of "ix_entries st"] by (auto simp: index_inv_def)
  from assms(1,2) have "ir_note_id (en_record e) = i" by (simp add: index_inv_def)
  with e assms(3) show ?thesis by (force simp: candidates_of_def Let_def candidate_score_def)
qed

lemma fused_ids:
  "map fst (fused_legs F em cands) = sorted_list_of_set (ca_note_id ` {c \<in> set cands. signal F em c})"
proof -
  have "ca_note_id ` {c \<in> set cands. signal F em c} =
      {i. \<exists>s t. (i, s, t) \<in> set (map (\<lambda>c. (ca_note_id c, ca_keyword c, ca_updated c)) cands) \<and> fl_less F (fl_lit F 0 1) s} \<union>
      (if em_contributes_semantic_leg em
       then {i. \<exists>s t. (i, s, t) \<in> set (map (\<lambda>c. (ca_note_id c, ca_vector c, ca_updated c)) cands) \<and> fl_less F (em_relevance_threshold em) s} else {})"
    by (auto simp: signal_def)
  then show ?thesis by (simp add: fused_legs_def Let_def map_fst_rrf_fuse set_rank_leg del: set_map)
qed

lemma pointers_of_fused:
  "\<forall>x\<in>set fused. Mapping.lookup m (fst x) \<noteq> None \<Longrightarrow>
    List.map_filter (\<lambda>(i, s). map_option (g i s) (Mapping.lookup m i)) fused = map (\<lambda>(i, s). g i s (the (Mapping.lookup m i))) fused"
  by (induction fused) (auto simp: List.map_filter_def)

lemma scored_pointer_sel [simp]:
  "pt_note_id (scored_pointer F inc now i s c) = i" "pt_summary (scored_pointer F inc now i s c) = ca_summary c"
  "pt_scope (scored_pointer F inc now i s c) = ca_scope c" "pt_author (scored_pointer F inc now i s c) = ca_author c"
  "pt_updated (scored_pointer F inc now i s c) = ca_updated c" "pt_lamport (scored_pointer F inc now i s c) = ca_lamport c"
  "pt_relations (scored_pointer F inc now i s c) = (case Mapping.lookup inc i of None \<Rightarrow> [] | Some rs \<Rightarrow> rs)"
  by (simp_all add: scored_pointer_def to_pointer_def Let_def split: option.split)

subsection \<open>The token budget\<close>

lemma budget_loop_prefix: "\<exists>n. budget_loop b used ps = take n ps \<and> (used \<le> b \<longrightarrow> used + (\<Sum>p\<leftarrow>take n ps. estimate_tokens (pt_summary p)) \<le> b) \<and>
    (n < length ps \<longrightarrow> used + (\<Sum>p\<leftarrow>take (Suc n) ps. estimate_tokens (pt_summary p)) > b)"
proof (induction ps arbitrary: used)
  case (Cons p ps)
  show ?case
  proof (cases "used + estimate_tokens (pt_summary p) > b")
    case True
    then show ?thesis by (intro exI [of _ 0]) (simp add: Let_def)
  next
    case False
    from Cons [of "used + estimate_tokens (pt_summary p)"] obtain n where n:
      "budget_loop b (used + estimate_tokens (pt_summary p)) ps = take n ps"
      "used + estimate_tokens (pt_summary p) + (\<Sum>p\<leftarrow>take n ps. estimate_tokens (pt_summary p)) \<le> b"
      "n < length ps \<longrightarrow> used + estimate_tokens (pt_summary p) + (\<Sum>p\<leftarrow>take (Suc n) ps. estimate_tokens (pt_summary p)) > b"
      using False by auto
    with False show ?thesis by (intro exI [of _ "Suc n"]) (simp add: Let_def add.assoc)
  qed
qed simp

subsection \<open>Relations\<close>

definition relations_at :: "(note_id, pointer_relation list) mapping \<Rightarrow> note_id \<Rightarrow> pointer_relation set" where
  "relations_at m i = set (case Mapping.lookup m i of None \<Rightarrow> [] | Some rs \<Rightarrow> rs)"

lemma relations_at_push: "relations_at (push_relation i pr m) j = (if i = j then insert pr (relations_at m j) else relations_at m j)"
  by (auto simp: relations_at_def push_relation_def lookup_update')

definition stated :: "note_id \<Rightarrow> typed_link list \<Rightarrow> note_id \<Rightarrow> pointer_relation set" where
  "stated i links j =
     {pr. pr_from pr = i \<and> TypedLink j (pr_rel pr) \<in> set links} \<union>
     {pr. i = j \<and> pr_rel pr = Contradicts \<and> TypedLink (pr_from pr) Contradicts \<in> set links}"

lemma stated_Cons:
  "stated i (l # ls) j = stated i ls j \<union> (if tl_to l = j then {\<lparr>pr_from = i, pr_rel = tl_rel l\<rparr>} else {}) \<union>
    (if i = j \<and> tl_rel l = Contradicts then {\<lparr>pr_from = tl_to l, pr_rel = Contradicts\<rparr>} else {})"
  by (cases l) (auto simp: stated_def intro: pointer_relation.equality)

lemma relations_of_links:
  "relations_at (foldl (\<lambda>m tl.
       let m1 = push_relation (tl_to tl) \<lparr>pr_from = i, pr_rel = tl_rel tl\<rparr> m
       in if tl_rel tl = Contradicts then push_relation i \<lparr>pr_from = tl_to tl, pr_rel = Contradicts\<rparr> m1 else m1) m links) j =
     relations_at m j \<union> stated i links j"
proof (induction links arbitrary: m)
  case Nil
  show ?case by (simp add: stated_def)
next
  case (Cons l ls)
  then show ?case by (auto simp: Let_def relations_at_push stated_Cons)
qed

lemma incoming_relations:
  "relations_at (build_incoming_relations by_id) j =
     (\<Union>i\<in>set (Mapping.ordered_keys by_id). stated i (ca_relations (the (Mapping.lookup by_id i))) j)"
proof -
  have "relations_at (foldl (\<lambda>m i. foldl (\<lambda>m tl.
         let m1 = push_relation (tl_to tl) \<lparr>pr_from = i, pr_rel = tl_rel tl\<rparr> m
         in if tl_rel tl = Contradicts then push_relation i \<lparr>pr_from = tl_to tl, pr_rel = Contradicts\<rparr> m1 else m1)
         m (ca_relations (the (Mapping.lookup by_id i)))) m ks) j =
       relations_at m j \<union> (\<Union>i\<in>set ks. stated i (ca_relations (the (Mapping.lookup by_id i))) j)" for m ks
    by (induction ks arbitrary: m) (auto simp: relations_of_links)
  moreover have "relations_at Mapping.empty j = {}" by (simp add: relations_at_def lookup_empty)
  ultimately show ?thesis by (simp add: build_incoming_relations_def)
qed

lemma finite_map_collect [simp]: "finite_map (collect_map key val xs)"
proof -
  have "finite_map (foldl (\<lambda>m x. Mapping.update (key x) (val x) m) m xs) = finite_map m" for m
    by (induction xs arbitrary: m) auto
  then show ?thesis by (simp add: collect_map_def)
qed

lemma candidate_lookup:
  assumes "index_inv st" and "c \<in> set (candidates_of F U st q v)"
  shows "Mapping.lookup (by_note F U st q v) (ca_note_id c) = Some c"
  using collect_map_inj [of ca_note_id "candidates_of F U st q v" c id] candidates_ids [OF assms(1), of F U q v] assms(2)
  by (simp add: distinct_map by_note_def)

lemma fused_candidate:
  assumes "index_inv st" and "x \<in> set (fused_legs F em (candidates_of F U st q v))"
  obtains c where "c \<in> set (candidates_of F U st q v)" and "signal F em c" and "fst x = ca_note_id c"
    and "Mapping.lookup (by_note F U st q v) (fst x) = Some c"
proof -
  have "fst x \<in> set (map fst (fused_legs F em (candidates_of F U st q v)))" using assms(2) by simp
  then obtain c where "c \<in> set (candidates_of F U st q v)" "signal F em c" "fst x = ca_note_id c"
    unfolding fused_ids by auto
  with candidate_lookup [OF assms(1)] show thesis using that by metis
qed

lemma search_pointers:
  assumes "index_inv st"
  shows "search F U em st q = r_bind (em_embed_queries em [qu_text q]) (\<lambda>vs.
      let full = full_ranking F U em st q (first_or_default vs)
      in Inr \<lparr>sr_pointers = apply_token_budget (take (qu_k q) full) (qu_token_budget q), sr_total_matched = length full\<rparr>)"
proof -
  have none: "fused_legs F em [] = []" using fused_ids [of F em "[]"] by simp
  have "\<forall>x\<in>set (fused_legs F em (candidates_of F U st q v)). Mapping.lookup (by_note F U st q v) (fst x) \<noteq> None" for v
    by (metis fused_candidate [OF assms] option.distinct(1))
  note ptrs = pointers_of_fused [OF this]
  show ?thesis
    by (cases "em_embed_queries em [qu_text q]")
      (simp_all add: search_def Let_def ptrs none by_note_def [symmetric] apply_token_budget_def full_ranking_def split: option.split)
qed

lemma full_ranking_ids: "distinct (map pt_note_id (full_ranking F U em st q v)) \<and>
    set (map pt_note_id (full_ranking F U em st q v)) = matched F U em st q v"
proof -
  have ids: "map pt_note_id (map (\<lambda>(i, s). scored_pointer F inc now i s (g i)) fused) = map fst fused" for fused g inc now
    by (induction fused) auto
  have "distinct (map fst (fused_legs F em (candidates_of F U st q v)))" by (simp add: fused_ids)
  moreover have "set (map fst (fused_legs F em (candidates_of F U st q v))) = matched F U em st q v"
    unfolding fused_ids matched_def by simp
  ultimately show ?thesis unfolding full_ranking_def distinct_map_sort_by set_map_sort_by by (simp only: ids simp_thms)
qed

lemma full_ranking_pointer:
  assumes "index_inv st" and "p \<in> set (full_ranking F U em st q v)"
  shows "shows_entry st q p \<and> set (pt_relations p) = relations_at (build_incoming_relations (by_note F U st q v)) (pt_note_id p)"
proof -
  from assms(2) obtain x where x: "x \<in> set (fused_legs F em (candidates_of F U st q v))"
    and p: "p = scored_pointer F (build_incoming_relations (by_note F U st q v)) (qu_now q) (fst x) (snd x) (the (Mapping.lookup (by_note F U st q v) (fst x)))"
    by (auto simp: full_ranking_def)
  obtain c where c: "c \<in> set (candidates_of F U st q v)" "fst x = ca_note_id c" "Mapping.lookup (by_note F U st q v) (fst x) = Some c"
    using fused_candidate [OF assms(1) x] .
  obtain e where e: "Mapping.lookup (ix_entries st) (ca_note_id c) = Some e"
    "query_in_scope (ir_scope (en_record e)) (qu_team q) (qu_scope q)"
    "ca_summary c = ir_summary (en_record e)" "ca_scope c = ir_scope (en_record e)" "ca_author c = ir_author (en_record e)"
    "ca_updated c = ir_updated (en_record e)" "ca_lamport c = ir_lamport (en_record e)"
    using candidate_entry [OF assms(1) c(1)] .
  have "shows_entry st q p" unfolding shows_entry_def using e c(2,3) by (intro exI [of _ e]) (simp add: p)
  then show ?thesis by (simp add: p relations_at_def)
qed

section \<open>A concrete search\<close>

definition demo_floats :: "int floats" where
  "demo_floats = \<lparr>fl_lit = (div), fl_of_int = id, fl_add = (+), fl_mul = (*), fl_div = (\<lambda>a b. a div b), fl_neg = uminus, fl_sqrt = id,
     fl_ln = id, fl_exp = id, fl_min = min, fl_LN_2 = 1, fl_less = (<), fl_less_eq = (\<le>), fl_is_nan = (\<lambda>_. False)\<rparr>"

definition demo_unicode :: unicode where
  "demo_unicode = \<lparr>uc_alphanumeric = (\<lambda>c. c \<noteq> '' ''), uc_lowercase = id, uc_whitespace = (\<lambda>c. c = '' ''), uc_control = (\<lambda>c. c = [CHR 0x0A])\<rparr>"

definition demo_index :: "int index_state" where
  "demo_index = snd (upsert demo_embedder index_default
     ((demo_record demo_note 3 ''x'')\<lparr>ir_relations := [TypedLink (NoteId 9) Contradicts]\<rparr>))"

definition demo_query :: query where
  "demo_query = \<lparr>qu_text = ''x'', qu_team = ''t'', qu_scope = All_Repos, qu_k = 1, qu_token_budget = Some 5, qu_now = 0\<rparr>"

lemma demo_index_inv: "index_inv demo_index"
  unfolding demo_index_def by (metis index_inv_default index_inv_upsert prod.collapse)

lemma demo_search:
  "search demo_floats demo_unicode demo_embedder demo_index demo_query =
     Inr \<lparr>sr_pointers = [\<lparr>pt_note_id = demo_note, pt_summary = ''x'', pt_score = 0, pt_scope = \<lparr>scope_team = ''t'', scope_repo = Global\<rparr>,
             pt_author = ''a'', pt_updated = 0, pt_lamport = 3, pt_relations = [\<lparr>pr_from = NoteId 9, pr_rel = Contradicts\<rparr>]\<rparr>],
          sr_total_matched = 1\<rparr>"
  by code_simp

lemma demo_entry_nine: "Mapping.lookup (ix_entries demo_index) (NoteId 9) = None"
  by code_simp

lemma demo_duplicate:
  "nearest_duplicate demo_floats demo_unicode demo_embedder demo_index ''x'' ''t'' Global 1 None = Inr (Some \<lparr>nd_note_id = demo_note, nd_similarity = 1\<rparr>)"
  by code_simp

section \<open>Properties\<close>



text \<open>The relations a returned pointer carries are exactly those some note in scope states about it, and for each
  contradiction it states itself the note it contradicts; so that note, which may be out of scope or gone, is named
  on the pointer although it asserts nothing.\<close>

theorem search_relations_exact:
  assumes "index_inv st" and "search F U em st q = Inr res" and "p \<in> set (sr_pointers res)"
  shows "pr \<in> set (pt_relations p) \<longleftrightarrow>
    (\<exists>e. Mapping.lookup (ix_entries st) (pr_from pr) = Some e \<and> query_in_scope (ir_scope (en_record e)) (qu_team q) (qu_scope q) \<and>
       TypedLink (pt_note_id p) (pr_rel pr) \<in> set (ir_relations (en_record e))) \<or>
    (pr_rel pr = Contradicts \<and> (\<exists>e. Mapping.lookup (ix_entries st) (pt_note_id p) = Some e \<and>
       TypedLink (pr_from pr) Contradicts \<in> set (ir_relations (en_record e))))" (is "_ \<longleftrightarrow> ?rhs")
proof -
  obtain vs where "em_embed_queries em [qu_text q] = Inr vs" and
    res: "sr_pointers res = apply_token_budget (take (qu_k q) (full_ranking F U em st q (first_or_default vs))) (qu_token_budget q)"
    using assms(2) by (auto simp: search_pointers [OF assms(1)] r_bind_Inr_iff Let_def)
  define v where "v = first_or_default vs"
  have "set (sr_pointers res) \<subseteq> set (full_ranking F U em st q v)"
    unfolding res v_def apply_token_budget_def
    by (auto split: option.splits dest: in_set_takeD) (metis budget_loop_prefix in_set_takeD)
  with assms(3) have p: "p \<in> set (full_ranking F U em st q v)" by blast
  note ptr = full_ranking_pointer [OF assms(1) p]
  let ?cands = "candidates_of F U st q v"
  have ids: "set (Mapping.ordered_keys (by_note F U st q v)) = ca_note_id ` set ?cands"
    using collect_map_None [of ca_note_id id ?cands] by (auto simp: in_ordered_keys by_note_def)
  have "pr \<in> set (pt_relations p) \<longleftrightarrow> (\<exists>c\<in>set ?cands. pr \<in> stated (ca_note_id c) (ca_relations c) (pt_note_id p))"
    using ptr by (auto simp: incoming_relations ids candidate_lookup [OF assms(1)])
  also have "\<dots> \<longleftrightarrow> ?rhs"
  proof
    assume "\<exists>c\<in>set ?cands. pr \<in> stated (ca_note_id c) (ca_relations c) (pt_note_id p)"
    then obtain c where c: "c \<in> set ?cands" "pr \<in> stated (ca_note_id c) (ca_relations c) (pt_note_id p)" by blast
    obtain e where "Mapping.lookup (ix_entries st) (ca_note_id c) = Some e" "query_in_scope (ir_scope (en_record e)) (qu_team q) (qu_scope q)"
      "ca_relations c = ir_relations (en_record e)"
      using candidate_entry [OF assms(1) c(1)] .
    with c(2) show ?rhs by (auto simp: stated_def)
  next
    assume ?rhs
    then show "\<exists>c\<in>set ?cands. pr \<in> stated (ca_note_id c) (ca_relations c) (pt_note_id p)"
    proof (elim disjE conjE exE)
      fix e assume "Mapping.lookup (ix_entries st) (pr_from pr) = Some e" "query_in_scope (ir_scope (en_record e)) (qu_team q) (qu_scope q)"
        "TypedLink (pt_note_id p) (pr_rel pr) \<in> set (ir_relations (en_record e))"
      with entry_candidate [OF assms(1) this(1,2), of F U v] show ?thesis by (force simp: stated_def)
    next
      fix e assume "pr_rel pr = Contradicts" and e: "Mapping.lookup (ix_entries st) (pt_note_id p) = Some e"
        "TypedLink (pr_from pr) Contradicts \<in> set (ir_relations (en_record e))"
      moreover from e(1) ptr have "query_in_scope (ir_scope (en_record e)) (qu_team q) (qu_scope q)" by (auto simp: shows_entry_def)
      ultimately show ?thesis using entry_candidate [OF assms(1) e(1), of q F U v] by (force simp: stated_def)
    qed
  qed
  finally show ?thesis .
qed

theorem search_relations_exact_witness:
  "\<exists>res p. search demo_floats demo_unicode demo_embedder demo_index demo_query = Inr res \<and> p \<in> set (sr_pointers res) \<and>
     \<lparr>pr_from = NoteId 9, pr_rel = Contradicts\<rparr> \<in> set (pt_relations p) \<and> Mapping.lookup (ix_entries demo_index) (NoteId 9) = None \<and>
     (\<exists>e. Mapping.lookup (ix_entries demo_index) (pt_note_id p) = Some e \<and> TypedLink (NoteId 9) Contradicts \<in> set (ir_relations (en_record e)))"
proof -
  obtain res p where run: "search demo_floats demo_unicode demo_embedder demo_index demo_query = Inr res" and p: "p \<in> set (sr_pointers res)"
    and pr: "\<lparr>pr_from = NoteId 9, pr_rel = Contradicts\<rparr> \<in> set (pt_relations p)"
    using demo_search by fastforce
  from search_relations_exact [OF demo_index_inv run p, of "\<lparr>pr_from = NoteId 9, pr_rel = Contradicts\<rparr>"] run p pr demo_entry_nine
  show ?thesis by auto
qed

lemma probe_closest:
  fixes es :: "'f entry list"
  assumes "\<And>a b c. fl_less F a b \<Longrightarrow> fl_less F b c \<Longrightarrow> fl_less F a c" and "\<And>a. \<not> fl_less F a a"
    and "\<forall>e\<in>E. \<not> fl_is_nan F (sim e) \<and> \<not> fl_less F (sim e) threshold \<longrightarrow> (\<exists>d. best = Some d \<and> \<not> fl_less F (nd_similarity d) (sim e))"
    and "\<forall>d. best = Some d \<longrightarrow> (\<exists>e\<in>E. d = \<lparr>nd_note_id = ir_note_id (en_record e), nd_similarity = sim e\<rparr> \<and> \<not> fl_is_nan F (sim e) \<and> \<not> fl_less F (sim e) threshold)"
  defines "found \<equiv> foldl (probe_step F sim threshold) best es"
  shows "(\<forall>e\<in>E \<union> set es. \<not> fl_is_nan F (sim e) \<and> \<not> fl_less F (sim e) threshold \<longrightarrow> (\<exists>d. found = Some d \<and> \<not> fl_less F (nd_similarity d) (sim e))) \<and>
    (\<forall>d. found = Some d \<longrightarrow> (\<exists>e\<in>E \<union> set es. d = \<lparr>nd_note_id = ir_note_id (en_record e), nd_similarity = sim e\<rparr> \<and> \<not> fl_is_nan F (sim e) \<and> \<not> fl_less F (sim e) threshold))"
  using assms(3,4) unfolding found_def
proof (induction es arbitrary: best E)
  case (Cons x es)
  let ?best = "probe_step F sim threshold best x"
  have 1: "\<forall>e\<in>insert x E. \<not> fl_is_nan F (sim e) \<and> \<not> fl_less F (sim e) threshold \<longrightarrow> (\<exists>d. ?best = Some d \<and> \<not> fl_less F (nd_similarity d) (sim e))"
  proof (intro ballI impI, elim conjE)
    fix e assume e: "e \<in> insert x E" "\<not> fl_is_nan F (sim e)" "\<not> fl_less F (sim e) threshold"
    show "\<exists>d. ?best = Some d \<and> \<not> fl_less F (nd_similarity d) (sim e)"
    proof (cases "e = x")
      case True
      with e assms(2) show ?thesis by (auto simp: probe_step_def Let_def split: option.split)
    next
      case False
      with e Cons.prems(1) obtain d where "best = Some d" "\<not> fl_less F (nd_similarity d) (sim e)" by blast
      then show ?thesis using assms(1) by (auto simp: probe_step_def Let_def)
    qed
  qed
  have 2: "\<forall>d. ?best = Some d \<longrightarrow> (\<exists>e\<in>insert x E. d = \<lparr>nd_note_id = ir_note_id (en_record e), nd_similarity = sim e\<rparr> \<and> \<not> fl_is_nan F (sim e) \<and> \<not> fl_less F (sim e) threshold)"
    using Cons.prems(2) by (auto simp: probe_step_def Let_def split: if_splits)
  from Cons.IH [OF 1 2] show ?case by simp
qed simp

text \<open>The duplicate probe names a closest note: it answers with an entry in scope whose similarity is a number at or
  above the threshold and exceeded by no other such entry, and with none exactly when there is none; a model that
  emits NaN never blocks a write.\<close>

theorem nearest_duplicate_closest:
  assumes "index_inv st" and "nearest_duplicate F U em st summary team repo threshold precomputed = Inr best"
    and "\<forall>a b c. fl_less F a b \<and> fl_less F b c \<longrightarrow> fl_less F a c" and "\<forall>a. \<not> fl_less F a a"
  shows "let sim = similarity_to F U em summary precomputed in
    case best of
      None \<Rightarrow> \<nexists>i s. eligible F sim st team repo threshold i s
    | Some d \<Rightarrow> eligible F sim st team repo threshold (nd_note_id d) (nd_similarity d) \<and>
        (\<forall>i s. eligible F sim st team repo threshold i s \<longrightarrow> \<not> fl_less F (nd_similarity d) s)"
proof -
  define sim where "sim = similarity_to F U em summary precomputed"
  let ?es = "filter (\<lambda>e. in_scope (ir_scope (en_record e)) team repo) (btree_values (ix_entries st))"
  have "similarity_to F U em summary precomputed = (\<lambda>e. similarity_to F U em summary precomputed e)" by simp
  then have best: "best = foldl (probe_step F sim threshold) None ?es"
    using assms(2) unfolding sim_def similarity_to_def
    by (auto simp: nearest_duplicate_def Let_def r_bind_Inr_iff split: option.splits if_splits)
  have es: "set ?es = {e. in_scope (ir_scope (en_record e)) team repo \<and> Mapping.lookup (ix_entries st) (ir_note_id (en_record e)) = Some e}"
    using assms(1) set_btree_values [of "ix_entries st"] unfolding index_inv_def by auto
  have P: "(\<forall>e\<in>set ?es. \<not> fl_is_nan F (sim e) \<and> \<not> fl_less F (sim e) threshold \<longrightarrow> (\<exists>d. best = Some d \<and> \<not> fl_less F (nd_similarity d) (sim e))) \<and>
    (\<forall>d. best = Some d \<longrightarrow> (\<exists>e\<in>set ?es. d = \<lparr>nd_note_id = ir_note_id (en_record e), nd_similarity = sim e\<rparr> \<and> \<not> fl_is_nan F (sim e) \<and> \<not> fl_less F (sim e) threshold))"
    using probe_closest [of F "{}" sim threshold None ?es] assms(3,4) unfolding best by blast
  have id: "Mapping.lookup (ix_entries st) i = Some e \<Longrightarrow> ir_note_id (en_record e) = i" for i e using assms(1) by (simp add: index_inv_def)
  have in_es: "eligible F sim st team repo threshold i s \<longleftrightarrow>
      (\<exists>e\<in>set ?es. ir_note_id (en_record e) = i \<and> s = sim e \<and> \<not> fl_is_nan F s \<and> \<not> fl_less F s threshold)" for i s
    unfolding eligible_def es using id by auto
  show ?thesis unfolding Let_def sim_def [symmetric]
  proof (cases best)
    case None
    with P show "case best of None \<Rightarrow> \<nexists>i s. eligible F sim st team repo threshold i s
      | Some d \<Rightarrow> eligible F sim st team repo threshold (nd_note_id d) (nd_similarity d) \<and>
          (\<forall>i s. eligible F sim st team repo threshold i s \<longrightarrow> \<not> fl_less F (nd_similarity d) s)"
      unfolding in_es by force
  next
    case (Some d)
    with P show "case best of None \<Rightarrow> \<nexists>i s. eligible F sim st team repo threshold i s
      | Some d \<Rightarrow> eligible F sim st team repo threshold (nd_note_id d) (nd_similarity d) \<and>
          (\<forall>i s. eligible F sim st team repo threshold i s \<longrightarrow> \<not> fl_less F (nd_similarity d) s)"
      unfolding in_es by force
  qed
qed

theorem nearest_duplicate_closest_witness:
  "eligible demo_floats (similarity_to demo_floats demo_unicode demo_embedder ''x'' None) demo_index ''t'' Global 1 demo_note 1"
  using nearest_duplicate_closest [OF demo_index_inv demo_duplicate] by (simp add: demo_floats_def Let_def)

end
