(* ===== verification/Notes.thy ===== *)
theory Notes
  imports Search
begin

text \<open>
  A note and its sealed form: the record of \<^verbatim>\<open>domain.rs\<close>, the framing of \<^verbatim>\<open>crypto.rs\<close> around the AEAD cipher (a
  parameter), and the checks of \<^verbatim>\<open>store/mod.rs\<close> on what is written and what is read back.
\<close>

section \<open>Definitions\<close>

record memory_note =
  nt_id :: note_id
  nt_scope :: scope
  nt_note_type :: note_type
  nt_author :: ss58
  nt_created :: timestamp
  nt_updated :: timestamp
  nt_tags :: "string fset"
  nt_links :: "note_id fset"
  nt_summary :: string
  nt_body :: string

subsection \<open>Sealing\<close>

text \<open>XChaCha20-Poly1305: key, nonce, message and additional data; \<open>None\<close> when it refuses.\<close>

record aead =
  ae_encrypt :: "bytes \<Rightarrow> bytes \<Rightarrow> bytes \<Rightarrow> bytes \<Rightarrow> bytes option"
  ae_decrypt :: "bytes \<Rightarrow> bytes \<Rightarrow> bytes \<Rightarrow> bytes \<Rightarrow> bytes option"

definition NONCE_LEN :: nat where "NONCE_LEN = 24"

definition seal :: "aead \<Rightarrow> bytes \<Rightarrow> bytes \<Rightarrow> bytes \<Rightarrow> bytes \<Rightarrow> mem_error + bytes" where
  "seal A nonce key plaintext aad =
     (case ae_encrypt A key nonce plaintext aad of None \<Rightarrow> Inl Crypto | Some ct \<Rightarrow> Inr (nonce @ ct))"

definition open_blob :: "aead \<Rightarrow> bytes \<Rightarrow> bytes \<Rightarrow> bytes \<Rightarrow> mem_error + bytes" where
  "open_blob A key blob aad =
     (if length blob < NONCE_LEN then Inl Crypto
      else case ae_decrypt A key (take NONCE_LEN blob) (drop NONCE_LEN blob) aad of
             None \<Rightarrow> Inl Crypto | Some plaintext \<Rightarrow> Inr plaintext)"

definition content_hash :: "prims \<Rightarrow> bytes \<Rightarrow> blake3_hash" where
  "content_hash P bs = blake3 P bs"

text \<open>Rust's \<^verbatim>\<open>std::str::from_utf8\<close>: the well-formed sequences of the Unicode standard.\<close>

definition tail_byte :: "byte \<Rightarrow> bool" where "tail_byte b \<longleftrightarrow> 0x80 \<le> b \<and> b \<le> 0xBF"

definition second_byte :: "byte \<Rightarrow> byte \<Rightarrow> bool" where
  "second_byte a b \<longleftrightarrow>
     tail_byte b \<and> (a = 0xE0 \<longrightarrow> 0xA0 \<le> b) \<and> (a = 0xED \<longrightarrow> b \<le> 0x9F) \<and> (a = 0xF0 \<longrightarrow> 0x90 \<le> b) \<and> (a = 0xF4 \<longrightarrow> b \<le> 0x8F)"

fun utf8_ok :: "bytes \<Rightarrow> bool" where
  "utf8_ok [] = True"
| "utf8_ok (a # bs) =
     (if a < 0x80 then utf8_ok bs
      else if a < 0xC2 \<or> a > 0xF4 then False
      else if a \<le> 0xDF then (case bs of b # r \<Rightarrow> tail_byte b \<and> utf8_ok r | _ \<Rightarrow> False)
      else if a \<le> 0xEF then (case bs of b # c # r \<Rightarrow> second_byte a b \<and> tail_byte c \<and> utf8_ok r | _ \<Rightarrow> False)
      else (case bs of b # c # d # r \<Rightarrow> second_byte a b \<and> tail_byte c \<and> tail_byte d \<and> utf8_ok r | _ \<Rightarrow> False))"

definition from_utf8 :: "bytes \<Rightarrow> string option" where
  "from_utf8 bs = (if utf8_ok bs then Some (map (\<lambda>b. char_of (unat b)) bs) else None)"

subsection \<open>Checks\<close>

definition MAX_SUMMARY_CHARS :: nat where "MAX_SUMMARY_CHARS = 512"
definition MAX_BODY_CHARS :: nat where "MAX_BODY_CHARS = 128 * 1024"
definition MAX_TAGS :: nat where "MAX_TAGS = 64"
definition MAX_TAG_CHARS :: nat where "MAX_TAG_CHARS = 128"

definition validate_summary :: "unicode \<Rightarrow> string \<Rightarrow> mem_error + unit" where
  "validate_summary U summary =
     (if list_all (uc_whitespace U) (chars_of summary) then Inl (Malformed ''summary is blank'')
      else if list_ex (uc_control U) (chars_of summary) then Inl (Malformed ''summary contains a control character'')
      else if length (chars_of summary) > MAX_SUMMARY_CHARS then Inl (Malformed ''summary is too long'')
      else Inr ())"

definition validate_body :: "string \<Rightarrow> mem_error + unit" where
  "validate_body body =
     (if length (chars_of body) > MAX_BODY_CHARS then Inl (Malformed ''body is too long'') else Inr ())"

definition validate_tags :: "string fset \<Rightarrow> mem_error + unit" where
  "validate_tags tags =
     (if fcard tags > MAX_TAGS then Inl (Malformed ''note has too many tags'')
      else if fBex tags (\<lambda>t. length (chars_of t) > MAX_TAG_CHARS) then Inl (Malformed ''a tag is too long'')
      else Inr ())"

definition truncate_chars :: "string \<Rightarrow> nat \<Rightarrow> string" where
  "truncate_chars s n = (if length (chars_of s) \<le> n then s else concat (take n (chars_of s)))"

definition bound_index_fields :: "string \<Rightarrow> string fset \<Rightarrow> string \<times> string fset" where
  "bound_index_fields summary tags =
     (truncate_chars summary MAX_SUMMARY_CHARS,
      fset_of_list (map (\<lambda>t. truncate_chars t MAX_TAG_CHARS) (take MAX_TAGS (sorted_list_of_fset tags))))"

definition note_matches_object :: "memory_note \<Rightarrow> note_id \<Rightarrow> string \<Rightarrow> string \<Rightarrow> bool" where
  "note_matches_object n expected_id expected_team key =
     (if nt_id n \<noteq> expected_id \<or> scope_team (nt_scope n) \<noteq> expected_team then False
      else case parse_object_key key of
             Inr (sc, parsed_id, _) \<Rightarrow> sc = nt_scope n \<and> parsed_id = expected_id
           | Inl _ \<Rightarrow> False)"

section \<open>Lemmas\<close>

text \<open>What is assumed of the cipher where a theorem needs it: it opens what it sealed.\<close>

definition aead_law :: "aead \<Rightarrow> bool" where
  "aead_law A \<longleftrightarrow> (\<forall>key nonce m aad ct. ae_encrypt A key nonce m aad = Some ct \<longrightarrow> ae_decrypt A key nonce ct aad = Some m)"

lemma open_sealed: "aead_law A \<Longrightarrow> length nonce = NONCE_LEN \<Longrightarrow> seal A nonce key m aad = Inr blob \<Longrightarrow> open_blob A key blob aad = Inr m"
  by (auto simp: seal_def open_blob_def aead_law_def split: option.splits)

lemma chars_of_nonempty: "s \<noteq> [] \<Longrightarrow> chars_of s \<noteq> []"
  by (induction s rule: chars_of.induct) auto

lemma concat_chars_of [simp]: "concat (chars_of s) = s"
proof (induction s rule: chars_of.induct)
  case (3 c d s)
  obtain w ws where "chars_of (d # s) = w # ws" using chars_of_nonempty [of "d # s"] by (cases "chars_of (d # s)") auto
  with 3 show ?case by simp
qed simp_all

text \<open>Cutting leading characters off leaves well-formed text: the characters of the cut are the first characters.\<close>

lemma hd_chars_of: "s \<noteq> [] \<Longrightarrow> hd (chars_of s) \<noteq> [] \<and> hd (hd (chars_of s)) = hd s"
  by (induction s rule: chars_of.induct) auto

lemma chars_of_Cons:
  "chars_of (c # s) = (case chars_of s of [] \<Rightarrow> [[c]] | w # ws \<Rightarrow> if is_continuation (hd w) then (c # w) # ws else [c] # w # ws)"
proof (cases s)
  case (Cons d s')
  then have "chars_of s \<noteq> []" by (simp add: chars_of_nonempty)
  then obtain w ws where w: "chars_of s = w # ws" by (cases "chars_of s") auto
  with hd_chars_of [of s] Cons have "hd w = d" by simp
  with w Cons show ?thesis by simp
qed simp

lemma chars_of_take: "chars_of (concat (take n (chars_of s))) = take n (chars_of s)"
proof (induction s arbitrary: n)
  case (Cons c s)
  note IH = Cons.IH
  show ?case
  proof (cases n)
    case (Suc m)
    show ?thesis
    proof (cases "chars_of s")
      case Nil
      then show ?thesis using Suc by (simp add: chars_of_Cons [of c s]) 
    next
      case (Cons w ws)
      have w: "w \<noteq> []" using hd_chars_of [of s] Cons by (cases s) auto
      show ?thesis
      proof (cases "is_continuation (hd w)")
        case True
        from IH [of "Suc m"] Cons have "chars_of (w @ concat (take m ws)) = w # take m ws" by simp
        with True Suc Cons show ?thesis by (simp add: chars_of_Cons)
      next
        case False
        from IH [of m] Cons have IH: "chars_of (concat (take m (w # ws))) = take m (w # ws)" by simp
        with False Suc Cons show ?thesis
          by (cases m) (simp_all add: chars_of_Cons)
      qed
    qed
  qed simp
qed simp

lemma truncate_chars_bound: "length (chars_of (truncate_chars s n)) \<le> n"
  by (simp add: truncate_chars_def chars_of_take)

end
