(* ===== verification/Store.thy ===== *)
theory Store
  imports Notes Anchoring Oplog_Read
begin

text \<open>
  The operations of the memory store (\<^verbatim>\<open>store/mod.rs\<close>): remember, edit, recall, get, forget, redact, relate, the
  reinforcement they trigger, and the sweep of orphaned blobs. Each works on one process's state: its clock, marks,
  bucket and disk (\<open>write_state\<close>), its index, its anchor scheduler, its recall tracker and its keys. The awaits of one
  operation run in program order; a commit of a full anchor batch may not return, so an outcome is an option.
\<close>

section \<open>Definitions\<close>

subsection \<open>Configuration, environment and state\<close>

record 'f store_config =
  sc_writer :: writer_config
  sc_anchor :: anchor_config
  sc_author :: ss58
  sc_aead :: aead
  sc_enc_note :: "memory_note \<Rightarrow> string"
  sc_dec_note :: "string \<Rightarrow> memory_note option"
  sc_unicode :: unicode
  sc_floats :: "'f floats"
  sc_embedder :: "'f embedder"

text \<open>What one operation meets: fresh ids and a nonce, the two clocks in milliseconds, the answers of the bucket to its
  reads, and what becomes of its writes.\<close>

record op_env =
  oe_note_ulid :: ulid
  oe_ulid :: ulid
  oe_nonce :: bytes
  oe_now :: timestamp
  oe_instant :: nat
  oe_get :: "string \<Rightarrow> mem_error + bytes"
  oe_list :: "string \<Rightarrow> mem_error + string list"
  oe_put :: fate
  oe_cleanup :: fate
  oe_delete :: "string \<Rightarrow> fate"
  oe_write :: write_env
  oe_commit :: commit_env

record reinforce_tracker =
  rt_recalled :: "(note_id, nat) mapping"
  rt_reinforced :: "(note_id, nat) mapping"

record 'f store_state =
  st_write :: write_state
  st_index :: "'f index_state"
  st_anchor :: anchor_state
  st_tracker :: reinforce_tracker
  st_keys :: "(u64, bytes) mapping"
  st_epoch :: u64

type_synonym ('f, 'a) outcome = "((mem_error + 'a) \<times> 'f store_state) option"

record remember_input =
  ri_note_type :: note_type
  ri_repo :: repo_scope
  ri_tags :: "string fset"
  ri_summary :: string
  ri_body :: string
  ri_force :: bool

record recall_input =
  re_text :: string
  re_repo :: repo_scope
  re_k :: nat
  re_token_budget :: "nat option"

definition DEDUP_THRESHOLD :: "'f floats \<Rightarrow> 'f" where "DEDUP_THRESHOLD F = fl_lit F 9 10"
definition RECALL_USE_WINDOW :: nat where "RECALL_USE_WINDOW = 5 * 60 * 1000"
definition REINFORCE_RATE_LIMIT :: nat where "REINFORCE_RATE_LIMIT = 60 * 60 * 1000"

abbreviation bucket_of :: "'f store_state \<Rightarrow> memory_blob_store" where
  "bucket_of s \<equiv> ws_bucket (st_write s)"

definition set_bucket :: "memory_blob_store \<Rightarrow> 'f store_state \<Rightarrow> 'f store_state" where
  "set_bucket b s = s\<lparr>st_write := (st_write s)\<lparr>ws_bucket := b\<rparr>\<rparr>"

subsection \<open>The key ring\<close>

definition add_epoch_key :: "u64 \<Rightarrow> bytes \<Rightarrow> 'f store_state \<Rightarrow> 'f store_state" where
  "add_epoch_key epoch key s = s\<lparr>st_keys := Mapping.update epoch key (st_keys s)\<rparr>"

definition set_current_epoch :: "u64 \<Rightarrow> 'f store_state \<Rightarrow> 'f store_state" where
  "set_current_epoch epoch s = s\<lparr>st_epoch := epoch\<rparr>"

definition highest_epoch :: "'f store_state \<Rightarrow> u64 option" where
  "highest_epoch s = (case rev (Mapping.ordered_keys (st_keys s)) of [] \<Rightarrow> None | e # _ \<Rightarrow> Some e)"

definition key_for_epoch :: "'f store_state \<Rightarrow> u64 \<Rightarrow> mem_error + bytes" where
  "key_for_epoch s epoch = (case Mapping.lookup (st_keys s) epoch of Some k \<Rightarrow> Inr k | None \<Rightarrow> Inl (KeyUnavailable epoch))"

subsection \<open>Anchoring a leaf\<close>

text \<open>\<^verbatim>\<open>schedule_anchor\<close> with the commit of a full batch; its error is only logged.\<close>

definition anchor_leaf :: "'f store_config \<Rightarrow> op_env \<Rightarrow> op \<Rightarrow> 'f store_state \<Rightarrow> 'f store_state option" where
  "anchor_leaf c env x s =
     (let (batch, an) = schedule_anchor (ac_threshold (sc_anchor c)) (op_hash (wc_prims (sc_writer c)) x) (op_lamport x) (st_anchor s) in
      case batch of
        None \<Rightarrow> Some (s\<lparr>st_anchor := an\<rparr>)
      | Some leaves \<Rightarrow>
          map_option (\<lambda>(_, an1, b). set_bucket b (s\<lparr>st_anchor := an1\<rparr>))
            (commit_batch (sc_anchor c) (oe_commit env) leaves an (bucket_of s)))"

definition not_found :: "note_id \<Rightarrow> mem_error" where
  "not_found i = NotFound (note_id_to_string i)"

text \<open>Mints an op on a note where the index has it.\<close>

definition target_of :: "note_id \<Rightarrow> located \<Rightarrow> op_target" where
  "target_of i l = \<lparr>tg_note_id = i, tg_object_key = lc_object_key l, tg_cid = lc_cid l, tg_key_epoch = lc_key_epoch l\<rparr>"

definition mint_on :: "'f store_config \<Rightarrow> op_env \<Rightarrow> op_kind \<Rightarrow> op_target \<Rightarrow> 'f store_state \<Rightarrow> (mem_error + op) \<times> 'f store_state" where
  "mint_on c env kind target s =
     (let (r, w) = mint_and_append (sc_writer c) (oe_write env) (oe_ulid env) kind target (st_write s) in (r, s\<lparr>st_write := w\<rparr>))"

subsection \<open>remember\<close>

definition index_record_of :: "memory_note \<Rightarrow> string \<Rightarrow> blake3_hash \<Rightarrow> u64 \<Rightarrow> u64 \<Rightarrow> 'f list option \<Rightarrow> 'f index_record" where
  "index_record_of n key cid lamport epoch embedding =
     \<lparr>ir_note_id = nt_id n, ir_object_key = key, ir_cid = cid, ir_scope = nt_scope n, ir_note_type = nt_note_type n,
      ir_author = nt_author n, ir_updated = nt_updated n, ir_lamport = lamport, ir_key_epoch = epoch, ir_tags = nt_tags n,
      ir_summary = nt_summary n, ir_relations = [], ir_reinforcers = {||}, ir_last_reinforced = None, ir_embedding = embedding\<rparr>"

definition sealed_note :: "'f store_config \<Rightarrow> op_env \<Rightarrow> 'f store_state \<Rightarrow> memory_note \<Rightarrow> mem_error + (string \<times> bytes)" where
  "sealed_note c env s n =
     r_bind (key_for_epoch s (st_epoch s)) (\<lambda>seal_key.
     r_bind (object_key (nt_scope n) (nt_id n) (oe_ulid env)) (\<lambda>key.
     r_bind (seal (sc_aead c) (oe_nonce env) seal_key (as_bytes (sc_enc_note c n)) (as_bytes key)) (\<lambda>ciphertext.
       Inr (key, ciphertext))))"

definition remember_checks :: "'f store_config \<Rightarrow> remember_input \<Rightarrow> 'f list option \<Rightarrow> 'f store_state \<Rightarrow> mem_error + unit" where
  "remember_checks c input precomputed s =
     r_bind (validate_summary (sc_unicode c) (ri_summary input)) (\<lambda>_.
     r_bind (validate_body (ri_body input)) (\<lambda>_.
     r_bind (validate_tags (ri_tags input)) (\<lambda>_.
       if ri_force input then Inr ()
       else r_bind (nearest_duplicate (sc_floats c) (sc_unicode c) (sc_embedder c) (st_index s) (ri_summary input)
                      (wc_team (sc_writer c)) (ri_repo input) (DEDUP_THRESHOLD (sc_floats c)) precomputed)
              (\<lambda>dup. case dup of None \<Rightarrow> Inr () | Some d \<Rightarrow> Inl (NearDuplicate (as_ulid (nd_note_id d)))))))"

definition new_note :: "'f store_config \<Rightarrow> op_env \<Rightarrow> remember_input \<Rightarrow> memory_note" where
  "new_note c env input =
     \<lparr>nt_id = NoteId (oe_note_ulid env), nt_scope = \<lparr>scope_team = wc_team (sc_writer c), scope_repo = ri_repo input\<rparr>,
      nt_note_type = ri_note_type input, nt_author = sc_author c, nt_created = oe_now env, nt_updated = oe_now env,
      nt_tags = ri_tags input, nt_links = {||}, nt_summary = ri_summary input, nt_body = ri_body input\<rparr>"

definition remember_impl :: "'f store_config \<Rightarrow> op_env \<Rightarrow> remember_input \<Rightarrow> 'f list option \<Rightarrow> 'f store_state \<Rightarrow> ('f, note_id) outcome" where
  "remember_impl c env input precomputed s =
     (let n = new_note c env input in
      case r_bind (remember_checks c input precomputed s) (\<lambda>_. sealed_note c env s n) of
        Inl e \<Rightarrow> Some (Inl e, s)
      | Inr (key, ciphertext) \<Rightarrow>
          let cid = content_hash (wc_prims (sc_writer c)) ciphertext;
              (put, b) = faulty_put (oe_put env) (bucket_of s) key ciphertext;
              s1 = set_bucket b s
          in case put of
               Inl e \<Rightarrow> Some (Inl e, s1)
             | Inr _ \<Rightarrow>
                 (let (r, w) = append_naming_blob (sc_writer c) (oe_write env) (oe_cleanup env) (oe_ulid env) Remember
                                 \<lparr>tg_note_id = nt_id n, tg_object_key = key, tg_cid = cid, tg_key_epoch = st_epoch s\<rparr> (st_write s1);
                      s2 = s1\<lparr>st_write := w\<rparr>
                  in case r of
                       Inl e \<Rightarrow> Some (Inl e, s2)
                     | Inr x \<Rightarrow>
                         let (up, ix) = upsert (sc_embedder c) (st_index s2)
                                          (index_record_of n key cid (op_lamport x) (st_epoch s) precomputed)
                         in case up of
                              Inl e \<Rightarrow> Some (Inl e, s2\<lparr>st_index := ix\<rparr>)
                            | Inr _ \<Rightarrow> map_option (\<lambda>s3. (Inr (nt_id n), s3)) (anchor_leaf c env x (s2\<lparr>st_index := ix\<rparr>))))"

subsection \<open>recall\<close>

definition prune_expired :: "(note_id, nat) mapping \<Rightarrow> nat \<Rightarrow> nat \<Rightarrow> (note_id, nat) mapping" where
  "prune_expired m now window = Mapping.filter (\<lambda>_ at. now - at < window) m"

definition recall :: "'f::linorder store_config \<Rightarrow> op_env \<Rightarrow> recall_input \<Rightarrow> 'f store_state \<Rightarrow> (mem_error + 'f search_result) \<times> 'f store_state" where
  "recall c env input s =
     (case search (sc_floats c) (sc_unicode c) (sc_embedder c) (st_index s)
             \<lparr>qu_text = re_text input, qu_team = wc_team (sc_writer c), qu_scope = Repo_Scope (re_repo input), qu_k = re_k input,
              qu_token_budget = re_token_budget input, qu_now = oe_now env\<rparr> of
        Inl e \<Rightarrow> (Inl e, s)
      | Inr result \<Rightarrow>
          let tr = st_tracker s;
              pruned = prune_expired (rt_recalled tr) (oe_instant env) RECALL_USE_WINDOW;
              marked = foldl (\<lambda>m p. Mapping.update (pt_note_id p) (oe_instant env) m) pruned (sr_pointers result)
          in (Inr result, s\<lparr>st_tracker := tr\<lparr>rt_recalled := marked\<rparr>\<rparr>))"

definition recall_all_repos :: "'f::linorder store_config \<Rightarrow> op_env \<Rightarrow> string \<Rightarrow> nat \<Rightarrow> 'f store_state \<Rightarrow> mem_error + 'f search_result" where
  "recall_all_repos c env txt k s =
     search (sc_floats c) (sc_unicode c) (sc_embedder c) (st_index s)
       \<lparr>qu_text = txt, qu_team = wc_team (sc_writer c), qu_scope = All_Repos, qu_k = k, qu_token_budget = None, qu_now = oe_now env\<rparr>"

definition list_records :: "'f store_state \<Rightarrow> 'f index_record list" where
  "list_records s = map (\<lambda>r. r\<lparr>ir_embedding := None\<rparr>) (all_records (st_index s))"

subsection \<open>get and the reinforcement it triggers\<close>

definition reinforce_qualifies :: "note_id \<Rightarrow> nat \<Rightarrow> reinforce_tracker \<Rightarrow> bool \<times> reinforce_tracker" where
  "reinforce_qualifies i now tr =
     (let tr1 = tr\<lparr>rt_recalled := prune_expired (rt_recalled tr) now RECALL_USE_WINDOW,
                   rt_reinforced := prune_expired (rt_reinforced tr) now REINFORCE_RATE_LIMIT\<rparr>
      in if Mapping.lookup (rt_recalled tr1) i = None then (False, tr1)
         else if Mapping.lookup (rt_reinforced tr1) i \<noteq> None then (False, tr1)
         else (True, tr1\<lparr>rt_reinforced := Mapping.update i now (rt_reinforced tr1)\<rparr>))"

definition append_on_located :: "'f store_config \<Rightarrow> op_env \<Rightarrow> op_kind \<Rightarrow> note_id \<Rightarrow> (op \<Rightarrow> 'f index_state \<Rightarrow> 'f index_state) \<Rightarrow> 'f store_state \<Rightarrow> ('f, unit) outcome" where
  "append_on_located c env kind i reindex s =
     (case locate (st_index s) i of
        None \<Rightarrow> Some (Inl (not_found i), s)
      | Some l \<Rightarrow>
          (case mint_on c env kind (target_of i l) s of
             (Inl e, s1) \<Rightarrow> Some (Inl e, s1)
           | (Inr x, s1) \<Rightarrow> map_option (\<lambda>s2. (Inr (), s2)) (anchor_leaf c env x (s1\<lparr>st_index := reindex x (st_index s1)\<rparr>))))"

definition append_reinforce :: "'f store_config \<Rightarrow> op_env \<Rightarrow> note_id \<Rightarrow> 'f store_state \<Rightarrow> ('f, unit) outcome" where
  "append_reinforce c env i s = append_on_located c env Reinforce i (\<lambda>_ ix. ix) s"

definition maybe_reinforce :: "'f store_config \<Rightarrow> op_env \<Rightarrow> note_id \<Rightarrow> 'f store_state \<Rightarrow> 'f store_state option" where
  "maybe_reinforce c env i s =
     (let (qualifies, tr) = reinforce_qualifies i (oe_instant env) (st_tracker s);
          s1 = s\<lparr>st_tracker := tr\<rparr>
      in if \<not> qualifies then Some s1
         else map_option (\<lambda>(r, s2).
                case r of
                  Inr _ \<Rightarrow> s2
                | Inl _ \<Rightarrow> s2\<lparr>st_tracker := (st_tracker s2)\<lparr>rt_reinforced := Mapping.delete i (rt_reinforced (st_tracker s2))\<rparr>\<rparr>)
              (append_reinforce c env i s1))"

definition read_note :: "'f store_config \<Rightarrow> op_env \<Rightarrow> note_id \<Rightarrow> 'f store_state \<Rightarrow> mem_error + memory_note" where
  "read_note c env i s =
     (case locate (st_index s) i of
        None \<Rightarrow> Inl (not_found i)
      | Some l \<Rightarrow>
          r_bind (key_for_epoch s (lc_key_epoch l)) (\<lambda>key.
          r_bind (oe_get env (lc_object_key l)) (\<lambda>ciphertext.
            if content_hash (wc_prims (sc_writer c)) ciphertext \<noteq> lc_cid l
            then Inl (Storage ''ciphertext hash does not match the indexed content hash'')
            else
              r_bind (open_blob (sc_aead c) key ciphertext (as_bytes (lc_object_key l))) (\<lambda>plaintext.
                case from_utf8 plaintext of
                  None \<Rightarrow> Inl Crypto
                | Some json \<Rightarrow>
                    (case sc_dec_note c json of
                       None \<Rightarrow> Inl Serialize
                     | Some n \<Rightarrow>
                         if note_matches_object n i (wc_team (sc_writer c)) (lc_object_key l) then Inr n else Inl Crypto)))))"

definition get :: "'f store_config \<Rightarrow> op_env \<Rightarrow> note_id \<Rightarrow> 'f store_state \<Rightarrow> ('f, memory_note) outcome" where
  "get c env i s =
     (case read_note c env i s of
        Inl e \<Rightarrow> Some (Inl e, s)
      | Inr n \<Rightarrow> map_option (\<lambda>s1. (Inr n, s1)) (maybe_reinforce c env i s))"

definition current_version :: "note_id \<Rightarrow> 'f store_state \<Rightarrow> mem_error + blake3_hash" where
  "current_version i s = (case locate (st_index s) i of None \<Rightarrow> Inl (not_found i) | Some l \<Rightarrow> Inr (lc_cid l))"

subsection \<open>edit\<close>

definition reclaim_orphan_blob :: "op_env \<Rightarrow> string \<Rightarrow> 'f store_state \<Rightarrow> 'f store_state" where
  "reclaim_orphan_blob env key s = set_bucket (snd (faulty_delete (oe_cleanup env) (bucket_of s) key)) s"

definition commit_edit ::
    "'f store_config \<Rightarrow> op_env \<Rightarrow> op_target \<Rightarrow> 'f index_record \<Rightarrow> blake3_hash option \<Rightarrow> 'f store_state \<Rightarrow> (mem_error + op) \<times> 'f store_state" where
  "commit_edit c env target r precondition s =
     (if is_redacted (st_index s) (tg_note_id target)
      then (Inl (not_found (tg_note_id target)), reclaim_orphan_blob env (tg_object_key target) s)
      else
        case (case precondition of
                None \<Rightarrow> None
              | Some expected \<Rightarrow>
                  (case locate (st_index s) (tg_note_id target) of
                     None \<Rightarrow> Some (Inl (not_found (tg_note_id target)), s)
                   | Some l \<Rightarrow>
                       if lc_cid l \<noteq> expected
                       then Some (Inl (Conflict (hex_encode expected) (hex_encode (lc_cid l))), reclaim_orphan_blob env (tg_object_key target) s)
                       else None)) of
          Some refused \<Rightarrow> refused
        | None \<Rightarrow>
            (let (res, w) = append_under_serialization (sc_writer c) (oe_write env) (oe_ulid env) Edit target (st_write s);
                 s1 = s\<lparr>st_write := w\<rparr>
             in case res of
                  Inl e \<Rightarrow> (Inl e, reclaim_orphan_blob env (tg_object_key target) s1)
                | Inr x \<Rightarrow>
                    (let (up, ix) = upsert (sc_embedder c) (st_index s1) (r\<lparr>ir_lamport := op_lamport x\<rparr>)
                     in case up of Inl e \<Rightarrow> (Inl e, s1\<lparr>st_index := ix\<rparr>) | Inr _ \<Rightarrow> (Inr x, s1\<lparr>st_index := ix\<rparr>))))"

definition edited_note :: "'f store_config \<Rightarrow> op_env \<Rightarrow> memory_note \<Rightarrow> note_id \<Rightarrow> remember_input \<Rightarrow> memory_note" where
  "edited_note c env current i input =
     \<lparr>nt_id = i, nt_scope = \<lparr>scope_team = wc_team (sc_writer c), scope_repo = scope_repo (nt_scope current)\<rparr>,
      nt_note_type = ri_note_type input, nt_author = sc_author c, nt_created = nt_created current, nt_updated = oe_now env,
      nt_tags = ri_tags input, nt_links = nt_links current, nt_summary = ri_summary input, nt_body = ri_body input\<rparr>"

definition edit_checks :: "remember_input \<Rightarrow> memory_note \<Rightarrow> blake3_hash option \<Rightarrow> note_id \<Rightarrow> 'f store_state \<Rightarrow> mem_error + unit" where
  "edit_checks input current precondition i s =
     r_bind (if ri_body input \<noteq> nt_body current then validate_body (ri_body input) else Inr ()) (\<lambda>_.
     r_bind (if ri_tags input \<noteq> nt_tags current then validate_tags (ri_tags input) else Inr ()) (\<lambda>_.
       case (precondition, locate (st_index s) i) of
         (Some expected, Some l) \<Rightarrow>
           if lc_cid l \<noteq> expected then Inl (Conflict (hex_encode expected) (hex_encode (lc_cid l))) else Inr ()
       | _ \<Rightarrow> Inr ()))"

text \<open>\<open>genv\<close> is what the read of the current version meets, \<open>env\<close> what the edit itself meets.\<close>

definition edit_with_precondition ::
    "'f store_config \<Rightarrow> op_env \<Rightarrow> op_env \<Rightarrow> note_id \<Rightarrow> remember_input \<Rightarrow> blake3_hash option \<Rightarrow> 'f list option \<Rightarrow> 'f store_state \<Rightarrow> ('f, unit) outcome" where
  "edit_with_precondition c genv env i input precondition precomputed s =
     (case validate_summary (sc_unicode c) (ri_summary input) of
        Inl e \<Rightarrow> Some (Inl e, s)
      | Inr _ \<Rightarrow>
          Option.bind (get c genv i s) (\<lambda>(got, s1).
            case got of
              Inl e \<Rightarrow> Some (Inl e, s1)
            | Inr current \<Rightarrow>
                let n = edited_note c env current i input in
                case r_bind (edit_checks input current precondition i s1) (\<lambda>_. sealed_note c env s1 n) of
                  Inl e \<Rightarrow> Some (Inl e, s1)
                | Inr (key, ciphertext) \<Rightarrow>
                    let cid = content_hash (wc_prims (sc_writer c)) ciphertext;
                        (put, b) = faulty_put (oe_put env) (bucket_of s1) key ciphertext;
                        s2 = set_bucket b s1
                    in case put of
                         Inl e \<Rightarrow> Some (Inl e, s2)
                       | Inr _ \<Rightarrow>
                           (case commit_edit c env \<lparr>tg_note_id = i, tg_object_key = key, tg_cid = cid, tg_key_epoch = st_epoch s1\<rparr>
                                   (index_record_of n key cid 0 (st_epoch s1) precomputed) precondition s2 of
                              (Inl e, s3) \<Rightarrow> Some (Inl e, s3)
                            | (Inr x, s3) \<Rightarrow> map_option (\<lambda>s4. (Inr (), s4)) (anchor_leaf c env x s3))))"

subsection \<open>forget, relate, redact\<close>

definition forget :: "'f store_config \<Rightarrow> op_env \<Rightarrow> note_id \<Rightarrow> 'f store_state \<Rightarrow> ('f, unit) outcome" where
  "forget c env i s = append_on_located c env Forget i (\<lambda>x ix. remove_at ix i (op_lamport x) (op_object_key x)) s"

definition relate :: "'f store_config \<Rightarrow> op_env \<Rightarrow> note_id \<Rightarrow> note_id \<Rightarrow> link_rel \<Rightarrow> 'f store_state \<Rightarrow> ('f, unit) outcome" where
  "relate c env i to rel s = append_on_located c env (if rel = Related then Link to else Relate to rel) i (\<lambda>_ ix. ix) s"

definition link :: "'f store_config \<Rightarrow> op_env \<Rightarrow> note_id \<Rightarrow> note_id \<Rightarrow> 'f store_state \<Rightarrow> ('f, unit) outcome" where
  "link c env i to s = relate c env i to Related s"

text \<open>The first delete error and the bucket after every key was tried.\<close>

fun scrub_keys :: "(string \<Rightarrow> fate) \<Rightarrow> string list \<Rightarrow> mem_error option \<Rightarrow> memory_blob_store \<Rightarrow> mem_error option \<times> memory_blob_store" where
  "scrub_keys fates [] first_err b = (first_err, b)"
| "scrub_keys fates (k # ks) first_err b =
     (let (r, b1) = faulty_delete (fates k) b k
      in scrub_keys fates ks (case r of Inl e \<Rightarrow> (case first_err of None \<Rightarrow> Some e | Some e0 \<Rightarrow> Some e0) | Inr _ \<Rightarrow> first_err) b1)"

definition scrub_blobs :: "op_env \<Rightarrow> string \<Rightarrow> 'f store_state \<Rightarrow> (mem_error + unit) \<times> 'f store_state" where
  "scrub_blobs env note_prefix s =
     (case oe_list env note_prefix of
        Inl e \<Rightarrow> (Inl e, s)
      | Inr ks \<Rightarrow>
          let (err, b) = scrub_keys (oe_delete env) ks None (bucket_of s)
          in (case err of Some e \<Rightarrow> Inl e | None \<Rightarrow> Inr (), set_bucket b s))"

definition redacted_note_object_key :: "op list \<Rightarrow> note_id \<Rightarrow> string option" where
  "redacted_note_object_key ops i =
     map_option op_object_key (find (\<lambda>x. op_note_id x = i \<and> op_kind x = Redact) ops)"

text \<open>\<open>members\<close> is what \<^verbatim>\<open>read_and_filter\<close> answers; it is asked only when the note is not indexed and blobs of it survive.\<close>

definition redact :: "'f store_config \<Rightarrow> op_env \<Rightarrow> mem_error + op list \<Rightarrow> note_id \<Rightarrow> 'f store_state \<Rightarrow> ('f, unit) outcome" where
  "redact c env members i s =
     (case locate (st_index s) i of
        None \<Rightarrow>
          (case oe_list env (wc_team (sc_writer c) @ ''/'') of
             Inl e \<Rightarrow> Some (Inl e, s)
           | Inr ks \<Rightarrow>
               if \<not> list_ex (\<lambda>k. sublist (''/'' @ note_id_to_string i @ ''/'') k \<and> \<not> isl (parse_object_key k)) ks
               then Some (Inl (not_found i), s)
               else case members of
                      Inl e \<Rightarrow> Some (Inl e, s)
                    | Inr ops \<Rightarrow>
                        (case redacted_note_object_key ops i of
                           None \<Rightarrow> Some (Inl (not_found i), s)
                         | Some key \<Rightarrow>
                             (case note_blob_prefix key of
                                Inl e \<Rightarrow> Some (Inl e, s)
                              | Inr note_prefix \<Rightarrow> Some (scrub_blobs env note_prefix s))))
      | Some l \<Rightarrow>
          (case note_blob_prefix (lc_object_key l) of
             Inl e \<Rightarrow> Some (Inl e, s)
           | Inr note_prefix \<Rightarrow>
               (case mint_on c env Redact (target_of i l) s of
                  (Inl e, s1) \<Rightarrow> Some (Inl e, s1)
                | (Inr x, s1) \<Rightarrow>
                    (case scrub_blobs env note_prefix s1 of
                       (Inl e, s2) \<Rightarrow> Some (Inl e, s2)
                     | (Inr _, s2) \<Rightarrow>
                         map_option (\<lambda>s3. (Inr (), s3))
                           (anchor_leaf c env x (s2\<lparr>st_index := redact_at (st_index s2) i (op_lamport x) (op_object_key x)\<rparr>))))))"

subsection \<open>The orphan sweep\<close>

record orphan_sweep_report =
  os_note_blobs_scanned :: nat
  os_orphans_found :: nat
  os_orphans_reclaimed :: nat
  os_within_grace_kept :: nat

text \<open>\<^verbatim>\<open>i64::try_from\<close> of an unsigned value, \<^verbatim>\<open>i64::MAX\<close> when it does not fit.\<close>

definition i64_or_max :: "nat \<Rightarrow> int" where
  "i64_or_max n = (if n < 2 ^ 63 then int n else 2 ^ 63 - 1)"

fun sweep_keys ::
    "string set \<Rightarrow> timestamp \<Rightarrow> int \<Rightarrow> bool \<Rightarrow> (string \<Rightarrow> fate) \<Rightarrow> string list \<Rightarrow> orphan_sweep_report \<Rightarrow> memory_blob_store
      \<Rightarrow> orphan_sweep_report \<times> memory_blob_store" where
  "sweep_keys referenced now_ms grace_ms dry_run fates [] rep b = (rep, b)"
| "sweep_keys referenced now_ms grace_ms dry_run fates (k # ks) rep b =
     (case parse_object_key k of
        Inl _ \<Rightarrow> sweep_keys referenced now_ms grace_ms dry_run fates ks rep b
      | Inr (_, _, version) \<Rightarrow>
          let rep1 = rep\<lparr>os_note_blobs_scanned := os_note_blobs_scanned rep + 1\<rparr> in
          if k \<in> referenced then sweep_keys referenced now_ms grace_ms dry_run fates ks rep1 b
          else if i64_saturating_sub now_ms (i64_or_max (unat (ulid_timestamp_ms version))) < grace_ms
          then sweep_keys referenced now_ms grace_ms dry_run fates ks (rep1\<lparr>os_within_grace_kept := os_within_grace_kept rep1 + 1\<rparr>) b
          else
            let rep2 = rep1\<lparr>os_orphans_found := os_orphans_found rep1 + 1\<rparr> in
            if dry_run then sweep_keys referenced now_ms grace_ms dry_run fates ks rep2 b
            else (case faulty_delete (fates k) b k of
                    (Inr _, b1) \<Rightarrow>
                      sweep_keys referenced now_ms grace_ms dry_run fates ks (rep2\<lparr>os_orphans_reclaimed := os_orphans_reclaimed rep2 + 1\<rparr>) b1
                  | (Inl _, b1) \<Rightarrow> sweep_keys referenced now_ms grace_ms dry_run fates ks rep2 b1))"

text \<open>One of the two verified reads: the keys its ops name, refused on any quarantine.\<close>

definition referenced_keys :: "mem_error + verified_ops \<times> quarantined_author list \<Rightarrow> mem_error + string set" where
  "referenced_keys r =
     r_bind r (\<lambda>(v, quarantined).
       if quarantined \<noteq> [] then Inl (Storage ''orphan sweep refused: broken author chains'')
       else Inr (op_object_key ` set (ops_of v)))"

text \<open>\<open>v1\<close> and \<open>v2\<close> are the answers of the bucket to the two reads, \<open>grace\<close> is in milliseconds.\<close>

definition sweep_orphan_blobs ::
    "'f store_config \<Rightarrow> (bytes \<Rightarrow> op option) \<Rightarrow> blob_view \<Rightarrow> blob_view \<Rightarrow> op_env \<Rightarrow> nat \<Rightarrow> bool \<Rightarrow> op_cache \<Rightarrow> memory_blob_store
      \<Rightarrow> ((mem_error + orphan_sweep_report) \<times> op_cache \<times> memory_blob_store) option" where
  "sweep_orphan_blobs c dec v1 v2 env grace dry_run cache b =
     (let P = wc_prims (sc_writer c); team = wc_team (sc_writer c) in
      Option.bind (read_verified P dec v1 team cache) (\<lambda>(r1, cache1).
      case referenced_keys r1 of
        Inl e \<Rightarrow> Some (Inl e, cache1, b)
      | Inr ref1 \<Rightarrow>
          Option.bind (read_verified P dec v2 team cache1) (\<lambda>(r2, cache2).
          case referenced_keys r2 of
            Inl e \<Rightarrow> Some (Inl e, cache2, b)
          | Inr ref2 \<Rightarrow>
              (case oe_list env (team @ ''/'') of
                 Inl e \<Rightarrow> Some (Inl e, cache2, b)
               | Inr ks \<Rightarrow>
                   let (rep, b1) = sweep_keys (ref1 \<union> ref2) (oe_now env) (i64_or_max grace) dry_run (oe_delete env) ks
                                     \<lparr>os_note_blobs_scanned = 0, os_orphans_found = 0, os_orphans_reclaimed = 0, os_within_grace_kept = 0\<rparr> b
                   in Some (Inr rep, cache2, b1)))))"

section \<open>Lemmas\<close>

subsection \<open>Where the internal objects live\<close>

lemma last_split_on: "last (split_on d (a @ d # b)) = last (split_on d b)"
proof (induction a)
  case (Cons x a)
  obtain w ws where w: "split_on d (a @ d # b) = w # ws" "ws \<noteq> []"
  proof -
    have "length (split_on d (a @ d # b)) \<ge> 2" for a
      by (induction a) (auto simp: split_on_nonempty Suc_le_eq split: list.splits)
    from this [of a] that show thesis by (cases "split_on d (a @ d # b)"; cases "tl (split_on d (a @ d # b))") auto
  qed
  with Cons show ?case by simp
qed (simp add: split_on_nonempty)

lemma last_piece: "d \<notin> set b \<Longrightarrow> last (split_on d (a @ d # b)) = b"
  by (simp add: last_split_on split_on_last)

lemma note_key_last:
  assumes "parse_object_key k = Inr p"
  shows "\<exists>u. last (split_on (CHR ''/'') k) = CHR ''v'' # u"
proof -
  from assms obtain tm rp i v where "split_on (CHR ''/'') k = [tm, rp, i, v]" and "strip_prefix VER_PREFIX v \<noteq> None"
    by (auto simp: parse_object_key_def r_bind_Inr_iff split: list.splits option.splits)
  then show ?thesis by (cases v) (auto simp: strip_prefix_def VER_PREFIX_def split: if_splits)
qed

lemma fixed_dec_digits: "set (fixed_dec n k) \<subseteq> (\<lambda>d. char_of (48 + d)) ` {..<10 :: nat}"
  by (induction n arbitrary: k) auto

lemma digit_chars: "(\<lambda>d. char_of (48 + d)) ` {..<10 :: nat} = set ''0123456789''"
proof -
  have "{..<10 :: nat} = set [0..<10]" by auto
  moreover have "(\<lambda>d. char_of (48 + d)) ` set [0..<10 :: nat] = set ''0123456789''" by code_simp
  ultimately show ?thesis by simp
qed

lemma pad20_chars: "set (pad20 (unat (w :: u64))) \<subseteq> set ''0123456789''" "length (pad20 (unat (w :: u64))) = 20"
  using fixed_dec_digits [of 20 "unat w"] unfolding digit_chars by (simp_all add: u64_pad20)

lemma hex_chars: "set (hex_encode bs) \<subseteq> set HEX"
proof (induction bs rule: hex_encode.induct)
  case (2 b bs)
  have len: "length HEX = 16" by code_simp
  have "unat (drop_bit 4 b) < 16" "unat (b AND 0x0f) < 16"
    by (rule all_bytesI [of _ b], code_simp)+
  with 2 len show ?case by (simp add: nth_mem)
qed simp

lemma no_hex: "c \<notin> set HEX \<Longrightarrow> c \<notin> set (key_to_hex k)"
  using hex_chars [of k] by (auto simp: key_to_hex_def)

text \<open>No object of the log, the heads or the anchors has the key of a note's blob.\<close>

lemma note_key_internal:
  assumes "parse_object_key k = Inr p"
  shows "k \<noteq> oplog_object_key tm x" "k \<noteq> head_key tm key" "k \<noteq> anchor_record_key tm key w"
proof -
  from note_key_last [OF assms] obtain u where u: "last (split_on (CHR ''/'') k) = CHR ''v'' # u" ..
  have slash: "CHR ''/'' \<notin> set HEX" "CHR ''v'' \<notin> set HEX" by code_simp+
  let ?op = "pad20 (unat (op_lamport x)) @ ''_'' @ ulid_to_string (op_id x) @ ''_'' @ key_to_hex (op_author_key x)"
  have "CHR ''/'' \<notin> set ?op"
    using pad20_chars(1) [of "op_lamport x"] ulid_no_slash [of "op_id x"] no_hex [OF slash(1)] by auto
  then have "last (split_on (CHR ''/'') (oplog_object_key tm x)) = ?op"
    using last_piece [of "CHR ''/''" ?op "tm @ ''/_oplog''"] by (simp add: oplog_object_key_def)
  moreover have "hd ?op \<noteq> CHR ''v''"
    using pad20_chars [of "op_lamport x"] by (cases "pad20 (unat (op_lamport x))") auto
  ultimately show "k \<noteq> oplog_object_key tm x" using u by (metis list.sel(1))
  have "last (split_on (CHR ''/'') (head_key tm key)) = key_to_hex key"
    using last_piece [of "CHR ''/''" "key_to_hex key" "tm @ ''/_heads''"] no_hex [OF slash(1)] by (simp add: head_key_def)
  moreover have "CHR ''v'' \<notin> set (key_to_hex key)" using no_hex [OF slash(2)] .
  ultimately show "k \<noteq> head_key tm key" using u by (metis list.set_intros(1))
  have "last (split_on (CHR ''/'') (anchor_record_key tm key w)) = pad20 (unat w)"
    using last_piece [of "CHR ''/''" "pad20 (unat w)" "tm @ ''/_anchors/'' @ key_to_hex key"] pad20_chars(1) [of w]
    by (auto simp: anchor_record_key_def)
  moreover have "CHR ''v'' \<notin> set (pad20 (unat w))" using pad20_chars(1) [of w] by auto
  ultimately show "k \<noteq> anchor_record_key tm key w" using u by (metis list.set_intros(1))
qed

subsection \<open>Frames\<close>

lemma publish_head_bucket:
  "k \<noteq> head_key (wc_team c) (signer_verifying_key (wc_signer c)) \<Longrightarrow>
    Mapping.lookup (ws_bucket (publish_head_for_tip c env l h w)) k = Mapping.lookup (ws_bucket w) k"
  by (auto simp: publish_head_for_tip_def publish_head_def head_create_signed_def faulty_put_def Let_def split_beta lookup_update'
      split: sum.splits option.splits fate.splits)

lemma publish_head_clock [simp]: "ws_clock (publish_head_for_tip c env l h w) = ws_clock w"
  by (auto simp: publish_head_for_tip_def Let_def split_beta split: sum.splits option.splits)

lemma u64_succ_mono: "a \<le> b \<Longrightarrow> u64_saturating_succ a \<le> u64_saturating_succ b"
  using order_trans [OF u64_succ_le(1) [of a b] u64_saturating_succ_ge [of b]] by (cases "a = b") auto

text \<open>What an append leaves: the minted op, where it is stored, and the clock.\<close>

lemma append_result:
  assumes "append_under_serialization c env opid kind target w = (res, w')"
  obtains x where
    "op_id x = opid" "op_kind x = kind" "op_note_id x = tg_note_id target" "op_object_key x = tg_object_key target"
    "op_cid x = tg_cid target" "op_key_epoch x = tg_key_epoch target" "op_author_key x = signer_verifying_key (wc_signer c)"
    "\<And>y. res = Inr y \<longleftrightarrow> we_append env = Done \<and> y = x"
    "\<And>k. k \<noteq> oplog_object_key (wc_team c) x \<Longrightarrow> k \<noteq> head_key (wc_team c) (signer_verifying_key (wc_signer c)) \<Longrightarrow>
       Mapping.lookup (ws_bucket w') k = Mapping.lookup (ws_bucket w) k"
    "Mapping.lookup (ws_bucket w') (oplog_object_key (wc_team c) x) =
       (if we_append env = Done \<or> we_append env = ReplyLost \<and> we_reclaim env = Refused then Some (wc_enc_op c x)
        else if we_reclaim env = Refused then Mapping.lookup (ws_bucket w) (oplog_object_key (wc_team c) x) else None)"
    "res = Inr x \<Longrightarrow> ck_lamport_tip (ws_clock w') = op_lamport x"
    "u64_saturating_succ (ck_lamport_tip (ws_clock w)) \<le> op_lamport x"
proof -
  let ?cross = "lock_across_processes c env"
  let ?clock = "case ?cross of None \<Rightarrow> ws_clock w
      | Some p \<Rightarrow> adopt_shared_tip (ws_clock w) (read_shared_tip (wc_dec_tip c) (we_tip_io env) (ws_disk w) p)"
  let ?l = "u64_saturating_succ (ck_lamport_tip ?clock)"
  define x where "x = create_signed (wc_signer c)
      \<lparr>oc_op_id = opid, oc_lamport = ?l, oc_key_epoch = tg_key_epoch target, oc_kind = kind,
       oc_note_id = tg_note_id target, oc_object_key = tg_object_key target, oc_cid = tg_cid target,
       oc_prev_op_hash = ck_my_last_hash ?clock\<rparr>"
  let ?opk = "oplog_object_key (wc_team c) x" and ?hk = "head_key (wc_team c) (signer_verifying_key (wc_signer c))"
  have key: "?opk \<noteq> ?hk" by (simp add: oplog_object_key_def head_key_def)
  have sel: "op_id x = opid" "op_kind x = kind" "op_note_id x = tg_note_id target" "op_object_key x = tg_object_key target"
    "op_cid x = tg_cid target" "op_key_epoch x = tg_key_epoch target" "op_author_key x = signer_verifying_key (wc_signer c)" "op_lamport x = ?l"
    by (simp_all add: x_def create_signed_def Let_def)
  obtain r b where app: "append_op (wc_enc_op c) (faulty_put (we_append env)) (ws_bucket w) (wc_team c) x = (r, b)" by fastforce
  have tips: "ck_lamport_tip (ws_clock w) \<le> ck_lamport_tip ?clock"
    by (auto simp: adopt_shared_tip_def split: option.splits)
  then have clk: "u64_saturating_succ (ck_lamport_tip (ws_clock w)) \<le> ?l"
    by (rule u64_succ_mono)
  note run = assms [unfolded append_under_serialization_def Let_def, folded x_def, unfolded app prod.case]
  show thesis
  proof (cases "we_append env = Done")
    case True
    with app have ab: "r = Inr ()" "b = Mapping.update ?opk (wc_enc_op c x) (ws_bucket w)" by (simp_all add: append_op_def faulty_put_def)
    obtain w2 where w2: "w' = publish_head_for_tip c env ?l (op_hash (wc_prims c) x) w2" "ws_bucket w2 = b" "ck_lamport_tip (ws_clock w2) = ?l" "res = Inr x"
      using run ab(1) by (cases ?cross) (auto simp: x_def)
    show thesis
    proof (rule that [OF sel(1-7)])
      show "Mapping.lookup (ws_bucket w') k = Mapping.lookup (ws_bucket w) k" if "k \<noteq> ?opk" "k \<noteq> ?hk" for k
        using that by (simp add: w2(1,2) ab(2) publish_head_bucket lookup_update')
      show "Mapping.lookup (ws_bucket w') ?opk = (if we_append env = Done \<or> we_append env = ReplyLost \<and> we_reclaim env = Refused then Some (wc_enc_op c x)
        else if we_reclaim env = Refused then Mapping.lookup (ws_bucket w) ?opk else None)"
        using True key by (simp add: w2(1,2) ab(2) publish_head_bucket lookup_update')
    qed (use True w2 sel clk in auto)
  next
    case False
    then obtain e where ab: "r = Inl e" "b = (if we_append env = ReplyLost then Mapping.update ?opk (wc_enc_op c x) (ws_bucket w) else ws_bucket w)"
      using app by (cases "we_append env") (auto simp: append_op_def faulty_put_def)
    from run ab(1) have w': "res = Inl e" "ws_bucket w' = snd (faulty_delete (we_reclaim env) b ?opk)"
      by (auto simp: reclaim_failed_append_def)
    show thesis
    proof (rule that [OF sel(1-7)])
      show "Mapping.lookup (ws_bucket w') k = Mapping.lookup (ws_bucket w) k" if "k \<noteq> ?opk" "k \<noteq> ?hk" for k
        using that by (cases "we_reclaim env") (simp_all add: w' ab(2) faulty_delete_def lookup_update')
      show "Mapping.lookup (ws_bucket w') ?opk = (if we_append env = Done \<or> we_append env = ReplyLost \<and> we_reclaim env = Refused then Some (wc_enc_op c x)
        else if we_reclaim env = Refused then Mapping.lookup (ws_bucket w) ?opk else None)"
        using False by (cases "we_reclaim env"; cases "we_append env") (simp_all add: w' ab(2) faulty_delete_def lookup_update')
    qed (use False w' sel clk in auto)
  qed
qed

lemma commit_batch_bucket:
  assumes "commit_batch c env batch st b = Some (res, st', b')" and "\<And>s. k \<noteq> own_key c s"
  shows "Mapping.lookup b' k = Mapping.lookup b k"
proof -
  have "\<forall>s. k \<noteq> own_key c s" using assms(2) by blast
  have "Mapping.lookup b' k = Mapping.lookup b k"
    if "reserve_seq_and_persist c (ce_views env) (ce_put env) (batch_record c batch rc) st b = Some (r, st1, b')" for rc r st1
    using reserve_seq_and_persist_result [OF that] \<open>\<forall>s. k \<noteq> own_key c s\<close> by (auto simp: Let_def lookup_update')
  with assms(1) show ?thesis by (cases rule: commit_batch_cases) auto
qed

text \<open>The store's parts agree on the team and the author.\<close>

definition store_ok :: "'f store_config \<Rightarrow> bool" where
  "store_ok c \<longleftrightarrow>
     ac_team (sc_anchor c) = wc_team (sc_writer c) \<and> ac_signer (sc_anchor c) = wc_signer (sc_writer c) \<and>
     ac_prims (sc_anchor c) = wc_prims (sc_writer c) \<and> validate_component (wc_team (sc_writer c)) = Inr ()"

lemma anchor_leaf_frame:
  assumes "anchor_leaf c env x s = Some s'"
  shows "st_index s' = st_index s" "st_tracker s' = st_tracker s" "st_keys s' = st_keys s" "st_epoch s' = st_epoch s"
    "ws_clock (st_write s') = ws_clock (st_write s)"
    "(\<And>w. k \<noteq> own_key (sc_anchor c) w) \<Longrightarrow> Mapping.lookup (bucket_of s') k = Mapping.lookup (bucket_of s) k"
  using assms commit_batch_bucket [of "sc_anchor c" "oe_commit env" _ _ "bucket_of s" _ _ _ k]
  by (auto simp: anchor_leaf_def set_bucket_def Let_def split: prod.splits option.splits)

lemma anchor_leaf_note:
  "anchor_leaf c env x s = Some s' \<Longrightarrow> parse_object_key k = Inr p \<Longrightarrow> Mapping.lookup (bucket_of s') k = Mapping.lookup (bucket_of s) k"
  using anchor_leaf_frame(6) [of c env x s s' k] note_key_internal(3) by metis

lemma set_bucket_sel [simp]:
  "bucket_of (set_bucket b s) = b" "st_index (set_bucket b s) = st_index s" "st_keys (set_bucket b s) = st_keys s"
  "st_epoch (set_bucket b s) = st_epoch s" "st_tracker (set_bucket b s) = st_tracker s" "st_anchor (set_bucket b s) = st_anchor s"
  "ws_clock (st_write (set_bucket b s)) = ws_clock (st_write s)"
  by (simp_all add: set_bucket_def)

lemma sealed_note_key: "sealed_note c env s n = Inr (key, ct) \<Longrightarrow> object_key (nt_scope n) (nt_id n) (oe_ulid env) = Inr key"
  by (auto simp: sealed_note_def r_bind_Inr_iff)

subsection \<open>Writing a blob and the op that names it\<close>

text \<open>The put of a sealed note and the append of the op that names it, as remember and edit do it.\<close>

lemma naming_result:
  assumes "append_naming_blob c env cleanup opid kind target w = (res, w')" and "parse_object_key (tg_object_key target) = Inr p"
  obtains x where
    "op_kind x = kind" "op_note_id x = tg_note_id target" "op_object_key x = tg_object_key target" "op_cid x = tg_cid target"
    "\<And>y. res = Inr y \<longleftrightarrow> we_append env = Done \<and> y = x"
    "Mapping.lookup (ws_bucket w') (oplog_object_key (wc_team c) x) =
       (if we_append env = Done \<or> we_append env = ReplyLost \<and> we_reclaim env = Refused then Some (wc_enc_op c x)
        else if we_reclaim env = Refused then Mapping.lookup (ws_bucket w) (oplog_object_key (wc_team c) x) else None)"
    "Mapping.lookup (ws_bucket w') (tg_object_key target) =
       (if we_append env = Done \<or> cleanup = Refused then Mapping.lookup (ws_bucket w) (tg_object_key target) else None)"
    "\<And>k. k \<noteq> tg_object_key target \<Longrightarrow> k \<noteq> oplog_object_key (wc_team c) x \<Longrightarrow> k \<noteq> head_key (wc_team c) (signer_verifying_key (wc_signer c)) \<Longrightarrow>
       Mapping.lookup (ws_bucket w') k = Mapping.lookup (ws_bucket w) k"
    "u64_saturating_succ (ck_lamport_tip (ws_clock w)) \<le> op_lamport x"
    "res = Inr x \<Longrightarrow> ck_lamport_tip (ws_clock w') = op_lamport x"
proof -
  let ?k = "tg_object_key target"
  obtain res1 w1 where app: "append_under_serialization c env opid kind target w = (res1, w1)" by fastforce
  obtain x where x0: "op_id x = opid" and x: "op_kind x = kind" "op_note_id x = tg_note_id target" "op_object_key x = ?k" "op_cid x = tg_cid target"
    and x1: "op_key_epoch x = tg_key_epoch target" "op_author_key x = signer_verifying_key (wc_signer c)"
    and y: "\<And>y. res1 = Inr y \<longleftrightarrow> we_append env = Done \<and> y = x"
    "\<And>k. k \<noteq> oplog_object_key (wc_team c) x \<Longrightarrow> k \<noteq> head_key (wc_team c) (signer_verifying_key (wc_signer c)) \<Longrightarrow>
       Mapping.lookup (ws_bucket w1) k = Mapping.lookup (ws_bucket w) k"
    "Mapping.lookup (ws_bucket w1) (oplog_object_key (wc_team c) x) =
       (if we_append env = Done \<or> we_append env = ReplyLost \<and> we_reclaim env = Refused then Some (wc_enc_op c x)
        else if we_reclaim env = Refused then Mapping.lookup (ws_bucket w) (oplog_object_key (wc_team c) x) else None)"
    "res1 = Inr x \<Longrightarrow> ck_lamport_tip (ws_clock w1) = op_lamport x"
    "u64_saturating_succ (ck_lamport_tip (ws_clock w)) \<le> op_lamport x"
    by (rule append_result [OF app]) (rule that)
  have ne: "?k \<noteq> oplog_object_key (wc_team c) x" "?k \<noteq> head_key (wc_team c) (signer_verifying_key (wc_signer c))"
    using note_key_internal [OF assms(2)] by blast+
  have r: "res = res1" "w' = (if we_append env = Done then w1 else w1\<lparr>ws_bucket := snd (faulty_delete cleanup (ws_bucket w1) ?k)\<rparr>)"
    using assms(1) app y(1) by (auto simp: append_naming_blob_def mint_and_append_def split: sum.splits)
  have b: "Mapping.lookup (ws_bucket w') k = (if k = ?k \<and> we_append env \<noteq> Done \<and> cleanup \<noteq> Refused then None else Mapping.lookup (ws_bucket w1) k)" for k
    by (cases cleanup) (auto simp: r faulty_delete_def)
  show thesis
  proof (rule that [OF x(1-4)])
    show "Mapping.lookup (ws_bucket w') (oplog_object_key (wc_team c) x) =
       (if we_append env = Done \<or> we_append env = ReplyLost \<and> we_reclaim env = Refused then Some (wc_enc_op c x)
        else if we_reclaim env = Refused then Mapping.lookup (ws_bucket w) (oplog_object_key (wc_team c) x) else None)"
      using ne(1) by (simp add: b y(3))
    show "Mapping.lookup (ws_bucket w') ?k = (if we_append env = Done \<or> cleanup = Refused then Mapping.lookup (ws_bucket w) ?k else None)"
      using ne y(2) by (auto simp: b)
    show "Mapping.lookup (ws_bucket w') k = Mapping.lookup (ws_bucket w) k"
      if "k \<noteq> ?k" "k \<noteq> oplog_object_key (wc_team c) x" "k \<noteq> head_key (wc_team c) (signer_verifying_key (wc_signer c))" for k
      using that y(2) by (simp add: b)
    show "ck_lamport_tip (ws_clock w') = op_lamport x" if "res = Inr x" using that y(4) by (simp add: r split: if_splits)
  qed (use y r in auto)
qed

lemma naming_stored:
  assumes "append_naming_blob c env cleanup opid kind target w = (Inr x, w')" and "parse_object_key (tg_object_key target) = Inr p"
  shows "op_kind x = kind" "op_note_id x = tg_note_id target" "op_object_key x = tg_object_key target" "op_cid x = tg_cid target"
    and "stored c (ws_bucket w') x" and "Mapping.lookup (ws_bucket w') (tg_object_key target) = Mapping.lookup (ws_bucket w) (tg_object_key target)"
    and "op_lamport x = ck_lamport_tip (ws_clock w')" and "u64_saturating_succ (ck_lamport_tip (ws_clock w)) \<le> op_lamport x"
proof -
  obtain y where y: "op_kind y = kind" "op_note_id y = tg_note_id target" "op_object_key y = tg_object_key target" "op_cid y = tg_cid target"
    and res: "\<And>z. (Inr x :: mem_error + op) = Inr z \<longleftrightarrow> we_append env = Done \<and> z = y"
    and b: "Mapping.lookup (ws_bucket w') (oplog_object_key (wc_team c) y) =
       (if we_append env = Done \<or> we_append env = ReplyLost \<and> we_reclaim env = Refused then Some (wc_enc_op c y)
        else if we_reclaim env = Refused then Mapping.lookup (ws_bucket w) (oplog_object_key (wc_team c) y) else None)"
    "Mapping.lookup (ws_bucket w') (tg_object_key target) =
       (if we_append env = Done \<or> cleanup = Refused then Mapping.lookup (ws_bucket w) (tg_object_key target) else None)"
    and "\<And>k. k \<noteq> tg_object_key target \<Longrightarrow> k \<noteq> oplog_object_key (wc_team c) y \<Longrightarrow> k \<noteq> head_key (wc_team c) (signer_verifying_key (wc_signer c)) \<Longrightarrow>
       Mapping.lookup (ws_bucket w') k = Mapping.lookup (ws_bucket w) k"
    and clk: "u64_saturating_succ (ck_lamport_tip (ws_clock w)) \<le> op_lamport y"
    "(Inr x :: mem_error + op) = Inr y \<Longrightarrow> ck_lamport_tip (ws_clock w') = op_lamport y"
    by (rule naming_result [OF assms]) (rule that)
  from res [of x] have "we_append env = Done" "y = x" by simp_all
  with y b clk show "op_kind x = kind" "op_note_id x = tg_note_id target" "op_object_key x = tg_object_key target" "op_cid x = tg_cid target"
    and "stored c (ws_bucket w') x" and "Mapping.lookup (ws_bucket w') (tg_object_key target) = Mapping.lookup (ws_bucket w) (tg_object_key target)"
    and "op_lamport x = ck_lamport_tip (ws_clock w')" and "u64_saturating_succ (ck_lamport_tip (ws_clock w)) \<le> op_lamport x"
    by (simp_all add: stored_def)
qed

lemma anchor_leaf_log:
  assumes "store_ok c" and "anchor_leaf c env y s = Some s'"
  shows "stored (sc_writer c) (bucket_of s') x \<longleftrightarrow> stored (sc_writer c) (bucket_of s) x"
proof -
  have "oplog_object_key (wc_team (sc_writer c)) x \<noteq> own_key (sc_anchor c) w" for w
    using assms(1) by (simp add: store_ok_def oplog_object_key_def anchor_record_key_def)
  from anchor_leaf_frame(6) [OF assms(2) this] show ?thesis by (simp add: stored_def)
qed

subsection \<open>remember\<close>

lemma remember_cases:
  assumes "remember_impl c env input pre s = Some (res, s')"
  defines "n \<equiv> new_note c env input" and "w \<equiv> st_write s"
  obtains (refused) e where "res = Inl e" "s' = s"
  | (unput) e key ct where "res = Inl e" "sealed_note c env s n = Inr (key, ct)" "oe_put env \<noteq> Done"
      "s' = set_bucket (if oe_put env = ReplyLost then Mapping.update key ct (bucket_of s) else bucket_of s) s"
  | (unnamed) e key ct w' where "res = Inl e" "sealed_note c env s n = Inr (key, ct)" "oe_put env = Done"
      "append_naming_blob (sc_writer c) (oe_write env) (oe_cleanup env) (oe_ulid env) Remember
         \<lparr>tg_note_id = nt_id n, tg_object_key = key, tg_cid = content_hash (wc_prims (sc_writer c)) ct, tg_key_epoch = st_epoch s\<rparr>
         (w\<lparr>ws_bucket := Mapping.update key ct (ws_bucket w)\<rparr>) = (Inl e, w')"
      "s' = s\<lparr>st_write := w'\<rparr>"
  | (unindexed) e key ct w' x where "res = Inl e" "sealed_note c env s n = Inr (key, ct)" "oe_put env = Done"
      "append_naming_blob (sc_writer c) (oe_write env) (oe_cleanup env) (oe_ulid env) Remember
         \<lparr>tg_note_id = nt_id n, tg_object_key = key, tg_cid = content_hash (wc_prims (sc_writer c)) ct, tg_key_epoch = st_epoch s\<rparr>
         (w\<lparr>ws_bucket := Mapping.update key ct (ws_bucket w)\<rparr>) = (Inr x, w')"
      "s' = s\<lparr>st_write := w'\<rparr>"
  | (stored_note) key ct w' x ix where "res = Inr (nt_id n)" "sealed_note c env s n = Inr (key, ct)" "oe_put env = Done"
      "append_naming_blob (sc_writer c) (oe_write env) (oe_cleanup env) (oe_ulid env) Remember
         \<lparr>tg_note_id = nt_id n, tg_object_key = key, tg_cid = content_hash (wc_prims (sc_writer c)) ct, tg_key_epoch = st_epoch s\<rparr>
         (w\<lparr>ws_bucket := Mapping.update key ct (ws_bucket w)\<rparr>) = (Inr x, w')"
      "upsert (sc_embedder c) (st_index s) (index_record_of n key (content_hash (wc_prims (sc_writer c)) ct) (op_lamport x) (st_epoch s) pre) = (Inr (), ix)"
      "anchor_leaf c env x (s\<lparr>st_write := w', st_index := ix\<rparr>) = Some s'"
proof (cases "r_bind (remember_checks c input pre s) (\<lambda>_. sealed_note c env s n)")
  case (Inl e)
  with assms(1) show ?thesis by (intro refused) (auto simp: remember_impl_def n_def Let_def)
next
  case (Inr kc)
  obtain key ct where kc: "kc = (key, ct)" by fastforce
  with Inr have sealed: "sealed_note c env s n = Inr (key, ct)" by (simp add: r_bind_Inr_iff)
  note run = assms(1) [unfolded remember_impl_def Let_def, folded n_def, unfolded Inr kc sum.case prod.case]
  show ?thesis
  proof (cases "oe_put env = Done")
    case False
    with run obtain e where "res = Inl e"
      "s' = set_bucket (if oe_put env = ReplyLost then Mapping.update key ct (bucket_of s) else bucket_of s) s"
      by (cases "oe_put env") (auto simp: faulty_put_def)
    with sealed False show ?thesis by (intro unput)
  next
    case True
    let ?w = "w\<lparr>ws_bucket := Mapping.update key ct (ws_bucket w)\<rparr>"
    obtain r w' where app: "append_naming_blob (sc_writer c) (oe_write env) (oe_cleanup env) (oe_ulid env) Remember
         \<lparr>tg_note_id = nt_id n, tg_object_key = key, tg_cid = content_hash (wc_prims (sc_writer c)) ct, tg_key_epoch = st_epoch s\<rparr> ?w = (r, w')"
      by fastforce
    have set: "set_bucket (Mapping.update key ct (bucket_of s)) s = s\<lparr>st_write := ?w\<rparr>" by (simp add: set_bucket_def w_def)
    note run2 = run [unfolded True faulty_put_def, simplified, unfolded set, simplified, unfolded app, simplified]
    show ?thesis
    proof (cases r)
      case (Inl e)
      with run2 app sealed True show ?thesis by (intro unnamed [of e key ct w']) auto
    next
      case (Inr x)
      obtain up ix where up: "upsert (sc_embedder c) (st_index s) (index_record_of n key (content_hash (wc_prims (sc_writer c)) ct) (op_lamport x) (st_epoch s) pre) = (up, ix)"
        by fastforce
      show ?thesis
      proof (cases up)
        case (Inl e)
        with up have "ix = st_index s" by (auto simp: upsert_def Let_def split: option.splits sum.splits)
        with run2 app sealed True Inr Inl up show ?thesis by (intro unindexed [of e key ct x w']) auto
      next
        case (Inr u)
        with run2 app sealed True \<open>r = Inr x\<close> up show ?thesis by (intro stored_note [of key ct x w' ix]) auto
      qed
    qed
  qed
qed

lemma new_note_sel [simp]:
  "nt_id (new_note c env input) = NoteId (oe_note_ulid env)" "nt_summary (new_note c env input) = ri_summary input"
  "nt_body (new_note c env input) = ri_body input" "nt_tags (new_note c env input) = ri_tags input"
  "nt_note_type (new_note c env input) = ri_note_type input" "nt_author (new_note c env input) = sc_author c"
  "nt_scope (new_note c env input) = \<lparr>scope_team = wc_team (sc_writer c), scope_repo = ri_repo input\<rparr>"
  by (simp_all add: new_note_def)

lemma index_record_of_sel [simp]:
  "ir_note_id (index_record_of n key cid l e v) = nt_id n" "ir_object_key (index_record_of n key cid l e v) = key"
  "ir_cid (index_record_of n key cid l e v) = cid" "ir_key_epoch (index_record_of n key cid l e v) = e"
  "ir_lamport (index_record_of n key cid l e v) = l" "ir_embedding (index_record_of n key cid l e v) = v"
  "version_key (index_record_of n key cid l e v) = (l, key)"
  by (simp_all add: index_record_of_def version_key_def)

text \<open>An accepted upsert is what the index locates.\<close>

lemma upsert_locates:
  assumes "upsert em st r = (Inr (), ix)" and "\<not> is_redacted st (ir_note_id r)"
    and "\<forall>u. sl_live (slot_of st (ir_note_id r)) = Some u \<longrightarrow> u \<le> version_key r"
    and "\<forall>w. sl_mark (slot_of st (ir_note_id r)) = Some w \<longrightarrow> w < version_key r"
  shows "locate ix (ir_note_id r) = Some \<lparr>lc_object_key = ir_object_key r, lc_cid = ir_cid r, lc_key_epoch = ir_key_epoch r\<rparr>"
    and "j \<noteq> ir_note_id r \<Longrightarrow> locate ix j = locate st j"
    and "slot_of ix (ir_note_id r) = \<lparr>sl_live = Some (version_key r), sl_mark = None, sl_gone = False\<rparr>"
proof -
  obtain v where ix: "ix = apply_record st (r\<lparr>ir_embedding := None\<rparr>) v True"
    using assms(1) by (auto simp: upsert_def Let_def split: option.splits sum.splits)
  have gates: "\<not> is_stale_rollback (ix_entries st) r" "\<not> is_at_or_below_removal_watermark (ix_removed st) r"
    using assms(3,4) by (auto simp: slot_of_def is_stale_rollback_def is_at_or_below_removal_watermark_def not_le not_less
        simp del: split_paired_All split: option.splits)
  show "locate ix (ir_note_id r) = Some \<lparr>lc_object_key = ir_object_key r, lc_cid = ir_cid r, lc_key_epoch = ir_key_epoch r\<rparr>"
    "slot_of ix (ir_note_id r) = \<lparr>sl_live = Some (version_key r), sl_mark = None, sl_gone = False\<rparr>"
    using gates assms(2) by (simp_all add: ix apply_record_def locate_def is_redacted_def slot_of_def map_simps)
  show "j \<noteq> ir_note_id r \<Longrightarrow> locate ix j = locate st j" by (simp add: ix locate_def apply_record_other)
qed

text \<open>What the theorems that read a note back assume: the note's encoding reads back, the cipher opens what it sealed.\<close>

definition codec_ok :: "'f store_config \<Rightarrow> memory_note \<Rightarrow> bool" where
  "codec_ok c n \<longleftrightarrow> aead_law (sc_aead c) \<and> utf8_ok (as_bytes (sc_enc_note c n)) \<and> sc_dec_note c (sc_enc_note c n) = Some n"

lemma from_utf8_as_bytes: "utf8_ok (as_bytes t) \<Longrightarrow> from_utf8 (as_bytes t) = Some t"
  by (simp add: from_utf8_def as_bytes_def unat_byte_of comp_def)

text \<open>The stored bytes of a sealed note read back as that note.\<close>

lemma read_sealed:
  assumes "sealed_note c env s0 n = Inr (key, ct)" and "codec_ok c n" and "length (oe_nonce env) = NONCE_LEN"
    and "scope_team (nt_scope n) = wc_team (sc_writer c)"
    and "locate (st_index s) (nt_id n) = Some \<lparr>lc_object_key = key, lc_cid = content_hash (wc_prims (sc_writer c)) ct, lc_key_epoch = st_epoch s0\<rparr>"
    and "st_keys s = st_keys s0" and "oe_get genv key = Inr ct"
  shows "read_note c genv (nt_id n) s = Inr n"
proof -
  from assms(1) obtain k where k: "key_for_epoch s0 (st_epoch s0) = Inr k" "object_key (nt_scope n) (nt_id n) (oe_ulid env) = Inr key"
    "seal (sc_aead c) (oe_nonce env) k (as_bytes (sc_enc_note c n)) (as_bytes key) = Inr ct"
    by (auto simp: sealed_note_def r_bind_Inr_iff)
  have "open_blob (sc_aead c) k ct (as_bytes key) = Inr (as_bytes (sc_enc_note c n))"
    using open_sealed [OF _ assms(3) k(3)] assms(2) by (simp add: codec_ok_def)
  moreover have "key_for_epoch s (st_epoch s0) = Inr k" using k(1) assms(6) by (simp add: key_for_epoch_def)
  moreover have "note_matches_object n (nt_id n) (wc_team (sc_writer c)) key"
    using object_key_parse [OF k(2)] assms(4) by (simp add: note_matches_object_def)
  ultimately show ?thesis
    using assms(2,5,7) by (simp add: read_note_def codec_ok_def from_utf8_as_bytes)
qed

lemma remember_stored:
  assumes run: "remember_impl c env input pre s = Some (Inr i, s')" and ok: "store_ok c" and fresh: "slot_of (st_index s) i = \<lparr>sl_live = None, sl_mark = None, sl_gone = False\<rparr>"
  obtains key ct x where "i = NoteId (oe_note_ulid env)" "sealed_note c env s (new_note c env input) = Inr (key, ct)"
    "locate (st_index s') i = Some \<lparr>lc_object_key = key, lc_cid = content_hash (wc_prims (sc_writer c)) ct, lc_key_epoch = st_epoch s\<rparr>"
    "st_keys s' = st_keys s" "Mapping.lookup (bucket_of s') key = Some ct"
    "stored (sc_writer c) (bucket_of s') x" "op_kind x = Remember" "op_note_id x = i" "op_object_key x = key"
    "op_cid x = content_hash (wc_prims (sc_writer c)) ct"
  using run
proof (cases rule: remember_cases)
  case (stored_note key ct w' x ix)
  let ?P = "wc_prims (sc_writer c)" and ?n = "new_note c env input"
  have i: "i = NoteId (oe_note_ulid env)" using stored_note(1) by simp
  note parse = object_key_parse [OF sealed_note_key [OF stored_note(2)]]
  note x = naming_stored [OF stored_note(4), simplified, OF parse]
  have "locate (st_index s') i = Some \<lparr>lc_object_key = key, lc_cid = content_hash ?P ct, lc_key_epoch = st_epoch s\<rparr>"
    using upsert_locates(1) [OF stored_note(5)] fresh anchor_leaf_frame(1) [OF stored_note(6)] by (simp add: i slot_of_def)
  moreover have "Mapping.lookup (bucket_of s') key = Some ct"
    using anchor_leaf_note [OF stored_note(6) parse] x(6) by (simp add: lookup_update')
  moreover have "stored (sc_writer c) (bucket_of s') x" using anchor_leaf_log [OF ok stored_note(6)] x(5) by simp
  ultimately show thesis
    using that [of key ct x] i x(1-4) stored_note(2) anchor_leaf_frame(3) [OF stored_note(6)] by simp
qed auto

end
