(* ===== verification/Memory.thy ===== *)
theory Memory
  imports Store
begin

text \<open>
  What the memory store promises of the notes it writes and reads (\<^verbatim>\<open>remember\<close>, \<^verbatim>\<open>edit\<close> and \<^verbatim>\<open>get\<close> of
  \<^verbatim>\<open>store/mod.rs\<close>), under lost replies, refused writes and a bucket that answers what it likes.
\<close>

section \<open>Lemmas\<close>

subsection \<open>The op a write adds\<close>

lemma oplog_not_head: "oplog_object_key tm x \<noteq> head_key tm key"
  by (simp add: oplog_object_key_def head_key_def)

text \<open>A blob put at a note key and the append of the op naming it: the only op this can add to the log.\<close>

lemma naming_new:
  assumes "append_naming_blob c env cleanup opid kind target (w\<lparr>ws_bucket := Mapping.update (tg_object_key target) ct (ws_bucket w)\<rparr>) = (res, w')"
    and "parse_object_key (tg_object_key target) = Inr p" and "inj (wc_enc_op c)"
  obtains x where "op_object_key x = tg_object_key target" "op_cid x = tg_cid target"
    "\<forall>y. stored c (ws_bucket w') y \<and> \<not> stored c (ws_bucket w) y \<longrightarrow>
       y = x \<and> (we_append env = Done \<or> we_append env = ReplyLost \<and> we_reclaim env = Refused)"
    "\<forall>y. res = Inr y \<longleftrightarrow> we_append env = Done \<and> y = x"
    "we_append env = Done \<longrightarrow> stored c (ws_bucket w') x"
    "Mapping.lookup (ws_bucket w') (tg_object_key target) = (if we_append env = Done \<or> cleanup = Refused then Some ct else None)"
    "\<forall>k q. parse_object_key k = Inr q \<and> k \<noteq> tg_object_key target \<longrightarrow> Mapping.lookup (ws_bucket w') k = Mapping.lookup (ws_bucket w) k"
proof -
  let ?k = "tg_object_key target" and ?w = "w\<lparr>ws_bucket := Mapping.update (tg_object_key target) ct (ws_bucket w)\<rparr>"
  let ?kept = "we_append env = Done \<or> we_append env = ReplyLost \<and> we_reclaim env = Refused"
  obtain x where x: "op_kind x = kind" "op_note_id x = tg_note_id target" "op_object_key x = ?k" "op_cid x = tg_cid target"
    and r: "\<And>y. res = Inr y \<longleftrightarrow> we_append env = Done \<and> y = x"
    and log: "Mapping.lookup (ws_bucket w') (oplog_object_key (wc_team c) x) =
       (if ?kept then Some (wc_enc_op c x)
        else if we_reclaim env = Refused then Mapping.lookup (ws_bucket ?w) (oplog_object_key (wc_team c) x) else None)"
    and blob: "Mapping.lookup (ws_bucket w') ?k =
       (if we_append env = Done \<or> cleanup = Refused then Mapping.lookup (ws_bucket ?w) ?k else None)"
    and other: "\<And>k. k \<noteq> ?k \<Longrightarrow> k \<noteq> oplog_object_key (wc_team c) x \<Longrightarrow> k \<noteq> head_key (wc_team c) (signer_verifying_key (wc_signer c)) \<Longrightarrow>
       Mapping.lookup (ws_bucket w') k = Mapping.lookup (ws_bucket ?w) k"
    and "u64_saturating_succ (ck_lamport_tip (ws_clock ?w)) \<le> op_lamport x" "res = Inr x \<Longrightarrow> ck_lamport_tip (ws_clock w') = op_lamport x"
    by (rule naming_result [OF assms(1,2)]) (rule that)
  have ne: "oplog_object_key (wc_team c) y \<noteq> ?k" for y using note_key_internal(1) [OF assms(2)] by metis
  have before: "Mapping.lookup (ws_bucket ?w) (oplog_object_key (wc_team c) y) = Mapping.lookup (ws_bucket w) (oplog_object_key (wc_team c) y)" for y
    using ne [of y] by (simp add: lookup_update')
  have new: "y = x \<and> ?kept" if y: "stored c (ws_bucket w') y \<and> \<not> stored c (ws_bucket w) y" for y
  proof (cases "oplog_object_key (wc_team c) y = oplog_object_key (wc_team c) x")
    case True
    with y log before [of x] have "?kept" "wc_enc_op c y = wc_enc_op c x" by (auto simp: stored_def split: if_splits)
    with injD [OF assms(3)] show ?thesis by blast
  next
    case False
    from other [OF ne this oplog_not_head] before y show ?thesis by (simp add: stored_def)
  qed
  have keep: "Mapping.lookup (ws_bucket w') k = Mapping.lookup (ws_bucket w) k" if "parse_object_key k = Inr q \<and> k \<noteq> ?k" for k q
  proof -
    from that have p: "parse_object_key k = Inr q" and k: "k \<noteq> ?k" by simp_all
    from other [OF k note_key_internal(1,2) [OF p]] k show ?thesis by (simp add: lookup_update')
  qed
  show thesis
    using that [of x] x(3,4) new r log blob keep by (simp add: stored_def lookup_update')
qed

subsection \<open>remember, whatever happens to its writes\<close>

text \<open>What a write of a note does to the note objects and to the log: \<open>key\<close> is the new blob's, \<open>kept\<close> tells whether the op
  that names it may be durable, \<open>put\<close> what became of the blob's put.\<close>

definition write_effect ::
    "writer_config \<Rightarrow> string \<Rightarrow> bytes \<Rightarrow> fate \<Rightarrow> write_env \<Rightarrow> fate \<Rightarrow> memory_blob_store \<Rightarrow> memory_blob_store \<Rightarrow> bool" where
  "write_effect c key ct put env cleanup b b' \<longleftrightarrow>
     (\<forall>y. stored c b' y \<and> \<not> stored c b y \<longrightarrow>
        op_object_key y = key \<and> op_cid y = content_hash (wc_prims c) ct \<and> put = Done \<and>
        (we_append env = Done \<or> we_append env = ReplyLost \<and> we_reclaim env = Refused)) \<and>
     (put = Done \<and> we_append env = Done \<longrightarrow> (\<exists>y. stored c b' y \<and> op_object_key y = key)) \<and>
     (put = Done \<longrightarrow> Mapping.lookup b' key = (if we_append env = Done \<or> cleanup = Refused then Some ct else None)) \<and>
     (put = Refused \<longrightarrow> Mapping.lookup b' key = Mapping.lookup b key) \<and>
     (\<forall>k q. parse_object_key k = Inr q \<and> k \<noteq> key \<longrightarrow> Mapping.lookup b' k = Mapping.lookup b k)"

lemma naming_effect:
  assumes app: "append_naming_blob c env cleanup opid kind \<lparr>tg_note_id = i, tg_object_key = key, tg_cid = content_hash (wc_prims c) ct, tg_key_epoch = e\<rparr>
      (w\<lparr>ws_bucket := Mapping.update key ct (ws_bucket w)\<rparr>) = (r, w')"
    and parse: "parse_object_key key = Inr p" and inj: "inj (wc_enc_op c)"
    and log: "\<forall>y. stored c b' y \<longleftrightarrow> stored c (ws_bucket w') y"
    and blobs: "\<forall>k q. parse_object_key k = Inr q \<longrightarrow> Mapping.lookup b' k = Mapping.lookup (ws_bucket w') k"
  shows "write_effect c key ct Done env cleanup (ws_bucket w) b'"
proof -
  let ?t = "\<lparr>tg_note_id = i, tg_object_key = key, tg_cid = content_hash (wc_prims c) ct, tg_key_epoch = e\<rparr>"
  have t: "tg_object_key ?t = key" "tg_cid ?t = content_hash (wc_prims c) ct" by simp_all
  obtain x where "op_object_key x = key" "op_cid x = content_hash (wc_prims c) ct"
    "\<forall>y. stored c (ws_bucket w') y \<and> \<not> stored c (ws_bucket w) y \<longrightarrow>
       y = x \<and> (we_append env = Done \<or> we_append env = ReplyLost \<and> we_reclaim env = Refused)"
    "\<forall>y. r = Inr y \<longleftrightarrow> we_append env = Done \<and> y = x"
    "we_append env = Done \<longrightarrow> stored c (ws_bucket w') x"
    "Mapping.lookup (ws_bucket w') key = (if we_append env = Done \<or> cleanup = Refused then Some ct else None)"
    "\<forall>k q. parse_object_key k = Inr q \<and> k \<noteq> key \<longrightarrow> Mapping.lookup (ws_bucket w') k = Mapping.lookup (ws_bucket w) k"
    by (rule naming_new [where target = ?t, unfolded t, OF app parse inj]) (rule that)
  note x = this
  have "op_object_key y = key \<and> op_cid y = content_hash (wc_prims c) ct \<and> Done = Done \<and>
        (we_append env = Done \<or> we_append env = ReplyLost \<and> we_reclaim env = Refused)" if "stored c b' y \<and> \<not> stored c (ws_bucket w) y" for y
    using x(1,2) x(3) [rule_format, of y] that log by simp
  moreover have "Done = Done \<and> we_append env = Done \<longrightarrow> (\<exists>y. stored c b' y \<and> op_object_key y = key)"
    using x(1,5) log by auto
  moreover have "Mapping.lookup b' k = Mapping.lookup (ws_bucket w) k" if "parse_object_key k = Inr q \<and> k \<noteq> key" for k q
    using x(7) blobs that by metis
  moreover have "Mapping.lookup b' key = (if we_append env = Done \<or> cleanup = Refused then Some ct else None)"
    using x(6) blobs parse by metis
  ultimately show ?thesis unfolding write_effect_def by (intro conjI allI impI) auto
qed

lemma remember_effect:
  assumes "remember_impl c env input pre s = Some (res, s')" and "store_ok c" and "inj (wc_enc_op (sc_writer c))"
  obtains (untouched) e where "res = Inl e" "s' = s"
  | (touched) key ct p where "parse_object_key key = Inr p" "isl res \<longrightarrow> st_index s' = st_index s"
      "write_effect (sc_writer c) key ct (oe_put env) (oe_write env) (oe_cleanup env) (bucket_of s) (bucket_of s')"
  using assms(1)
proof (cases rule: remember_cases)
  case (refused e)
  then show thesis by (rule untouched)
next
  case (unput e key ct)
  note parse = object_key_parse [OF sealed_note_key [OF unput(2)]]
  have "oplog_object_key tm y \<noteq> key" for tm y using note_key_internal(1) [OF parse] by metis
  with unput(3,4) show thesis
    by (intro touched [OF parse, of ct]) (auto simp: write_effect_def unput(1) stored_def lookup_update')
next
  case (unnamed e key ct w')
  note parse = object_key_parse [OF sealed_note_key [OF unnamed(2)]]
  from naming_effect [OF unnamed(4) parse assms(3), of "ws_bucket w'"] unnamed(1,3,5) show thesis
    by (intro touched [OF parse, of ct]) simp_all
next
  case (unindexed e key ct w' x)
  note parse = object_key_parse [OF sealed_note_key [OF unindexed(2)]]
  from naming_effect [OF unindexed(4) parse assms(3), of "ws_bucket w'"] unindexed(1,3,5) show thesis
    by (intro touched [OF parse, of ct]) simp_all
next
  case (stored_note key ct w' x ix)
  note parse = object_key_parse [OF sealed_note_key [OF stored_note(2)]]
  from naming_effect [OF stored_note(4) parse assms(3), of "bucket_of s'"] anchor_leaf_log [OF assms(2) stored_note(6)]
    anchor_leaf_note [OF stored_note(6)] stored_note(1,3) show thesis
    by (intro touched [OF parse, of ct]) simp_all
qed

subsection \<open>Reading a note\<close>

lemma read_note_sound:
  assumes "read_note c genv i s = Inr m"
  shows "\<exists>l k ct bs t v. locate (st_index s) i = Some l \<and> key_for_epoch s (lc_key_epoch l) = Inr k \<and> oe_get genv (lc_object_key l) = Inr ct \<and>
          content_hash (wc_prims (sc_writer c)) ct = lc_cid l \<and> open_blob (sc_aead c) k ct (as_bytes (lc_object_key l)) = Inr bs \<and>
          from_utf8 bs = Some t \<and> sc_dec_note c t = Some m \<and> nt_id m = i \<and> scope_team (nt_scope m) = wc_team (sc_writer c) \<and>
          parse_object_key (lc_object_key l) = Inr (nt_scope m, i, v)"
proof (cases "locate (st_index s) i")
  case (Some l)
  note run = assms [unfolded read_note_def Some option.case r_bind_Inr_iff]
  from run obtain k ct where k: "key_for_epoch s (lc_key_epoch l) = Inr k" "oe_get genv (lc_object_key l) = Inr ct"
    and body: "(if content_hash (wc_prims (sc_writer c)) ct \<noteq> lc_cid l
        then Inl (Storage ''ciphertext hash does not match the indexed content hash'')
        else r_bind (open_blob (sc_aead c) k ct (as_bytes (lc_object_key l))) (\<lambda>plaintext.
               case from_utf8 plaintext of None \<Rightarrow> Inl Crypto
               | Some json \<Rightarrow> (case sc_dec_note c json of None \<Rightarrow> Inl Serialize
                   | Some n \<Rightarrow> if note_matches_object n i (wc_team (sc_writer c)) (lc_object_key l) then Inr n else Inl Crypto))) = Inr m"
    by blast
  from body have h: "content_hash (wc_prims (sc_writer c)) ct = lc_cid l" by (simp split: if_splits)
  from body h obtain bs where bs: "open_blob (sc_aead c) k ct (as_bytes (lc_object_key l)) = Inr bs"
    and rest: "(case from_utf8 bs of None \<Rightarrow> Inl Crypto
               | Some json \<Rightarrow> (case sc_dec_note c json of None \<Rightarrow> Inl Serialize
                   | Some n \<Rightarrow> if note_matches_object n i (wc_team (sc_writer c)) (lc_object_key l) then Inr n else Inl Crypto)) = Inr m"
    by (auto simp: r_bind_Inr_iff)
  from rest obtain t where t: "from_utf8 bs = Some t" "sc_dec_note c t = Some m"
    and ok: "note_matches_object m i (wc_team (sc_writer c)) (lc_object_key l)"
    by (auto split: option.splits if_splits)
  from ok obtain v where "nt_id m = i" "scope_team (nt_scope m) = wc_team (sc_writer c)" "parse_object_key (lc_object_key l) = Inr (nt_scope m, i, v)"
    by (auto simp: note_matches_object_def split: if_splits sum.splits)
  with Some k h bs t show ?thesis by blast
qed (use assms in \<open>simp add: read_note_def\<close>)

section \<open>A concrete store\<close>

definition demo_aead :: aead where
  "demo_aead = \<lparr>ae_encrypt = (\<lambda>key nonce m aad. Some (m @ key)), ae_decrypt = (\<lambda>key nonce ct aad. Some (take (length ct - length key) ct))\<rparr>"

definition demo_input :: remember_input where
  "demo_input = \<lparr>ri_note_type = Gotcha, ri_repo = Global, ri_tags = {||}, ri_summary = ''x'', ri_body = ''the body'', ri_force = False\<rparr>"

definition demo_weather :: "ulid \<Rightarrow> op_env" where
  "demo_weather u = \<lparr>oe_note_ulid = u, oe_ulid = u + 100, oe_nonce = replicate 24 9, oe_now = 5, oe_instant = 5, oe_get = (\<lambda>k. Inl (NotFound k)),
     oe_list = (\<lambda>_. Inr []), oe_put = Done, oe_cleanup = Done, oe_delete = (\<lambda>_. Done),
     oe_write = quiet_write, oe_commit = quiet_commit empty_view\<rparr>"

text \<open>Its format keeps the body and puts the rest back.\<close>

definition demo_decode :: "string \<Rightarrow> memory_note option" where
  "demo_decode body = Some \<lparr>nt_id = NoteId 3, nt_scope = \<lparr>scope_team = ''t'', scope_repo = Global\<rparr>, nt_note_type = Gotcha,
     nt_author = ''a'', nt_created = 5, nt_updated = 5, nt_tags = {||}, nt_links = {||}, nt_summary = ''x'', nt_body = body\<rparr>"

definition demo_store :: "int store_config" where
  "demo_store = \<lparr>sc_writer = (demo_config 7)\<lparr>wc_tip := None\<rparr>, sc_anchor = demo_author\<lparr>ac_prims := demo_prims\<rparr>, sc_author = ''a'',
     sc_aead = demo_aead, sc_enc_note = nt_body, sc_dec_note = demo_decode, sc_unicode = demo_unicode, sc_floats = demo_floats,
     sc_embedder = demo_embedder\<rparr>"

definition demo_start :: "int store_state" where
  "demo_start = \<lparr>st_write = \<lparr>ws_clock = fresh_clock, ws_marks = Mapping.empty, ws_bucket = Mapping.empty, ws_disk = Mapping.empty\<rparr>,
     st_index = index_default, st_anchor = fresh_state, st_tracker = \<lparr>rt_recalled = Mapping.empty, rt_reinforced = Mapping.empty\<rparr>,
     st_keys = Mapping.update 0 (replicate 32 4) Mapping.empty, st_epoch = 0\<rparr>"

subsection \<open>Its writes succeed\<close>

lemma upsert_answers:
  assumes "\<forall>ts. \<exists>vs. em_embed em ts = Inr vs"
  shows "\<exists>ix. upsert em st r = (Inr (), ix)"
proof -
  obtain vs where "em_embed em [ir_summary r] = Inr vs" using assms by blast
  then show ?thesis by (auto simp: upsert_def Let_def split: option.split)
qed

lemma remember_succeeds:
  assumes "remember_checks c input pre s = Inr ()" and "sealed_note c env s (new_note c env input) = Inr (key, ct)"
    and "oe_put env = Done" and "we_append (oe_write env) = Done" and "\<forall>ts. \<exists>vs. em_embed (sc_embedder c) ts = Inr vs"
    and "Suc (length (an_pending (st_anchor s))) < ac_threshold (sc_anchor c)"
  shows "\<exists>s'. remember_impl c env input pre s = Some (Inr (NoteId (oe_note_ulid env)), s')"
proof -
  let ?n = "new_note c env input" and ?w = "(st_write s)\<lparr>ws_bucket := Mapping.update key ct (bucket_of s)\<rparr>"
  let ?t = "\<lparr>tg_note_id = nt_id ?n, tg_object_key = key, tg_cid = content_hash (wc_prims (sc_writer c)) ct, tg_key_epoch = st_epoch s\<rparr>"
  note parse = object_key_parse [OF sealed_note_key [OF assms(2)]]
  obtain r w' where app: "append_naming_blob (sc_writer c) (oe_write env) (oe_cleanup env) (oe_ulid env) Remember ?t ?w = (r, w')" by fastforce
  obtain x where r: "r = Inr x"
  proof -
    obtain res1 w1 where app1: "append_under_serialization (sc_writer c) (oe_write env) (oe_ulid env) Remember ?t ?w = (res1, w1)" by fastforce
    then have "\<exists>x. res1 = Inr x" by (rule append_result) (use assms(4) in blast)
    with app app1 that show thesis by (auto simp: append_naming_blob_def mint_and_append_def)
  qed
  let ?r = "index_record_of ?n key (content_hash (wc_prims (sc_writer c)) ct) (op_lamport x) (st_epoch s) pre"
  obtain ix where "upsert (sc_embedder c) (st_index s) ?r = (Inr (), ix)" using upsert_answers [OF assms(5)] by blast
  then show ?thesis
    using assms(1-4,6) app r
    by (simp add: remember_impl_def Let_def faulty_put_def set_bucket_def anchor_leaf_def schedule_anchor_def)
qed

definition serving :: "memory_blob_store \<Rightarrow> string \<Rightarrow> mem_error + bytes" where
  "serving b k = (case Mapping.lookup b k of Some ct \<Rightarrow> Inr ct | None \<Rightarrow> Inl (NotFound k))"

lemma demo_store_sel [simp]:
  "sc_unicode demo_store = demo_unicode" "sc_floats demo_store = demo_floats" "sc_embedder demo_store = demo_embedder"
  "sc_aead demo_store = demo_aead" "sc_enc_note demo_store = nt_body" "sc_dec_note demo_store = demo_decode" "sc_author demo_store = ''a''"
  "wc_team (sc_writer demo_store) = ''t''" "wc_prims (sc_writer demo_store) = demo_prims" "wc_enc_op (sc_writer demo_store) = demo_enc_op"
  by (simp_all add: demo_store_def demo_config_def)

lemma demo_start_sel [simp]:
  "st_index demo_start = index_default" "st_epoch demo_start = 0" "bucket_of demo_start = Mapping.empty"
  "key_for_epoch demo_start 0 = Inr (replicate 32 4)" "st_tracker demo_start = \<lparr>rt_recalled = Mapping.empty, rt_reinforced = Mapping.empty\<rparr>"
  by (simp_all add: demo_start_def key_for_epoch_def lookup_update')

lemma demo_checks: "remember_checks demo_store demo_input None demo_start = Inr ()"
proof -
  have "nearest_duplicate demo_floats demo_unicode demo_embedder index_default ''x'' ''t'' Global (DEDUP_THRESHOLD demo_floats) None = Inr None"
    by code_simp
  moreover have "chars_of ''the body'' = [''t'', ''h'', ''e'', '' '', ''b'', ''o'', ''d'', ''y'']" by code_simp
  then have "validate_body ''the body'' = Inr ()" by (simp add: validate_body_def MAX_BODY_CHARS_def)
  moreover have "validate_summary demo_unicode ''x'' = Inr ()" by (simp add: validate_summary_def demo_unicode_def MAX_SUMMARY_CHARS_def)
  moreover have "validate_tags {||} = Inr ()" by (simp add: validate_tags_def MAX_TAGS_def fcard_fempty)
  ultimately show ?thesis by (simp add: remember_checks_def demo_input_def)
qed

lemma demo_sealed: "\<exists>key ct. sealed_note demo_store (demo_weather 3) demo_start (new_note demo_store (demo_weather 3) demo_input) = Inr (key, ct)"
proof -
  have "\<not> isl (object_key \<lparr>scope_team = ''t'', scope_repo = Global\<rparr> (NoteId 3) 103)" by code_simp
  then obtain key where "object_key \<lparr>scope_team = ''t'', scope_repo = Global\<rparr> (NoteId 3) 103 = Inr key"
    by (cases "object_key \<lparr>scope_team = ''t'', scope_repo = Global\<rparr> (NoteId 3) 103") auto
  then show ?thesis by (simp add: sealed_note_def demo_input_def demo_weather_def seal_def demo_aead_def)
qed

lemma demo_remember: "\<exists>s'. remember_impl demo_store (demo_weather 3) demo_input None demo_start = Some (Inr (NoteId 3), s')"
proof -
  obtain key ct where sealed: "sealed_note demo_store (demo_weather 3) demo_start (new_note demo_store (demo_weather 3) demo_input) = Inr (key, ct)"
    using demo_sealed by blast
  show ?thesis
    using remember_succeeds [OF demo_checks sealed]
    by (simp add: demo_weather_def quiet_write_def demo_store_def demo_embedder_def demo_start_def fresh_state_def)
qed

lemma demo_store_ok: "store_ok demo_store"
  by (simp add: store_ok_def demo_store_def demo_config_def demo_author_def) code_simp

lemma demo_codec_ok: "codec_ok demo_store (new_note demo_store (demo_weather 3) demo_input)"
proof -
  have "aead_law demo_aead" by (simp add: aead_law_def demo_aead_def)
  moreover have "utf8_ok (as_bytes ''the body'')" by code_simp
  ultimately show ?thesis
    by (simp add: codec_ok_def demo_store_def new_note_def demo_weather_def demo_input_def demo_decode_def demo_config_def)
qed

lemma demo_fresh: "slot_of (st_index demo_start) i = \<lparr>sl_live = None, sl_mark = None, sl_gone = False\<rparr>"
  by (simp add: slot_of_def index_default_def is_redacted_def lookup_empty)

section \<open>Properties\<close>

text \<open>C3. A note that remember accepted reads back: in whatever weather it was written, the very next get of its id
  returns exactly the note, if the bucket serves what it holds, and commits nothing.\<close>

theorem remember_then_get:
  assumes "remember_impl c env input pre s = Some (Inr i, s')" and "store_ok c" and "codec_ok c (new_note c env input)"
    and "length (oe_nonce env) = NONCE_LEN" and "slot_of (st_index s) i = \<lparr>sl_live = None, sl_mark = None, sl_gone = False\<rparr>"
    and "Mapping.lookup (rt_recalled (st_tracker s)) i = None"
    and "\<forall>k ct. Mapping.lookup (bucket_of s') k = Some ct \<longrightarrow> oe_get genv k = Inr ct"
  shows "\<exists>s''. get c genv i s' = Some (Inr (new_note c env input), s'') \<and> bucket_of s'' = bucket_of s' \<and> st_index s'' = st_index s'"
  using assms(1,2,5)
proof (rule remember_stored)
  fix key ct x
  assume r: "i = NoteId (oe_note_ulid env)" "sealed_note c env s (new_note c env input) = Inr (key, ct)"
    "locate (st_index s') i = Some \<lparr>lc_object_key = key, lc_cid = content_hash (wc_prims (sc_writer c)) ct, lc_key_epoch = st_epoch s\<rparr>"
    "st_keys s' = st_keys s" "Mapping.lookup (bucket_of s') key = Some ct"
  have "read_note c genv i s' = Inr (new_note c env input)"
    using read_sealed [OF r(2) assms(3,4), of s' genv] r assms(7) by simp
  moreover have "st_tracker s' = st_tracker s"
    using assms(1) by (cases rule: remember_cases) (auto dest: anchor_leaf_frame(2))
  then have "\<not> fst (reinforce_qualifies i (oe_instant genv) (st_tracker s'))"
    using assms(6) by (simp add: reinforce_qualifies_def prune_expired_def lookup_filter Let_def)
  ultimately show ?thesis
    by (auto simp: get_def maybe_reinforce_def split: prod.splits)
qed

theorem remember_then_get_witness:
  "\<exists>s' s''. remember_impl demo_store (demo_weather 3) demo_input None demo_start = Some (Inr (NoteId 3), s') \<and>
     get demo_store ((demo_weather 4)\<lparr>oe_get := serving (bucket_of s')\<rparr>) (NoteId 3) s' = Some (Inr (new_note demo_store (demo_weather 3) demo_input), s'')"
proof -
  obtain s' where run: "remember_impl demo_store (demo_weather 3) demo_input None demo_start = Some (Inr (NoteId 3), s')"
    using demo_remember by blast
  have "length (oe_nonce (demo_weather 3)) = NONCE_LEN" by (simp add: demo_weather_def NONCE_LEN_def)
  moreover have "Mapping.lookup (rt_recalled (st_tracker demo_start)) (NoteId 3) = None" by (simp add: demo_start_def lookup_empty)
  moreover have "\<forall>k ct. Mapping.lookup (bucket_of s') k = Some ct \<longrightarrow> oe_get ((demo_weather 4)\<lparr>oe_get := serving (bucket_of s')\<rparr>) k = Inr ct"
    by (simp add: serving_def)
  ultimately show ?thesis
    using remember_then_get [OF run demo_store_ok demo_codec_ok _ demo_fresh] run by blast
qed



text \<open>C4. The bucket is not trusted: for a note whose index entry was written by remember or edit, whatever the bucket
  answers, get yields the bucket's error, a hash mismatch, or exactly the note that was sealed, unless the bucket
  found a collision of the content hash; and a get of any entry at all yields only a note with that id, of this
  team, in the scope its key names, sealed under the key of the entry's epoch for that very key.\<close>

theorem bucket_cannot_alter_notes:
  assumes "sealed_note c env s0 n = Inr (key, ct)" and "codec_ok c n" and "length (oe_nonce env) = NONCE_LEN"
    and "scope_team (nt_scope n) = wc_team (sc_writer c)" and "st_keys s = st_keys s0"
    and "locate (st_index s) (nt_id n) = Some \<lparr>lc_object_key = key, lc_cid = content_hash (wc_prims (sc_writer c)) ct, lc_key_epoch = st_epoch s0\<rparr>"
    and "\<forall>ct'. content_hash (wc_prims (sc_writer c)) ct' = content_hash (wc_prims (sc_writer c)) ct \<longrightarrow> ct' = ct"
  shows "read_note c genv (nt_id n) s =
      (case oe_get genv key of
         Inl e \<Rightarrow> Inl e
       | Inr ct' \<Rightarrow> if ct' = ct then Inr n else Inl (Storage ''ciphertext hash does not match the indexed content hash'')) \<and>
    (\<forall>i m. read_note c genv i s = Inr m \<longrightarrow>
       (\<exists>l k ct' bs t v. locate (st_index s) i = Some l \<and> key_for_epoch s (lc_key_epoch l) = Inr k \<and> oe_get genv (lc_object_key l) = Inr ct' \<and>
          content_hash (wc_prims (sc_writer c)) ct' = lc_cid l \<and> open_blob (sc_aead c) k ct' (as_bytes (lc_object_key l)) = Inr bs \<and>
          from_utf8 bs = Some t \<and> sc_dec_note c t = Some m \<and> nt_id m = i \<and> scope_team (nt_scope m) = wc_team (sc_writer c) \<and>
          parse_object_key (lc_object_key l) = Inr (nt_scope m, i, v)))"
proof -
  from assms(1) obtain k where "key_for_epoch s0 (st_epoch s0) = Inr k" by (auto simp: sealed_note_def r_bind_Inr_iff)
  then have k: "key_for_epoch s (st_epoch s0) = Inr k" by (simp add: key_for_epoch_def assms(5))
  have "read_note c genv (nt_id n) s = Inr n" if "oe_get genv key = Inr ct"
    using read_sealed [OF assms(1-4) assms(6,5) that] .
  moreover have "read_note c genv (nt_id n) s = Inl (Storage ''ciphertext hash does not match the indexed content hash'')"
    if "oe_get genv key = Inr ct'" "ct' \<noteq> ct" for ct'
    using that assms(7) k by (auto simp: read_note_def assms(6))
  moreover have "read_note c genv (nt_id n) s = Inl e" if "oe_get genv key = Inl e" for e
    using that k by (simp add: read_note_def assms(6))
  moreover have "\<exists>l k ct' bs t v. locate (st_index s) i = Some l \<and> key_for_epoch s (lc_key_epoch l) = Inr k \<and> oe_get genv (lc_object_key l) = Inr ct' \<and>
          content_hash (wc_prims (sc_writer c)) ct' = lc_cid l \<and> open_blob (sc_aead c) k ct' (as_bytes (lc_object_key l)) = Inr bs \<and>
          from_utf8 bs = Some t \<and> sc_dec_note c t = Some m \<and> nt_id m = i \<and> scope_team (nt_scope m) = wc_team (sc_writer c) \<and>
          parse_object_key (lc_object_key l) = Inr (nt_scope m, i, v)"
    if "read_note c genv i s = Inr m" for i m
    using read_note_sound [OF that] .
  ultimately show ?thesis by (auto split: sum.split)
qed

theorem bucket_cannot_alter_notes_witness:
  "\<exists>c n s key ct. sealed_note c (demo_weather 3) demo_start n = Inr (key, ct) \<and>
     read_note c ((demo_weather 4)\<lparr>oe_get := (\<lambda>_. Inr [])\<rparr>) (nt_id n) s = Inl (Storage ''ciphertext hash does not match the indexed content hash'') \<and>
     read_note c ((demo_weather 4)\<lparr>oe_get := (\<lambda>_. Inr ct)\<rparr>) (nt_id n) s = Inr n"
proof -
  let ?c = "demo_store\<lparr>sc_writer := (sc_writer demo_store)\<lparr>wc_prims := demo_prims\<lparr>blake3 := (\<lambda>bs. bs)\<rparr>\<rparr>\<rparr>"
  let ?n = "new_note demo_store (demo_weather 3) demo_input"
  obtain key ct where "sealed_note demo_store (demo_weather 3) demo_start ?n = Inr (key, ct)" using demo_sealed by blast
  then have sealed: "sealed_note ?c (demo_weather 3) demo_start ?n = Inr (key, ct)" by (simp add: sealed_note_def)
  let ?r = "index_record_of ?n key ct 1 0 None"
  have "\<forall>ts. \<exists>vs. em_embed demo_embedder ts = Inr vs" by (simp add: demo_embedder_def)
  then obtain ix where up: "upsert demo_embedder index_default ?r = (Inr (), ix)" using upsert_answers by blast
  let ?s = "demo_start\<lparr>st_index := ix\<rparr>"
  have "slot_of (index_default :: int index_state) (ir_note_id ?r) = \<lparr>sl_live = None, sl_mark = None, sl_gone = False\<rparr>"
    using demo_fresh by simp
  then have loc: "locate (st_index ?s) (nt_id ?n) = Some \<lparr>lc_object_key = key, lc_cid = content_hash (wc_prims (sc_writer ?c)) ct, lc_key_epoch = st_epoch demo_start\<rparr>"
    using upsert_locates(1) [OF up] by (simp add: content_hash_def slot_of_def)
  have codec: "codec_ok ?c ?n" using demo_codec_ok by (simp add: codec_ok_def)
  have len: "length (oe_nonce (demo_weather 3)) = NONCE_LEN" by (simp add: demo_weather_def NONCE_LEN_def)
  have team: "scope_team (nt_scope ?n) = wc_team (sc_writer ?c)" by simp
  have free: "\<forall>ct'. content_hash (wc_prims (sc_writer ?c)) ct' = content_hash (wc_prims (sc_writer ?c)) ct \<longrightarrow> ct' = ct"
    by (simp add: content_hash_def)
  have keys: "st_keys ?s = st_keys demo_start" by simp
  have "ct \<noteq> []"
    using sealed by (auto simp: sealed_note_def r_bind_Inr_iff seal_def demo_weather_def split: option.splits)
  then show ?thesis
    using sealed bucket_cannot_alter_notes [OF sealed codec len team keys loc free] by (intro exI [of _ ?c] exI [of _ ?n] exI [of _ ?s]) auto
qed

end
