(* ===== verification/Editing.thy ===== *)
theory Editing
  imports Memory
begin

text \<open>
  Concurrent edits: \<^verbatim>\<open>commit_edit\<close> of \<^verbatim>\<open>store/mod.rs\<close> as a compare-and-swap. The calls of one process interleave at the
  writer lock; a session is any interleaving of its operations, and the theorem says that no edit of a note is lost
  in one. The invariant it rests on is that the clock is at or above every version the index holds.
\<close>

section \<open>Definitions\<close>

abbreviation clock_of :: "'f store_state \<Rightarrow> u64" where
  "clock_of s \<equiv> ck_lamport_tip (ws_clock (st_write s))"

definition versions :: "'f index_state \<Rightarrow> (u64 \<times> string) set" where
  "versions ix = {v. \<exists>i. sl_live (slot_of ix i) = Some v \<or> sl_mark (slot_of ix i) = Some v}"

definition covered :: "'f store_state \<Rightarrow> bool" where
  "covered s \<longleftrightarrow> (\<forall>v\<in>versions (st_index s). fst v \<le> clock_of s)"

text \<open>The successful edits of note \<open>i\<close>, each as the version it expected and the version it wrote, oldest first.\<close>

inductive edit_session ::
    "'f::linorder store_config \<Rightarrow> note_id \<Rightarrow> 'f store_state \<Rightarrow> (blake3_hash \<times> blake3_hash) list \<Rightarrow> 'f store_state \<Rightarrow> bool"
  for c i s where
  started: "edit_session c i s [] s"
| edited: "edit_session c i s h s1 \<Longrightarrow>
    commit_edit c env t (index_record_of n (tg_object_key t) (tg_cid t) 0 (tg_key_epoch t) pre) (Some expected) s1 = (res, s2) \<Longrightarrow>
    nt_id n = tg_note_id t \<Longrightarrow>
    edit_session c i s (h @ (if tg_note_id t = i \<and> \<not> isl res then [(expected, tg_cid t)] else [])) s2"
| edited_blindly: "edit_session c i s h s1 \<Longrightarrow>
    commit_edit c env t (index_record_of n (tg_object_key t) (tg_cid t) 0 (tg_key_epoch t) pre) None s1 = (res, s2) \<Longrightarrow>
    nt_id n = tg_note_id t \<Longrightarrow> tg_note_id t \<noteq> i \<Longrightarrow> edit_session c i s h s2"
| remembered: "edit_session c i s h s1 \<Longrightarrow> remember_impl c env input pre s1 = Some (r, s2) \<Longrightarrow> NoteId (oe_note_ulid env) \<noteq> i \<Longrightarrow>
    edit_session c i s h s2"
| forgot: "edit_session c i s h s1 \<Longrightarrow> forget c env j s1 = Some (u, s2) \<Longrightarrow> j \<noteq> i \<Longrightarrow> edit_session c i s h s2"
| redacted: "edit_session c i s h s1 \<Longrightarrow> redact c env members j s1 = Some (u, s2) \<Longrightarrow> j \<noteq> i \<Longrightarrow> edit_session c i s h s2"
| related: "edit_session c i s h s1 \<Longrightarrow> relate c env j to rel s1 = Some (u, s2) \<Longrightarrow> edit_session c i s h s2"
| got: "edit_session c i s h s1 \<Longrightarrow> get c env j s1 = Some (m, s2) \<Longrightarrow> edit_session c i s h s2"
| recalled: "edit_session c i s h s1 \<Longrightarrow> recall c env q s1 = (a, s2) \<Longrightarrow> edit_session c i s h s2"
| wrote_blob: "edit_session c i s h s1 \<Longrightarrow> edit_session c i s h (set_bucket b s1)"
| anchored: "edit_session c i s h s1 \<Longrightarrow> anchor_leaf c env x s1 = Some s2 \<Longrightarrow> edit_session c i s h s2"

text \<open>Each edit expects what the one before it wrote.\<close>

fun edits_linked :: "blake3_hash \<Rightarrow> (blake3_hash \<times> blake3_hash) list \<Rightarrow> bool" where
  "edits_linked v [] = True"
| "edits_linked v ((expected, new) # h) = (expected = v \<and> edits_linked new h)"

section \<open>Lemmas\<close>

lemma edits_linked_append [simp]: "edits_linked v (h @ [(e, n)]) \<longleftrightarrow> edits_linked v h \<and> e = last (v # map snd h)"
  by (induction v h rule: edits_linked.induct) auto

lemma saturating_strict: "u64_saturating_succ a \<le> b \<Longrightarrow> b \<noteq> - 1 \<Longrightarrow> a < b"
proof (rule ccontr)
  assume b: "u64_saturating_succ a \<le> b" "b \<noteq> - 1" "\<not> a < b"
  with u64_saturating_succ_ge [of a] have "a = b" by simp
  with b(2) have "a < - 1" by (simp add: word_order.not_eq_extremum)
  then have "unat (u64_saturating_succ a) = Suc (unat a)" by (rule u64_succ_le(2))
  with b(1) \<open>a = b\<close> show False by (simp add: word_le_nat_alt)
qed

text \<open>The clock only moves forward, and a minted op is at its new position.\<close>

lemma append_clock:
  assumes "append_under_serialization c env opid kind target w = (res, w')"
  shows "ck_lamport_tip (ws_clock w) \<le> ck_lamport_tip (ws_clock w')"
    and "res = Inr x \<Longrightarrow> op_lamport x = ck_lamport_tip (ws_clock w') \<and> u64_saturating_succ (ck_lamport_tip (ws_clock w)) \<le> op_lamport x"
    and "res = Inr x \<Longrightarrow> op_object_key x = tg_object_key target"
proof -
  show "res = Inr x \<Longrightarrow> op_lamport x = ck_lamport_tip (ws_clock w') \<and> u64_saturating_succ (ck_lamport_tip (ws_clock w)) \<le> op_lamport x"
    "res = Inr x \<Longrightarrow> op_object_key x = tg_object_key target"
    by (rule append_result [OF assms], simp)+
  show "ck_lamport_tip (ws_clock w) \<le> ck_lamport_tip (ws_clock w')"
  proof (cases res)
    case (Inl e)
    then show ?thesis using assms
      by (auto simp: append_under_serialization_def adopt_shared_tip_def Let_def split: sum.splits option.splits prod.splits)
  next
    case (Inr x)
    then show ?thesis
      by (rule_tac append_result [OF assms]) (use u64_saturating_succ_ge order_trans in \<open>metis sum.inject(2)\<close>)
  qed
qed

text \<open>Steps that leave note \<open>i\<close> where it is and add no version above the clock.\<close>

definition steady :: "note_id \<Rightarrow> 'f store_state \<Rightarrow> 'f store_state \<Rightarrow> bool" where
  "steady i s s' \<longleftrightarrow>
     clock_of s \<le> clock_of s' \<and> locate (st_index s') i = locate (st_index s) i \<and>
     (\<forall>v\<in>versions (st_index s'). v \<in> versions (st_index s) \<or> fst v \<le> clock_of s')"

lemma steady_covered: "steady i s s' \<Longrightarrow> covered s \<Longrightarrow> covered s'"
  by (auto simp: steady_def covered_def intro: order_trans)

lemma steady_trans: "steady i s s1 \<Longrightarrow> steady i s1 s' \<Longrightarrow> steady i s s'"
  by (auto simp: steady_def intro: order_trans)

lemma steady_same: "st_index s' = st_index s \<Longrightarrow> clock_of s \<le> clock_of s' \<Longrightarrow> steady i s s'"
  by (simp add: steady_def)

lemma steady_anchor: "anchor_leaf c env x s = Some s' \<Longrightarrow> steady i s s'"
  by (rule steady_same) (simp_all add: anchor_leaf_frame(1,5))

lemma versions_slots:
  assumes "\<And>j. slot_of ix' j = slot_of ix j \<or> (sl_live (slot_of ix' j) = None \<or> sl_live (slot_of ix' j) = Some v) \<and>
      (sl_mark (slot_of ix' j) = None \<or> sl_mark (slot_of ix' j) = Some v \<or> sl_mark (slot_of ix' j) = sl_mark (slot_of ix j))"
  shows "versions ix' \<subseteq> insert v (versions ix)"
proof
  fix u
  assume "u \<in> versions ix'"
  then obtain j where "sl_live (slot_of ix' j) = Some u \<or> sl_mark (slot_of ix' j) = Some u" by (auto simp: versions_def)
  with assms [of j] have "u = v \<or> sl_live (slot_of ix j) = Some u \<or> sl_mark (slot_of ix j) = Some u" by auto
  then show "u \<in> insert v (versions ix)" by (auto simp: versions_def)
qed

lemma raise_mark_cases: "raise_mark v m = Some v \<or> raise_mark v m = m"
  by (auto simp: raise_mark_def max_def split: option.split)

lemma versions_upsert: "upsert em ix r = (res, ix') \<Longrightarrow> versions ix' \<subseteq> insert (version_key r) (versions ix)"
  by (rule versions_slots) (auto simp: slot_of_upsert offers_def split: sum.split)

lemma versions_remove: "versions (remove_at ix j l k) \<subseteq> insert (l, k) (versions ix)"
  by (rule versions_slots) (use raise_mark_cases in \<open>auto simp: remove_at_def slot_of_removal\<close>)

lemma versions_redact: "versions (redact_at ix j l k) \<subseteq> insert (l, k) (versions ix)"
  by (rule versions_slots) (use raise_mark_cases in \<open>auto simp: slot_of_redact\<close>)

lemma locate_other:
  "upsert em ix r = (res, ix') \<Longrightarrow> j \<noteq> ir_note_id r \<Longrightarrow> locate ix' j = locate ix j"
  "j \<noteq> i \<Longrightarrow> locate (remove_at ix i l k) j = locate ix j"
  "j \<noteq> i \<Longrightarrow> locate (redact_at ix i l k) j = locate ix j"
  by (auto simp: upsert_def Let_def locate_def apply_record_other remove_at_def redact_at_def map_simps split: option.splits sum.splits)

lemma steady_mint:
  assumes "mint_on c env kind target s = (res, s')"
  shows "steady i s s'" and "st_index s' = st_index s" and "res = Inr x \<Longrightarrow> op_lamport x = clock_of s'"
proof -
  obtain r w where app: "append_under_serialization (sc_writer c) (oe_write env) (oe_ulid env) kind target (st_write s) = (r, w)" by fastforce
  with assms have s': "res = r" "s' = s\<lparr>st_write := w\<rparr>" by (simp_all add: mint_on_def mint_and_append_def)
  with append_clock(1) [OF app] show "steady i s s'" "st_index s' = st_index s" by (auto intro: steady_same)
  show "res = Inr x \<Longrightarrow> op_lamport x = clock_of s'" using append_clock(2) [OF app] s' by simp
qed

lemma steady_located:
  assumes run: "append_on_located c env kind j reindex s = Some (res, s')"
    and "\<forall>x ix. locate (reindex x ix) i = locate ix i" and "\<forall>x ix. versions (reindex x ix) \<subseteq> insert (op_lamport x, op_object_key x) (versions ix)"
  shows "steady i s s'"
proof (cases "locate (st_index s) j")
  case None
  with run show ?thesis by (auto simp: append_on_located_def intro: steady_same)
next
  case (Some l)
  obtain r s1 where mint: "mint_on c env kind (target_of j l) s = (r, s1)" by fastforce
  note m = steady_mint [OF mint]
  show ?thesis
  proof (cases r)
    case (Inl e)
    with run Some mint m(1) show ?thesis by (simp add: append_on_located_def)
  next
    case (Inr x)
    let ?s2 = "s1\<lparr>st_index := reindex x (st_index s1)\<rparr>"
    have "steady i s1 ?s2"
      using assms(2,3) m(3) [OF Inr] by (fastforce simp: steady_def)
    moreover from run Some mint Inr have "anchor_leaf c env x ?s2 = Some s'" by (auto simp: append_on_located_def)
    ultimately show ?thesis using steady_trans m(1) steady_anchor by metis
  qed
qed

lemma steady_get:
  assumes "get c env j s = Some (res, s')"
  shows "steady i s s'"
proof (cases "read_note c env j s")
  case (Inl e)
  with assms show ?thesis by (auto simp: get_def intro: steady_same)
next
  case (Inr n)
  with assms have m: "maybe_reinforce c env j s = Some s'" by (auto simp: get_def)
  obtain q tr where q: "reinforce_qualifies j (oe_instant env) (st_tracker s) = (q, tr)" by fastforce
  let ?s1 = "s\<lparr>st_tracker := tr\<rparr>"
  have s1: "steady i s ?s1" by (rule steady_same) simp_all
  show ?thesis
  proof (cases q)
    case False
    with m q s1 show ?thesis by (simp add: maybe_reinforce_def)
  next
    case True
    with m q obtain r s2 where r: "append_reinforce c env j ?s1 = Some (r, s2)"
      and s': "s' = (case r of Inr _ \<Rightarrow> s2
                | Inl _ \<Rightarrow> s2\<lparr>st_tracker := (st_tracker s2)\<lparr>rt_reinforced := Mapping.delete j (rt_reinforced (st_tracker s2))\<rparr>\<rparr>)"
      by (auto simp: maybe_reinforce_def)
    from r have "steady i ?s1 s2" unfolding append_reinforce_def by (rule steady_located) auto
    moreover have "steady i s2 s'" by (rule steady_same) (auto simp: s' split: sum.split)
    ultimately show ?thesis using s1 steady_trans by metis
  qed
qed

lemma steady_index:
  assumes "versions ix \<subseteq> insert v (versions (st_index s))" and "fst v \<le> clock_of s" and "locate ix i = locate (st_index s) i"
  shows "steady i s (s\<lparr>st_index := ix\<rparr>)"
proof -
  have "u \<in> versions (st_index s) \<or> fst u \<le> clock_of s" if "u \<in> versions ix" for u
    using assms(1,2) that by (cases "u = v") auto
  with assms(3) show ?thesis by (simp add: steady_def)
qed

lemma steady_upsert:
  assumes "upsert em (st_index s) r = (res, ix)" and "ir_note_id r \<noteq> i" and "ir_lamport r \<le> clock_of s"
  shows "steady i s (s\<lparr>st_index := ix\<rparr>)"
proof (rule steady_index [OF versions_upsert [OF assms(1)]])
  show "locate ix i = locate (st_index s) i" using locate_other(1) [OF assms(1)] assms(2) by metis
qed (use assms(3) in simp)

lemma steady_forget:
  assumes "forget c env j s = Some (res, s')" and "j \<noteq> i"
  shows "steady i s s'"
  by (rule steady_located [OF assms(1) [unfolded forget_def]]) (use assms(2) versions_remove locate_other(2) in \<open>metis+\<close>)

lemma steady_relate: "relate c env j to rel s = Some (res, s') \<Longrightarrow> steady i s s'"
  unfolding relate_def by (erule steady_located) auto

lemma steady_recall: "recall c env q s = (res, s') \<Longrightarrow> steady i s s'"
  by (rule steady_same) (auto simp: recall_def Let_def split: sum.splits)

lemma steady_bucket: "steady i s (set_bucket b s)"
  by (rule steady_same) simp_all

lemma scrub_sets_bucket: "scrub_blobs env p s = (res, s') \<Longrightarrow> \<exists>b. s' = set_bucket b s"
proof (cases "oe_list env p")
  case (Inl e)
  then have "scrub_blobs env p s = (res, s') \<Longrightarrow> s' = set_bucket (bucket_of s) s" by (simp add: scrub_blobs_def set_bucket_def)
  then show "scrub_blobs env p s = (res, s') \<Longrightarrow> ?thesis" by blast
next
  case (Inr ks)
  obtain err b where "scrub_keys (oe_delete env) ks None (bucket_of s) = (err, b)" by fastforce
  with Inr show "scrub_blobs env p s = (res, s') \<Longrightarrow> ?thesis" by (auto simp: scrub_blobs_def)
qed

lemma scrub_steady: "scrub_blobs env p s = (res, s') \<Longrightarrow> steady i s s'"
  using scrub_sets_bucket steady_bucket by metis

lemma redact_cases:
  assumes "redact c env members i s = Some (res, s')"
  obtains (unindexed) "locate (st_index s) i = None" "st_index s' = st_index s" "st_write s' = (st_write s)\<lparr>ws_bucket := bucket_of s'\<rparr>"
  | (refused) l e where "locate (st_index s) i = Some l" "res = Inl e" "s' = s"
  | (unminted) l e where "locate (st_index s) i = Some l" "res = Inl e" "mint_on c env Redact (target_of i l) s = (Inl e, s')"
  | (unscrubbed) l p x s1 e where "locate (st_index s) i = Some l" "res = Inl e" "note_blob_prefix (lc_object_key l) = Inr p"
      "mint_on c env Redact (target_of i l) s = (Inr x, s1)" "scrub_blobs env p s1 = (Inl e, s')"
  | (scrubbed) l p x s1 s2 where "locate (st_index s) i = Some l" "res = Inr ()" "note_blob_prefix (lc_object_key l) = Inr p"
      "mint_on c env Redact (target_of i l) s = (Inr x, s1)" "scrub_blobs env p s1 = (Inr (), s2)"
      "anchor_leaf c env x (s2\<lparr>st_index := redact_at (st_index s2) i (op_lamport x) (op_object_key x)\<rparr>) = Some s'"
proof (cases "locate (st_index s) i")
  case None
  with assms have "s' = s \<or> (\<exists>p q. scrub_blobs env p s = (q, s'))"
    by (auto simp: redact_def split: sum.splits if_splits option.splits)
  then have "\<exists>b. s' = set_bucket b s"
  proof
    assume "s' = s"
    then have "s' = set_bucket (bucket_of s) s" by (simp add: set_bucket_def)
    then show ?thesis ..
  qed (use scrub_sets_bucket in blast)
  with None show thesis by (intro unindexed) (auto simp: set_bucket_def)
next
  case (Some l)
  note run = assms [unfolded redact_def Some option.case]
  show thesis
  proof (cases "note_blob_prefix (lc_object_key l)")
    case (Inl e)
    with run Some show thesis by (intro refused) auto
  next
    case (Inr p)
    obtain r s1 where mint: "mint_on c env Redact (target_of i l) s = (r, s1)" by fastforce
    show thesis
    proof (cases r)
      case (Inl e)
      with run Some mint \<open>note_blob_prefix (lc_object_key l) = Inr p\<close> show thesis by (intro unminted) auto
    next
      case x: (Inr x)
      obtain q s2 where scrub: "scrub_blobs env p s1 = (q, s2)" by fastforce
      show thesis
      proof (cases q)
        case (Inl e)
        with run Some mint x Inr scrub show thesis by (intro unscrubbed [of l e p x s1]) auto
      next
        case (Inr u)
        with run Some mint x \<open>note_blob_prefix (lc_object_key l) = Inr p\<close> scrub show thesis
          by (intro scrubbed [of l p x s1 s2]) auto
      qed
    qed
  qed
qed

lemma steady_redact:
  assumes "redact c env members j s = Some (res, s')" and "j \<noteq> i"
  shows "steady i s s'"
  using assms(1)
proof (cases rule: redact_cases)
  case unindexed
  then show ?thesis by (intro steady_same) (auto dest: arg_cong [of _ _ ws_clock])
next
  case (refused l e)
  then show ?thesis by (simp add: steady_same)
next
  case (unminted l e)
  then show ?thesis using steady_mint(1) by blast
next
  case (unscrubbed l p x s1 e)
  then show ?thesis using steady_trans [OF steady_mint(1) scrub_steady] by blast
next
  case (scrubbed l p x s1 s2)
  let ?s3 = "s2\<lparr>st_index := redact_at (st_index s2) j (op_lamport x) (op_object_key x)\<rparr>"
  note m = steady_mint [OF scrubbed(4)] and sc = scrub_steady [OF scrubbed(5)]
  have "op_lamport x \<le> clock_of s2" using m(3) [of x] sc [of i] by (simp add: steady_def)
  then have "steady i s2 ?s3"
    using assms(2) by (intro steady_index [OF versions_redact]) (simp_all add: locate_other(3))
  with m(1) sc steady_anchor [OF scrubbed(6)] show ?thesis using steady_trans by metis
qed

lemma steady_remember:
  assumes "remember_impl c env input pre s = Some (res, s')" and "NoteId (oe_note_ulid env) \<noteq> i"
  shows "steady i s s'"
proof -
  have named: "clock_of s \<le> ck_lamport_tip (ws_clock w')"
    if "append_naming_blob (sc_writer c) (oe_write env) (oe_cleanup env) (oe_ulid env) Remember t ((st_write s)\<lparr>ws_bucket := b\<rparr>) = (r, w')" for t b r w'
  proof -
    obtain r1 w1 where app: "append_under_serialization (sc_writer c) (oe_write env) (oe_ulid env) Remember t ((st_write s)\<lparr>ws_bucket := b\<rparr>) = (r1, w1)"
      by fastforce
    with that have "ws_clock w' = ws_clock w1" by (auto simp: append_naming_blob_def mint_and_append_def split: sum.splits)
    with append_clock(1) [OF app] show ?thesis by simp
  qed
  from assms(1) show ?thesis
  proof (cases rule: remember_cases)
    case (stored_note key ct w' x ix)
    note parse = object_key_parse [OF sealed_note_key [OF stored_note(2)]]
    have w: "steady i s (s\<lparr>st_write := w'\<rparr>)" using named [OF stored_note(4)] by (intro steady_same) simp_all
    have "steady i (s\<lparr>st_write := w'\<rparr>) (s\<lparr>st_write := w', st_index := ix\<rparr>)"
      using steady_upsert [of "sc_embedder c" "s\<lparr>st_write := w'\<rparr>", simplified, OF stored_note(5)] assms(2) naming_stored(7) [OF stored_note(4)] parse
      by simp
    with w steady_anchor [OF stored_note(6)] show ?thesis using steady_trans by metis
  qed (use named in \<open>auto intro!: steady_same steady_bucket\<close>)
qed

subsection \<open>The compare-and-swap\<close>

lemma reclaim_steady: "steady i s s1 \<Longrightarrow> steady i s (reclaim_orphan_blob env k s1)"
  using steady_trans steady_bucket unfolding reclaim_orphan_blob_def by metis

text \<open>A commit is refused without a trace in the index, or appends its op and offers its record.\<close>

lemma commit_edit_cases:
  assumes "commit_edit c env t r pre s = (res, s')"
  obtains (refused) e where "res = Inl e" "st_index s' = st_index s" "clock_of s \<le> clock_of s'"
  | (committed) x w' up ix where
      "append_under_serialization (sc_writer c) (oe_write env) (oe_ulid env) Edit t (st_write s) = (Inr x, w')"
      "\<not> is_redacted (st_index s) (tg_note_id t)"
      "\<forall>v. pre = Some v \<longrightarrow> (\<exists>l. locate (st_index s) (tg_note_id t) = Some l \<and> lc_cid l = v)"
      "upsert (sc_embedder c) (st_index s) (r\<lparr>ir_lamport := op_lamport x\<rparr>) = (up, ix)"
      "s' = s\<lparr>st_write := w', st_index := ix\<rparr>" "isl res = isl up"
proof (cases "is_redacted (st_index s) (tg_note_id t) \<or>
    (\<exists>v. pre = Some v \<and> (\<forall>l. locate (st_index s) (tg_note_id t) = Some l \<longrightarrow> lc_cid l \<noteq> v))")
  case True
  with assms have "isl res" "s' = s \<or> s' = reclaim_orphan_blob env (tg_object_key t) s"
    by (auto simp: commit_edit_def split: option.splits if_splits)
  then show thesis by (cases res) (auto intro!: refused simp: reclaim_orphan_blob_def)
next
  case False
  obtain r1 w1 where app: "append_under_serialization (sc_writer c) (oe_write env) (oe_ulid env) Edit t (st_write s) = (r1, w1)" by fastforce
  from False have run: "(let (res, w) = append_under_serialization (sc_writer c) (oe_write env) (oe_ulid env) Edit t (st_write s);
                 s1 = s\<lparr>st_write := w\<rparr>
             in case res of
                  Inl e \<Rightarrow> (Inl e, reclaim_orphan_blob env (tg_object_key t) s1)
                | Inr x \<Rightarrow>
                    (let (up, ix) = upsert (sc_embedder c) (st_index s1) (r\<lparr>ir_lamport := op_lamport x\<rparr>)
                     in case up of Inl e \<Rightarrow> (Inl e, s1\<lparr>st_index := ix\<rparr>) | Inr _ \<Rightarrow> (Inr x, s1\<lparr>st_index := ix\<rparr>))) = (res, s')"
    using assms by (cases pre) (auto simp: commit_edit_def)
  show thesis
  proof (cases r1)
    case (Inl e)
    with run app append_clock(1) [OF app] show thesis by (intro refused [of e]) (auto simp: reclaim_orphan_blob_def)
  next
    case (Inr x)
    obtain up ix where up: "upsert (sc_embedder c) (st_index s) (r\<lparr>ir_lamport := op_lamport x\<rparr>) = (up, ix)" by fastforce
    with run app Inr False show thesis
      by (cases up; intro committed [of x w1 up ix]) (auto simp: Let_def)
  qed
qed

text \<open>The invariant of a session: the clock covers the index, the edits form a chain, the last one is what is located.\<close>

definition session_ok :: "note_id \<Rightarrow> blake3_hash \<Rightarrow> (blake3_hash \<times> blake3_hash) list \<Rightarrow> 'f store_state \<Rightarrow> bool" where
  "session_ok i v h s \<longleftrightarrow>
     covered s \<and> edits_linked v h \<and> (\<exists>l. locate (st_index s) i = Some l \<and> lc_cid l = last (v # map snd h))"

lemma session_ok_steady: "session_ok i v h s1 \<Longrightarrow> steady i s1 s2 \<Longrightarrow> session_ok i v h s2"
  using steady_covered [of i s1 s2] by (auto simp: session_ok_def steady_def)

lemma session_step:
  assumes "steady i s1 s2" and "clock_of s1 \<noteq> - 1 \<longrightarrow> session_ok i v h s1"
  shows "clock_of s2 \<noteq> - 1 \<longrightarrow> session_ok i v h s2"
proof
  assume "clock_of s2 \<noteq> - 1"
  moreover from assms(1) have "clock_of s1 \<le> clock_of s2" by (simp add: steady_def)
  ultimately have "clock_of s1 \<noteq> - 1" using word_order.extremum_uniqueI by metis
  with assms session_ok_steady show "session_ok i v h s2" by blast
qed

lemma commit_edit_steady:
  assumes run: "commit_edit c env t (index_record_of n (tg_object_key t) (tg_cid t) 0 (tg_key_epoch t) pre) expected s = (res, s')"
    and named: "nt_id n = tg_note_id t" and "tg_note_id t \<noteq> i \<or> isl res"
  shows "steady i s s'"
  using run
proof (cases rule: commit_edit_cases)
  case (refused e)
  then show ?thesis by (intro steady_same)
next
  case (committed x w' up ix)
  note clk = append_clock [OF committed(1)]
  have w: "steady i s (s\<lparr>st_write := w'\<rparr>)" using clk(1) by (intro steady_same) simp_all
  have "steady i (s\<lparr>st_write := w'\<rparr>) (s\<lparr>st_write := w', st_index := ix\<rparr>)"
  proof (cases "isl res")
    case True
    with committed(4,6) have "ix = st_index s" by (auto simp: upsert_def Let_def split: option.splits sum.splits)
    then show ?thesis by (intro steady_same) simp_all
  next
    case False
    with steady_upsert [of "sc_embedder c" "s\<lparr>st_write := w'\<rparr>", simplified, OF committed(4)] clk(2) [of x] named assms(3)
    show ?thesis by simp
  qed
  with w committed(5) show ?thesis using steady_trans by metis
qed

lemma commit_edit_swaps:
  assumes run: "commit_edit c env t (index_record_of n (tg_object_key t) (tg_cid t) 0 (tg_key_epoch t) pre) (Some expected) s = (Inr y, s')"
    and named: "nt_id n = tg_note_id t" and cov: "covered s" and "clock_of s' \<noteq> - 1"
  shows "\<exists>l. locate (st_index s) (tg_note_id t) = Some l \<and> lc_cid l = expected"
    and "locate (st_index s') (tg_note_id t) = Some \<lparr>lc_object_key = tg_object_key t, lc_cid = tg_cid t, lc_key_epoch = tg_key_epoch t\<rparr>"
    and "covered s'" and "clock_of s \<le> clock_of s'"
proof -
  let ?r = "index_record_of n (tg_object_key t) (tg_cid t) 0 (tg_key_epoch t) pre"
  from run obtain x w' ix where x:
      "append_under_serialization (sc_writer c) (oe_write env) (oe_ulid env) Edit t (st_write s) = (Inr x, w')"
      "\<not> is_redacted (st_index s) (tg_note_id t)" "\<exists>l. locate (st_index s) (tg_note_id t) = Some l \<and> lc_cid l = expected"
      "upsert (sc_embedder c) (st_index s) (?r\<lparr>ir_lamport := op_lamport x\<rparr>) = (Inr (), ix)"
      "s' = s\<lparr>st_write := w', st_index := ix\<rparr>"
  proof (cases rule: commit_edit_cases)
    case (committed x w' up ix)
    from committed(6) have "up = Inr ()" by (cases up) auto
    with committed that show thesis by simp
  qed simp
  note clk = append_clock [OF x(1)]
  from x(3) show "\<exists>l. locate (st_index s) (tg_note_id t) = Some l \<and> lc_cid l = expected" .
  have less: "clock_of s < op_lamport x" using clk(2) [of x] assms(4) by (intro saturating_strict) (auto simp: x(5))
  let ?u = "?r\<lparr>ir_lamport := op_lamport x\<rparr>"
  have below: "v < version_key ?u" if "v \<in> versions (st_index s)" for v
  proof -
    from cov that have "fst v \<le> clock_of s" by (auto simp: covered_def)
    with less have "fst v < ir_lamport ?u" by simp
    then show ?thesis by (cases v) (simp add: version_key_def)
  qed
  have live: "\<forall>u. sl_live (slot_of (st_index s) (ir_note_id ?u)) = Some u \<longrightarrow> u \<le> version_key ?u"
    and mark: "\<forall>w. sl_mark (slot_of (st_index s) (ir_note_id ?u)) = Some w \<longrightarrow> w < version_key ?u"
    using below by (auto simp: versions_def intro: less_imp_le)
  show "locate (st_index s') (tg_note_id t) = Some \<lparr>lc_object_key = tg_object_key t, lc_cid = tg_cid t, lc_key_epoch = tg_key_epoch t\<rparr>"
    using upsert_locates(1) [OF x(4) _ live mark] x(2) named by (simp add: x(5))
  show "clock_of s \<le> clock_of s'" using clk(1) by (simp add: x(5))
  show "covered s'"
    unfolding covered_def
  proof
    fix v
    assume "v \<in> versions (st_index s')"
    with versions_upsert [OF x(4)] x(5) have "v = version_key ?u \<or> v \<in> versions (st_index s)" by auto
    then show "fst v \<le> clock_of s'"
      using cov clk(1) clk(2) [of x] by (auto simp: covered_def version_key_def x(5))
  qed
qed

lemma edit_session_ok:
  assumes "edit_session c i s h s'" and "covered s" and "locate (st_index s) i = Some l"
  shows "clock_of s' \<noteq> - 1 \<longrightarrow> session_ok i (lc_cid l) h s'"
  using assms(1)
proof induction
  case started
  then show ?case using assms(2,3) by (simp add: session_ok_def)
next
  case (edited h s1 env t n pre expected res s2)
  show ?case
  proof (cases "tg_note_id t = i \<and> \<not> isl res")
    case True
    then obtain y where y: "res = Inr y" by (cases res) auto
    note run = edited(2) [unfolded y]
    show ?thesis
    proof
      assume top: "clock_of s2 \<noteq> - 1"
      have mono: "clock_of s1 \<le> clock_of s2" using run
        by (cases rule: commit_edit_cases) (auto dest: append_clock(1))
      with top have "clock_of s1 \<noteq> - 1" using word_order.extremum_uniqueI by metis
      with edited(4) have ok: "session_ok i (lc_cid l) h s1" by blast
      then have "covered s1" by (simp add: session_ok_def)
      from commit_edit_swaps [OF run edited(3) this top] ok True show
        "session_ok i (lc_cid l) (h @ (if tg_note_id t = i \<and> \<not> isl res then [(expected, tg_cid t)] else [])) s2"
        by (auto simp: session_ok_def)
    qed
  next
    case False
    then have "steady i s1 s2" using commit_edit_steady [OF edited(2,3)] by blast
    from session_step [OF this edited(4)] False show ?thesis by auto
  qed
next
  case (edited_blindly h s1 env t n pre res s2)
  from session_step [OF commit_edit_steady [OF edited_blindly(2,3)] edited_blindly(5)] edited_blindly(4) show ?case by blast
next
  case (remembered h s1 env input pre r s2)
  from session_step [OF steady_remember [OF remembered(2,3)] remembered(4)] show ?case .
next
  case (forgot h s1 env j u s2)
  from session_step [OF steady_forget [OF forgot(2,3)] forgot(4)] show ?case .
next
  case (redacted h s1 env members j u s2)
  from session_step [OF steady_redact [OF redacted(2,3)] redacted(4)] show ?case .
next
  case (related h s1 env j to rel u s2)
  from session_step [OF steady_relate [OF related(2)] related(3)] show ?case .
next
  case (got h s1 env j m s2)
  from session_step [OF steady_get [OF got(2)] got(3)] show ?case .
next
  case (recalled h s1 env q a s2)
  from session_step [OF steady_recall [OF recalled(2)] recalled(3)] show ?case .
next
  case (wrote_blob h s1 b)
  from session_step [OF steady_bucket wrote_blob(2)] show ?case .
next
  case (anchored h s1 env x s2)
  from session_step [OF steady_anchor [OF anchored(2)] anchored(3)] show ?case .
qed

lemma commit_edit_succeeds:
  assumes "\<not> is_redacted (st_index s) (tg_note_id t)" and "locate (st_index s) (tg_note_id t) = Some l"
    and "we_append (oe_write env) = Done" and "\<forall>ts. \<exists>vs. em_embed (sc_embedder c) ts = Inr vs" and "wc_tip (sc_writer c) = None"
  shows "\<exists>x s'. commit_edit c env t r (Some (lc_cid l)) s = (Inr x, s') \<and> clock_of s' = u64_saturating_succ (clock_of s)"
proof -
  obtain res w where app: "append_under_serialization (sc_writer c) (oe_write env) (oe_ulid env) Edit t (st_write s) = (res, w)" by fastforce
  have "\<exists>x. res = Inr x" by (rule append_result [OF app]) (use assms(3) in blast)
  then obtain x where x: "res = Inr x" ..
  have none: "lock_across_processes (sc_writer c) (oe_write env) = None" using assms(5) by (simp add: lock_across_processes_def)
  have "ck_lamport_tip (ws_clock w) = u64_saturating_succ (clock_of s)"
    using app x by (auto simp: append_under_serialization_def none Let_def split: sum.splits prod.splits)
  moreover obtain ix where "upsert (sc_embedder c) (st_index s) (r\<lparr>ir_lamport := op_lamport x\<rparr>) = (Inr (), ix)"
    using upsert_answers [OF assms(4)] by blast
  ultimately show ?thesis using app x assms(1,2) by (simp add: commit_edit_def Let_def)
qed

definition demo_indexed :: "int store_state" where
  "demo_indexed = demo_start\<lparr>st_index := snd (upsert demo_embedder index_default
     (index_record_of (new_note demo_store (demo_weather 3) demo_input) ''k'' [1] 0 0 None))\<rparr>"

lemma demo_indexed_ok: "covered demo_indexed"
  and demo_indexed_at: "locate (st_index demo_indexed) (NoteId 3) = Some \<lparr>lc_object_key = ''k'', lc_cid = [1], lc_key_epoch = 0\<rparr>"
  and demo_indexed_live: "\<not> is_redacted (st_index demo_indexed) (NoteId 3)"
proof -
  let ?r = "index_record_of (new_note demo_store (demo_weather 3) demo_input) ''k'' [1] 0 0 None"
  have id: "ir_note_id ?r = NoteId 3" by (simp add: demo_weather_def)
  have "\<forall>ts. \<exists>vs. em_embed demo_embedder ts = Inr vs" by (simp add: demo_embedder_def)
  then obtain ix where up: "upsert demo_embedder index_default ?r = (Inr (), ix)" using upsert_answers by blast
  have none: "versions (index_default :: int index_state) = {}"
    by (simp add: versions_def slot_of_def index_default_def lookup_empty)
  have slot: "slot_of (index_default :: int index_state) j = \<lparr>sl_live = None, sl_mark = None, sl_gone = False\<rparr>" for j
    using demo_fresh by simp
  note at = upsert_locates [OF up]
  have "\<not> is_redacted (index_default :: int index_state) (NoteId 3)" by (simp add: index_default_def is_redacted_def)
  with at(1,3) slot id show "locate (st_index demo_indexed) (NoteId 3) = Some \<lparr>lc_object_key = ''k'', lc_cid = [1], lc_key_epoch = 0\<rparr>"
    and "\<not> is_redacted (st_index demo_indexed) (NoteId 3)"
    by (simp_all add: demo_indexed_def up slot_of_def)
  show "covered demo_indexed"
    using versions_upsert [OF up] by (auto simp: covered_def demo_indexed_def up none version_key_def)
qed

section \<open>Properties\<close>



end
