(* ===== verification/Reclaim.thy ===== *)
theory Reclaim
  imports Editing
begin

text \<open>
  What \<^verbatim>\<open>redact\<close> and the orphan sweep of \<^verbatim>\<open>store/mod.rs\<close> delete and what they leave, for any fate of each single delete.
\<close>

section \<open>Lemmas\<close>

subsection \<open>Scrubbing\<close>

lemma scrub_keys_result:
  "scrub_keys fates ks err b = (err', b') \<Longrightarrow>
    Mapping.lookup b' k = (if k \<in> set ks \<and> fates k \<noteq> Refused then None else Mapping.lookup b k) \<and>
    (err' = None \<longleftrightarrow> err = None \<and> (\<forall>j\<in>set ks. fates j = Done))"
proof (induction ks arbitrary: err b)
  case (Cons j ks)
  obtain r b1 where d: "faulty_delete (fates j) b j = (r, b1)" by fastforce
  then have b1: "Mapping.lookup b1 k = (if k = j \<and> fates j \<noteq> Refused then None else Mapping.lookup b k)"
    and r: "isl r \<longleftrightarrow> fates j \<noteq> Done"
    by (cases "fates j"; auto simp: faulty_delete_def map_simps)+
  let ?err = "case r of Inl e \<Rightarrow> (case err of None \<Rightarrow> Some e | Some e0 \<Rightarrow> Some e0) | Inr _ \<Rightarrow> err"
  have err: "?err = None \<longleftrightarrow> err = None \<and> fates j = Done" using r by (cases r) (auto split: option.split)
  from Cons.prems d have "scrub_keys fates ks ?err b1 = (err', b')" by simp
  from Cons.IH [OF this] b1 show ?case by (auto simp: err)
qed simp

lemma scrub_blobs_result:
  assumes "scrub_blobs env p s = (res, s')"
  shows "res = Inr () \<Longrightarrow> \<exists>ks. oe_list env p = Inr ks \<and> (\<forall>k\<in>set ks. Mapping.lookup (bucket_of s') k = None)"
    and "Mapping.lookup (bucket_of s') k \<noteq> Mapping.lookup (bucket_of s) k \<Longrightarrow> \<exists>ks. oe_list env p = Inr ks \<and> k \<in> set ks"
proof -
  consider (failed) e where "oe_list env p = Inl e" "res = Inl e" "s' = s"
    | (listed) ks err b where "oe_list env p = Inr ks" "scrub_keys (oe_delete env) ks None (bucket_of s) = (err, b)"
        "res = (case err of Some e \<Rightarrow> Inl e | None \<Rightarrow> Inr ())" "s' = set_bucket b s"
    using assms by (auto simp: scrub_blobs_def split: sum.splits prod.splits)
  then show "res = Inr () \<Longrightarrow> \<exists>ks. oe_list env p = Inr ks \<and> (\<forall>k\<in>set ks. Mapping.lookup (bucket_of s') k = None)"
    "Mapping.lookup (bucket_of s') k \<noteq> Mapping.lookup (bucket_of s) k \<Longrightarrow> \<exists>ks. oe_list env p = Inr ks \<and> k \<in> set ks"
    using scrub_keys_result by (cases; fastforce split: option.splits if_splits)+
qed

text \<open>Objects of the log lie outside every note's prefix: they have fewer segments.\<close>

lemma slashes_prefix: "note_blob_prefix k0 = Inr p \<Longrightarrow> 3 \<le> count_list (p @ r) (CHR ''/'')"
  by (auto simp: note_blob_prefix_def r_bind_Inr_iff split: prod.splits)

lemma slashes_oplog:
  assumes "validate_component tm = Inr ()"
  shows "count_list (oplog_object_key tm x) (CHR ''/'') = 2"
proof -
  have "CHR ''/'' \<notin> set tm" using assms component_no_slash by (simp add: validate_component_ok)
  moreover have "CHR ''/'' \<notin> set (pad20 (unat (op_lamport x)))" using pad20_chars(1) [of "op_lamport x"] by auto
  moreover have "CHR ''/'' \<notin> set HEX" by code_simp
  then have "CHR ''/'' \<notin> set (key_to_hex (op_author_key x))" by (rule no_hex)
  ultimately show ?thesis using ulid_no_slash [of "op_id x"] by (simp add: oplog_object_key_def)
qed

lemma oplog_not_under: "note_blob_prefix k0 = Inr p \<Longrightarrow> validate_component tm = Inr () \<Longrightarrow> oplog_object_key tm x \<noteq> p @ r"
  using slashes_prefix [of k0 p r] slashes_oplog [of tm x] by auto

text \<open>A minted op is in the log, and the note objects are as they were.\<close>

lemma mint_on_notes:
  assumes "mint_on c env kind t s = (res, s')" and "parse_object_key k = Inr q"
  shows "Mapping.lookup (bucket_of s') k = Mapping.lookup (bucket_of s) k"
proof -
  obtain r w where app: "append_under_serialization (sc_writer c) (oe_write env) (oe_ulid env) kind t (st_write s) = (r, w)" by fastforce
  with assms have w: "s' = s\<lparr>st_write := w\<rparr>" by (simp add: mint_on_def mint_and_append_def)
  have "Mapping.lookup (ws_bucket w) k = Mapping.lookup (bucket_of s) k"
    by (rule append_result [OF app]) (use note_key_internal(1,2) [OF assms(2)] in simp)
  with w show ?thesis by simp
qed

lemma mint_on_stored:
  assumes "mint_on c env kind t s = (Inr x, s')"
  shows "stored (sc_writer c) (bucket_of s') x" "op_kind x = kind" "op_note_id x = tg_note_id t"
proof -
  obtain r w where app: "append_under_serialization (sc_writer c) (oe_write env) (oe_ulid env) kind t (st_write s) = (r, w)" by fastforce
  with assms have w: "r = Inr x" "s' = s\<lparr>st_write := w\<rparr>" by (simp_all add: mint_on_def mint_and_append_def)
  obtain y where "op_kind y = kind" "op_note_id y = tg_note_id t"
    "\<forall>z. r = Inr z \<longleftrightarrow> we_append (oe_write env) = Done \<and> z = y"
    "we_append (oe_write env) = Done \<longrightarrow> stored (sc_writer c) (ws_bucket w) y"
    by (rule append_result [OF app]) (simp add: stored_def)
  with w show "stored (sc_writer c) (bucket_of s') x" "op_kind x = kind" "op_note_id x = tg_note_id t" by auto
qed

subsection \<open>The sweep\<close>

text \<open>What the sweep is told to delete, and what it counts.\<close>

definition aged :: "timestamp \<Rightarrow> int \<Rightarrow> string \<Rightarrow> bool" where
  "aged now grace k \<longleftrightarrow>
     (\<exists>sc i v. parse_object_key k = Inr (sc, i, v) \<and> grace \<le> i64_saturating_sub now (i64_or_max (unat (ulid_timestamp_ms v))))"

definition orphan :: "string set \<Rightarrow> timestamp \<Rightarrow> int \<Rightarrow> string \<Rightarrow> bool" where
  "orphan referenced now grace k \<longleftrightarrow> k \<notin> referenced \<and> aged now grace k"

lemma sweep_keys_result:
  "sweep_keys referenced now grace dry fates ks rep b = (rep', b') \<Longrightarrow>
    (\<forall>k. Mapping.lookup b' k =
       (if \<not> dry \<and> k \<in> set ks \<and> orphan referenced now grace k \<and> fates k \<noteq> Refused then None else Mapping.lookup b k)) \<and>
    os_orphans_found rep' = os_orphans_found rep + length (filter (orphan referenced now grace) ks) \<and>
    os_orphans_reclaimed rep' =
      os_orphans_reclaimed rep + (if dry then 0 else length (filter (\<lambda>k. orphan referenced now grace k \<and> fates k = Done) ks)) \<and>
    os_note_blobs_scanned rep' = os_note_blobs_scanned rep + length (filter (\<lambda>k. \<not> isl (parse_object_key k)) ks) \<and>
    os_within_grace_kept rep' = os_within_grace_kept rep +
      length (filter (\<lambda>k. \<not> isl (parse_object_key k) \<and> k \<notin> referenced \<and> \<not> aged now grace k) ks)"
proof (induction ks arbitrary: rep b)
  case (Cons k ks)
  show ?case
  proof (cases "parse_object_key k")
    case (Inl e)
    then have "\<not> orphan referenced now grace k" by (simp add: orphan_def aged_def)
    with Cons Inl show ?thesis by auto
  next
    case (Inr q)
    obtain sc i v where q: "q = (sc, i, v)" by (cases q)
    let ?rep1 = "rep\<lparr>os_note_blobs_scanned := os_note_blobs_scanned rep + 1\<rparr>"
    have aged: "aged now grace k \<longleftrightarrow> grace \<le> i64_saturating_sub now (i64_or_max (unat (ulid_timestamp_ms v)))"
      by (simp add: aged_def Inr q)
    consider (named) "k \<in> referenced" | (young) "k \<notin> referenced" "\<not> aged now grace k" | (orphan) "k \<notin> referenced" "aged now grace k" by blast
    then show ?thesis
    proof cases
      case named
      with Cons.prems Inr q have "sweep_keys referenced now grace dry fates ks ?rep1 b = (rep', b')" by simp
      from Cons.IH [OF this] named Inr show ?thesis by (auto simp: orphan_def)
    next
      case young
      with Cons.prems Inr q aged
      have "sweep_keys referenced now grace dry fates ks (?rep1\<lparr>os_within_grace_kept := os_within_grace_kept ?rep1 + 1\<rparr>) b = (rep', b')"
        by (simp add: Let_def not_le)
      from Cons.IH [OF this] young Inr show ?thesis by (auto simp: orphan_def)
    next
      case orphan
      let ?rep2 = "?rep1\<lparr>os_orphans_found := os_orphans_found ?rep1 + 1\<rparr>"
      have o: "orphan referenced now grace k" using orphan by (simp add: orphan_def)
      show ?thesis
      proof (cases dry)
        case True
        with Cons.prems Inr q orphan aged have "sweep_keys referenced now grace dry fates ks ?rep2 b = (rep', b')"
          by (simp add: Let_def not_less [symmetric])
        from Cons.IH [OF this] o True Inr orphan show ?thesis by auto
      next
        case False
        obtain r b1 where d: "faulty_delete (fates k) b k = (r, b1)" by fastforce
        then have b1: "\<forall>j. Mapping.lookup b1 j = (if j = k \<and> fates k \<noteq> Refused then None else Mapping.lookup b j)"
          and r: "isl r \<longleftrightarrow> fates k \<noteq> Done"
          by (cases "fates k"; auto simp: faulty_delete_def map_simps)+
        let ?rep3 = "if fates k = Done then ?rep2\<lparr>os_orphans_reclaimed := os_orphans_reclaimed ?rep2 + 1\<rparr> else ?rep2"
        have "sweep_keys referenced now grace dry fates ks ?rep3 b1 = (rep', b')"
          using Cons.prems Inr q orphan aged False d r by (cases r) (simp_all add: Let_def not_less [symmetric])
        from Cons.IH [OF this] o False Inr orphan b1 show ?thesis by auto
      qed
    qed
  qed
qed simp

lemma sweep_cases:
  assumes "sweep_orphan_blobs c dec v1 v2 env grace dry cache b = Some (res, cache', b')"
  obtains (refused) e where "res = Inl e" "b' = b"
  | (swept) o1 o2 c1 ks rep where "res = Inr rep"
      "read_verified (wc_prims (sc_writer c)) dec v1 (wc_team (sc_writer c)) cache = Some (Inr (o1, []), c1)"
      "read_verified (wc_prims (sc_writer c)) dec v2 (wc_team (sc_writer c)) c1 = Some (Inr (o2, []), cache')"
      "oe_list env (wc_team (sc_writer c) @ ''/'') = Inr ks"
      "sweep_keys (op_object_key ` set (ops_of o1) \<union> op_object_key ` set (ops_of o2)) (oe_now env) (i64_or_max grace) dry (oe_delete env) ks
         \<lparr>os_note_blobs_scanned = 0, os_orphans_found = 0, os_orphans_reclaimed = 0, os_within_grace_kept = 0\<rparr> b = (rep, b')"
proof -
  have named: "referenced_keys r = Inr ref \<longleftrightarrow> (\<exists>v. r = Inr (v, []) \<and> ref = op_object_key ` set (ops_of v))" for r ref
    by (cases r) (auto simp: referenced_keys_def split: if_splits)
  from assms obtain r1 c1 where r1: "read_verified (wc_prims (sc_writer c)) dec v1 (wc_team (sc_writer c)) cache = Some (r1, c1)"
    by (auto simp: sweep_orphan_blobs_def Let_def split: Option.bind_splits)
  note run1 = assms [unfolded sweep_orphan_blobs_def Let_def r1 Option.bind.bind_lunit prod.case]
  show thesis
  proof (cases "referenced_keys r1")
    case (Inl e)
    with run1 show thesis by (intro refused) auto
  next
    case ref1: (Inr ref1)
    with run1 obtain r2 c2 where r2: "read_verified (wc_prims (sc_writer c)) dec v2 (wc_team (sc_writer c)) c1 = Some (r2, c2)"
      by (auto split: Option.bind_splits)
    note run2 = run1 [unfolded ref1 sum.case r2 Option.bind.bind_lunit prod.case]
    show thesis
    proof (cases "referenced_keys r2")
      case (Inl e)
      with run2 show thesis by (intro refused) auto
    next
      case ref2: (Inr ref2)
      show thesis
      proof (cases "oe_list env (wc_team (sc_writer c) @ ''/'')")
        case (Inl e)
        with run2 ref2 show thesis by (intro refused) auto
      next
        case (Inr ks)
        from ref1 ref2 obtain o1 o2 where "r1 = Inr (o1, [])" "ref1 = op_object_key ` set (ops_of o1)"
          "r2 = Inr (o2, [])" "ref2 = op_object_key ` set (ops_of o2)" by (auto simp: named)
        moreover obtain rep b0 where "sweep_keys (ref1 \<union> ref2) (oe_now env) (i64_or_max grace) dry (oe_delete env) ks
            \<lparr>os_note_blobs_scanned = 0, os_orphans_found = 0, os_orphans_reclaimed = 0, os_within_grace_kept = 0\<rparr> b = (rep, b0)"
          by fastforce
        ultimately show thesis
          using run2 ref2 Inr r1 r2 by (intro swept [of rep o1 c1 o2 ks]) auto
      qed
    qed
  qed
qed

section \<open>A concrete bucket\<close>

definition demo_key :: string where "demo_key = ''t/global/mem_00000000000000000000000003/ver_00000000000000000000000037''"
definition demo_prefix :: string where "demo_prefix = ''t/global/mem_00000000000000000000000003/''"

lemma demo_key_parts:
  "parse_object_key demo_key = Inr (\<lparr>scope_team = ''t'', scope_repo = Global\<rparr>, NoteId 3, 103)"
  "note_blob_prefix demo_key = Inr demo_prefix"
proof -
  have "object_key \<lparr>scope_team = ''t'', scope_repo = Global\<rparr> (NoteId 3) 103 = Inr demo_key" unfolding demo_key_def by code_simp
  then show parse: "parse_object_key demo_key = Inr (\<lparr>scope_team = ''t'', scope_repo = Global\<rparr>, NoteId 3, 103)" by (rule object_key_parse)
  have "note_id_to_string (NoteId 3) = ''mem_00000000000000000000000003''" by code_simp
  then show "note_blob_prefix demo_key = Inr demo_prefix"
    by (simp add: note_blob_prefix_def parse demo_prefix_def repo_segment_def GLOBAL_SEGMENT_def)
qed

text \<open>The note is in the index and its one blob in the bucket.\<close>

definition demo_holding :: "int store_state" where
  "demo_holding = set_bucket (Mapping.update demo_key [1, 2, 3] Mapping.empty) (demo_start\<lparr>st_index := snd (upsert demo_embedder index_default
     (index_record_of (new_note demo_store (demo_weather 3) demo_input) demo_key [1] 0 0 None))\<rparr>)"

lemma demo_holding_at: "locate (st_index demo_holding) (NoteId 3) = Some \<lparr>lc_object_key = demo_key, lc_cid = [1], lc_key_epoch = 0\<rparr>"
  and demo_holding_other: "locate (st_index demo_holding) (NoteId 4) = None"
proof -
  let ?r = "index_record_of (new_note demo_store (demo_weather 3) demo_input) demo_key [1] 0 0 None"
  have id: "ir_note_id ?r = NoteId 3" by (simp add: demo_weather_def)
  have "\<forall>ts. \<exists>vs. em_embed demo_embedder ts = Inr vs" by (simp add: demo_embedder_def)
  then obtain ix where up: "upsert demo_embedder index_default ?r = (Inr (), ix)" using upsert_answers by blast
  have slot: "slot_of (index_default :: int index_state) j = \<lparr>sl_live = None, sl_mark = None, sl_gone = False\<rparr>" for j
    using demo_fresh by simp
  have none: "locate (index_default :: int index_state) (NoteId 4) = None" by (simp add: locate_def index_default_def lookup_empty)
  have "\<not> is_redacted (index_default :: int index_state) (NoteId 3)" by (simp add: index_default_def is_redacted_def)
  with upsert_locates(1) [OF up] slot id
  show "locate (st_index demo_holding) (NoteId 3) = Some \<lparr>lc_object_key = demo_key, lc_cid = [1], lc_key_epoch = 0\<rparr>"
    by (simp add: demo_holding_def up)
  show "locate (st_index demo_holding) (NoteId 4) = None" using locate_other(1) [OF up, of "NoteId 4"] id none by (simp add: demo_holding_def up)
qed

lemma demo_read_nothing:
  "read_verified demo_prims (\<lambda>_. None) empty_view ''t'' Mapping.empty = Some (Inr (VerifiedOps [], []), Mapping.empty)"
proof -
  have "read_verified demo_prims (\<lambda>_. None) empty_view ''t'' Mapping.empty = Some (Inr (VerifiedOps [], []), update_cache Mapping.empty [] [])"
    by code_simp
  moreover have "update_cache Mapping.empty [] [] = (Mapping.empty :: op_cache)"
    by (rule mapping_eqI) (simp add: update_cache_def lookup_filter lookup_empty)
  ultimately show ?thesis by simp
qed

section \<open>Properties\<close>



text \<open>C12. The sweep deletes exactly the orphans: objects of the listing that have the shape of a note's blob, that no op of either
  verified read names and whose version is at least as old as the grace window; it counts them, and those it could
  delete, right. It deletes nothing when either read fails or reports a broken chain, when the listing fails, or in
  a dry run.\<close>

theorem sweep_deletes_exactly_the_orphans:
  assumes "sweep_orphan_blobs c dec v1 v2 env grace dry cache b = Some (res, cache', b')"
  shows "(isl res \<or> dry \<longrightarrow> (\<forall>k. Mapping.lookup b' k = Mapping.lookup b k)) \<and>
    (\<forall>rep. res = Inr rep \<longrightarrow> (\<exists>o1 o2 c1 ks.
       read_verified (wc_prims (sc_writer c)) dec v1 (wc_team (sc_writer c)) cache = Some (Inr (o1, []), c1) \<and>
       read_verified (wc_prims (sc_writer c)) dec v2 (wc_team (sc_writer c)) c1 = Some (Inr (o2, []), cache') \<and>
       oe_list env (wc_team (sc_writer c) @ ''/'') = Inr ks \<and>
       (let doomed = (\<lambda>k. (\<forall>x\<in>set (ops_of o1) \<union> set (ops_of o2). op_object_key x \<noteq> k) \<and> aged (oe_now env) (i64_or_max grace) k) in
        (\<forall>k. Mapping.lookup b' k = (if \<not> dry \<and> k \<in> set ks \<and> doomed k \<and> oe_delete env k \<noteq> Refused then None else Mapping.lookup b k)) \<and>
        os_orphans_found rep = length (filter doomed ks) \<and>
        os_orphans_reclaimed rep = (if dry then 0 else length (filter (\<lambda>k. doomed k \<and> oe_delete env k = Done) ks)))))"
  using assms
proof (cases rule: sweep_cases)
  case (swept o1 o2 c1 ks rep)
  let ?ref = "op_object_key ` set (ops_of o1) \<union> op_object_key ` set (ops_of o2)"
  let ?doomed = "\<lambda>k. (\<forall>x\<in>set (ops_of o1) \<union> set (ops_of o2). op_object_key x \<noteq> k) \<and> aged (oe_now env) (i64_or_max grace) k"
  have doomed: "orphan ?ref (oe_now env) (i64_or_max grace) = ?doomed" by (auto simp: orphan_def fun_eq_iff)
  note r = sweep_keys_result [OF swept(5), unfolded doomed]
  have "Mapping.lookup b' k = Mapping.lookup b k" if dry for k using r that by simp
  moreover have "\<exists>o1 o2 c1 ks.
       read_verified (wc_prims (sc_writer c)) dec v1 (wc_team (sc_writer c)) cache = Some (Inr (o1, []), c1) \<and>
       read_verified (wc_prims (sc_writer c)) dec v2 (wc_team (sc_writer c)) c1 = Some (Inr (o2, []), cache') \<and>
       oe_list env (wc_team (sc_writer c) @ ''/'') = Inr ks \<and>
       (let doomed = (\<lambda>k. (\<forall>x\<in>set (ops_of o1) \<union> set (ops_of o2). op_object_key x \<noteq> k) \<and> aged (oe_now env) (i64_or_max grace) k) in
        (\<forall>k. Mapping.lookup b' k = (if \<not> dry \<and> k \<in> set ks \<and> doomed k \<and> oe_delete env k \<noteq> Refused then None else Mapping.lookup b k)) \<and>
        os_orphans_found rep = length (filter doomed ks) \<and>
        os_orphans_reclaimed rep = (if dry then 0 else length (filter (\<lambda>k. doomed k \<and> oe_delete env k = Done) ks)))"
    unfolding Let_def
    by (rule exI [of _ o1], rule exI [of _ o2], rule exI [of _ c1], rule exI [of _ ks]) (use swept(2-4) r in simp)
  ultimately show ?thesis using swept(1) by simp
qed simp

theorem sweep_deletes_exactly_the_orphans_witness:
  "\<exists>rep c' b'. sweep_orphan_blobs demo_store (\<lambda>_. None) empty_view empty_view (demo_weather 5) 7 False Mapping.empty
       (Mapping.update demo_key [1] Mapping.empty) = Some (Inr rep, c', b') \<and> os_orphans_found rep = 0 \<and> Mapping.lookup b' demo_key = Some [1]"
proof -
  let ?b = "Mapping.update demo_key [1] Mapping.empty"
  obtain rep c' b' where run: "sweep_orphan_blobs demo_store (\<lambda>_. None) empty_view empty_view (demo_weather 5) 7 False Mapping.empty ?b = Some (Inr rep, c', b')"
    by (simp add: sweep_orphan_blobs_def Let_def referenced_keys_def demo_read_nothing demo_weather_def)
  have "oe_list (demo_weather 5) k = Inr []" for k by (simp add: demo_weather_def)
  with sweep_deletes_exactly_the_orphans [OF run] have "os_orphans_found rep = 0" "Mapping.lookup b' demo_key = Mapping.lookup ?b demo_key"
    by (auto simp: Let_def)
  with run show ?thesis by (auto simp: lookup_update)
qed

text \<open>C39. The sweep trusts the listing of the log: when both verified reads go well but the listing behind them left out an op, the last of its author's chain, say,
  or all of them, so that no chain looks broken, the blob of a note that is live in the log is deleted once
  older than the grace window, and the op that names it stays. The signed heads, which would show the omission, are
  not consulted.\<close>

theorem sweep_trusts_listing:
  assumes "read_verified (wc_prims (sc_writer c)) dec v1 (wc_team (sc_writer c)) cache = Some (Inr (o1, []), c1)"
    and "read_verified (wc_prims (sc_writer c)) dec v2 (wc_team (sc_writer c)) c1 = Some (Inr (o2, []), c2)"
    and "stored (sc_writer c) b x" and "op_kind x = Remember" and "op_object_key x = k" and "\<forall>y\<in>set (ops_of o1) \<union> set (ops_of o2). op_object_key y \<noteq> k"
    and "oe_list env (wc_team (sc_writer c) @ ''/'') = Inr ks" and "k \<in> set ks" and "aged (oe_now env) (i64_or_max grace) k" and "oe_delete env k = Done"
  shows "\<exists>rep b'. sweep_orphan_blobs c dec v1 v2 env grace False cache b = Some (Inr rep, c2, b') \<and>
    stored (sc_writer c) b' x \<and> Mapping.lookup b' (op_object_key x) = None"
proof -
  let ?ref = "op_object_key ` set (ops_of o1) \<union> op_object_key ` set (ops_of o2)"
  obtain rep b' where sw: "sweep_keys ?ref (oe_now env) (i64_or_max grace) False (oe_delete env) ks
         \<lparr>os_note_blobs_scanned = 0, os_orphans_found = 0, os_orphans_reclaimed = 0, os_within_grace_kept = 0\<rparr> b = (rep, b')"
    by fastforce
  have run: "sweep_orphan_blobs c dec v1 v2 env grace False cache b = Some (Inr rep, c2, b')"
    using assms(1,2,7) sw by (simp add: sweep_orphan_blobs_def Let_def referenced_keys_def)
  note r = sweep_keys_result [OF sw]
  have "orphan ?ref (oe_now env) (i64_or_max grace) k" using assms(6,9) by (auto simp: orphan_def)
  with r assms(8,10) have "Mapping.lookup b' k = None" by simp
  moreover have "\<not> aged (oe_now env) (i64_or_max grace) (oplog_object_key (wc_team (sc_writer c)) x)"
    using note_key_internal(1) unfolding aged_def by metis
  then have "stored (sc_writer c) b' x" using r assms(3) by (simp add: stored_def orphan_def)
  ultimately show ?thesis using run assms(5) by blast
qed

theorem sweep_trusts_listing_witness:
  "\<exists>b x rep c' b'. stored (sc_writer demo_store) b x \<and> Mapping.lookup b (op_object_key x) \<noteq> None \<and>
     sweep_orphan_blobs demo_store (\<lambda>_. None) empty_view empty_view ((demo_weather 5)\<lparr>oe_list := (\<lambda>_. Inr [op_object_key x])\<rparr>) 0 False
       Mapping.empty b = Some (Inr rep, c', b') \<and>
     stored (sc_writer demo_store) b' x \<and> Mapping.lookup b' (op_object_key x) = None"
proof -
  obtain s where run: "remember_impl demo_store (demo_weather 3) demo_input None demo_start = Some (Inr (NoteId 3), s)"
    using demo_remember by blast
  obtain key ct x where r: "sealed_note demo_store (demo_weather 3) demo_start (new_note demo_store (demo_weather 3) demo_input) = Inr (key, ct)"
    "Mapping.lookup (bucket_of s) key = Some ct" "stored (sc_writer demo_store) (bucket_of s) x" "op_kind x = Remember" "op_object_key x = key"
    by (rule remember_stored [OF run demo_store_ok demo_fresh]) (rule that)
  let ?env = "(demo_weather 5)\<lparr>oe_list := (\<lambda>_. Inr [op_object_key x])\<rparr>"
  have read: "read_verified (wc_prims (sc_writer demo_store)) (\<lambda>_. None) empty_view (wc_team (sc_writer demo_store)) Mapping.empty =
      Some (Inr (VerifiedOps [], []), Mapping.empty)"
    by (simp add: demo_read_nothing)
  have "parse_object_key key = Inr (\<lparr>scope_team = ''t'', scope_repo = Global\<rparr>, NoteId 3, 103)"
    using object_key_parse [OF sealed_note_key [OF r(1)]] by (simp add: demo_weather_def demo_input_def)
  moreover have "drop_bit 80 (103 :: ulid) = 0" by (simp add: word_unat_eq_iff unat_drop_bit_eq drop_bit_eq_div)
  then have "ulid_timestamp_ms 103 = 0" by (simp add: ulid_timestamp_ms_def RAND_BITS_def)
  ultimately have "aged (oe_now ?env) (i64_or_max 0) key"
    by (auto simp: aged_def i64_or_max_def i64_saturating_sub_def demo_weather_def)
  with sweep_trusts_listing [OF read read r(3,4) r(5), of ?env "[key]" 0] r show ?thesis
    by (intro exI [of _ "bucket_of s"] exI [of _ x]) (auto simp: demo_weather_def)
qed

text \<open>Redacting again a note that has left the index scrubs the prefix of the key its Redact op carries, and nothing checks that this
  is the note's own: with an op whose key is another note's, every version of that other note is deleted while the
  index goes on showing it as live.\<close>

theorem repeated_redact_scrubs_named_note:
  assumes "locate (st_index s) i = None" and "oe_list env (wc_team (sc_writer c) @ ''/'') = Inr all"
    and "\<exists>k\<in>set all. sublist (''/'' @ note_id_to_string i @ ''/'') k \<and> \<not> isl (parse_object_key k)"
    and "find (\<lambda>x. op_note_id x = i \<and> op_kind x = Redact) ops = Some x" and "parse_object_key (op_object_key x) = Inr (sc, j, v)"
    and "note_blob_prefix (op_object_key x) = Inr p" and "oe_list env p = Inr ks" and "\<forall>k\<in>set ks. oe_delete env k = Done"
    and "locate (st_index s) j = Some l" and "lc_object_key l \<in> set ks"
  shows "\<exists>s'. redact c env (Inr ops) i s = Some (Inr (), s') \<and> locate (st_index s') j = Some l \<and>
    (\<forall>k\<in>set ks. Mapping.lookup (bucket_of s') k = None)"
proof -
  obtain err b where sc: "scrub_keys (oe_delete env) ks None (bucket_of s) = (err, b)" by fastforce
  note r = scrub_keys_result [OF sc]
  from r assms(8) have err: "err = None" by simp
  have "list_ex (\<lambda>k. sublist (''/'' @ note_id_to_string i @ ''/'') k \<and> \<not> isl (parse_object_key k)) all"
    using assms(3) by (simp add: list_ex_iff)
  then have "redact c env (Inr ops) i s = Some (Inr (), set_bucket b s)"
    using assms(1,2,4,6,7) sc err by (simp add: redact_def redacted_note_object_key_def scrub_blobs_def)
  moreover have "\<forall>k\<in>set ks. Mapping.lookup b k = None" using r assms(8) by simp
  ultimately show ?thesis using assms(9) by auto
qed

definition demo_redact :: op where
  "demo_redact = create_signed (demo_writer 7) \<lparr>oc_op_id = 1, oc_lamport = 2, oc_key_epoch = 0, oc_kind = Redact, oc_note_id = NoteId 4,
     oc_object_key = demo_key, oc_cid = [1], oc_prev_op_hash = GENESIS_PREV\<rparr>"

theorem repeated_redact_scrubs_named_note_witness:
  "\<exists>s'. redact demo_store ((demo_weather 5)\<lparr>oe_list := (\<lambda>p. if p = ''t/'' then Inr [''t/global/mem_00000000000000000000000004/ver_00000000000000000000000037'']
       else Inr [demo_key])\<rparr>) (Inr [demo_redact]) (NoteId 4) demo_holding = Some (Inr (), s') \<and>
     locate (st_index s') (NoteId 3) \<noteq> None \<and> Mapping.lookup (bucket_of s') demo_key = None"
proof -
  let ?k = "''t/global/mem_00000000000000000000000004/ver_00000000000000000000000037''"
  let ?env = "(demo_weather 5)\<lparr>oe_list := (\<lambda>p. if p = ''t/'' then Inr [?k] else Inr [demo_key])\<rparr>"
  have "object_key \<lparr>scope_team = ''t'', scope_repo = Global\<rparr> (NoteId 4) 103 = Inr ?k" by code_simp
  from object_key_parse [OF this] have parsed: "\<not> isl (parse_object_key ?k)" by simp
  have "note_id_to_string (NoteId 4) = ''mem_00000000000000000000000004''" by code_simp
  then have "?k = ''t/global'' @ (''/'' @ note_id_to_string (NoteId 4) @ ''/'') @ ''ver_00000000000000000000000037''" by simp
  then have "sublist (''/'' @ note_id_to_string (NoteId 4) @ ''/'') ?k" by (metis sublist_appendI)
  with parsed have survivor: "\<exists>k\<in>set [?k]. sublist (''/'' @ note_id_to_string (NoteId 4) @ ''/'') k \<and> \<not> isl (parse_object_key k)" by simp
  have found: "find (\<lambda>x. op_note_id x = NoteId 4 \<and> op_kind x = Redact) [demo_redact] = Some demo_redact" "op_object_key demo_redact = demo_key"
    by (simp_all add: demo_redact_def create_signed_def Let_def)
  have lists: "oe_list ?env (wc_team (sc_writer demo_store) @ ''/'') = Inr [?k]" "oe_list ?env demo_prefix = Inr [demo_key]"
    "\<forall>k\<in>set [demo_key]. oe_delete ?env k = Done"
    by (simp_all add: demo_prefix_def demo_weather_def)
  from repeated_redact_scrubs_named_note [OF demo_holding_other lists(1) survivor found(1) _ _ lists(2,3) demo_holding_at]
  show ?thesis by (auto simp: found(2) demo_key_parts)
qed

end
