(* ===== verification/Checkpoint.thy ===== *)
theory Checkpoint
  imports Memory
begin

text \<open>
  Index checkpoints: the sealed snapshots of \<^verbatim>\<open>store/snapshot.rs\<close> in the bucket, their choice and their retention, and the
  local cache of the newest one (\<^verbatim>\<open>store/checkpoint_cache.rs\<close>) in memory and in a small file.
\<close>

section \<open>Definitions\<close>

subsection \<open>Snapshots\<close>

record sealed_record =
  sr_note_id :: note_id
  sr_lamport :: u64
  sr_object_key :: string
  sr_key_epoch :: u64
  sr_sealed :: bytes

record index_snapshot =
  sn_team :: string
  sn_last_lamport :: u64
  sn_vector_space :: "string option"
  sn_records :: "sealed_record list"

text \<open>The JSON of a record and of a snapshot.\<close>

record 'f snapshot_codec =
  cc_enc_record :: "'f index_record \<Rightarrow> bytes"
  cc_dec_record :: "bytes \<Rightarrow> 'f index_record option"
  cc_enc_snapshot :: "index_snapshot \<Rightarrow> bytes"
  cc_dec_snapshot :: "bytes \<Rightarrow> index_snapshot option"

definition seal_record :: "aead \<Rightarrow> 'f snapshot_codec \<Rightarrow> bytes \<Rightarrow> 'f index_record \<Rightarrow> bytes \<Rightarrow> mem_error + sealed_record" where
  "seal_record A cc nonce r epoch_key =
     r_bind (seal A nonce epoch_key (cc_enc_record cc r) (as_bytes (ir_object_key r))) (\<lambda>sealed.
       Inr \<lparr>sr_note_id = ir_note_id r, sr_lamport = ir_lamport r, sr_object_key = ir_object_key r,
            sr_key_epoch = ir_key_epoch r, sr_sealed = sealed\<rparr>)"

definition open_record :: "aead \<Rightarrow> 'f snapshot_codec \<Rightarrow> sealed_record \<Rightarrow> bytes \<Rightarrow> mem_error + 'f index_record" where
  "open_record A cc sr epoch_key =
     r_bind (open_blob A epoch_key (sr_sealed sr) (as_bytes (sr_object_key sr))) (\<lambda>plaintext.
       case cc_dec_record cc plaintext of None \<Rightarrow> Inl Serialize | Some r \<Rightarrow> Inr r)"

definition snapshot_prefix :: "string \<Rightarrow> string" where
  "snapshot_prefix team = team @ ''/_snapshots/''"

definition SNAPSHOT_RETENTION :: nat where "SNAPSHOT_RETENTION = 3"

definition snapshot_key :: "string \<Rightarrow> u64 \<Rightarrow> string" where
  "snapshot_key team last_lamport = snapshot_prefix team @ pad20 (unat last_lamport)"

definition seal_snapshot :: "aead \<Rightarrow> 'f snapshot_codec \<Rightarrow> bytes \<Rightarrow> bytes \<Rightarrow> index_snapshot \<Rightarrow> mem_error + (string \<times> bytes)" where
  "seal_snapshot A cc nonce key snapshot =
     (let k = snapshot_key (sn_team snapshot) (sn_last_lamport snapshot) in
      r_bind (seal A nonce key (cc_enc_snapshot cc snapshot) (as_bytes k)) (\<lambda>sealed. Inr (k, sealed)))"

text \<open>\<^verbatim>\<open>str::parse::<u64>\<close> on ASCII digits.\<close>

definition is_digit :: "char \<Rightarrow> bool" where
  "is_digit c \<longleftrightarrow> 48 \<le> (of_char c :: nat) \<and> (of_char c :: nat) \<le> 57"

definition dec_value :: "string \<Rightarrow> nat" where
  "dec_value s = foldl (\<lambda>n c. 10 * n + (of_char c - 48)) 0 s"

definition parse_u64 :: "string \<Rightarrow> u64 option" where
  "parse_u64 s = (if dec_value s < 2 ^ 64 then Some (of_nat (dec_value s)) else None)"

definition snapshot_key_lamport :: "string \<Rightarrow> string \<Rightarrow> u64 option" where
  "snapshot_key_lamport pre key =
     (case strip_prefix pre key of
        None \<Rightarrow> None
      | Some suf \<Rightarrow> if length suf \<noteq> 20 \<or> \<not> list_all is_digit suf then None else parse_u64 suf)"

definition is_snapshot_object :: "string \<Rightarrow> string \<Rightarrow> bool" where
  "is_snapshot_object pre key \<longleftrightarrow> snapshot_key_lamport pre key \<noteq> None"

definition snapshot_bound_to_key :: "string \<Rightarrow> string \<Rightarrow> index_snapshot \<Rightarrow> bool" where
  "snapshot_bound_to_key team key snapshot =
     (if sn_team snapshot \<noteq> team then False
      else case snapshot_key_lamport (snapshot_prefix team) key of
             None \<Rightarrow> False
           | Some key_lamport \<Rightarrow> key_lamport = sn_last_lamport snapshot)"

text \<open>The deletes that fail are only logged; the list is the keys the bucket answers with.\<close>

fun prune_keys :: "(string \<Rightarrow> fate) \<Rightarrow> string list \<Rightarrow> memory_blob_store \<Rightarrow> memory_blob_store" where
  "prune_keys fates [] b = b"
| "prune_keys fates (k # ks) b = prune_keys fates ks (snd (faulty_delete (fates k) b k))"

definition prune_old_snapshots ::
    "(string \<Rightarrow> mem_error + string list) \<Rightarrow> (string \<Rightarrow> fate) \<Rightarrow> string \<Rightarrow> memory_blob_store \<Rightarrow> memory_blob_store" where
  "prune_old_snapshots list fates team b =
     (let pre = snapshot_prefix team in
      case list pre of
        Inl _ \<Rightarrow> b
      | Inr keys \<Rightarrow>
          let snapshots = filter (is_snapshot_object pre) keys in
          if length snapshots < SNAPSHOT_RETENTION then b
          else prune_keys fates (take (length snapshots - SNAPSHOT_RETENTION) snapshots) b)"

text \<open>\<open>list\<close> is the listing the bucket answers with once the object is stored.\<close>

definition save_snapshot ::
    "aead \<Rightarrow> 'f snapshot_codec \<Rightarrow> bytes \<Rightarrow> fate \<Rightarrow> (memory_blob_store \<Rightarrow> string \<Rightarrow> mem_error + string list) \<Rightarrow> (string \<Rightarrow> fate)
      \<Rightarrow> bytes \<Rightarrow> index_snapshot \<Rightarrow> memory_blob_store \<Rightarrow> (mem_error + unit) \<times> memory_blob_store" where
  "save_snapshot A cc nonce put list fates key snapshot b =
     (case seal_snapshot A cc nonce key snapshot of
        Inl e \<Rightarrow> (Inl e, b)
      | Inr (k, sealed) \<Rightarrow>
          (let (r, b1) = faulty_put put b k sealed
           in case r of
                Inl e \<Rightarrow> (Inl e, b1)
              | Inr _ \<Rightarrow> (Inr (), prune_old_snapshots (list b1) fates (sn_team snapshot) b1)))"

record fetched_snapshot =
  fs_object_key :: string
  fs_sealed :: bytes
  fs_snapshot :: index_snapshot

definition open_snapshot :: "aead \<Rightarrow> 'f snapshot_codec \<Rightarrow> bytes \<Rightarrow> string \<Rightarrow> string \<Rightarrow> bytes \<Rightarrow> index_snapshot option" where
  "open_snapshot A cc key team k sealed =
     (case open_blob A key sealed (as_bytes k) of
        Inl _ \<Rightarrow> None
      | Inr plaintext \<Rightarrow>
          (case cc_dec_snapshot cc plaintext of
             Some snapshot \<Rightarrow> if snapshot_bound_to_key team k snapshot then Some snapshot else None
           | None \<Rightarrow> None))"

text \<open>The scan takes the keys newest first.\<close>

fun fetch_scan ::
    "(string \<Rightarrow> mem_error + bytes) \<Rightarrow> (string \<Rightarrow> bytes \<Rightarrow> index_snapshot option) \<Rightarrow> string list \<Rightarrow> mem_error + fetched_snapshot option" where
  "fetch_scan fetch op_snap [] = Inr None"
| "fetch_scan fetch op_snap (k # ks) =
     (case fetch k of
        Inl (NotFound _) \<Rightarrow> fetch_scan fetch op_snap ks
      | Inl (BlobTooLarge _ _) \<Rightarrow> fetch_scan fetch op_snap ks
      | Inl e \<Rightarrow> Inl e
      | Inr sealed \<Rightarrow>
          (case op_snap k sealed of
             Some snapshot \<Rightarrow> Inr (Some \<lparr>fs_object_key = k, fs_sealed = sealed, fs_snapshot = snapshot\<rparr>)
           | None \<Rightarrow> fetch_scan fetch op_snap ks))"

definition fetch_newest_snapshot ::
    "aead \<Rightarrow> 'f snapshot_codec \<Rightarrow> (string \<Rightarrow> mem_error + bytes) \<Rightarrow> bytes \<Rightarrow> string \<Rightarrow> string list \<Rightarrow> mem_error + fetched_snapshot option" where
  "fetch_newest_snapshot A cc fetch key team keys = fetch_scan fetch (open_snapshot A cc key team) (rev keys)"

definition load_latest_snapshot ::
    "aead \<Rightarrow> 'f snapshot_codec \<Rightarrow> (string \<Rightarrow> mem_error + string list) \<Rightarrow> (string \<Rightarrow> mem_error + bytes) \<Rightarrow> bytes \<Rightarrow> string
      \<Rightarrow> mem_error + index_snapshot option" where
  "load_latest_snapshot A cc list fetch key team =
     r_bind (list (snapshot_prefix team)) (\<lambda>keys.
     r_bind (fetch_newest_snapshot A cc fetch key team keys) (\<lambda>fetched. Inr (map_option fs_snapshot fetched)))"

subsection \<open>The local cache\<close>

definition KEY_LEN_BYTES :: nat where "KEY_LEN_BYTES = 4"

datatype persist = MemoryAndDisk | MemoryOnly

record cached_snapshot =
  ca_object_key :: string
  ca_epoch :: u64
  ca_snapshot :: index_snapshot

text \<open>The memory layer and the machine's disk; \<open>file_path\<close> below is the cache file's path when there is one.\<close>

record checkpoint_cache =
  cp_memory :: "cached_snapshot option"
  cp_disk :: disk

text \<open>\<^verbatim>\<open>u32::to_be_bytes\<close> and back.\<close>

definition u32_be_bytes :: "nat \<Rightarrow> bytes" where
  "u32_be_bytes n = map (\<lambda>i. of_nat (n div 256 ^ i)) [3, 2, 1, 0]"

definition u32_from_be :: "bytes \<Rightarrow> nat" where
  "u32_from_be bs = foldl (\<lambda>n b. 256 * n + unat b) 0 bs"

definition split_at_checked :: "nat \<Rightarrow> 'a list \<Rightarrow> ('a list \<times> 'a list) option" where
  "split_at_checked n xs = (if n \<le> length xs then Some (take n xs, drop n xs) else None)"

definition split_file :: "bytes \<Rightarrow> (bytes \<times> bytes) option" where
  "split_file bs =
     (case split_at_checked KEY_LEN_BYTES bs of
        None \<Rightarrow> None
      | Some (len_prefix, rest) \<Rightarrow> split_at_checked (u32_from_be len_prefix) rest)"

definition cache_file :: "string \<Rightarrow> bytes \<Rightarrow> bytes" where
  "cache_file okey sealed = u32_be_bytes (length okey) @ as_bytes okey @ sealed"

definition memory_hit :: "string \<Rightarrow> u64 \<Rightarrow> checkpoint_cache \<Rightarrow> index_snapshot option" where
  "memory_hit okey epoch c =
     (case cp_memory c of
        Some cached \<Rightarrow> if ca_object_key cached = okey \<and> ca_epoch cached = epoch then Some (ca_snapshot cached) else None
      | None \<Rightarrow> None)"

definition cache_remember :: "string \<Rightarrow> u64 \<Rightarrow> index_snapshot \<Rightarrow> checkpoint_cache \<Rightarrow> checkpoint_cache" where
  "cache_remember okey epoch snapshot c =
     c\<lparr>cp_memory := Some \<lparr>ca_object_key = okey, ca_epoch = epoch, ca_snapshot = snapshot\<rparr>\<rparr>"

definition cache_read_file :: "path option \<Rightarrow> io_env \<Rightarrow> checkpoint_cache \<Rightarrow> bytes option" where
  "cache_read_file file_path e c =
     (case file_path of None \<Rightarrow> None | Some p \<Rightarrow> (case read_file e (cp_disk c) p of Inl _ \<Rightarrow> None | Inr bs \<Rightarrow> Some bs))"

definition cache_get ::
    "aead \<Rightarrow> 'f snapshot_codec \<Rightarrow> path option \<Rightarrow> io_env \<Rightarrow> string \<Rightarrow> u64 \<Rightarrow> bytes \<Rightarrow> string \<Rightarrow> checkpoint_cache
      \<Rightarrow> index_snapshot option \<times> checkpoint_cache" where
  "cache_get A cc file_path e okey epoch key team c =
     (case memory_hit okey epoch c of
        Some snapshot \<Rightarrow> (Some snapshot, c)
      | None \<Rightarrow>
          (case Option.bind (cache_read_file file_path e c) split_file of
             None \<Rightarrow> (None, c)
           | Some (cached_key, sealed) \<Rightarrow>
               if cached_key \<noteq> as_bytes okey then (None, c)
               else case open_snapshot A cc key team okey sealed of
                      None \<Rightarrow> (None, c)
                    | Some snapshot \<Rightarrow> (Some snapshot, cache_remember okey epoch snapshot c)))"

definition cache_write_file :: "path option \<Rightarrow> io_env \<Rightarrow> string \<Rightarrow> bytes \<Rightarrow> checkpoint_cache \<Rightarrow> checkpoint_cache" where
  "cache_write_file file_path e okey sealed c =
     (case file_path of
        None \<Rightarrow> c
      | Some p \<Rightarrow>
          if length okey \<ge> 2 ^ 32 then c
          else c\<lparr>cp_disk := last (snd (write_atomically e (cp_disk c) p ''checkpoint-'' ''.tmp'' (cache_file okey sealed)))\<rparr>)"

definition drop_disk_copy :: "path option \<Rightarrow> io_env \<Rightarrow> checkpoint_cache \<Rightarrow> checkpoint_cache" where
  "drop_disk_copy file_path e c =
     (case file_path of
        None \<Rightarrow> c
      | Some p \<Rightarrow> if io_remove_fails e then c else c\<lparr>cp_disk := Mapping.delete p (cp_disk c)\<rparr>)"

definition cache_keep ::
    "path option \<Rightarrow> io_env \<Rightarrow> fetched_snapshot \<Rightarrow> u64 \<Rightarrow> persist \<Rightarrow> checkpoint_cache \<Rightarrow> index_snapshot \<times> checkpoint_cache" where
  "cache_keep file_path e fetched epoch persist c =
     (let c1 = cache_remember (fs_object_key fetched) epoch (fs_snapshot fetched) c
      in (fs_snapshot fetched,
          case persist of
            MemoryAndDisk \<Rightarrow> cache_write_file file_path e (fs_object_key fetched) (fs_sealed fetched) c1
          | MemoryOnly \<Rightarrow> drop_disk_copy file_path e c1))"

definition cache_forget :: "path option \<Rightarrow> io_env \<Rightarrow> checkpoint_cache \<Rightarrow> checkpoint_cache" where
  "cache_forget file_path e c = drop_disk_copy file_path e (c\<lparr>cp_memory := None\<rparr>)"

section \<open>Lemmas\<close>

subsection \<open>Keys\<close>

lemma dec_value_snoc: "dec_value (s @ [c]) = 10 * dec_value s + (of_char c - 48)"
  by (simp add: dec_value_def)

lemma of_digit_char: "d < 10 \<Longrightarrow> (of_char (char_of (48 + d :: nat)) :: nat) = 48 + d"
  by simp

lemma is_digit_char: "d < 10 \<Longrightarrow> is_digit (char_of (48 + d :: nat))"
  by (simp add: is_digit_def)

lemma dec_value_fixed: "dec_value (fixed_dec k n) = n mod 10 ^ k"
proof (induction k arbitrary: n)
  case (Suc k)
  have "10 * (n div 10 mod 10 ^ k) + n mod 10 = n mod (10 * 10 ^ k)" by (rule mod_mult2_eq [symmetric])
  then show ?case by (simp add: dec_value_snoc Suc.IH of_digit_char)
qed (simp add: dec_value_def)

lemma digits_fixed: "list_all is_digit (fixed_dec k n)"
  by (induction k arbitrary: n) (simp_all add: is_digit_char)

lemma fixed_dec_value: "list_all is_digit s \<Longrightarrow> fixed_dec (length s) (dec_value s) = s"
proof (induction s rule: rev_induct)
  case (snoc c s)
  then have c: "48 \<le> (of_char c :: nat)" "(of_char c :: nat) \<le> 57" by (simp_all add: is_digit_def)
  obtain d where d: "(of_char c :: nat) = 48 + d" "d < 10" 
    using c that [of "of_char c - 48"] by simp
  then have "char_of (48 + d) = c" by (metis char_of_char)
  with d snoc show ?case by (simp add: dec_value_snoc)
qed simp

text \<open>The parser accepts exactly the keys that are minted.\<close>

lemma snapshot_key_lamport_iff: "snapshot_key_lamport (snapshot_prefix team) k = Some l \<longleftrightarrow> k = snapshot_key team l"
proof
  assume a: "snapshot_key_lamport (snapshot_prefix team) k = Some l"
  then obtain suf where suf: "strip_prefix (snapshot_prefix team) k = Some suf" and len: "length suf = 20"
    and d: "list_all is_digit suf" and v: "dec_value suf < 2 ^ 64" and l: "l = of_nat (dec_value suf)"
    by (auto simp: snapshot_key_lamport_def parse_u64_def split: option.splits if_splits)
  have k: "k = snapshot_prefix team @ suf"
    using suf append_take_drop_id [of "length (snapshot_prefix team)" k] unfolding strip_prefix_def by (metis option.distinct(1) option.inject)
  have "unat l = dec_value suf" using v by (simp add: l unat_of_nat)
  then have "pad20 (unat l) = suf" using fixed_dec_value [OF d] len u64_pad20 [of l] by simp
  then show "k = snapshot_key team l" by (simp add: k snapshot_key_def)
next
  assume "k = snapshot_key team l"
  moreover have "dec_value (pad20 (unat l)) = unat l"
    using u64_lt_10_20 [of l] by (simp add: u64_pad20 dec_value_fixed)
  moreover have "unat l < 2 ^ 64" using unsigned_less [of l] by simp
  ultimately show "snapshot_key_lamport (snapshot_prefix team) k = Some l"
    by (simp add: snapshot_key_lamport_def snapshot_key_def parse_u64_def) (simp add: u64_pad20 digits_fixed)
qed

lemma is_snapshot_object_iff: "is_snapshot_object (snapshot_prefix team) k \<longleftrightarrow> (\<exists>l. k = snapshot_key team l)"
  using snapshot_key_lamport_iff [of team k] by (auto simp: is_snapshot_object_def)

lemma snapshot_key_less [simp]: "snapshot_key team l < snapshot_key team m \<longleftrightarrow> l < m"
  by (simp add: snapshot_key_def append_less_iff pad20_less)

lemma snapshot_key_eq [simp]: "snapshot_key team l = snapshot_key team m \<longleftrightarrow> l = m"
  by (simp add: snapshot_key_def pad20_inject)

lemma snapshot_bound_iff: "snapshot_bound_to_key team k snapshot \<longleftrightarrow> sn_team snapshot = team \<and> k = snapshot_key team (sn_last_lamport snapshot)"
proof (cases "snapshot_key_lamport (snapshot_prefix team) k")
  case None
  then show ?thesis using snapshot_key_lamport_iff [of team k "sn_last_lamport snapshot"] by (auto simp: snapshot_bound_to_key_def)
next
  case (Some l)
  then have "k = snapshot_key team l" by (simp add: snapshot_key_lamport_iff)
  with Some show ?thesis by (auto simp: snapshot_bound_to_key_def)
qed

lemma snapshot_key_prefix [simp]: "prefix (snapshot_prefix team) (snapshot_key team l)"
  by (simp add: snapshot_key_def)

subsection \<open>Opening and choosing\<close>

lemma open_snapshot_iff:
  "open_snapshot A cc key team k sealed = Some sn \<longleftrightarrow>
     (\<exists>m. open_blob A key sealed (as_bytes k) = Inr m \<and> cc_dec_snapshot cc m = Some sn) \<and>
     sn_team sn = team \<and> k = snapshot_key team (sn_last_lamport sn)"
  by (auto simp: open_snapshot_def snapshot_bound_iff split: sum.splits option.splits)

definition passed_over :: "(string \<Rightarrow> mem_error + bytes) \<Rightarrow> (string \<Rightarrow> bytes \<Rightarrow> index_snapshot option) \<Rightarrow> string \<Rightarrow> bool" where
  "passed_over fetch op_snap k \<longleftrightarrow>
     (case fetch k of Inl (NotFound _) \<Rightarrow> True | Inl (BlobTooLarge _ _) \<Rightarrow> True | Inl _ \<Rightarrow> False | Inr b \<Rightarrow> op_snap k b = None)"

lemma fetch_scan_Cons:
  "fetch_scan fetch op_snap (k # ks) =
     (if passed_over fetch op_snap k then fetch_scan fetch op_snap ks
      else case fetch k of Inl e \<Rightarrow> Inl e
        | Inr b \<Rightarrow> Inr (Some \<lparr>fs_object_key = k, fs_sealed = b, fs_snapshot = the (op_snap k b)\<rparr>))"
  by (auto simp: passed_over_def split: sum.splits mem_error.splits option.splits)

declare fetch_scan.simps(2) [simp del]

lemma fetch_scan_skip: "\<forall>k\<in>set ks. passed_over fetch op_snap k \<Longrightarrow> fetch_scan fetch op_snap (ks @ rest) = fetch_scan fetch op_snap rest"
  by (induction ks) (simp_all add: fetch_scan_Cons)

lemma fetch_scan_cases:
  obtains (none) "\<forall>k\<in>set ks. passed_over fetch op_snap k" "fetch_scan fetch op_snap ks = Inr None"
  | (hit) newer k older b sn where "ks = newer @ k # older" "\<forall>k\<in>set newer. passed_over fetch op_snap k"
      "fetch k = Inr b" "op_snap k b = Some sn"
      "fetch_scan fetch op_snap ks = Inr (Some \<lparr>fs_object_key = k, fs_sealed = b, fs_snapshot = sn\<rparr>)"
  | (fault) newer k older e where "ks = newer @ k # older" "\<forall>k\<in>set newer. passed_over fetch op_snap k"
      "fetch k = Inl e" "\<not> passed_over fetch op_snap k" "fetch_scan fetch op_snap ks = Inl e"
proof (cases "\<forall>k\<in>set ks. passed_over fetch op_snap k")
  case True
  then show thesis using none fetch_scan_skip [of ks fetch op_snap "[]"] by simp
next
  case False
  then obtain newer k older where ks: "ks = newer @ k # older" and new: "\<forall>k\<in>set newer. passed_over fetch op_snap k"
    and k: "\<not> passed_over fetch op_snap k"
    using split_list_first_prop [of ks "\<lambda>k. \<not> passed_over fetch op_snap k"] by blast
  show thesis
  proof (cases "fetch k")
    case (Inl e)
    then show thesis using fault [OF ks new Inl k] k by (simp add: ks fetch_scan_skip [OF new] fetch_scan_Cons)
  next
    case (Inr b)
    with k obtain sn where "op_snap k b = Some sn" by (auto simp: passed_over_def)
    then show thesis using hit [OF ks new Inr] Inr k by (simp add: ks fetch_scan_skip [OF new] fetch_scan_Cons)
  qed
qed

subsection \<open>Retention\<close>

lemma take_of_sorted:
  fixes xs :: "'a :: linorder list"
  assumes "sorted xs" and "distinct xs"
  shows "x \<in> set (take (length xs - n) xs) \<longleftrightarrow> x \<in> set xs \<and> n \<le> card {y \<in> set xs. x < y}"
proof (cases "x \<in> set xs")
  case True
  then obtain i where i: "i < length xs" "x = xs ! i" by (auto simp: in_set_conv_nth)
  have less: "xs ! i < xs ! j \<longleftrightarrow> i < j" if "j < length xs" for j
    using assms i(1) that sorted_nth_mono [of xs i j] sorted_nth_mono [of xs j i] nth_eq_iff_index_eq [of xs i j]
    by (metis leD leI less_le not_le)
  then have "{y \<in> set xs. x < y} = (!) xs ` {i<..<length xs}" by (auto simp: i(2) in_set_conv_nth)
  moreover have "inj_on ((!) xs) {i<..<length xs}" using assms(2) by (auto simp: inj_on_def nth_eq_iff_index_eq)
  ultimately have "card {y \<in> set xs. x < y} = length xs - i - 1" by (simp add: card_image)
  moreover have "x \<in> set (take (length xs - n) xs) \<longleftrightarrow> i < length xs - n"
    using i assms(2) by (auto simp: in_set_conv_nth nth_eq_iff_index_eq intro: exI [of _ i])
  ultimately show ?thesis using True i(1) by auto
qed (auto dest: in_set_takeD)

lemma lookup_prune_keys:
  "Mapping.lookup (prune_keys fates ks b) k = (if k \<in> set ks \<and> fates k \<noteq> Refused then None else Mapping.lookup b k)"
  by (induction ks arbitrary: b) (auto simp: faulty_delete_def map_simps split: fate.splits)

lemma lookup_pruned:
  assumes "sorted keys" and "distinct keys" and "list (snapshot_prefix team) = Inr keys"
  shows "Mapping.lookup (prune_old_snapshots list fates team b) k =
    (if (\<exists>l. k = snapshot_key team l \<and> SNAPSHOT_RETENTION \<le> card {m. snapshot_key team m \<in> set keys \<and> l < m}) \<and>
        k \<in> set keys \<and> fates k \<noteq> Refused
     then None else Mapping.lookup b k)"
proof -
  let ?pre = "snapshot_prefix team"
  define S where "S = filter (is_snapshot_object ?pre) keys"
  have S: "sorted S" "distinct S" using assms(1,2) by (simp_all add: S_def sorted_wrt_filter)
  have "card {y \<in> set S. snapshot_key team l < y} = card {m. snapshot_key team m \<in> set keys \<and> l < m}" for l
  proof -
    have "{y \<in> set S. snapshot_key team l < y} = snapshot_key team ` {m. snapshot_key team m \<in> set keys \<and> l < m}"
      by (auto simp: S_def is_snapshot_object_iff)
    then show ?thesis by (simp add: card_image inj_on_def)
  qed
  then have "k \<in> set (take (length S - SNAPSHOT_RETENTION) S) \<longleftrightarrow>
      (\<exists>l. k = snapshot_key team l \<and> SNAPSHOT_RETENTION \<le> card {m. snapshot_key team m \<in> set keys \<and> l < m}) \<and> k \<in> set keys"
    unfolding take_of_sorted [OF S] by (auto simp: S_def is_snapshot_object_iff)
  then show ?thesis
    by (auto simp: prune_old_snapshots_def assms(3) Let_def S_def [symmetric] lookup_prune_keys)
qed

subsection \<open>The cache file\<close>

lemma length_u32 [simp]: "length (u32_be_bytes n) = 4"
  by (simp add: u32_be_bytes_def)

lemma u32_roundtrip: "n < 2 ^ 32 \<Longrightarrow> u32_from_be (u32_be_bytes n) = n"
proof -
  assume n: "n < 2 ^ 32"
  have step: "n div (k * 256) * 256 + n div k mod 256 = n div k" for k
    by (simp add: div_mult2_eq)
  have "n div 16777216 mod 256 = n div 16777216" using n by simp
  moreover have "n div 16777216 * 256 + n div 65536 mod 256 = n div 65536" "n div 65536 * 256 + n div 256 mod 256 = n div 256"
    "n div 256 * 256 + n mod 256 = n"
    using step [of 65536] step [of 256] step [of 1] by simp_all
  ultimately show ?thesis
    by (simp add: u32_from_be_def u32_be_bytes_def unsigned_of_nat take_bit_eq_mod mult.commute [of 256])
qed

lemma split_cache_file: "length k < 2 ^ 32 \<Longrightarrow> split_file (cache_file k sealed) = Some (as_bytes k, sealed)"
  by (simp add: split_file_def cache_file_def split_at_checked_def KEY_LEN_BYTES_def u32_roundtrip)

section \<open>A concrete bucket\<close>

text \<open>A snapshot is kept as its Lamport time in one byte.\<close>

definition demo_snapshot :: "u64 \<Rightarrow> index_snapshot" where
  "demo_snapshot l = \<lparr>sn_team = ''t'', sn_last_lamport = l, sn_vector_space = Some ''demo/1'', sn_records = []\<rparr>"

definition demo_snapshots :: "int snapshot_codec" where
  "demo_snapshots = \<lparr>cc_enc_record = (\<lambda>r. as_bytes (ir_summary r)), cc_dec_record = (\<lambda>_. None),
     cc_enc_snapshot = (\<lambda>sn. [ucast (sn_last_lamport sn)]),
     cc_dec_snapshot = (\<lambda>bs. case bs of [b] \<Rightarrow> Some (demo_snapshot (ucast b)) | _ \<Rightarrow> None)\<rparr>"

definition demo_sealed_snapshot :: "u64 \<Rightarrow> bytes" where
  "demo_sealed_snapshot l = replicate 24 0 @ [ucast l] @ [9]"

lemma demo_open: "open_snapshot demo_aead demo_snapshots [9] ''t'' (snapshot_key ''t'' 5) (demo_sealed_snapshot 5) = Some (demo_snapshot 5)"
  by (simp add: open_snapshot_iff open_blob_def demo_aead_def demo_snapshots_def demo_sealed_snapshot_def NONCE_LEN_def)
    (simp add: demo_snapshot_def)

section \<open>Theorems\<close>

text \<open>A listed object that can be fetched and opens under the key as this team's checkpoint.\<close>

definition usable_snapshot ::
    "aead \<Rightarrow> 'f snapshot_codec \<Rightarrow> (string \<Rightarrow> mem_error + bytes) \<Rightarrow> bytes \<Rightarrow> string \<Rightarrow> string \<Rightarrow> index_snapshot \<Rightarrow> bool" where
  "usable_snapshot A cc fetch key team k sn \<longleftrightarrow> (\<exists>b. fetch k = Inr b \<and> open_snapshot A cc key team k b = Some sn)"

text \<open>The checkpoint a sync restores is the newest usable one. From a listing in key order, if every listed object can be
  fetched, has vanished or is too large, the search answers; it finds a checkpoint whenever a listed object opens under the
  key as one of this team's, bound to its key, and what it finds is listed, opens, is bound to its key and has the greatest
  Lamport time of all listed objects that open. An object that does not open never hides an older one.
\<close>

theorem newest_usable_checkpoint:
  assumes "sorted keys"
    and "\<And>k. k \<in> set keys \<Longrightarrow> (\<exists>b. fetch k = Inr b) \<or> (\<exists>n. fetch k = Inl (NotFound n)) \<or> (\<exists>n cap. fetch k = Inl (BlobTooLarge n cap))"
  shows "\<exists>found. fetch_newest_snapshot A cc fetch key team keys = Inr found \<and>
    (case found of
       None \<Rightarrow> \<forall>k\<in>set keys. \<forall>sn. \<not> usable_snapshot A cc fetch key team k sn
     | Some f \<Rightarrow>
         fs_object_key f \<in> set keys \<and> usable_snapshot A cc fetch key team (fs_object_key f) (fs_snapshot f) \<and>
         sn_team (fs_snapshot f) = team \<and> fs_object_key f = snapshot_key team (sn_last_lamport (fs_snapshot f)) \<and>
         (\<forall>k\<in>set keys. \<forall>sn. usable_snapshot A cc fetch key team k sn \<longrightarrow> sn_last_lamport sn \<le> sn_last_lamport (fs_snapshot f)))"
proof (cases rule: fetch_scan_cases [where fetch = fetch and op_snap = "open_snapshot A cc key team" and ks = "rev keys"])
  case none
  then show ?thesis by (auto simp: fetch_newest_snapshot_def usable_snapshot_def passed_over_def)
next
  case (hit newer k older b sn)
  have "x \<le> k" if "x \<in> set keys" and "\<not> passed_over fetch (open_snapshot A cc key team) x" for x
  proof -
    have "keys = rev older @ k # rev newer" using arg_cong [OF hit(1), of rev] by simp
    then show ?thesis using assms(1) that hit(2) by (auto simp: sorted_append)
  qed
  then have "sn_last_lamport sn1 \<le> sn_last_lamport sn" if "x \<in> set keys" "usable_snapshot A cc fetch key team x sn1" for x sn1
  proof -
    from that(2) obtain b1 where b1: "fetch x = Inr b1" "open_snapshot A cc key team x b1 = Some sn1" by (auto simp: usable_snapshot_def)
    then have "x = snapshot_key team (sn_last_lamport sn1)" by (simp add: open_snapshot_iff)
    moreover have "\<not> passed_over fetch (open_snapshot A cc key team) x" using b1 by (simp add: passed_over_def)
    moreover have "k = snapshot_key team (sn_last_lamport sn)" using hit(4) by (simp add: open_snapshot_iff)
    ultimately have "\<not> snapshot_key team (sn_last_lamport sn) < snapshot_key team (sn_last_lamport sn1)"
      using \<open>\<And>x. x \<in> set keys \<Longrightarrow> \<not> passed_over fetch (open_snapshot A cc key team) x \<Longrightarrow> x \<le> k\<close> that(1) by (metis not_le)
    then show ?thesis by simp
  qed
  moreover have "k \<in> set keys" using hit(1) by (metis in_set_conv_decomp set_rev)
  ultimately show ?thesis using hit by (auto simp: fetch_newest_snapshot_def usable_snapshot_def open_snapshot_iff)
next
  case (fault newer k older e)
  then have "k \<in> set keys" by (metis in_set_conv_decomp set_rev)
  from assms(2) [OF this] fault(3,4) show ?thesis by (auto simp: passed_over_def)
qed

theorem newest_usable_checkpoint_witness:
  "\<exists>f. fetch_newest_snapshot demo_aead demo_snapshots
         (\<lambda>k. if k = snapshot_key ''t'' 5 then Inr (demo_sealed_snapshot 5) else Inr []) [9] ''t'' [snapshot_key ''t'' 5, snapshot_key ''t'' 8]
       = Inr (Some f) \<and> sn_last_lamport (fs_snapshot f) = 5"
proof -
  let ?fetch = "\<lambda>k. if k = snapshot_key ''t'' 5 then Inr (demo_sealed_snapshot 5) else Inr []"
  let ?keys = "[snapshot_key ''t'' 5, snapshot_key ''t'' 8]"
  have "usable_snapshot demo_aead demo_snapshots ?fetch [9] ''t'' (snapshot_key ''t'' 5) (demo_snapshot 5)"
    by (simp add: usable_snapshot_def demo_open)
  moreover have "\<not> usable_snapshot demo_aead demo_snapshots ?fetch [9] ''t'' (snapshot_key ''t'' 8) sn" for sn
    by (simp add: usable_snapshot_def open_snapshot_def open_blob_def NONCE_LEN_def)
  ultimately show ?thesis
    using newest_usable_checkpoint [of ?keys ?fetch demo_aead demo_snapshots "[9]" "''t''"]
    by (force split: option.splits simp: less_imp_le)
qed

text \<open>Retention. From a listing in key order, the pruning after a save deletes exactly the checkpoints of the team that at
  least three newer listed ones supersede (those whose delete is not refused), and no other object.
\<close>

theorem retention_exact:
  assumes "sorted keys" and "distinct keys" and "list (snapshot_prefix team) = Inr keys"
  shows "Mapping.lookup (prune_old_snapshots list fates team b) k =
    (if (\<exists>l. k = snapshot_key team l \<and> SNAPSHOT_RETENTION \<le> card {m. snapshot_key team m \<in> set keys \<and> l < m}) \<and>
        k \<in> set keys \<and> fates k \<noteq> Refused
     then None else Mapping.lookup b k)"
  using assms by (rule lookup_pruned)

theorem retention_exact_witness:
  "Mapping.lookup (prune_old_snapshots (\<lambda>_. Inr [snapshot_key ''t'' 1, snapshot_key ''t'' 2, snapshot_key ''t'' 3, snapshot_key ''t'' 4]) (\<lambda>_. Done) ''t''
     (Mapping.update (snapshot_key ''t'' 1) [] Mapping.empty)) (snapshot_key ''t'' 1) = None"
proof -
  let ?keys = "[snapshot_key ''t'' 1, snapshot_key ''t'' 2, snapshot_key ''t'' 3, snapshot_key ''t'' 4]"
  have "{m. snapshot_key ''t'' m \<in> set ?keys \<and> 1 < m} = {2, 3, 4}" by auto
  then show ?thesis
    using retention_exact [of ?keys "\<lambda>_. Inr ?keys" "''t''" "\<lambda>_. Done" _ "snapshot_key ''t'' 1"]
    by (simp add: less_imp_le SNAPSHOT_RETENTION_def)
qed

text \<open>C37. Three objects planted in the bucket under the prefix of the checkpoints at higher Lamport times (their contents may be
  anything) end the use of checkpoints: a save that reports success has deleted the checkpoint it stored, because the
  retention sweep tells its objects by the shape of their keys only.
\<close>

theorem planted_keys_evict_checkpoints:
  assumes "mem_inv b" and "\<And>m. m \<in> {m1, m2, m3} \<Longrightarrow> sn_last_lamport sn < m \<and> Mapping.lookup b (snapshot_key (sn_team sn) m) \<noteq> None"
    and "distinct [m1, m2, m3]"
    and "save_snapshot A cc nonce Done mem_list (\<lambda>_. Done) key sn b = (Inr (), b')"
  shows "Mapping.lookup b' (snapshot_key (sn_team sn) (sn_last_lamport sn)) = None"
proof -
  let ?k = "snapshot_key (sn_team sn) (sn_last_lamport sn)" and ?pre = "snapshot_prefix (sn_team sn)"
  from assms(4) obtain sealed where b': "b' = prune_old_snapshots (mem_list (Mapping.update ?k sealed b)) (\<lambda>_. Done) (sn_team sn) (Mapping.update ?k sealed b)"
    by (auto simp: save_snapshot_def seal_snapshot_def faulty_put_def Let_def r_bind_def split: sum.splits)
  let ?b1 = "Mapping.update ?k sealed b"
  let ?keys = "filter (prefix ?pre) (Mapping.ordered_keys ?b1)"
  have inv: "mem_inv ?b1" using assms(1) by (simp add: mem_inv_def)
  have "m \<in> {m. snapshot_key (sn_team sn) m \<in> set ?keys \<and> sn_last_lamport sn < m}" if "m \<in> {m1, m2, m3}" for m
    using assms(2) [OF that] by (simp add: set_ordered_keys [OF inv] lookup_update')
  then have "{m1, m2, m3} \<subseteq> {m. snapshot_key (sn_team sn) m \<in> set ?keys \<and> sn_last_lamport sn < m}" by blast
  from card_mono [OF finite this] have "SNAPSHOT_RETENTION \<le> card {m. snapshot_key (sn_team sn) m \<in> set ?keys \<and> sn_last_lamport sn < m}"
    using assms(3) by (simp add: SNAPSHOT_RETENTION_def)
  moreover have "?k \<in> set ?keys" by (simp add: set_ordered_keys [OF inv] lookup_update')
  moreover have "sorted (filter Q (Mapping.ordered_keys m))" "distinct (filter Q (Mapping.ordered_keys m))" for Q and m :: memory_blob_store
    by (simp_all add: Mapping.ordered_keys_def sorted_wrt_filter)
  ultimately show ?thesis
    unfolding b' by (subst lookup_pruned [of ?keys]) (auto simp: mem_list_def)
qed

theorem planted_keys_evict_checkpoints_witness:
  "\<exists>b'. save_snapshot demo_aead demo_snapshots (replicate 24 0) Done mem_list (\<lambda>_. Done) [9] (demo_snapshot 5)
      (foldl (\<lambda>b m. Mapping.update (snapshot_key ''t'' m) [] b) Mapping.empty [6, 7, 8]) = (Inr (), b') \<and>
    Mapping.lookup b' (snapshot_key ''t'' 5) = None"
proof -
  let ?b = "foldl (\<lambda>b m. Mapping.update (snapshot_key ''t'' m) [] b) Mapping.empty [6, 7, 8]"
  obtain b' where run: "save_snapshot demo_aead demo_snapshots (replicate 24 0) Done mem_list (\<lambda>_. Done) [9] (demo_snapshot 5) ?b = (Inr (), b')"
    by (simp add: save_snapshot_def seal_snapshot_def seal_def demo_aead_def faulty_put_def)
  have "Mapping.lookup b' (snapshot_key (sn_team (demo_snapshot 5)) (sn_last_lamport (demo_snapshot 5))) = None"
  proof (rule planted_keys_evict_checkpoints [OF _ _ _ run])
    show "distinct [6, 7, 8 :: u64]" by simp
  qed (auto simp: demo_snapshot_def lookup_update' mem_inv_def)
  with run show ?thesis by (auto simp: demo_snapshot_def)
qed

text \<open>The cache file carries a checkpoint over a restart: what a session kept on disk is what a new session of the same epoch
  finds under that key, without a download; whatever the file holds, a hit of a session that starts is a snapshot that opens under
  the epoch's key and is bound to the object key asked for.
\<close>

theorem checkpoint_survives_restart:
  assumes "open_snapshot A cc key team (fs_object_key f) (fs_sealed f) = Some (fs_snapshot f)"
    and "target_ok ''checkpoint-'' p" and "length (fs_object_key f) < 2 ^ 32"
    and "fst (write_atomically e (cp_disk c) p ''checkpoint-'' ''.tmp'' (cache_file (fs_object_key f) (fs_sealed f))) = Inr ()"
    and "cache_keep (Some p) e f epoch MemoryAndDisk c = (sn, c1)" and "\<not> io_read_fails e2"
  shows "fst (cache_get A cc (Some p) e2 (fs_object_key f) epoch key team (c1\<lparr>cp_memory := None\<rparr>)) = Some (fs_snapshot f)"
    and "fst (cache_get A cc (Some p) e2 k epoch key team (d\<lparr>cp_memory := None\<rparr>)) = Some sn2 \<Longrightarrow>
      sn_team sn2 = team \<and> k = snapshot_key team (sn_last_lamport sn2) \<and> (\<exists>sealed. open_snapshot A cc key team k sealed = Some sn2)"
proof -
  have "read_file e2 (cp_disk c1) p = Inr (cache_file (fs_object_key f) (fs_sealed f))"
    using assms(3,5,6) write_atomically_final(1) [OF assms(2,4)]
    by (auto simp: cache_keep_def cache_write_file_def cache_remember_def read_file_def)
  then show "fst (cache_get A cc (Some p) e2 (fs_object_key f) epoch key team (c1\<lparr>cp_memory := None\<rparr>)) = Some (fs_snapshot f)"
    using assms(1,3) by (simp add: cache_get_def memory_hit_def cache_read_file_def split_cache_file)
  assume "fst (cache_get A cc (Some p) e2 k epoch key team (d\<lparr>cp_memory := None\<rparr>)) = Some sn2"
  then obtain sealed where "open_snapshot A cc key team k sealed = Some sn2"
    by (auto simp: cache_get_def memory_hit_def split: option.splits if_splits)
  then show "sn_team sn2 = team \<and> k = snapshot_key team (sn_last_lamport sn2) \<and> (\<exists>sealed. open_snapshot A cc key team k sealed = Some sn2)"
    by (auto simp: open_snapshot_iff)
qed

end
