(* ===== verification/Sync.thy ===== *)
theory Sync
  imports Checkpoint Manifest
begin

text \<open>
  The sync of \<^verbatim>\<open>store/mod.rs\<close>: the filtered read of the log, the replay of the converged state into the index, the
  incremental replay over a checkpoint with its safety valve, the ledger of embedding vectors, and the checkpoint written
  at the end. Other calls of the process run while a sync awaits; they are functions on the store's state.
\<close>

section \<open>Definitions\<close>

subsection \<open>Configuration, environment and state\<close>

record 'f vector_ledger =
  vl_restored :: "note_id set"
  vl_carried :: "(note_id, string \<times> 'f list) mapping"
  vl_replace_refused :: "u64 option"

record 'f sync_config =
  yc_store :: "'f store_config"
  yc_dec_op :: "bytes \<Rightarrow> op option"
  yc_dec_manifest :: "bytes \<Rightarrow> team_manifest option"
  yc_enc_manifest :: "team_manifest \<Rightarrow> bytes"
  yc_founder :: "ss58 option"
  yc_marker :: "path option"
  yc_codec :: "'f snapshot_codec"
  yc_cache_file :: "path option"

text \<open>What one pass meets: the answers of the bucket, the order in which concurrent decodes complete, what the other calls
  of the process do at each await, and the fates of the writes.\<close>

record 'f sync_env =
  ye_log :: blob_view
  ye_manifests :: blob_view
  ye_marker_io :: io_env
  ye_get :: "string \<Rightarrow> mem_error + bytes"
  ye_snapshots :: "mem_error + string list"
  ye_order :: "(note_id \<times> note_pointer) list \<Rightarrow> (note_id \<times> note_pointer) list"
  ye_others :: "nat \<Rightarrow> 'f store_state \<Rightarrow> 'f store_state"
  ye_nonces :: "nat \<Rightarrow> bytes"
  ye_put :: fate
  ye_prune_list :: "string \<Rightarrow> mem_error + string list"
  ye_prune :: "string \<Rightarrow> fate"
  ye_cache_io :: "nat \<Rightarrow> io_env"

record 'f sync_state =
  sy_store :: "'f store_state"
  sy_op_cache :: op_cache
  sy_applied :: "team_manifest option"
  sy_ledger :: "'f vector_ledger"
  sy_memory :: "cached_snapshot option"

abbreviation sy_clock :: "'f sync_state \<Rightarrow> op_clock" where
  "sy_clock s \<equiv> ws_clock (st_write (sy_store s))"

abbreviation yc_prims :: "'f sync_config \<Rightarrow> prims" where
  "yc_prims c \<equiv> wc_prims (sc_writer (yc_store c))"

abbreviation yc_team :: "'f sync_config \<Rightarrow> string" where
  "yc_team c \<equiv> wc_team (sc_writer (yc_store c))"

abbreviation yc_aead :: "'f sync_config \<Rightarrow> aead" where
  "yc_aead c \<equiv> sc_aead (yc_store c)"

definition set_disk :: "disk \<Rightarrow> 'f sync_state \<Rightarrow> 'f sync_state" where
  "set_disk d s = s\<lparr>sy_store := (sy_store s)\<lparr>st_write := (st_write (sy_store s))\<lparr>ws_disk := d\<rparr>\<rparr>\<rparr>"

definition set_clock :: "op_clock \<Rightarrow> 'f sync_state \<Rightarrow> 'f sync_state" where
  "set_clock k s = s\<lparr>sy_store := (sy_store s)\<lparr>st_write := (st_write (sy_store s))\<lparr>ws_clock := k\<rparr>\<rparr>\<rparr>"

definition set_index :: "'f index_state \<Rightarrow> 'f sync_state \<Rightarrow> 'f sync_state" where
  "set_index ix s = s\<lparr>sy_store := (sy_store s)\<lparr>st_index := ix\<rparr>\<rparr>"

definition others :: "'f sync_env \<Rightarrow> nat \<Rightarrow> 'f sync_state \<Rightarrow> 'f sync_state" where
  "others env n s = s\<lparr>sy_store := ye_others env n (sy_store s)\<rparr>"

definition cache_of :: "'f sync_state \<Rightarrow> checkpoint_cache" where
  "cache_of s = \<lparr>cp_memory = sy_memory s, cp_disk = ws_disk (st_write (sy_store s))\<rparr>"

definition put_cache :: "checkpoint_cache \<Rightarrow> 'f sync_state \<Rightarrow> 'f sync_state" where
  "put_cache k s = set_disk (cp_disk k) (s\<lparr>sy_memory := cp_memory k\<rparr>)"

subsection \<open>The filtered read\<close>

record filtered_read =
  fr_members_view :: verified_ops
  fr_retain_baseline :: u64
  fr_install_stamp :: own_write_stamp
  fr_own_view :: own_view

definition observed_prunable_tip :: "ss58 \<Rightarrow> ss58 set \<Rightarrow> op list \<Rightarrow> u64" where
  "observed_prunable_tip author indexed_authors ops =
     fold max (map op_lamport (filter (\<lambda>x. op_author x = author \<or> op_author x \<in> indexed_authors) ops)) 0"

definition read_filtered :: "'f sync_config \<Rightarrow> 'f sync_env \<Rightarrow> 'f sync_state \<Rightarrow> ((mem_error + filtered_read) \<times> 'f sync_state) option" where
  "read_filtered c env s =
     (let P = yc_prims c; team = yc_team c; author = sc_author (yc_store c);
          pre_fetch_tip = ck_lamport_tip (sy_clock s);
          pre_fetch_stamp = own_write_stamp_of (sy_clock s)
      in map_option (\<lambda>(r, cache).
           let s1 = others env 0 (s\<lparr>sy_op_cache := cache\<rparr>) in
           case r of
             Inl e \<Rightarrow> (Inl e, s1)
           | Inr (v, quarantined) \<Rightarrow>
               let ops = ops_of v;
                   own_chain_quarantined = list_ex (\<lambda>q. qa_author q = author) quarantined;
                   indexed_authors = ir_author ` set (all_records (st_index (sy_store s1)));
                   prunable = observed_prunable_tip author indexed_authors ops;
                   (m, applied, d) = current_manifest P (yc_dec_manifest c) (yc_enc_manifest c) (ye_manifests env) team (yc_founder c)
                                       (yc_marker c) (ye_marker_io env) (sy_applied s1) (ws_disk (st_write (sy_store s1)));
                   s2 = others env 1 (set_disk d (s1\<lparr>sy_applied := applied\<rparr>))
               in case m of
                    Inl e \<Rightarrow> (Inl e, s2)
                  | Inr manifest \<Rightarrow>
                      let members_view = filter_by_manifest v manifest;
                          members_tip = lamport_tip (ops_of members_view);
                          untouched = (own_write_stamp_of (sy_clock s2) = pre_fetch_stamp);
                          (clock, view) = reseed_clock P author ops members_tip own_chain_quarantined (sy_clock s2)
                      in (Inr \<lparr>fr_members_view = members_view,
                               fr_retain_baseline = max (max pre_fetch_tip prunable) members_tip,
                               fr_install_stamp = (if untouched then own_write_stamp_of clock else pre_fetch_stamp),
                               fr_own_view = view\<rparr>,
                          set_clock clock s2))
         (read_verified P (yc_dec_op c) (ye_log env) team (sy_op_cache s)))"

subsection \<open>Decoding what a pointer names\<close>

definition decode_pointer :: "'f sync_config \<Rightarrow> 'f sync_env \<Rightarrow> 'f store_state \<Rightarrow> note_id \<Rightarrow> note_pointer \<Rightarrow> mem_error + 'f index_record" where
  "decode_pointer c env s i p =
     r_bind (key_for_epoch s (np_key_epoch p)) (\<lambda>key.
     r_bind (ye_get env (np_object_key p)) (\<lambda>ciphertext.
       if content_hash (yc_prims c) ciphertext \<noteq> np_cid p
       then Inl (Storage ''ciphertext hash does not match the op-attested content hash'')
       else
         r_bind (open_blob (yc_aead c) key ciphertext (as_bytes (np_object_key p))) (\<lambda>plaintext.
           case from_utf8 plaintext of
             None \<Rightarrow> Inl Crypto
           | Some json \<Rightarrow>
               (case sc_dec_note (yc_store c) json of
                  None \<Rightarrow> Inl Serialize
                | Some n \<Rightarrow>
                    if \<not> note_matches_object n i (yc_team c) (np_object_key p) then Inl Crypto
                    else
                      let (summary, tags) = bound_index_fields (nt_summary n) (nt_tags n) in
                      Inr \<lparr>ir_note_id = i, ir_object_key = np_object_key p, ir_cid = np_cid p, ir_scope = nt_scope n,
                           ir_note_type = nt_note_type n, ir_author = nt_author n, ir_updated = nt_updated n,
                           ir_lamport = np_lamport p, ir_key_epoch = np_key_epoch p, ir_tags = tags, ir_summary = summary,
                           ir_relations = [], ir_reinforcers = {||}, ir_last_reinforced = None, ir_embedding = None\<rparr>))))"

definition decode_records :: "'f sync_config \<Rightarrow> 'f sync_env \<Rightarrow> 'f store_state \<Rightarrow> (note_id \<times> note_pointer) list \<Rightarrow> 'f index_record list" where
  "decode_records c env s items =
     List.map_filter (\<lambda>(i, p). case decode_pointer c env s i p of Inl _ \<Rightarrow> None | Inr r \<Rightarrow> Some r) (ye_order env items)"

definition live_pointer :: "note_state \<Rightarrow> note_pointer option" where
  "live_pointer st = (if ns_tombstoned st then None else ns_pointer st)"

text \<open>The pointers of the notes a converged state shows, in the order of the map.\<close>

definition live_items :: "converged_state \<Rightarrow> (note_id \<times> note_pointer) list" where
  "live_items converged =
     List.map_filter (\<lambda>i. map_option (Pair i) (Option.bind (Mapping.lookup converged i) live_pointer)) (Mapping.ordered_keys converged)"

text \<open>A \<^verbatim>\<open>BTreeSet\<close> of typed links in its order, target first.\<close>

definition sorted_relations :: "typed_link set \<Rightarrow> typed_link list" where
  "sorted_relations ls = map (\<lambda>(to, rel). TypedLink to rel) (sorted_list_of_set ((\<lambda>l. (tl_to l, tl_rel l)) ` ls))"

definition with_signals :: "note_state \<Rightarrow> 'f index_record \<Rightarrow> 'f index_record" where
  "with_signals st r =
     r\<lparr>ir_relations := sorted_relations (ns_relations st),
       ir_reinforcers := fset_of_list (sorted_list_of_set (ns_reinforcers st)),
       ir_last_reinforced := ns_last_reinforced st\<rparr>"

definition stamp_ranking_signals :: "converged_state \<Rightarrow> 'f index_record list \<Rightarrow> 'f index_record list" where
  "stamp_ranking_signals converged records =
     map (\<lambda>r. case Mapping.lookup converged (ir_note_id r) of None \<Rightarrow> r | Some st \<Rightarrow> with_signals st r) records"

subsection \<open>Embedding vectors\<close>

definition lacks_embedding :: "'f index_record \<Rightarrow> bool" where
  "lacks_embedding r \<longleftrightarrow> (case ir_embedding r of None \<Rightarrow> True | Some v \<Rightarrow> v = [])"

definition take_vector ::
    "(note_id, string \<times> 'f list) mapping \<Rightarrow> 'f index_record \<Rightarrow> 'f list option \<times> (note_id, string \<times> 'f list) mapping" where
  "take_vector held r =
     (case Mapping.lookup held (ir_note_id r) of
        None \<Rightarrow> (None, held)
      | Some (summary, vector) \<Rightarrow>
          (if summary = ir_summary r then Some vector else None, Mapping.delete (ir_note_id r) held))"

definition vector_entry :: "'f index_record \<Rightarrow> (note_id \<times> string \<times> 'f list) option" where
  "vector_entry r = map_option (\<lambda>v. (ir_note_id r, ir_summary r, v)) (ir_embedding r)"

definition own_vectors :: "note_id set \<Rightarrow> 'f index_state \<Rightarrow> (note_id, string \<times> 'f list) mapping" where
  "own_vectors restored ix =
     collect_map fst snd (List.map_filter vector_entry (filter (\<lambda>r. ir_note_id r \<notin> restored) (all_records ix)))"

text \<open>The loop over the records: the records with what they were given, the notes filled, the notes kept from the checkpoint.\<close>

fun give_vectors ::
    "note_id set \<Rightarrow> (note_id, string \<times> 'f list) mapping \<Rightarrow> (note_id, string \<times> 'f list) mapping \<Rightarrow> 'f index_record list
      \<Rightarrow> 'f index_record list \<times> note_id set \<times> note_id set" where
  "give_vectors from_checkpoint carried mine [] = ([], {}, {})"
| "give_vectors from_checkpoint carried mine (r # rs) =
     (let hinted = (ir_note_id r \<in> from_checkpoint \<and> \<not> lacks_embedding r) in
      if \<not> hinted \<and> \<not> lacks_embedding r
      then let (out, filled, kept) = give_vectors from_checkpoint carried mine rs in (r # out, filled, kept)
      else
        let (from_carried, carried1) = take_vector carried r;
            (trusted, mine1) = (case from_carried of Some v \<Rightarrow> (Some v, mine) | None \<Rightarrow> take_vector mine r);
            (out, filled, kept) = give_vectors from_checkpoint carried1 mine1 rs
        in case trusted of
             Some v \<Rightarrow> (r\<lparr>ir_embedding := Some v\<rparr> # out, insert (ir_note_id r) filled, kept)
           | None \<Rightarrow> (r # out, filled, if hinted then insert (ir_note_id r) kept else kept))"

text \<open>The fresh vectors go to the records that lack one, in order; an empty vector is left out.\<close>

fun fill_missing :: "'f index_record list \<Rightarrow> 'f list list \<Rightarrow> 'f index_record list \<times> note_id set" where
  "fill_missing [] vs = ([], {})"
| "fill_missing (r # rs) vs =
     (if \<not> lacks_embedding r then let (out, filled) = fill_missing rs vs in (r # out, filled)
      else
        let (out, filled) = fill_missing rs (tl vs); v = first_or_default vs
        in if v = [] then (r # out, filled) else (r\<lparr>ir_embedding := Some v\<rparr> # out, insert (ir_note_id r) filled))"

definition embed_missing :: "'f embedder \<Rightarrow> 'f index_record list \<Rightarrow> note_id set \<Rightarrow> mem_error + ('f index_record list \<times> note_id set)" where
  "embed_missing em records filled =
     (let to_fill = filter lacks_embedding records in
      if to_fill = [] then Inr (records, filled)
      else r_bind (embed_summaries em (map ir_summary to_fill)) (\<lambda>vectors.
             let (out, new) = fill_missing records (take (length to_fill) (vectors @ replicate (length to_fill) []))
             in Inr (out, filled \<union> new)))"

definition attach_embeddings ::
    "'f embedder \<Rightarrow> 'f index_record list \<Rightarrow> note_id set \<Rightarrow> 'f sync_state
      \<Rightarrow> (mem_error + ('f index_record list \<times> note_id set)) \<times> 'f sync_state" where
  "attach_embeddings em records from_checkpoint s =
     (if from_checkpoint = {} \<and> \<not> list_ex lacks_embedding records then (Inr (records, {}), s)
      else
        let ledger = sy_ledger s;
            s1 = s\<lparr>sy_ledger := ledger\<lparr>vl_carried := Mapping.empty\<rparr>\<rparr>;
            mine = own_vectors (vl_restored ledger) (st_index (sy_store s));
            (given, filled, kept) = give_vectors from_checkpoint (vl_carried ledger) mine records
        in case embed_missing em given filled of
             Inl e \<Rightarrow> (Inl e, s1)
           | Inr (out, filled1) \<Rightarrow>
               (Inr (out, filled1), s1\<lparr>sy_ledger := (sy_ledger s1)\<lparr>vl_restored := vl_restored (sy_ledger s1) \<union> kept\<rparr>\<rparr>))"

definition carry_vectors :: "'f index_record list \<Rightarrow> note_id set \<Rightarrow> 'f sync_state \<Rightarrow> 'f sync_state" where
  "carry_vectors records filled s =
     s\<lparr>sy_ledger := (sy_ledger s)\<lparr>vl_carried :=
         collect_map fst snd (List.map_filter vector_entry (filter (\<lambda>r. ir_note_id r \<in> filled) records))\<rparr>\<rparr>"

subsection \<open>Installing a live set\<close>

datatype index_apply = Authoritative own_write_stamp | Monotonic | ApplyLagging u64

definition with_own_unseen :: "ss58 \<Rightarrow> 'f index_state \<Rightarrow> note_id set \<Rightarrow> u64 \<Rightarrow> note_id set" where
  "with_own_unseen author ix live_ids my_view_tip =
     live_ids \<union> ir_note_id ` set (filter (\<lambda>r. ir_author r = author \<and> ir_lamport r > my_view_tip) (all_records ix))"

definition apply_live_set ::
    "'f sync_config \<Rightarrow> 'f sync_env \<Rightarrow> note_id set \<Rightarrow> u64 \<Rightarrow> 'f index_record list \<Rightarrow> note_id set \<Rightarrow> index_apply \<Rightarrow> 'f sync_state
      \<Rightarrow> (mem_error + nat option) \<times> 'f sync_state" where
  "apply_live_set c env live_ids baseline_lamport records from_checkpoint apply s =
     (let em = sc_embedder (yc_store c) in
      case attach_embeddings em records from_checkpoint s of
        (Inl e, s1) \<Rightarrow> (Inl e, s1)
      | (Inr (records1, filled), s1) \<Rightarrow>
          let s2 = others env 3 s1;
              ix = st_index (sy_store s2);
              stale = (case apply of Authoritative stamp \<Rightarrow> own_write_stamp_of (sy_clock s2) \<noteq> stamp | _ \<Rightarrow> False)
          in if stale then (Inr None, carry_vectors records1 filled s2)
             else
               let (res, ix1) =
                 (case apply of
                    Authoritative _ \<Rightarrow> replace_batch em (retain ix live_ids baseline_lamport) records1
                  | Monotonic \<Rightarrow> upsert_batch em (retain ix live_ids baseline_lamport) records1
                  | ApplyLagging my_view_tip \<Rightarrow>
                      upsert_batch em (retain ix (with_own_unseen (sc_author (yc_store c)) ix live_ids my_view_tip) baseline_lamport) records1);
                   s3 = set_index ix1 s2
               in case res of
                    Inl e \<Rightarrow> (Inl e, s3)
                  | Inr _ \<Rightarrow>
                      (Inr (Some (length records1)),
                       case apply of
                         Authoritative _ \<Rightarrow> s3\<lparr>sy_ledger := (sy_ledger s3)\<lparr>vl_restored := vl_restored (sy_ledger s3) - filled\<rparr>\<rparr>
                       | _ \<Rightarrow> s3))"

text \<open>The blobs are fetched while other calls run (\<open>others env 2\<close>); the keys are taken from the ring then.\<close>

definition replay_records :: "'f sync_config \<Rightarrow> 'f sync_env \<Rightarrow> 'f store_state \<Rightarrow> verified_ops \<Rightarrow> 'f index_record list" where
  "replay_records c env st members_view =
     (let converged = converge (yc_prims c) members_view
      in stamp_ranking_signals converged (decode_records c env st (live_items converged)))"

definition rebuild_full ::
    "'f sync_config \<Rightarrow> 'f sync_env \<Rightarrow> verified_ops \<Rightarrow> u64 \<Rightarrow> index_apply \<Rightarrow> 'f sync_state \<Rightarrow> (mem_error + nat option) \<times> 'f sync_state" where
  "rebuild_full c env members_view baseline_lamport apply s =
     (let s1 = others env 2 s
      in apply_live_set c env (fst ` set (live_items (converge (yc_prims c) members_view))) baseline_lamport
           (replay_records c env (sy_store s1) members_view) {} apply s1)"

definition replay_full ::
    "'f sync_config \<Rightarrow> 'f sync_env \<Rightarrow> verified_ops \<Rightarrow> u64 \<Rightarrow> 'f sync_state \<Rightarrow> (mem_error + nat) \<times> 'f sync_state" where
  "replay_full c env members_view baseline_lamport s =
     (case rebuild_full c env members_view baseline_lamport Monotonic s of
        (Inl e, s1) \<Rightarrow> (Inl e, s1)
      | (Inr (Some indexed), s1) \<Rightarrow> (Inr indexed, s1)
      | (Inr None, s1) \<Rightarrow> (Inl (Storage ''monotonic full rebuild skipped unexpectedly''), s1))"

subsection \<open>The incremental replay\<close>

definition snapshot_vectors_usable :: "'f embedder \<Rightarrow> index_snapshot \<Rightarrow> bool" where
  "snapshot_vectors_usable em snapshot \<longleftrightarrow>
     sn_vector_space snapshot \<noteq> None \<and> sn_vector_space snapshot = Some (em_vector_space em)"

definition replaces_unstamped :: "'f embedder \<Rightarrow> index_snapshot \<Rightarrow> u64 \<Rightarrow> 'f vector_ledger \<Rightarrow> bool" where
  "replaces_unstamped em snapshot last_lamport ledger \<longleftrightarrow>
     sn_vector_space snapshot = None \<and> Some (em_vector_space em) \<noteq> None \<and> last_lamport \<ge> sn_last_lamport snapshot \<and>
     vl_replace_refused ledger \<noteq> Some (sn_last_lamport snapshot)"

definition snapshot_body_disagreement :: "'f index_record \<Rightarrow> sealed_record \<Rightarrow> note_pointer option \<Rightarrow> string option" where
  "snapshot_body_disagreement body envelope pointer =
     (case pointer of
        None \<Rightarrow> None
      | Some p \<Rightarrow>
          if ir_note_id body \<noteq> sr_note_id envelope then Some ''note_id''
          else if ir_object_key body \<noteq> np_object_key p then Some ''object_key''
          else if ir_cid body \<noteq> np_cid p then Some ''cid''
          else if ir_lamport body \<noteq> np_lamport p then Some ''lamport''
          else if ir_key_epoch body \<noteq> np_key_epoch p then Some ''key_epoch''
          else if ir_author body \<noteq> np_author p then Some ''author''
          else case parse_object_key (np_object_key p) of
                 Inr (sc, _, _) \<Rightarrow> if sc = ir_scope body then None else Some ''scope''
               | Inl _ \<Rightarrow> Some ''object_key'')"

definition holds_any :: "index_snapshot \<Rightarrow> note_id set \<Rightarrow> bool" where
  "holds_any snapshot note_ids \<longleftrightarrow> note_ids \<noteq> {} \<and> list_ex (\<lambda>sr. sr_note_id sr \<in> note_ids) (sn_records snapshot)"

definition redacted_ids :: "converged_state \<Rightarrow> note_id set" where
  "redacted_ids converged = set (filter (\<lambda>i. case Mapping.lookup converged i of Some st \<Rightarrow> ns_redacted st | None \<Rightarrow> False) (Mapping.ordered_keys converged))"

text \<open>\<open>final_live\<close> and \<open>tail_live\<close> without the redacted notes.\<close>

definition drop_redacted ::
    "converged_state \<Rightarrow> note_id set \<Rightarrow> (note_id, note_pointer) mapping \<Rightarrow> note_id set \<times> (note_id, note_pointer) mapping" where
  "drop_redacted converged final_live tail_live =
     (final_live - redacted_ids converged, Mapping.filter (\<lambda>i _. i \<notin> redacted_ids converged) tail_live)"

text \<open>What becomes of one record of the checkpoint; \<open>None\<close> when it is skipped.\<close>

definition restored_record ::
    "'f sync_config \<Rightarrow> 'f store_state \<Rightarrow> index_snapshot \<Rightarrow> (note_id, note_pointer) mapping \<Rightarrow> note_id set \<Rightarrow> (note_id, note_pointer) mapping
      \<Rightarrow> sealed_record \<Rightarrow> 'f index_record option" where
  "restored_record c s snapshot base_pointers final_live tail_live sr =
     (if sr_note_id sr \<notin> final_live \<or> Mapping.lookup tail_live (sr_note_id sr) \<noteq> None then None
      else case r_bind (key_for_epoch s (sr_key_epoch sr)) (open_record (yc_aead c) (yc_codec c) sr) of
             Inl _ \<Rightarrow> None
           | Inr body \<Rightarrow>
               let (summary, tags) = bound_index_fields (ir_summary body) (ir_tags body);
                   body1 = body\<lparr>ir_summary := summary, ir_tags := tags\<rparr>;
                   body2 = (if snapshot_vectors_usable (sc_embedder (yc_store c)) snapshot then body1 else body1\<lparr>ir_embedding := None\<rparr>)
               in if snapshot_body_disagreement body2 sr (Mapping.lookup base_pointers (sr_note_id sr)) \<noteq> None then None
                  else Some body2)"

definition collect_live_snapshot_records ::
    "'f sync_config \<Rightarrow> 'f store_state \<Rightarrow> index_snapshot \<Rightarrow> (note_id, note_pointer) mapping \<Rightarrow> note_id set \<Rightarrow> (note_id, note_pointer) mapping
      \<Rightarrow> 'f index_record list" where
  "collect_live_snapshot_records c s snapshot base_pointers final_live tail_live =
     List.map_filter (restored_record c s snapshot base_pointers final_live tail_live) (sn_records snapshot)"

datatype incremental_outcome = Incremental nat | FellBackToFull nat | StampChanged

definition fallback_full ::
    "'f sync_config \<Rightarrow> 'f sync_env \<Rightarrow> verified_ops \<Rightarrow> u64 \<Rightarrow> index_apply \<Rightarrow> 'f sync_state \<Rightarrow> (mem_error + incremental_outcome) \<times> 'f sync_state" where
  "fallback_full c env members_view baseline_lamport apply s =
     (let (r, s1) = rebuild_full c env members_view baseline_lamport apply s in
      (case r of Inl e \<Rightarrow> Inl e | Inr (Some indexed) \<Rightarrow> Inr (FellBackToFull indexed) | Inr None \<Rightarrow> Inr StampChanged, s1))"

text \<open>\<^verbatim>\<open>BTreeMap::collect\<close> of pairs with distinct keys, and its pairs in order.\<close>

definition pointer_map :: "(note_id \<times> note_pointer) list \<Rightarrow> (note_id, note_pointer) mapping" where
  "pointer_map items = collect_map fst snd items"

definition pairs_of :: "(note_id, note_pointer) mapping \<Rightarrow> (note_id \<times> note_pointer) list" where
  "pairs_of m = List.map_filter (\<lambda>i. map_option (Pair i) (Mapping.lookup m i)) (Mapping.ordered_keys m)"

text \<open>Every note the checkpoint holds (its last record of it) has that very version in the converged base.\<close>

definition snapshot_still_valid :: "index_snapshot \<Rightarrow> (note_id, note_pointer) mapping \<Rightarrow> bool" where
  "snapshot_still_valid snapshot base_pointers =
     (let snapshot_live = collect_map sr_note_id (\<lambda>sr. (sr_lamport sr, sr_object_key sr)) (sn_records snapshot) in
      list_all (\<lambda>i. case Mapping.lookup base_pointers i of
                      None \<Rightarrow> False
                    | Some p \<Rightarrow> Some (np_lamport p, np_object_key p) = Mapping.lookup snapshot_live i) (Mapping.ordered_keys snapshot_live))"

text \<open>The live notes and the pointers of the tail: the base's live notes, less the tail's dead, with the tail's live.\<close>

definition incremental_live ::
    "prims \<Rightarrow> verified_ops \<Rightarrow> verified_ops \<Rightarrow> converged_state \<Rightarrow> note_id set \<times> (note_id, note_pointer) mapping" where
  "incremental_live P base tail full_converged =
     (let base_pointers = pointer_map (live_items (converge P base));
          tail_converged = converge P tail;
          tail_live = pointer_map (live_items tail_converged);
          tail_dead = set (filter (\<lambda>i. case Mapping.lookup tail_converged i of Some st \<Rightarrow> ns_tombstoned st | None \<Rightarrow> False) (Mapping.ordered_keys tail_converged))
      in drop_redacted full_converged ((Mapping.keys base_pointers - tail_dead) \<union> Mapping.keys tail_live) tail_live)"

text \<open>The view split at a Lamport time, and the pointers of its base.\<close>

definition base_and_tail :: "verified_ops \<Rightarrow> u64 \<Rightarrow> verified_ops \<times> verified_ops" where
  "base_and_tail v baseline = vo_partition v (\<lambda>x. op_lamport x \<le> baseline)"

definition base_pointers_of :: "prims \<Rightarrow> verified_ops \<Rightarrow> u64 \<Rightarrow> (note_id, note_pointer) mapping" where
  "base_pointers_of P v baseline = pointer_map (live_items (converge P (fst (base_and_tail v baseline))))"

text \<open>The live set, the records to index and the notes whose record came from the checkpoint with a vector. The records have
  three sources: the checkpoint, the base notes it did not restore, and the notes the tail re-pointed.\<close>

definition incremental_plan ::
    "'f sync_config \<Rightarrow> 'f sync_env \<Rightarrow> 'f store_state \<Rightarrow> index_snapshot \<Rightarrow> verified_ops \<Rightarrow> note_id set \<times> 'f index_record list \<times> note_id set" where
  "incremental_plan c env st snapshot members_view =
     (let P = yc_prims c;
          full_converged = converge P members_view;
          (base, tail) = base_and_tail members_view (sn_last_lamport snapshot);
          base_pointers = base_pointers_of P members_view (sn_last_lamport snapshot);
          (final_live, tail_live) = incremental_live P base tail full_converged;
          restored = collect_live_snapshot_records c st snapshot base_pointers final_live tail_live;
          from_checkpoint = ir_note_id ` set (filter (\<lambda>r. \<not> lacks_embedding r) restored);
          omitted = filter (\<lambda>(i, _). i \<in> final_live \<and> i \<notin> ir_note_id ` set restored \<and> Mapping.lookup tail_live i = None)
                      (pairs_of base_pointers)
      in (final_live,
          stamp_ranking_signals full_converged
            (restored @ decode_records c env st omitted @ decode_records c env st (pairs_of tail_live)),
          from_checkpoint))"

definition sync_incremental ::
    "'f sync_config \<Rightarrow> 'f sync_env \<Rightarrow> index_snapshot \<Rightarrow> verified_ops \<Rightarrow> u64 \<Rightarrow> index_apply \<Rightarrow> 'f sync_state
      \<Rightarrow> (mem_error + incremental_outcome) \<times> 'f sync_state" where
  "sync_incremental c env snapshot members_view baseline_lamport apply s =
     (if \<not> snapshot_still_valid snapshot (base_pointers_of (yc_prims c) members_view (sn_last_lamport snapshot))
      then
        let (base, tail) = base_and_tail members_view (sn_last_lamport snapshot)
        in fallback_full c env (vo_concat base tail) baseline_lamport apply
             (put_cache (cache_forget (yc_cache_file c) (ye_cache_io env 2) (cache_of s)) s)
      else
        let s1 = others env 2 s;
            (final_live, records, from_checkpoint) = incremental_plan c env (sy_store s1) snapshot members_view;
            (r, s2) = apply_live_set c env final_live baseline_lamport records from_checkpoint apply s1
        in (case r of Inl e \<Rightarrow> Inl e | Inr (Some indexed) \<Rightarrow> Inr (Incremental indexed) | Inr None \<Rightarrow> Inr StampChanged, s2))"

subsection \<open>Checkpoints\<close>

text \<open>The notes redacted in the view, and the object keys evicted from the blob cache for them.\<close>

definition purge_redacted_from_cache :: "op list \<Rightarrow> note_id set \<times> string list" where
  "purge_redacted_from_cache ops =
     (let redacted = op_note_id ` set (filter (\<lambda>x. op_kind x = Redact) ops)
      in (redacted, if redacted = {} then [] else map op_object_key (filter (\<lambda>x. op_note_id x \<in> redacted) ops)))"

definition load_checkpoint_with ::
    "'f sync_config \<Rightarrow> 'f sync_env \<Rightarrow> persist \<Rightarrow> note_id set \<Rightarrow> 'f sync_state \<Rightarrow> (mem_error + index_snapshot option) \<times> 'f sync_state" where
  "load_checkpoint_with c env persist redacted s =
     (let epoch = st_epoch (sy_store s) in
      case key_for_epoch (sy_store s) epoch of
        Inl _ \<Rightarrow> (Inr None, s)
      | Inr key \<Rightarrow>
          (case ye_snapshots env of
             Inl e \<Rightarrow> (Inl e, s)
           | Inr keys \<Rightarrow>
               let (cached, k1) =
                     (case rev keys of
                        [] \<Rightarrow> (None, cache_of s)
                      | newest # _ \<Rightarrow> cache_get (yc_aead c) (yc_codec c) (yc_cache_file c) (ye_cache_io env 0) newest epoch key (yc_team c) (cache_of s))
               in case (case cached of Some snapshot \<Rightarrow> if sn_vector_space snapshot \<noteq> None then Some snapshot else None | None \<Rightarrow> None) of
                    Some snapshot \<Rightarrow>
                      (Inr (Some snapshot),
                       put_cache (if holds_any snapshot redacted then drop_disk_copy (yc_cache_file c) (ye_cache_io env 1) k1 else k1) s)
                  | None \<Rightarrow>
                      (case fetch_newest_snapshot (yc_aead c) (yc_codec c) (ye_get env) key (yc_team c) keys of
                         Inl e \<Rightarrow> (Inl e, put_cache k1 s)
                       | Inr None \<Rightarrow> (Inr None, put_cache k1 s)
                       | Inr (Some fetched) \<Rightarrow>
                           let (snapshot, k2) = cache_keep (yc_cache_file c) (ye_cache_io env 1) fetched epoch
                                 (if holds_any (fs_snapshot fetched) redacted then MemoryOnly else persist) k1
                           in (Inr (Some snapshot), put_cache k2 s))))"

definition load_checkpoint :: "'f sync_config \<Rightarrow> 'f sync_env \<Rightarrow> 'f sync_state \<Rightarrow> (mem_error + index_snapshot option) \<times> 'f sync_state" where
  "load_checkpoint c env s = load_checkpoint_with c env MemoryOnly {} s"

fun seal_records :: "aead \<Rightarrow> 'f snapshot_codec \<Rightarrow> (nat \<Rightarrow> bytes) \<Rightarrow> 'f store_state \<Rightarrow> nat \<Rightarrow> 'f index_record list \<Rightarrow> mem_error + sealed_record list" where
  "seal_records A cc nonces s n [] = Inr []"
| "seal_records A cc nonces s n (r # rs) =
     r_bind (key_for_epoch s (ir_key_epoch r)) (\<lambda>epoch_key.
     r_bind (seal_record A cc (nonces n) r epoch_key) (\<lambda>sealed.
     r_bind (seal_records A cc nonces s (Suc n) rs) (\<lambda>rest. Inr (sealed # rest))))"

text \<open>The envelope's nonce is \<open>ye_nonces env 0\<close>, the records' are the following ones.\<close>

definition persist_snapshot ::
    "'f sync_config \<Rightarrow> 'f sync_env \<Rightarrow> 'f index_record list \<Rightarrow> u64 \<Rightarrow> 'f sync_state \<Rightarrow> (mem_error + unit) \<times> 'f sync_state" where
  "persist_snapshot c env records last_lamport s =
     (case attach_embeddings (sc_embedder (yc_store c)) records {} s of
        (Inl e, s1) \<Rightarrow> (Inl e, s1)
      | (Inr (records1, _), s1) \<Rightarrow>
          let st = sy_store s1; epoch = st_epoch st in
          case r_bind (seal_records (yc_aead c) (yc_codec c) (ye_nonces env) st 1 records1) (\<lambda>sealed.
               let snapshot = \<lparr>sn_team = yc_team c, sn_last_lamport = last_lamport,
                               sn_vector_space = Some (em_vector_space (sc_embedder (yc_store c))), sn_records = sealed\<rparr> in
               r_bind (key_for_epoch st epoch) (\<lambda>envelope_key.
               r_bind (seal_snapshot (yc_aead c) (yc_codec c) (ye_nonces env 0) envelope_key snapshot) (\<lambda>(k, blob).
                 Inr (k, blob, snapshot)))) of
            Inl e \<Rightarrow> (Inl e, s1)
          | Inr (k, blob, snapshot) \<Rightarrow>
              let (put, b) = faulty_put (ye_put env) (bucket_of st) k blob;
                  s2 = s1\<lparr>sy_store := set_bucket b st\<rparr>
              in case put of
                   Inl e \<Rightarrow> (Inl e, s2)
                 | Inr _ \<Rightarrow>
                     let s3 = s2\<lparr>sy_store := set_bucket (prune_old_snapshots (ye_prune_list env) (ye_prune env) (yc_team c) b) (sy_store s2)\<rparr>
                     in (Inr (), put_cache (snd (cache_keep (yc_cache_file c) (ye_cache_io env 3)
                           \<lparr>fs_object_key = k, fs_sealed = blob, fs_snapshot = snapshot\<rparr> epoch MemoryAndDisk (cache_of s3))) s3))"

definition SNAPSHOT_REFRESH_LAMPORT_GAP :: u64 where "SNAPSHOT_REFRESH_LAMPORT_GAP = 64"

definition maybe_persist_checkpoint :: "'f sync_config \<Rightarrow> 'f sync_env \<Rightarrow> u64 option \<Rightarrow> u64 \<Rightarrow> 'f sync_state \<Rightarrow> bool \<times> 'f sync_state" where
  "maybe_persist_checkpoint c env baseline last_lamport s =
     (let checkpoint_stale =
            (case baseline of None \<Rightarrow> True
             | Some base \<Rightarrow> (if last_lamport \<le> base then 0 else last_lamport - base) \<ge> SNAPSHOT_REFRESH_LAMPORT_GAP)
      in if \<not> checkpoint_stale then (True, s)
         else case persist_snapshot c env (filter (\<lambda>r. ir_lamport r \<le> last_lamport) (all_records (st_index (sy_store s)))) last_lamport s of
                (Inl _, s1) \<Rightarrow> (False, s1)
              | (Inr _, s1) \<Rightarrow> (True, s1))"

subsection \<open>One pass, and the sync\<close>

datatype install_mode = InstallAuthoritative | InstallMonotonic

definition apply_of :: "filtered_read \<Rightarrow> install_mode \<Rightarrow> index_apply" where
  "apply_of fr mode =
     (case fr_own_view fr of
        Lagging my_view_tip \<Rightarrow> ApplyLagging my_view_tip
      | Complete \<Rightarrow> (case mode of InstallAuthoritative \<Rightarrow> Authoritative (fr_install_stamp fr) | InstallMonotonic \<Rightarrow> Monotonic))"

text \<open>The outcome of the rebuild: what was indexed, the checkpoint's baseline when its refresh may wait, and the baseline of
  an unstamped checkpoint that is to be replaced.\<close>

definition rebuild_pass ::
    "'f sync_config \<Rightarrow> 'f sync_env \<Rightarrow> filtered_read \<Rightarrow> index_apply \<Rightarrow> index_snapshot option \<Rightarrow> 'f sync_state
      \<Rightarrow> (mem_error + (nat \<times> u64 option \<times> u64 option) option) \<times> 'f sync_state" where
  "rebuild_pass c env fr apply snapshot s =
     (case snapshot of
        None \<Rightarrow>
          (let (r, s1) = rebuild_full c env (fr_members_view fr) (fr_retain_baseline fr) apply s
           in (case r of Inl e \<Rightarrow> Inl e | Inr x \<Rightarrow> Inr (map_option (\<lambda>indexed. (indexed, None, None)) x), s1))
      | Some snap \<Rightarrow>
          let restored_baseline = sn_last_lamport snap;
              replace_unstamped = replaces_unstamped (sc_embedder (yc_store c)) snap (lamport_tip (ops_of (fr_members_view fr))) (sy_ledger s);
              (r, s1) = sync_incremental c env snap (fr_members_view fr) (fr_retain_baseline fr) apply s
          in (case r of
                Inl e \<Rightarrow> Inl e
              | Inr (Incremental indexed) \<Rightarrow>
                  Inr (Some (indexed, if replace_unstamped then None else Some restored_baseline,
                             if replace_unstamped then Some restored_baseline else None))
              | Inr (FellBackToFull indexed) \<Rightarrow> Inr (Some (indexed, None, None))
              | Inr StampChanged \<Rightarrow> Inr None, s1))"

text \<open>A pass in three steps: the read, the rebuild of the index from what was read, and the refresh of the checkpoint.\<close>

definition refresh_checkpoint ::
    "'f sync_config \<Rightarrow> 'f sync_env \<Rightarrow> filtered_read \<Rightarrow> u64 option \<Rightarrow> u64 option \<Rightarrow> 'f sync_state \<Rightarrow> 'f sync_state" where
  "refresh_checkpoint c env fr baseline replacing s =
     (if fr_own_view fr \<noteq> Complete then s
      else
        let (written, s1) = maybe_persist_checkpoint c env baseline (lamport_tip (ops_of (fr_members_view fr))) s
        in if \<not> written \<and> replacing \<noteq> None then s1\<lparr>sy_ledger := (sy_ledger s1)\<lparr>vl_replace_refused := replacing\<rparr>\<rparr> else s1)"

definition sync_view :: "'f sync_config \<Rightarrow> 'f sync_env \<Rightarrow> install_mode \<Rightarrow> filtered_read \<Rightarrow> 'f sync_state \<Rightarrow> (mem_error + nat option) \<times> 'f sync_state" where
  "sync_view c env mode fr s =
     (let (redacted, _) = purge_redacted_from_cache (ops_of (fr_members_view fr)) in
      case load_checkpoint_with c env MemoryAndDisk redacted s of
        (Inl e, s1) \<Rightarrow> (Inl e, s1)
      | (Inr snapshot, s1) \<Rightarrow>
          (case rebuild_pass c env fr (apply_of fr mode) snapshot s1 of
             (Inl e, s2) \<Rightarrow> (Inl e, s2)
           | (Inr None, s2) \<Rightarrow> (Inr None, s2)
           | (Inr (Some (indexed, baseline, replacing)), s2) \<Rightarrow>
               (Inr (Some indexed), refresh_checkpoint c env fr baseline replacing s2)))"

definition sync_pass :: "'f sync_config \<Rightarrow> 'f sync_env \<Rightarrow> install_mode \<Rightarrow> 'f sync_state \<Rightarrow> ((mem_error + nat option) \<times> 'f sync_state) option" where
  "sync_pass c env mode s =
     map_option (\<lambda>(r, s1). case r of Inl e \<Rightarrow> (Inl e, s1) | Inr fr \<Rightarrow> sync_view c env mode fr s1) (read_filtered c env s)"

definition AUTHORITATIVE_INSTALL_ATTEMPTS :: nat where "AUTHORITATIVE_INSTALL_ATTEMPTS = 3"

fun sync_attempts ::
    "'f sync_config \<Rightarrow> (nat \<Rightarrow> 'f sync_env) \<Rightarrow> nat \<Rightarrow> nat \<Rightarrow> 'f sync_state \<Rightarrow> ((mem_error + nat) \<times> 'f sync_state) option" where
  "sync_attempts c envs n 0 s =
     map_option (\<lambda>(r, s1).
       (case r of Inl e \<Rightarrow> Inl e | Inr (Some indexed) \<Rightarrow> Inr indexed
        | Inr None \<Rightarrow> Inl (Storage ''monotonic index install skipped unexpectedly''), s1))
       (sync_pass c (envs n) InstallMonotonic s)"
| "sync_attempts c envs n (Suc left) s =
     Option.bind (sync_pass c (envs n) InstallAuthoritative s) (\<lambda>(r, s1).
       case r of
         Inl e \<Rightarrow> Some (Inl e, s1)
       | Inr (Some indexed) \<Rightarrow> Some (Inr indexed, s1)
       | Inr None \<Rightarrow> sync_attempts c envs (Suc n) left s1)"

text \<open>The gate lets one sync of the process run at a time.\<close>

definition sync :: "'f sync_config \<Rightarrow> (nat \<Rightarrow> 'f sync_env) \<Rightarrow> 'f sync_state \<Rightarrow> ((mem_error + nat) \<times> 'f sync_state) option" where
  "sync c envs s = sync_attempts c envs 0 AUTHORITATIVE_INSTALL_ATTEMPTS s"

subsection \<open>The snapshot command\<close>

definition read_and_filter :: "'f sync_config \<Rightarrow> 'f sync_env \<Rightarrow> 'f sync_state \<Rightarrow> ((mem_error + verified_ops \<times> u64) \<times> 'f sync_state) option" where
  "read_and_filter c env s =
     map_option (\<lambda>(r, s1). (r_bind r (\<lambda>fr. Inr (fr_members_view fr, fr_retain_baseline fr)), s1)) (read_filtered c env s)"

text \<open>The notes are decoded one after the other.\<close>

definition take_snapshot :: "'f sync_config \<Rightarrow> 'f sync_env \<Rightarrow> 'f sync_state \<Rightarrow> ((mem_error + u64) \<times> 'f sync_state) option" where
  "take_snapshot c env s =
     map_option (\<lambda>(r, s1).
       case r of
         Inl e \<Rightarrow> (Inl e, s1)
       | Inr (members_view, _) \<Rightarrow>
           let last_lamport = lamport_tip (ops_of members_view);
               converged = converge (yc_prims c) members_view;
               s2 = others env 2 s1;
               records = List.map_filter (\<lambda>(i, p).
                   case decode_pointer c env (sy_store s2) i p of
                     Inl _ \<Rightarrow> None
                   | Inr r \<Rightarrow> map_option (\<lambda>st. with_signals st r) (Mapping.lookup converged i)) (live_items converged)
           in case persist_snapshot c env records last_lamport s2 of
                (Inl e, s3) \<Rightarrow> (Inl e, s3)
              | (Inr _, s3) \<Rightarrow> (Inr last_lamport, s3))
       (read_and_filter c env s)"

end
