(* ===== verification/Replay.thy ===== *)
theory Replay
  imports Sync Reclaim
begin

text \<open>
  What the sync promises: the incremental replay over a checkpoint shows exactly the notes, at exactly the versions, that the
  replay of the whole log shows; what a checkpoint can claim and what it cannot; and what an installed replay leaves in the
  index.
\<close>

section \<open>The notes a log shows\<close>

definition live_at :: "prims \<Rightarrow> verified_ops \<Rightarrow> note_id \<Rightarrow> note_pointer option" where
  "live_at P v i = Option.bind (Mapping.lookup (converge P v) i) live_pointer"

lemma finite_converge [simp]: "finite_map (converge P v)"
proof -
  have "Mapping.keys (converge P v) \<subseteq> op_note_id ` set (ops_of v)"
    by (auto simp: keys_dom_lookup lookup_converge Let_def filter_empty_conv split: if_splits)
  then show ?thesis using finite_subset unfolding finite_map_def by blast
qed

lemma map_filter_pair: "set (List.map_filter (\<lambda>i. map_option (Pair i) (f i)) ks) = {(i, p). i \<in> set ks \<and> f i = Some p}"
  by (force simp: List.map_filter_def)

lemma set_live_items: "set (live_items (converge P v)) = {(i, p). live_at P v i = Some p}"
  unfolding live_items_def map_filter_pair by (auto simp: live_at_def in_ordered_keys bind_eq_Some_conv)

lemma lookup_pointer_map:
  assumes "set items = {(i, p). f i = Some p}"
  shows "Mapping.lookup (pointer_map items) i = f i"
proof (cases "filter (\<lambda>x. fst x = i) items = []")
  case True
  then show ?thesis using assms by (cases "f i") (auto simp: pointer_map_def collect_map_lookup filter_empty_conv)
next
  case False
  then have "last (filter (\<lambda>x. fst x = i) items) \<in> set (filter (\<lambda>x. fst x = i) items)" by (rule last_in_set)
  then have "f i = Some (snd (last (filter (\<lambda>x. fst x = i) items)))" by (auto simp: assms)
  with False show ?thesis by (simp add: pointer_map_def collect_map_lookup)
qed

lemma lookup_live_map [simp]: "Mapping.lookup (pointer_map (live_items (converge P v))) i = live_at P v i"
  using set_live_items by (rule lookup_pointer_map)

lemma keys_live_map [simp]: "Mapping.keys (pointer_map (live_items (converge P v))) = {i. live_at P v i \<noteq> None}"
  by (auto simp: keys_dom_lookup)

lemma live_ids: "fst ` set (live_items (converge P v)) = {i. live_at P v i \<noteq> None}"
  by (force simp: set_live_items)

lemma finite_pointer_map [simp]: "finite_map (pointer_map items)"
proof -
  have "Mapping.keys (pointer_map items) \<subseteq> fst ` set items"
    by (auto simp: pointer_map_def keys_dom_lookup) (metis collect_map_None option.distinct(1))
  then show ?thesis using finite_subset unfolding finite_map_def by blast
qed

lemma set_pairs_of: "finite_map m \<Longrightarrow> set (pairs_of m) = {(i, p). Mapping.lookup m i = Some p}"
  unfolding pairs_of_def map_filter_pair by (auto simp: in_ordered_keys)

text \<open>The op whose content a note shows.\<close>

definition shown_op :: "prims \<Rightarrow> op list \<Rightarrow> op option" where
  "shown_op P ops =
     (if (\<exists>x\<in>set ops. op_kind x = Redact) \<or> (\<exists>m. na_lifecycle (acc_of P ops) = Some (m, True)) then None
      else na_pointer (acc_of P ops))"

lemma live_at_shown: "live_at P v i = map_option pointer_of (shown_op P (own_ops v i))"
proof (cases "own_ops v i = []")
  case True
  then show ?thesis by (simp add: live_at_def lookup_converge shown_op_def acc_of_def na_default_def)
next
  case False
  then show ?thesis
    using acc_redacted [of P "own_ops v i"]
    by (auto simp: live_at_def lookup_converge Let_def live_pointer_def into_state_def shown_op_def split: option.splits)
qed

lemma tombstoned_iff:
  "(\<exists>st. Mapping.lookup (converge P v) i = Some st \<and> ns_tombstoned st) \<longleftrightarrow>
    (\<exists>x\<in>set (own_ops v i). op_kind x = Redact) \<or> (\<exists>m. na_lifecycle (acc_of P (own_ops v i)) = Some (m, True))"
proof (cases "own_ops v i = []")
  case True
  then show ?thesis by (simp add: lookup_converge acc_of_def na_default_def)
next
  case False
  then show ?thesis
    using acc_redacted [of P "own_ops v i"]
    by (auto simp: lookup_converge Let_def into_state_def split: option.splits)
qed

lemma redacted_iff: "i \<in> redacted_ids (converge P v) \<longleftrightarrow> (\<exists>x\<in>set (own_ops v i). op_kind x = Redact)"
proof -
  have "i \<in> redacted_ids (converge P v) \<longleftrightarrow> (\<exists>st. Mapping.lookup (converge P v) i = Some st \<and> ns_redacted st)"
    by (auto simp: redacted_ids_def in_ordered_keys split: option.splits)
  also have "\<dots> \<longleftrightarrow> (\<exists>x\<in>set (own_ops v i). op_kind x = Redact)"
  proof (cases "own_ops v i = []")
    case False
    then show ?thesis using acc_redacted [of P "own_ops v i"] by (auto simp: lookup_converge Let_def into_state_def)
  qed (simp add: lookup_converge)
  finally show ?thesis .
qed

section \<open>Base and tail\<close>

text \<open>Every op of the tail has a greater Lamport time than every op of the base, so the tail decides where it says anything.\<close>

definition split_at_lamport :: "u64 \<Rightarrow> op list \<Rightarrow> op list \<Rightarrow> op list \<Rightarrow> bool" where
  "split_at_lamport l ops base tail \<longleftrightarrow>
     set base = {x \<in> set ops. op_lamport x \<le> l} \<and> set tail = {x \<in> set ops. l < op_lamport x}"

lemma split_own:
  assumes "base_and_tail v l = (base, tail)"
  shows "split_at_lamport l (own_ops v i) (own_ops base i) (own_ops tail i)"
  using assms by (auto simp: base_and_tail_def vo_partition_def Let_def split_beta split_at_lamport_def)

lemma split_union: "split_at_lamport l ops base tail \<Longrightarrow> set ops = set base \<union> set tail"
  using le_less_linear by (auto simp: split_at_lamport_def)

lemma leads_split:
  assumes "split_at_lamport l ops base tail"
  shows "leads P cls tail m \<Longrightarrow> leads P cls ops m"
    and "\<forall>x\<in>set tail. \<not> cls x \<Longrightarrow> leads P cls base m \<Longrightarrow> leads P cls ops m"
proof -
  assume m: "leads P cls tail m"
  have "\<not> op_outranks P o2 m" if "o2 \<in> set ops" "cls o2" for o2
  proof (cases "o2 \<in> set tail")
    case True
    then show ?thesis using m that(2) by (simp add: leads_def)
  next
    case False
    then have "op_lamport o2 < op_lamport m" using assms m that(1) by (auto simp: split_at_lamport_def leads_def)
    then have "op_key P o2 < op_key P m" by (simp add: op_key_def op_prefix_def)
    then show ?thesis by (simp add: op_outranks_iff)
  qed
  then show "leads P cls ops m" using assms m by (auto simp: split_at_lamport_def leads_def)
next
  assume "\<forall>x\<in>set tail. \<not> cls x" and "leads P cls base m"
  then show "leads P cls ops m" using assms by (auto simp: split_at_lamport_def leads_def not_le [symmetric])
qed

lemma pointer_if_leads:
  assumes "inj_on (op_hash P) (set ops)" and "leads P is_content ops m"
  shows "na_pointer (acc_of P ops) = Some m"
proof (cases "na_pointer (acc_of P ops)")
  case None
  then show ?thesis using assms(2) by (auto simp: acc_pointer_None leads_def)
next
  case (Some m')
  then show ?thesis using leads_unique [OF assms(1,2) acc_pointer_leads [OF Some]] by simp
qed

lemma lifecycle_if_leads:
  assumes "inj_on (op_hash P) (set ops)" and "leads P is_lifecycle ops m"
  shows "na_lifecycle (acc_of P ops) = Some (m, op_kind m = Forget)"
proof (cases "na_lifecycle (acc_of P ops)")
  case None
  then show ?thesis using assms(2) by (auto simp: acc_lifecycle_None leads_def)
next
  case (Some q)
  then obtain m' f where q: "na_lifecycle (acc_of P ops) = Some (m', f)" by (cases q) auto
  moreover have "m = m'" using leads_unique [OF assms(1,2)] acc_lifecycle_leads [OF q] by blast
  ultimately show ?thesis using acc_lifecycle_leads [OF q] by simp
qed

lemma pointer_split:
  assumes "inj_on (op_hash P) (set ops)" and "split_at_lamport l ops base tail"
  shows "na_pointer (acc_of P ops) =
    (case na_pointer (acc_of P tail) of Some m \<Rightarrow> Some m | None \<Rightarrow> na_pointer (acc_of P base))"
proof (cases "na_pointer (acc_of P tail)")
  case (Some m)
  then show ?thesis using pointer_if_leads [OF assms(1)] leads_split(1) [OF assms(2) acc_pointer_leads [OF Some]] by simp
next
  case None
  then have no: "\<forall>x\<in>set tail. \<not> is_content x" by (simp add: acc_pointer_None)
  show ?thesis
  proof (cases "na_pointer (acc_of P base)")
    case (Some m)
    then show ?thesis using None pointer_if_leads [OF assms(1)] leads_split(2) [OF assms(2) no acc_pointer_leads [OF Some]] by simp
  next
    case None
    then have "\<forall>x\<in>set base. \<not> is_content x" by (simp add: acc_pointer_None)
    then have "\<forall>x\<in>set ops. \<not> is_content x" using no by (auto simp: split_union [OF assms(2)])
    then have "na_pointer (acc_of P ops) = None" by (simp add: acc_pointer_None)
    then show ?thesis using None \<open>na_pointer (acc_of P tail) = None\<close> by simp
  qed
qed

lemma lifecycle_split:
  assumes "inj_on (op_hash P) (set ops)" and "split_at_lamport l ops base tail"
  shows "na_lifecycle (acc_of P ops) =
    (case na_lifecycle (acc_of P tail) of Some q \<Rightarrow> Some q | None \<Rightarrow> na_lifecycle (acc_of P base))"
proof (cases "na_lifecycle (acc_of P tail)")
  case (Some q)
  then obtain m f where q: "na_lifecycle (acc_of P tail) = Some (m, f)" by (cases q) auto
  from acc_lifecycle_leads [OF q] lifecycle_if_leads [OF assms(1) leads_split(1) [OF assms(2)]] q show ?thesis by auto
next
  case None
  then have no: "\<forall>x\<in>set tail. \<not> is_lifecycle x" by (simp add: acc_lifecycle_None)
  show ?thesis
  proof (cases "na_lifecycle (acc_of P base)")
    case (Some q)
    then obtain m f where q: "na_lifecycle (acc_of P base) = Some (m, f)" by (cases q) auto
    from acc_lifecycle_leads [OF q] lifecycle_if_leads [OF assms(1) leads_split(2) [OF assms(2) no]] q None show ?thesis by auto
  next
    case None
    then have "\<forall>x\<in>set base. \<not> is_lifecycle x" by (simp add: acc_lifecycle_None)
    then have "\<forall>x\<in>set ops. \<not> is_lifecycle x" using no by (auto simp: split_union [OF assms(2)])
    then have "na_lifecycle (acc_of P ops) = None" by (simp add: acc_lifecycle_None)
    then show ?thesis using None \<open>na_lifecycle (acc_of P tail) = None\<close> by simp
  qed
qed

text \<open>A tail without a redaction shows its own content, hides the note, or leaves it as the base has it.\<close>

lemma shown_split:
  assumes "inj_on (op_hash P) (set ops)" and "split_at_lamport l ops base tail" and "\<forall>x\<in>set ops. op_kind x \<noteq> Redact"
  shows "shown_op P ops =
    (if \<exists>m. na_lifecycle (acc_of P tail) = Some (m, True) then None
     else case shown_op P tail of Some m \<Rightarrow> Some m | None \<Rightarrow> shown_op P base)"
proof -
  have no: "\<forall>x\<in>set base. op_kind x \<noteq> Redact" "\<forall>x\<in>set tail. op_kind x \<noteq> Redact"
    using assms(2,3) by (auto simp: split_at_lamport_def)
  have content: "na_pointer (acc_of P tail) \<noteq> None" if q: "na_lifecycle (acc_of P tail) = Some (m, False)" for m
    using acc_lifecycle_leads [OF q] by (auto simp: acc_pointer_None leads_def is_lifecycle_def)
  have bare: "na_pointer (acc_of P tail) = None" if "na_lifecycle (acc_of P tail) = None"
    using that by (auto simp: acc_pointer_None acc_lifecycle_None is_lifecycle_def)
  show ?thesis
    using assms(3) no content bare
    by (auto simp: shown_op_def pointer_split [OF assms(1,2)] lifecycle_split [OF assms(1,2)] split: option.splits)
qed

text \<open>The live set and the pointers of the incremental replay are those of the whole log.\<close>

lemma incremental_live_exact:
  assumes "inj_on (op_hash P) (set (ops_of v))" and "base_and_tail v l = (base, tail)"
    and "incremental_live P base tail (converge P v) = (final_live, tail_live)"
  shows "final_live = {i. live_at P v i \<noteq> None}"
    and "i \<in> final_live \<Longrightarrow> live_at P v i = (case Mapping.lookup tail_live i of Some p \<Rightarrow> Some p | None \<Rightarrow> live_at P base i)"
    and "Mapping.lookup tail_live i \<noteq> None \<Longrightarrow> i \<in> final_live"
    and "i \<in> final_live \<Longrightarrow> Mapping.lookup tail_live i = live_at P tail i"
proof -
  note run = assms(3) [unfolded incremental_live_def drop_redacted_def Let_def, simplified prod.inject]
  have dead: "i \<in> set (filter (\<lambda>i. case Mapping.lookup (converge P tail) i of Some st \<Rightarrow> ns_tombstoned st | None \<Rightarrow> False) (Mapping.ordered_keys (converge P tail))) \<longleftrightarrow>
      (\<exists>x\<in>set (own_ops tail i). op_kind x = Redact) \<or> (\<exists>m. na_lifecycle (acc_of P (own_ops tail i)) = Some (m, True))" for i
    unfolding tombstoned_iff [symmetric] by (auto simp: in_ordered_keys split: option.splits)
  have TL: "Mapping.lookup tail_live i = (if \<exists>x\<in>set (own_ops v i). op_kind x = Redact then None else live_at P tail i)" for i
    using run redacted_iff [of i P v] by (auto simp: lookup_filter split: option.splits)
  have FL: "i \<in> final_live \<longleftrightarrow> \<not> (\<exists>x\<in>set (own_ops v i). op_kind x = Redact) \<and>
      (live_at P base i \<noteq> None \<and> \<not> (\<exists>m. na_lifecycle (acc_of P (own_ops tail i)) = Some (m, True)) \<or> live_at P tail i \<noteq> None)" for i
    using run redacted_iff [of i P v] dead [of i] split_own [OF assms(2), of i] by (auto simp: split_at_lamport_def)
  have at: "live_at P v i = (if \<exists>x\<in>set (own_ops v i). op_kind x = Redact then None
      else if \<exists>m. na_lifecycle (acc_of P (own_ops tail i)) = Some (m, True) then None
      else case live_at P tail i of Some p \<Rightarrow> Some p | None \<Rightarrow> live_at P base i)" for i
  proof (cases "\<exists>x\<in>set (own_ops v i). op_kind x = Redact")
    case True
    then show ?thesis by (simp add: live_at_shown shown_op_def)
  next
    case False
    then show ?thesis
      using shown_split [OF own_inj [OF assms(1)] split_own [OF assms(2)], of i]
      by (simp add: live_at_shown split: option.splits)
  qed
  have gone: "live_at P tail i = None" if "na_lifecycle (acc_of P (own_ops tail i)) = Some (m, True)" for i m
    using that by (auto simp: live_at_shown shown_op_def)
  show "final_live = {i. live_at P v i \<noteq> None}" using gone by (auto simp: FL at split: option.splits)
  then show "i \<in> final_live \<Longrightarrow> live_at P v i = (case Mapping.lookup tail_live i of Some p \<Rightarrow> Some p | None \<Rightarrow> live_at P base i)"
    using at [of i] TL [of i] by (auto split: if_splits)
  show "Mapping.lookup tail_live i \<noteq> None \<Longrightarrow> i \<in> final_live" using FL [of i] TL [of i] by (auto split: if_splits)
  show "i \<in> final_live \<Longrightarrow> Mapping.lookup tail_live i = live_at P tail i" using FL [of i] TL [of i] by (auto split: if_splits)
qed

section \<open>The records handed to the index\<close>

subsection \<open>Embedding vectors change nothing else\<close>

definition bare :: "'f index_record \<Rightarrow> 'f index_record" where
  "bare r = r\<lparr>ir_embedding := None\<rparr>"

lemma bare_embedding [simp]: "bare (r\<lparr>ir_embedding := v\<rparr>) = bare r"
  by (simp add: bare_def)

lemma give_vectors_bare: "give_vectors from_checkpoint carried mine rs = (out, filled, kept) \<Longrightarrow> map bare out = map bare rs"
  by (induction rs arbitrary: carried mine out filled kept)
    (auto simp: Let_def split: if_splits prod.splits option.splits)

lemma fill_missing_bare: "map bare (fst (fill_missing rs vs)) = map bare rs"
  by (induction rs vs rule: fill_missing.induct) (simp_all add: Let_def split_beta)

lemma attach_bare:
  assumes "attach_embeddings em rs from_checkpoint s = (Inr (out, filled), s')"
  shows "map bare out = map bare rs" and "sy_store s' = sy_store s"
proof -
  obtain given filled0 kept where give: "give_vectors from_checkpoint (vl_carried (sy_ledger s))
      (own_vectors (vl_restored (sy_ledger s)) (st_index (sy_store s))) rs = (given, filled0, kept)" by (metis prod_cases3)
  have "map bare o1 = map bare given" if "embed_missing em given filled0 = Inr (o1, f1)" for o1 f1
    using that by (auto simp: embed_missing_def Let_def r_bind_Inr_iff split_beta fill_missing_bare split: if_splits)
  with give_vectors_bare [OF give] assms show "map bare out = map bare rs" "sy_store s' = sy_store s"
    by (auto simp: attach_embeddings_def Let_def give split: if_splits sum.splits prod.splits)
qed

lemma attach_store: "attach_embeddings em rs from_checkpoint s = (res, s') \<Longrightarrow> sy_store s' = sy_store s"
  by (auto simp: attach_embeddings_def Let_def split: if_splits sum.splits prod.splits)

lemma offers_bare:
  assumes "map bare out = map bare rs"
  shows "offers i refuse out = offers i refuse rs"
proof -
  have key: "version_key (bare r) = version_key r" "ir_note_id (bare r) = ir_note_id r" for r :: "'a index_record"
    by (simp_all add: bare_def version_key_def)
  have "map (\<lambda>r. (ir_note_id r, version_key r)) out = map (\<lambda>r. (ir_note_id r, version_key r)) rs"
    using arg_cong [OF assms, of "map (\<lambda>r. (ir_note_id r, version_key r))"] by (simp add: key comp_def)
  moreover have "offers i refuse xs = map (\<lambda>p. Offer (snd p) refuse) (filter (\<lambda>p. fst p = i) (map (\<lambda>r. (ir_note_id r, version_key r)) xs))"
    for xs :: "'a index_record list"
    by (simp add: offers_def filter_map comp_def)
  ultimately show ?thesis by simp
qed

subsection \<open>Installing\<close>

definition refuses :: "index_apply \<Rightarrow> bool" where
  "refuses apply \<longleftrightarrow> (case apply of Authoritative _ \<Rightarrow> False | _ \<Rightarrow> True)"

text \<open>The notes a prune keeps whatever their version.\<close>

definition kept_ids :: "ss58 \<Rightarrow> 'f index_state \<Rightarrow> note_id set \<Rightarrow> index_apply \<Rightarrow> note_id set" where
  "kept_ids author ix live_ids apply =
     (case apply of ApplyLagging my_view_tip \<Rightarrow> with_own_unseen author ix live_ids my_view_tip | _ \<Rightarrow> live_ids)"

lemma install_slots:
  assumes "apply_live_set c env live_ids baseline records from_checkpoint apply s = (Inr (Some n), s')"
  defines "ix \<equiv> st_index (ye_others env 3 (sy_store s))"
  shows "slot_of (st_index (sy_store s')) i =
    foldl slot_apply (slot_of ix i)
      (Prune (i \<in> kept_ids (sc_author (yc_store c)) ix live_ids apply) baseline # offers i (refuses apply) records)"
proof -
  let ?em = "sc_embedder (yc_store c)"
  obtain out filled s1 where att: "attach_embeddings ?em records from_checkpoint s = (Inr (out, filled), s1)"
    using assms(1) by (auto simp: apply_live_set_def Let_def split: prod.splits sum.splits)
  let ?ret = "retain ix (kept_ids (sc_author (yc_store c)) ix live_ids apply) baseline"
  have ix: "st_index (sy_store (others env 3 s1)) = ix" using attach_store [OF att] by (simp add: others_def ix_def)
  obtain ix1 where "apply_batch ?em ?ret out (refuses apply) = (Inr (), ix1)" and "st_index (sy_store s') = ix1"
    using assms(1) ix unfolding apply_live_set_def Let_def att
    by (cases "apply") (auto simp: upsert_batch_def replace_batch_def refuses_def kept_ids_def set_index_def split: prod.splits sum.splits if_splits)
  with slot_of_batch [of ?em ?ret out "refuses apply" "Inr ()" ix1 i] offers_bare [OF attach_bare(1) [OF att]]
  show ?thesis by (simp add: slot_of_retain)
qed

lemma offers_same_version:
  assumes "\<And>r. r \<in> set records \<Longrightarrow> ir_note_id r = i \<Longrightarrow> version_key r = v"
  shows "foldl slot_apply \<sigma> (offers i refuse records) =
    (if i \<in> ir_note_id ` set records then slot_apply \<sigma> (Offer v refuse) else \<sigma>)"
proof -
  have twice: "slot_apply (slot_apply \<sigma> (Offer v refuse)) (Offer v refuse) = slot_apply \<sigma> (Offer v refuse)" for \<sigma> by auto
  have "foldl slot_apply \<sigma> (map (\<lambda>r. Offer (version_key r) refuse) rs) = (if rs = [] then \<sigma> else slot_apply \<sigma> (Offer v refuse))"
    if "\<forall>r\<in>set rs. version_key r = v" for rs :: "'a index_record list"
    using that by (induction rs arbitrary: \<sigma>) (auto simp: twice simp del: slot_apply.simps)
  from this [of "filter (\<lambda>r. ir_note_id r = i) records"] assms show ?thesis
    by (auto simp: offers_def filter_empty_conv simp del: slot_apply.simps)
qed

subsection \<open>What the records say\<close>

text \<open>Concurrent decodes complete each once, in some order.\<close>

definition in_some_order :: "'f sync_env \<Rightarrow> bool" where
  "in_some_order env \<longleftrightarrow> (\<forall>items. mset (ye_order env items) = mset items)"

text \<open>The record's identity, place, revision and scope are those a signed op attests.\<close>

definition attested :: "prims \<Rightarrow> verified_ops \<Rightarrow> 'f index_record \<Rightarrow> bool" where
  "attested P v r \<longleftrightarrow>
     (\<exists>p i u. live_at P v (ir_note_id r) = Some p \<and> ir_object_key r = np_object_key p \<and> ir_cid r = np_cid p \<and>
        ir_lamport r = np_lamport p \<and> ir_key_epoch r = np_key_epoch p \<and> parse_object_key (np_object_key p) = Inr (ir_scope r, i, u))"

definition bounded_fields :: "'f index_record \<Rightarrow> bool" where
  "bounded_fields r \<longleftrightarrow> length (chars_of (ir_summary r)) \<le> MAX_SUMMARY_CHARS \<and> fcard (ir_tags r) \<le> MAX_TAGS \<and>
     (\<forall>t. t |\<in>| ir_tags r \<longrightarrow> length (chars_of t) \<le> MAX_TAG_CHARS)"

lemma fcard_of_list: "fcard (fset_of_list xs) \<le> length xs"
  by (simp add: fcard.rep_eq fset_of_list.rep_eq card_length)

lemma bound_fields:
  assumes "ir_summary r = fst (bound_index_fields s0 t0)" and "ir_tags r = snd (bound_index_fields s0 t0)"
  shows "bounded_fields r"
proof -
  have tags: "ir_tags r = fset_of_list (map (\<lambda>t. truncate_chars t MAX_TAG_CHARS) (take MAX_TAGS (sorted_list_of_fset t0)))"
    and summary: "ir_summary r = truncate_chars s0 MAX_SUMMARY_CHARS"
    using assms by (simp_all add: bound_index_fields_def)
  have "fcard (ir_tags r) \<le> MAX_TAGS"
    unfolding tags using order_trans [OF fcard_of_list] by (metis length_map length_take min.cobounded2)
  moreover have "length (chars_of t) \<le> MAX_TAG_CHARS" if "t |\<in>| ir_tags r" for t
    using that by (auto simp: tags fset_of_list_elem truncate_chars_bound)
  ultimately show ?thesis by (simp add: bounded_fields_def summary truncate_chars_bound)
qed

lemma set_decode_records:
  "in_some_order env \<Longrightarrow> set (decode_records c env st items) = {r. \<exists>i p. (i, p) \<in> set items \<and> decode_pointer c env st i p = Inr r}"
proof -
  assume "in_some_order env"
  then have "set (ye_order env items) = set items" unfolding in_some_order_def by (metis mset_eq_setD)
  then show ?thesis by (force simp: decode_records_def List.map_filter_def split: sum.splits)
qed

lemma decode_pointer_fields:
  assumes "decode_pointer c env st i p = Inr r"
  shows "ir_note_id r = i" "ir_object_key r = np_object_key p" "ir_cid r = np_cid p" "ir_lamport r = np_lamport p"
    "ir_key_epoch r = np_key_epoch p" "\<exists>u. parse_object_key (np_object_key p) = Inr (ir_scope r, i, u)"
    "ir_embedding r = None" "bounded_fields r"
proof -
  obtain n where n: "note_matches_object n i (yc_team c) (np_object_key p)"
    and r: "r = \<lparr>ir_note_id = i, ir_object_key = np_object_key p, ir_cid = np_cid p, ir_scope = nt_scope n,
                           ir_note_type = nt_note_type n, ir_author = nt_author n, ir_updated = nt_updated n,
                           ir_lamport = np_lamport p, ir_key_epoch = np_key_epoch p,
                           ir_tags = snd (bound_index_fields (nt_summary n) (nt_tags n)),
                           ir_summary = fst (bound_index_fields (nt_summary n) (nt_tags n)),
                           ir_relations = [], ir_reinforcers = {||}, ir_last_reinforced = None, ir_embedding = None\<rparr>"
    using assms by (auto simp: decode_pointer_def r_bind_Inr_iff split_beta split: if_splits option.splits)
  show "ir_note_id r = i" "ir_object_key r = np_object_key p" "ir_cid r = np_cid p" "ir_lamport r = np_lamport p"
    "ir_key_epoch r = np_key_epoch p" "ir_embedding r = None" by (simp_all add: r)
  show "\<exists>u. parse_object_key (np_object_key p) = Inr (ir_scope r, i, u)"
    using n by (auto simp: note_matches_object_def r split: if_splits sum.splits)
  show "bounded_fields r" by (rule bound_fields) (simp_all add: r)
qed

text \<open>The stamp of one record.\<close>

definition stamped :: "converged_state \<Rightarrow> 'f index_record \<Rightarrow> 'f index_record" where
  "stamped converged r = (case Mapping.lookup converged (ir_note_id r) of None \<Rightarrow> r | Some st \<Rightarrow> with_signals st r)"

lemma stamp_map: "stamp_ranking_signals converged rs = map (stamped converged) rs"
  by (simp add: stamp_ranking_signals_def stamped_def)

lemma stamped_sel [simp]:
  "ir_note_id (stamped cv r) = ir_note_id r" "ir_object_key (stamped cv r) = ir_object_key r" "ir_cid (stamped cv r) = ir_cid r"
  "ir_scope (stamped cv r) = ir_scope r" "ir_author (stamped cv r) = ir_author r" "ir_lamport (stamped cv r) = ir_lamport r"
  "ir_key_epoch (stamped cv r) = ir_key_epoch r" "ir_summary (stamped cv r) = ir_summary r" "ir_tags (stamped cv r) = ir_tags r"
  "ir_embedding (stamped cv r) = ir_embedding r"
  by (simp_all add: stamped_def with_signals_def split: option.splits)

lemma attested_stamped [simp]: "attested P v (stamped cv r) = attested P v r"
  by (simp add: attested_def)

lemma bounded_stamped [simp]: "bounded_fields (stamped cv r) = bounded_fields r"
  by (simp add: bounded_fields_def)

lemma decode_attested: "live_at P v i = Some p \<Longrightarrow> decode_pointer c env st i p = Inr r \<Longrightarrow> attested P v r"
  using decode_pointer_fields [of c env st i p r] unfolding attested_def by blast

text \<open>The replay's records, note by note.\<close>

lemma in_replay_records:
  "in_some_order env \<Longrightarrow> r \<in> set (replay_records c env st v) \<longleftrightarrow>
    (\<exists>i p d. live_at (yc_prims c) v i = Some p \<and> decode_pointer c env st i p = Inr d \<and> r = stamped (converge (yc_prims c) v) d)"
  by (auto simp: replay_records_def Let_def stamp_map set_decode_records set_live_items)

text \<open>What a checkpoint's record claims once it is accepted.\<close>

definition backed :: "note_pointer \<Rightarrow> 'f index_record \<Rightarrow> bool" where
  "backed p r \<longleftrightarrow>
     ir_object_key r = np_object_key p \<and> ir_cid r = np_cid p \<and> ir_lamport r = np_lamport p \<and> ir_key_epoch r = np_key_epoch p \<and>
     ir_author r = np_author p \<and> (\<exists>i u. parse_object_key (np_object_key p) = Inr (ir_scope r, i, u))"

lemma backed_attested: "live_at P v (ir_note_id r) = Some p \<Longrightarrow> backed p r \<Longrightarrow> attested P v r"
  by (auto simp: backed_def attested_def)

lemma backed_stamped [simp]: "backed p (stamped cv r) = backed p r"
  by (simp add: backed_def)

lemma no_disagreement:
  "snapshot_body_disagreement r sr (Some p) = None \<longleftrightarrow> ir_note_id r = sr_note_id sr \<and> backed p r"
  by (auto simp: snapshot_body_disagreement_def backed_def split: if_splits sum.splits)

definition opened_body :: "'f sync_config \<Rightarrow> 'f store_state \<Rightarrow> sealed_record \<Rightarrow> mem_error + 'f index_record" where
  "opened_body c st sr = r_bind (key_for_epoch st (sr_key_epoch sr)) (open_record (yc_aead c) (yc_codec c) sr)"

text \<open>The body with its summary and tags cut to size, and without a vector of another space.\<close>

definition admitted :: "'f sync_config \<Rightarrow> index_snapshot \<Rightarrow> 'f index_record \<Rightarrow> 'f index_record" where
  "admitted c snapshot body =
     (let b = body\<lparr>ir_summary := fst (bound_index_fields (ir_summary body) (ir_tags body)),
                   ir_tags := snd (bound_index_fields (ir_summary body) (ir_tags body))\<rparr>
      in if snapshot_vectors_usable (sc_embedder (yc_store c)) snapshot then b else b\<lparr>ir_embedding := None\<rparr>)"

lemma admitted_bounded: "bounded_fields (admitted c snapshot body)"
  by (rule bound_fields [of _ "ir_summary body" "ir_tags body"]) (simp_all add: admitted_def Let_def)

lemma restored_iff:
  assumes "Mapping.lookup bp (sr_note_id sr) = Some p"
  shows "restored_record c st snapshot bp final_live tail_live sr = Some r \<longleftrightarrow>
    sr_note_id sr \<in> final_live \<and> Mapping.lookup tail_live (sr_note_id sr) = None \<and>
    (\<exists>body. opened_body c st sr = Inr body \<and> r = admitted c snapshot body \<and> ir_note_id r = sr_note_id sr \<and> backed p r)"
  using no_disagreement [of r sr p]
  by (auto simp: restored_record_def opened_body_def [symmetric] admitted_def Let_def split_beta assms no_disagreement
      split: sum.splits if_splits)

lemma set_map_filter: "set (List.map_filter f xs) = {y. \<exists>x\<in>set xs. f x = Some y}"
  by (force simp: List.map_filter_def)

text \<open>The plan's records: those restored from the checkpoint, and the decoded notes that were not restored.\<close>

definition restored_from :: "'f sync_config \<Rightarrow> 'f store_state \<Rightarrow> index_snapshot \<Rightarrow> verified_ops \<Rightarrow> 'f index_record \<Rightarrow> bool" where
  "restored_from c st snapshot v r \<longleftrightarrow>
     (\<exists>p sr body. sr \<in> set (sn_records snapshot) \<and> opened_body c st sr = Inr body \<and> r = admitted c snapshot body \<and>
        ir_note_id r = sr_note_id sr \<and> live_at (yc_prims c) v (ir_note_id r) = Some p \<and> backed p r)"

lemma plan_sources:
  assumes "inj_on (op_hash (yc_prims c)) (set (ops_of v))" and "in_some_order env"
    and "incremental_plan c env st snapshot v = (final_live, records, hinted)"
  obtains restored where "final_live = {i. live_at (yc_prims c) v i \<noteq> None}"
    and "\<And>r. r \<in> set records \<longleftrightarrow> (\<exists>r0. r = stamped (converge (yc_prims c) v) r0 \<and>
        (r0 \<in> restored \<or> (\<exists>i p. live_at (yc_prims c) v i = Some p \<and> i \<notin> ir_note_id ` restored \<and> decode_pointer c env st i p = Inr r0)))"
    and "\<And>r0. r0 \<in> restored \<Longrightarrow> restored_from c st snapshot v r0"
proof -
  let ?P = "yc_prims c" and ?l = "sn_last_lamport snapshot"
  obtain base tail where bt: "base_and_tail v ?l = (base, tail)" by fastforce
  obtain FL TL where live: "incremental_live ?P base tail (converge ?P v) = (FL, TL)" by fastforce
  define bp where "bp = base_pointers_of ?P v ?l"
  have bp: "Mapping.lookup bp i = live_at ?P base i" for i by (simp add: bp_def base_pointers_of_def bt)
  define restored where "restored = collect_live_snapshot_records c st snapshot bp FL TL"
  define omitted where "omitted = filter (\<lambda>(i, _). i \<in> FL \<and> i \<notin> ir_note_id ` set restored \<and> Mapping.lookup TL i = None) (pairs_of bp)"
  have plan: "final_live = FL" "records = map (stamped (converge ?P v)) (restored @ decode_records c env st omitted @ decode_records c env st (pairs_of TL))"
    using assms(3) by (auto simp: incremental_plan_def Let_def bt live bp_def [symmetric] restored_def [symmetric] omitted_def [symmetric] stamp_map)
  note exact = incremental_live_exact [OF assms(1) bt live]
  have fin: "finite_map bp" by (simp add: bp_def base_pointers_of_def)
  have finT: "finite_map TL" using live by (auto simp: incremental_live_def Let_def drop_redacted_def)
  have at: "live_at ?P v i = Some p \<longleftrightarrow> i \<in> FL \<and> (Mapping.lookup TL i = Some p \<or> Mapping.lookup TL i = None \<and> live_at ?P base i = Some p)" for i p
    using exact(1) exact(2) [of i] by (auto split: option.splits)
  have sources: "(i, p) \<in> set omitted \<or> (i, p) \<in> set (pairs_of TL) \<longleftrightarrow> live_at ?P v i = Some p \<and> (i \<notin> ir_note_id ` set restored \<or> Mapping.lookup TL i \<noteq> None)" for i p
    using set_pairs_of [OF fin] set_pairs_of [OF finT] at [of i p] exact(3) [of i] by (auto simp: omitted_def bp)
  have rest: "restored_from c st snapshot v r0 \<and> Mapping.lookup TL (ir_note_id r0) = None" if r0: "r0 \<in> set restored" for r0
  proof -
    from r0 obtain sr where sr: "sr \<in> set (sn_records snapshot)" "restored_record c st snapshot bp FL TL sr = Some r0"
      by (auto simp: restored_def collect_live_snapshot_records_def set_map_filter)
    then have in_live: "sr_note_id sr \<in> FL" "Mapping.lookup TL (sr_note_id sr) = None" by (auto simp: restored_record_def split: if_splits)
    then obtain p where p: "live_at ?P v (sr_note_id sr) = Some p" using exact(1) by auto
    with in_live at bp have "Mapping.lookup bp (sr_note_id sr) = Some p" by (metis option.distinct(1))
    from sr(2) [unfolded restored_iff [OF this]] sr(1) p in_live show ?thesis unfolding restored_from_def by metis
  qed
  have pick: "i \<notin> ir_note_id ` set restored \<or> Mapping.lookup TL i \<noteq> None \<longleftrightarrow> i \<notin> ir_note_id ` set restored" for i using rest by force
  show thesis
  proof (rule that [of "set restored"])
    show "r \<in> set records \<longleftrightarrow> (\<exists>r0. r = stamped (converge ?P v) r0 \<and>
        (r0 \<in> set restored \<or> (\<exists>i p. live_at ?P v i = Some p \<and> i \<notin> ir_note_id ` set restored \<and> decode_pointer c env st i p = Inr r0)))" for r
      using sources [unfolded pick] by (auto simp: plan(2) set_decode_records [OF assms(2)]) blast+
  qed (use plan exact(1) rest in auto)
qed

section \<open>The rebuilds\<close>

text \<open>What reached the index: the live set, with records that carry the attested versions.\<close>

lemma attested_version:
  "attested P v r \<Longrightarrow> live_at P v (ir_note_id r) = Some p \<Longrightarrow> version_key r = (np_lamport p, np_object_key p)"
  by (auto simp: attested_def version_key_def)

lemma replay_attested: "in_some_order env \<Longrightarrow> r \<in> set (replay_records c env st v) \<Longrightarrow> attested (yc_prims c) v r"
  by (auto simp: in_replay_records intro: decode_attested)

lemma restored_attested: "restored_from c st snapshot v r \<Longrightarrow> attested (yc_prims c) v r"
  unfolding restored_from_def using backed_attested by blast

lemma plan_attested:
  assumes "inj_on (op_hash (yc_prims c)) (set (ops_of v))" and "in_some_order env"
    and "incremental_plan c env st snapshot v = (final_live, records, hinted)" and "r \<in> set records"
  shows "attested (yc_prims c) v r"
    and "r \<in> set (replay_records c env st v) \<or> bounded_fields r \<and> (\<exists>p. live_at (yc_prims c) v (ir_note_id r) = Some p \<and> ir_author r = np_author p)"
proof -
  from assms(1-3) obtain restored where
    recs: "\<And>r. r \<in> set records \<longleftrightarrow> (\<exists>r0. r = stamped (converge (yc_prims c) v) r0 \<and>
        (r0 \<in> restored \<or> (\<exists>i p. live_at (yc_prims c) v i = Some p \<and> i \<notin> ir_note_id ` restored \<and> decode_pointer c env st i p = Inr r0)))"
    and rest: "\<And>r0. r0 \<in> restored \<Longrightarrow> restored_from c st snapshot v r0"
    by (rule plan_sources) (rule that)
  from assms(4) recs obtain r0 where r: "r = stamped (converge (yc_prims c) v) r0"
    and r0: "r0 \<in> restored \<or> (\<exists>i p. live_at (yc_prims c) v i = Some p \<and> decode_pointer c env st i p = Inr r0)" by blast
  show "attested (yc_prims c) v r" using r0 rest restored_attested decode_attested unfolding r attested_stamped by blast
  from r0 show "r \<in> set (replay_records c env st v) \<or> bounded_fields r \<and> (\<exists>p. live_at (yc_prims c) v (ir_note_id r) = Some p \<and> ir_author r = np_author p)"
  proof
    assume "r0 \<in> restored"
    from rest [OF this] show ?thesis by (auto simp: r restored_from_def backed_def admitted_bounded)
  qed (auto simp: r in_replay_records [OF assms(2)])
qed

lemma plan_covers:
  assumes "inj_on (op_hash (yc_prims c)) (set (ops_of v))" and "in_some_order env"
    and "incremental_plan c env st snapshot v = (final_live, records, hinted)"
    and "live_at (yc_prims c) v i = Some p" and "decode_pointer c env st i p = Inr d"
  shows "\<exists>r\<in>set records. ir_note_id r = i"
proof -
  from assms(1-3) obtain restored where
    recs: "\<And>r. r \<in> set records \<longleftrightarrow> (\<exists>r0. r = stamped (converge (yc_prims c) v) r0 \<and>
        (r0 \<in> restored \<or> (\<exists>i p. live_at (yc_prims c) v i = Some p \<and> i \<notin> ir_note_id ` restored \<and> decode_pointer c env st i p = Inr r0)))"
    by (rule plan_sources) (rule that)
  show ?thesis
  proof (cases "i \<in> ir_note_id ` restored")
    case True
    then obtain r0 where "r0 \<in> restored" "ir_note_id r0 = i" by auto
    then have "stamped (converge (yc_prims c) v) r0 \<in> set records" using recs by blast
    with \<open>ir_note_id r0 = i\<close> show ?thesis by (metis stamped_sel(1))
  next
    case False
    then have "stamped (converge (yc_prims c) v) d \<in> set records" using recs assms(4,5) by blast
    with decode_pointer_fields(1) [OF assms(5)] show ?thesis by (metis stamped_sel(1))
  qed
qed

text \<open>One slot after an install of the live set with attested records.\<close>

definition installed_slot :: "'f sync_config \<Rightarrow> 'f sync_env \<Rightarrow> verified_ops \<Rightarrow> u64 \<Rightarrow> index_apply \<Rightarrow> 'f store_state \<Rightarrow> 'f sync_state \<Rightarrow> note_id \<Rightarrow> bool" where
  "installed_slot c env v baseline apply st0 s' i \<longleftrightarrow>
     (let st2 = ye_others env 2 st0;
          ix = st_index (ye_others env 3 st2);
          kept = kept_ids (sc_author (yc_store c)) ix {i. live_at (yc_prims c) v i \<noteq> None} apply;
          pruned = slot_apply (slot_of ix i) (Prune (i \<in> kept) baseline);
          now = slot_of (st_index (sy_store s')) i
      in case live_at (yc_prims c) v i of
           None \<Rightarrow> now = pruned
         | Some p \<Rightarrow>
             now = slot_apply pruned (Offer (np_lamport p, np_object_key p) (refuses apply)) \<or>
             now = pruned \<and> (\<forall>d. decode_pointer c env st2 i p \<noteq> Inr d))"

lemma install_slot:
  assumes "apply_live_set c env {i. live_at (yc_prims c) v i \<noteq> None} baseline records from_checkpoint apply (others env 2 s) = (Inr (Some n), s')"
    and "\<And>r. r \<in> set records \<Longrightarrow> attested (yc_prims c) v r"
    and "\<And>i p d. live_at (yc_prims c) v i = Some p \<Longrightarrow> decode_pointer c env (ye_others env 2 (sy_store s)) i p = Inr d \<Longrightarrow> \<exists>r\<in>set records. ir_note_id r = i"
  shows "installed_slot c env v baseline apply (sy_store s) s' i"
proof -
  have store: "sy_store (others env 2 s) = ye_others env 2 (sy_store s)" by (simp add: others_def)
  note slot = install_slots [OF assms(1), of i, unfolded store]
  show ?thesis
  proof (cases "live_at (yc_prims c) v i")
    case None
    have "ir_note_id r \<noteq> i" if "r \<in> set records" for r using assms(2) [OF that] None by (auto simp: attested_def)
    then have "offers i (refuses apply) records = []" by (auto simp: offers_def filter_empty_conv)
    with slot None show ?thesis by (simp add: installed_slot_def Let_def del: slot_apply.simps)
  next
    case (Some p)
    then have "version_key r = (np_lamport p, np_object_key p)" if "r \<in> set records" "ir_note_id r = i" for r
      using attested_version [OF assms(2)] that by simp
    note off = offers_same_version [OF this, of records i]
    show ?thesis
    proof (cases "i \<in> ir_note_id ` set records")
      case True
      with slot off Some show ?thesis by (simp add: installed_slot_def Let_def del: slot_apply.simps)
    next
      case False
      with assms(3) [OF Some] have "\<forall>d. decode_pointer c env (ye_others env 2 (sy_store s)) i p \<noteq> Inr d" by force
      with False slot off Some show ?thesis by (simp add: installed_slot_def Let_def del: slot_apply.simps)
    qed
  qed
qed

lemma rebuild_slot:
  assumes "in_some_order env" and "rebuild_full c env v baseline apply s = (Inr (Some n), s')"
  shows "installed_slot c env v baseline apply (sy_store s) s' i"
proof (rule install_slot)
  have store: "sy_store (others env 2 s) = ye_others env 2 (sy_store s)" by (simp add: others_def)
  show "apply_live_set c env {i. live_at (yc_prims c) v i \<noteq> None} baseline (replay_records c env (ye_others env 2 (sy_store s)) v) {} apply (others env 2 s) = (Inr (Some n), s')"
    using assms(2) by (simp add: rebuild_full_def Let_def live_ids store)
  show "\<exists>r\<in>set (replay_records c env (ye_others env 2 (sy_store s)) v). ir_note_id r = j"
    if "live_at (yc_prims c) v j = Some p" "decode_pointer c env (ye_others env 2 (sy_store s)) j p = Inr d" for j p d
    using in_replay_records [OF assms(1), of "stamped (converge (yc_prims c) v) d"] decode_pointer_fields(1) [OF that(2)] that
    by (metis stamped_sel(1))
qed (rule replay_attested [OF assms(1)])

lemma incremental_slot:
  assumes "inj_on (op_hash (yc_prims c)) (set (ops_of v))" and "in_some_order env"
    and "sync_incremental c env snapshot v baseline apply s = (Inr out, s')" and "out \<noteq> StampChanged"
  shows "\<exists>st0\<in>{sy_store s, sy_store (put_cache (cache_forget (yc_cache_file c) (ye_cache_io env 2) (cache_of s)) s)}.
    \<forall>i. installed_slot c env v baseline apply st0 s' i"
proof (cases "snapshot_still_valid snapshot (base_pointers_of (yc_prims c) v (sn_last_lamport snapshot))")
  case True
  let ?st = "ye_others env 2 (sy_store s)"
  have store: "sy_store (others env 2 s) = ?st" by (simp add: others_def)
  obtain final_live records hinted where plan: "incremental_plan c env ?st snapshot v = (final_live, records, hinted)" by (metis prod_cases3)
  have live: "final_live = {i. live_at (yc_prims c) v i \<noteq> None}"
    using assms(1,2) plan by (rule plan_sources)
  obtain n where run: "apply_live_set c env {i. live_at (yc_prims c) v i \<noteq> None} baseline records hinted apply (others env 2 s) = (Inr (Some n), s')"
    using assms(3,4) True by (auto simp: sync_incremental_def Let_def store plan live split: prod.splits sum.splits option.splits)
  have "installed_slot c env v baseline apply (sy_store s) s' i" for i
    by (rule install_slot [OF run]) (rule plan_attested(1) [OF assms(1,2) plan], assumption, rule plan_covers [OF assms(1,2) plan])
  then show ?thesis by blast
next
  case False
  obtain base tail where bt: "base_and_tail v (sn_last_lamport snapshot) = (base, tail)" by fastforce
  let ?s = "put_cache (cache_forget (yc_cache_file c) (ye_cache_io env 2) (cache_of s)) s"
  obtain n where run: "rebuild_full c env (vo_concat base tail) baseline apply ?s = (Inr (Some n), s')"
    using assms(3,4) False by (auto simp: sync_incremental_def Let_def bt fallback_full_def split: prod.splits sum.splits option.splits)
  have "set (ops_of v) = set (ops_of (vo_concat base tail))"
    using bt by (auto simp: base_and_tail_def vo_partition_def Let_def vo_concat_def split_beta)
  then have "converge (yc_prims c) (vo_concat base tail) = converge (yc_prims c) v" using converge_set_cong [OF assms(1)] by simp
  then have "live_at (yc_prims c) (vo_concat base tail) = live_at (yc_prims c) v" by (simp add: live_at_def fun_eq_iff)
  with rebuild_slot [OF assms(2) run] show ?thesis by (simp add: installed_slot_def)
qed

lemma rebuild_pass_slots:
  assumes "inj_on (op_hash (yc_prims c)) (set (ops_of (fr_members_view fr)))" and "in_some_order env"
    and "rebuild_pass c env fr apply snapshot s = (Inr (Some out), s')"
  shows "\<exists>st0\<in>{sy_store s, sy_store (put_cache (cache_forget (yc_cache_file c) (ye_cache_io env 2) (cache_of s)) s)}.
    \<forall>i. installed_slot c env (fr_members_view fr) (fr_retain_baseline fr) apply st0 s' i"
proof (cases snapshot)
  case None
  then obtain n where "rebuild_full c env (fr_members_view fr) (fr_retain_baseline fr) apply s = (Inr (Some n), s')"
    using assms(3) by (auto simp: rebuild_pass_def split: prod.splits sum.splits option.splits)
  from rebuild_slot [OF assms(2) this] show ?thesis by blast
next
  case (Some sn)
  then obtain o1 where "sync_incremental c env sn (fr_members_view fr) (fr_retain_baseline fr) apply s = (Inr o1, s')" "o1 \<noteq> StampChanged"
    using assms(3) by (auto simp: rebuild_pass_def Let_def split: prod.splits sum.splits incremental_outcome.splits)
  from incremental_slot [OF assms(1,2) this] show ?thesis .
qed

section \<open>An honest checkpoint\<close>

definition unsigned_rest :: "'f index_record \<Rightarrow> 'f index_record" where
  "unsigned_rest r = r\<lparr>ir_relations := [], ir_reinforcers := {||}, ir_last_reinforced := None, ir_embedding := None\<rparr>"

text \<open>Every record of the checkpoint that the log backs says, vector and ranking signals aside, what its note's blob says.\<close>

definition honest_snapshot :: "'f sync_config \<Rightarrow> 'f sync_env \<Rightarrow> 'f store_state \<Rightarrow> index_snapshot \<Rightarrow> verified_ops \<Rightarrow> bool" where
  "honest_snapshot c env st snapshot v \<longleftrightarrow>
     (\<forall>sr\<in>set (sn_records snapshot). \<forall>body p. opened_body c st sr = Inr body \<longrightarrow> live_at (yc_prims c) v (sr_note_id sr) = Some p \<longrightarrow>
        backed p body \<longrightarrow> decode_pointer c env st (sr_note_id sr) p = Inr (unsigned_rest (admitted c snapshot body)))"

lemma backed_admitted [simp]: "backed p (admitted c snapshot body) = backed p body"
  by (simp add: backed_def admitted_def Let_def)

lemma bare_stamped:
  assumes "live_at P v (ir_note_id r) = Some p"
  shows "bare (stamped (converge P v) r) = stamped (converge P v) (unsigned_rest r)"
  using assms by (auto simp: live_at_def bare_def stamped_def unsigned_rest_def with_signals_def bind_eq_Some_conv)

lemma replay_is_bare: "in_some_order env \<Longrightarrow> d \<in> set (replay_records c env st v) \<Longrightarrow> bare d = d"
  using decode_pointer_fields(7) by (fastforce simp: in_replay_records bare_def)

section \<open>A concrete log and checkpoint\<close>

definition demo_blob :: bytes where "demo_blob = replicate 24 9 @ as_bytes ''the body'' @ replicate 32 4"

text \<open>One note, written by an author, and its record.\<close>

definition demo_told :: "ss58 \<Rightarrow> op" where
  "demo_told author = (demo_op 1 1 blake3_zero)\<lparr>op_kind := Remember, op_note_id := NoteId 3, op_object_key := demo_key,
     op_cid := content_hash demo_prims demo_blob, op_author := author, op_lamport := 1, op_key_epoch := 0\<rparr>"

definition demo_decoded :: "int index_record" where
  "demo_decoded = \<lparr>ir_note_id = NoteId 3, ir_object_key = demo_key, ir_cid = content_hash demo_prims demo_blob,
     ir_scope = \<lparr>scope_team = ''t'', scope_repo = Global\<rparr>, ir_note_type = Gotcha, ir_author = ''a'', ir_updated = 5, ir_lamport = 1,
     ir_key_epoch = 0, ir_tags = {||}, ir_summary = ''x'', ir_relations = [], ir_reinforcers = {||}, ir_last_reinforced = None, ir_embedding = None\<rparr>"

text \<open>The sealed record of the checkpoint opens to \<open>body\<close>.\<close>

definition demo_sync :: "int index_record \<Rightarrow> int sync_config" where
  "demo_sync body = \<lparr>yc_store = demo_store, yc_dec_op = (\<lambda>_. None), yc_dec_manifest = (\<lambda>_. None), yc_enc_manifest = (\<lambda>_. []),
     yc_founder = None, yc_marker = None, yc_codec = demo_snapshots\<lparr>cc_dec_record := \<lambda>_. Some body\<rparr>, yc_cache_file = None\<rparr>"

definition demo_sync_env :: "int sync_env" where
  "demo_sync_env = \<lparr>ye_log = empty_view, ye_manifests = empty_view, ye_marker_io = demo_env, ye_get = (\<lambda>_. Inr demo_blob),
     ye_snapshots = Inr [], ye_order = (\<lambda>items. items), ye_others = (\<lambda>_ st. st), ye_nonces = (\<lambda>_. replicate 24 0), ye_put = Done,
     ye_prune_list = (\<lambda>_. Inr []), ye_prune = (\<lambda>_. Done), ye_cache_io = (\<lambda>_. demo_env)\<rparr>"

definition demo_point :: index_snapshot where
  "demo_point = \<lparr>sn_team = ''t'', sn_last_lamport = 1, sn_vector_space = Some ''demo/1'',
     sn_records = [\<lparr>sr_note_id = NoteId 3, sr_lamport = 1, sr_object_key = demo_key, sr_key_epoch = 0, sr_sealed = replicate 24 0 @ replicate 32 4\<rparr>]\<rparr>"

lemma demo_sync_sel [simp]:
  "yc_store (demo_sync body) = demo_store" "ye_order demo_sync_env = (\<lambda>items. items)" "ye_others demo_sync_env = (\<lambda>_ st. st)"
  "ye_get demo_sync_env = (\<lambda>_. Inr demo_blob)" "in_some_order demo_sync_env"
  by (simp_all add: demo_sync_def demo_sync_env_def in_some_order_def)

lemma demo_live: "live_at demo_prims (VerifiedOps [demo_told a]) i = (if i = NoteId 3 then Some (pointer_of (demo_told a)) else None)"
  by (auto simp: live_at_shown shown_op_def acc_of_def na_default_def observe_def consider_pointer_def consider_lifecycle_def demo_told_def)

lemma demo_pointer [simp]: "np_cid (pointer_of (demo_told a)) = content_hash demo_prims demo_blob" "np_author (pointer_of (demo_told a)) = a"
  by (simp_all add: pointer_of_def demo_told_def)

lemma demo_bound: "bound_index_fields ''x'' {||} = (''x'', {||})"
  by code_simp

lemma demo_decodes: "decode_pointer (demo_sync body) demo_sync_env demo_start (NoteId 3) (pointer_of (demo_told a)) = Inr demo_decoded"
proof -
  have "utf8_ok (as_bytes ''the body'')" by code_simp
  then have "from_utf8 (as_bytes ''the body'') = Some ''the body''" by (rule from_utf8_as_bytes)
  moreover have "open_blob demo_aead (replicate 32 4) demo_blob k = Inr (as_bytes ''the body'')" for k
    by (simp add: open_blob_def demo_blob_def NONCE_LEN_def demo_aead_def)
  ultimately show ?thesis
    by (simp add: demo_bound decode_pointer_def pointer_of_def demo_told_def note_matches_object_def demo_key_parts demo_decode_def demo_decoded_def)
qed

section \<open>Properties\<close>





end
