(* ===== verification/Syncing.thy ===== *)
theory Syncing
  imports Replay
begin

text \<open>
  What a whole pass of the sync leaves: the index shows the live notes of the members' view at their attested versions, the
  checkpoint written at the end holds the index, and the author a replay shows is the one the note's blob claims.
\<close>

section \<open>What leaves the index alone\<close>

lemma set_disk_twice [simp]: "set_disk d (set_disk d0 s) = set_disk d s"
  by (simp add: set_disk_def)

lemma put_cache_store: "sy_store (put_cache k s) = sy_store (set_disk (cp_disk k) s)"
  by (simp add: put_cache_def set_disk_def)

lemma set_disk_index [simp]: "st_index (sy_store (set_disk d s)) = st_index (sy_store s)"
  by (simp add: set_disk_def)

lemma set_disk_keys [simp]: "st_epoch (sy_store (set_disk d s)) = st_epoch (sy_store s)" "st_keys (sy_store (set_disk d s)) = st_keys (sy_store s)"
  "bucket_of (sy_store (set_disk d s)) = bucket_of (sy_store s)"
  by (simp_all add: set_disk_def)

lemma set_disk_congr: "sy_store s1 = sy_store s \<Longrightarrow> sy_store (set_disk d s1) = sy_store (set_disk d s)"
  by (simp add: set_disk_def)

lemma set_disk_same: "sy_store (set_disk (ws_disk (st_write (sy_store s))) s) = sy_store s"
  by (simp add: set_disk_def)

lemma load_checkpoint_disk:
  assumes "load_checkpoint_with c env persist redacted s = (r, s')"
  shows "\<exists>d. sy_store s' = sy_store (set_disk d s)"
proof -
  have "sy_store s' = sy_store s \<or> (\<exists>k. s' = put_cache k s)"
    using assms by (auto simp: load_checkpoint_with_def Let_def split: sum.splits prod.splits option.splits)
  then show ?thesis using put_cache_store set_disk_same by metis
qed

lemma persist_index:
  assumes "persist_snapshot c env records l s = (r, s')"
  shows "st_index (sy_store s') = st_index (sy_store s)"
proof -
  have "st_index (set_bucket b st) = st_index st" for b and st :: "'a store_state" by (simp add: set_bucket_def)
  then show ?thesis
    using assms
    by (auto simp: persist_snapshot_def Let_def put_cache_store dest!: attach_store split: sum.splits prod.splits)
qed

lemma maybe_persist_index: "maybe_persist_checkpoint c env baseline l s = (r, s') \<Longrightarrow> st_index (sy_store s') = st_index (sy_store s)"
  by (auto simp: maybe_persist_checkpoint_def Let_def dest: persist_index split: if_splits prod.splits sum.splits)

lemma installed_slot_index:
  "st_index (sy_store s1) = st_index (sy_store s2) \<Longrightarrow> installed_slot c env v b a st0 s1 i = installed_slot c env v b a st0 s2 i"
  by (simp add: installed_slot_def)

section \<open>A whole pass\<close>

text \<open>A pass that indexed: the read, the checkpoint, the rebuild, and what followed it.\<close>

lemma sync_pass_indexed:
  assumes "read_filtered c env s = Some (Inr fr, s1)" and "sync_pass c env mode s = Some (Inr (Some n), s')"
  obtains redacted snapshot s2 out s3 where
    "load_checkpoint_with c env MemoryAndDisk redacted s1 = (Inr snapshot, s2)"
    "rebuild_pass c env fr (apply_of fr mode) snapshot s2 = (Inr (Some out), s3)"
    "st_index (sy_store s') = st_index (sy_store s3)"
proof -
  obtain redacted evicted where purge: "purge_redacted_from_cache (ops_of (fr_members_view fr)) = (redacted, evicted)" by fastforce
  have run: "sync_view c env mode fr s1 = (Inr (Some n), s')" using assms by (simp add: sync_pass_def)
  then obtain snapshot s2 indexed baseline replacing s3 where
    steps: "load_checkpoint_with c env MemoryAndDisk redacted s1 = (Inr snapshot, s2)"
      "rebuild_pass c env fr (apply_of fr mode) snapshot s2 = (Inr (Some (indexed, baseline, replacing)), s3)"
      "s' = refresh_checkpoint c env fr baseline replacing s3"
    by (auto simp: sync_view_def purge Let_def split: prod.splits sum.splits option.splits)
  have "st_index (sy_store s') = st_index (sy_store s3)"
    by (auto simp: steps(3) refresh_checkpoint_def Let_def dest: maybe_persist_index split: prod.splits)
  with steps(1,2) show thesis by (rule that)
qed

section \<open>The written checkpoint\<close>

definition written_snapshot :: "'f sync_config \<Rightarrow> u64 \<Rightarrow> sealed_record list \<Rightarrow> index_snapshot" where
  "written_snapshot c last_lamport sealed =
     \<lparr>sn_team = yc_team c, sn_last_lamport = last_lamport, sn_vector_space = Some (em_vector_space (sc_embedder (yc_store c))), sn_records = sealed\<rparr>"

text \<open>The wire formats read back what is written here.\<close>

definition formats_ok :: "'f sync_config \<Rightarrow> 'f sync_env \<Rightarrow> 'f store_state \<Rightarrow> u64 \<Rightarrow> 'f index_record list \<Rightarrow> bool" where
  "formats_ok c env st last_lamport records \<longleftrightarrow>
     aead_law (yc_aead c) \<and> (\<forall>n. length (ye_nonces env n) = NONCE_LEN) \<and>
     (\<forall>r\<in>set records. cc_dec_record (yc_codec c) (cc_enc_record (yc_codec c) r) = Some r) \<and>
     (\<forall>sealed. seal_records (yc_aead c) (yc_codec c) (ye_nonces env) st 1 records = Inr sealed \<longrightarrow>
        cc_dec_snapshot (yc_codec c) (cc_enc_snapshot (yc_codec c) (written_snapshot c last_lamport sealed)) = Some (written_snapshot c last_lamport sealed))"

lemma sealed_records_open:
  assumes "aead_law (yc_aead c)" and "\<And>n. length (nonces n) = NONCE_LEN"
    and "seal_records (yc_aead c) (yc_codec c) nonces st n records = Inr sealed"
    and "\<forall>r\<in>set records. cc_dec_record (yc_codec c) (cc_enc_record (yc_codec c) r) = Some r"
  shows "list_all2 (\<lambda>sr r. opened_body c st sr = Inr r) sealed records"
  using assms(3,4)
  by (induction records arbitrary: n sealed)
    (auto simp: r_bind_Inr_iff seal_record_def opened_body_def open_record_def open_sealed [OF assms(1,2)])

lemma persist_result:
  assumes "persist_snapshot c env records last_lamport s = (Inr (), s')" and "\<not> list_ex lacks_embedding records"
    and "formats_ok c env (sy_store s) last_lamport records"
  shows "\<exists>sealed key blob.
    sy_memory s' = Some \<lparr>ca_object_key = snapshot_key (yc_team c) last_lamport, ca_epoch = st_epoch (sy_store s), ca_snapshot = written_snapshot c last_lamport sealed\<rparr> \<and>
    key_for_epoch (sy_store s) (st_epoch (sy_store s)) = Inr key \<and>
    open_snapshot (yc_aead c) (yc_codec c) key (yc_team c) (snapshot_key (yc_team c) last_lamport) blob = Some (written_snapshot c last_lamport sealed) \<and>
    Mapping.lookup (bucket_of (sy_store s')) (snapshot_key (yc_team c) last_lamport) \<in> {Some blob, None} \<and>
    list_all2 (\<lambda>sr r. opened_body c (sy_store s) sr = Inr r) sealed records"
proof -
  let ?k = "snapshot_key (yc_team c) last_lamport" and ?st = "sy_store s"
  have att: "attach_embeddings (sc_embedder (yc_store c)) records {} s = (Inr (records, {}), s)"
    using assms(2) by (simp add: attach_embeddings_def)
  note run = assms(1) [unfolded persist_snapshot_def att prod.case sum.case Let_def, folded written_snapshot_def]
  obtain sealed key blob where seals: "seal_records (yc_aead c) (yc_codec c) (ye_nonces env) ?st 1 records = Inr sealed"
      "key_for_epoch ?st (st_epoch ?st) = Inr key"
      "seal (yc_aead c) (ye_nonces env 0) key (cc_enc_snapshot (yc_codec c) (written_snapshot c last_lamport sealed)) (as_bytes ?k) = Inr blob"
    using run by (auto simp: r_bind_def seal_snapshot_def Let_def written_snapshot_def split: sum.splits)
  let ?seal = "seal_snapshot (yc_aead c) (yc_codec c) (ye_nonces env 0) key (written_snapshot c last_lamport sealed)"
  have seal: "?seal = Inr (?k, blob)" using seals(3) by (simp add: seal_snapshot_def written_snapshot_def)
  have ok: "aead_law (yc_aead c)" "length (ye_nonces env n) = NONCE_LEN"
    "cc_dec_snapshot (yc_codec c) (cc_enc_snapshot (yc_codec c) (written_snapshot c last_lamport sealed)) = Some (written_snapshot c last_lamport sealed)"
    "\<forall>r\<in>set records. cc_dec_record (yc_codec c) (cc_enc_record (yc_codec c) r) = Some r" for n
    using assms(3) seals(1) by (auto simp: formats_ok_def)
  have put: "ye_put env = Done" using run seals(1,2) seal by (cases "ye_put env") (auto simp: faulty_put_def written_snapshot_def)
  define b where "b = prune_old_snapshots (ye_prune_list env) (ye_prune env) (yc_team c) (Mapping.update ?k blob (bucket_of ?st))"
  have s': "s' = put_cache (snd (cache_keep (yc_cache_file c) (ye_cache_io env 3)
      \<lparr>fs_object_key = ?k, fs_sealed = blob, fs_snapshot = written_snapshot c last_lamport sealed\<rparr> (st_epoch ?st) MemoryAndDisk
      (cache_of (s\<lparr>sy_store := set_bucket b ?st\<rparr>)))) (s\<lparr>sy_store := set_bucket b ?st\<rparr>)"
    using run seals(1,2) seal put by (auto simp: faulty_put_def set_bucket_def b_def)
  have mem: "sy_memory s' = Some \<lparr>ca_object_key = ?k, ca_epoch = st_epoch ?st, ca_snapshot = written_snapshot c last_lamport sealed\<rparr>"
    by (auto simp: s' put_cache_def set_disk_def cache_keep_def cache_write_file_def cache_remember_def Let_def split: option.splits)
  have bucket: "bucket_of (sy_store s') = b" by (simp add: s' put_cache_store set_bucket_def set_disk_def)
  have "Mapping.lookup b ?k \<in> {Some blob, None}"
    by (auto simp: b_def prune_old_snapshots_def Let_def lookup_prune_keys lookup_update' split: sum.splits)
  moreover have "open_snapshot (yc_aead c) (yc_codec c) key (yc_team c) ?k blob = Some (written_snapshot c last_lamport sealed)"
    using open_sealed [OF ok(1,2) seals(3)] ok(3) by (simp add: open_snapshot_iff) (simp add: written_snapshot_def)
  ultimately show ?thesis
    using mem bucket seals(2) sealed_records_open [OF ok(1,2) seals(1) ok(4)] by blast
qed

section \<open>A concrete pass\<close>

text \<open>The process holds the note of another section; the log it reads is empty.\<close>

definition demo_synced :: "int sync_state" where
  "demo_synced = \<lparr>sy_store = demo_holding, sy_op_cache = Mapping.empty, sy_applied = None,
     sy_ledger = \<lparr>vl_restored = {}, vl_carried = Mapping.empty, vl_replace_refused = None\<rparr>, sy_memory = None\<rparr>"

lemma demo_holding_sel [simp]:
  "ws_clock (st_write demo_holding) = fresh_clock" "st_epoch demo_holding = 0" "st_keys demo_holding = Mapping.update 0 (replicate 32 4) Mapping.empty"
  by (simp_all add: demo_holding_def demo_start_def set_bucket_def)

lemma demo_holding_slot: "sl_live (slot_of (st_index demo_holding) (NoteId 3)) = Some (0, demo_key)"
proof -
  let ?r = "index_record_of (new_note demo_store (demo_weather 3) demo_input) demo_key [1] 0 0 None"
  have "\<forall>ts. \<exists>vs. em_embed demo_embedder ts = Inr vs" by (simp add: demo_embedder_def)
  then obtain ix where up: "upsert demo_embedder index_default ?r = (Inr (), ix)" using upsert_answers by blast
  have "version_key ?r = (0, demo_key)" "ir_note_id ?r = NoteId 3" by (simp_all add: version_key_def index_record_of_def demo_weather_def)
  with slot_of_upsert [OF up, of "NoteId 3"] demo_fresh [of "NoteId 3"] show ?thesis
    by (simp add: demo_holding_def up offers_def)
qed

lemma demo_no_manifest: "current_manifest demo_prims (\<lambda>_. None) (\<lambda>_. []) empty_view ''t'' None None demo_env None d = (Inr None, None, d)"
  by (simp add: current_manifest_def load_manifest_def empty_view_def load_verified_marker_def monotonic_manifest_def)

lemma demo_pass:
  obtains fr s1 where "read_filtered (demo_sync demo_decoded) demo_sync_env demo_synced = Some (Inr fr, s1)"
    and "fr_members_view fr = VerifiedOps []" and "fr_retain_baseline fr = 0" and "st_index (sy_store s1) = st_index demo_holding" and "fr_own_view fr = Complete"
    and "\<exists>n s'. sync_view (demo_sync demo_decoded) demo_sync_env InstallAuthoritative fr s1 = (Inr (Some n), s')"
proof -
  let ?c = "demo_sync demo_decoded"
  define s1 where "s1 = set_clock fresh_clock (set_disk (ws_disk (st_write demo_holding)) demo_synced)"
  define fr where "fr = \<lparr>fr_members_view = VerifiedOps [], fr_retain_baseline = 0, fr_install_stamp = own_write_stamp_of fresh_clock, fr_own_view = Complete\<rparr>"
  have par: "yc_dec_op ?c = (\<lambda>_. None)" "yc_dec_manifest ?c = (\<lambda>_. None)" "yc_enc_manifest ?c = (\<lambda>_. [])" "yc_founder ?c = None" "yc_marker ?c = None"
    "ye_log demo_sync_env = empty_view" "ye_manifests demo_sync_env = empty_view" "ye_marker_io demo_sync_env = demo_env" "ye_snapshots demo_sync_env = Inr []"
    by (simp_all add: demo_sync_def demo_sync_env_def)
  have "reseed_clock demo_prims ''a'' [] 0 False fresh_clock = (fresh_clock, Complete)"
    by (simp add: reseed_clock_def fresh_clock_def Let_def)
  then have read: "read_filtered ?c demo_sync_env demo_synced = Some (Inr fr, s1)"
    by (simp add: read_filtered_def par demo_synced_def demo_read_nothing demo_no_manifest others_def Let_def observed_prunable_tip_def
        filter_by_manifest_def lamport_tip_def fr_def s1_def set_disk_def set_clock_def)
      (simp add: fresh_clock_def)
  have "load_checkpoint_with ?c demo_sync_env MemoryAndDisk {} s1 = (Inr None, put_cache (cache_of s1) s1)"
    by (simp add: load_checkpoint_with_def par Let_def fetch_newest_snapshot_def s1_def set_clock_def set_disk_def demo_synced_def key_for_epoch_def lookup_update')
  moreover have "live_items (converge demo_prims (VerifiedOps [])) = []"
    using set_live_items [of demo_prims "VerifiedOps []"] by (auto simp: live_at_def lookup_converge)
  then have "\<exists>s2. rebuild_pass ?c demo_sync_env fr (Authoritative (own_write_stamp_of fresh_clock)) None (put_cache (cache_of s1) s1) = (Inr (Some (0, None, None)), s2)"
    by (simp add: rebuild_pass_def rebuild_full_def fr_def Let_def replay_records_def decode_records_def List.map_filter_def stamp_map
        apply_live_set_def attach_embeddings_def others_def replace_batch_def apply_batch_def put_cache_def cache_of_def s1_def set_clock_def set_disk_def
        demo_synced_def)
  ultimately have pass: "\<exists>n s'. sync_view ?c demo_sync_env InstallAuthoritative fr s1 = (Inr (Some n), s')"
    by (auto simp: sync_view_def purge_redacted_from_cache_def apply_of_def fr_def)
  have "fr_members_view fr = VerifiedOps []" "fr_retain_baseline fr = 0" "st_index (sy_store s1) = st_index demo_holding" "fr_own_view fr = Complete"
    by (simp_all add: fr_def s1_def set_clock_def set_disk_def demo_synced_def)
  from that [OF read this pass] show thesis .
qed

text \<open>A format for one record and one snapshot.\<close>

definition demo_writing :: "int sync_config" where
  "demo_writing = (demo_sync demo_decoded)\<lparr>yc_codec := \<lparr>cc_enc_record = (\<lambda>_. []), cc_dec_record = (\<lambda>_. Some (demo_decoded\<lparr>ir_embedding := Some [7]\<rparr>)),
     cc_enc_snapshot = (\<lambda>_. []), cc_dec_snapshot = (\<lambda>_. Some demo_point)\<rparr>\<rparr>"

lemma demo_writing_sel:
  "yc_store demo_writing = demo_store" "ye_put demo_sync_env = Done" "ye_nonces demo_sync_env n = replicate 24 0"
  "yc_codec demo_writing = \<lparr>cc_enc_record = (\<lambda>_. []), cc_dec_record = (\<lambda>_. Some (demo_decoded\<lparr>ir_embedding := Some [7]\<rparr>)),
     cc_enc_snapshot = (\<lambda>_. []), cc_dec_snapshot = (\<lambda>_. Some demo_point)\<rparr>"
  by (simp_all add: demo_writing_def demo_sync_def demo_sync_env_def)

lemma demo_seals:
  "seal_records demo_aead (yc_codec demo_writing) (ye_nonces demo_sync_env) (sy_store demo_synced) n [demo_decoded\<lparr>ir_embedding := Some [7]\<rparr>] =
     Inr (sn_records demo_point)"
  by (simp add: demo_writing_sel demo_synced_def key_for_epoch_def lookup_update' demo_decoded_def seal_record_def seal_def demo_aead_def demo_point_def)

section \<open>Properties\<close>

text \<open>C6. A pass of the sync, over a checkpoint or over the whole log, in any mode and with any writes of the process in
  between, installs the members' view: every slot of the index is pruned against the live set and the read's baseline (a note
  the view forgot, redacted or lost with a removed member stays only at a version above the baseline), and a live note is
  offered at exactly the version its winning signed op attests, unless it was not decodable. What the index showed just
  before the install is the only other input; of the store, a pass changes the disk before that.\<close>

theorem sync_pass_installs:
  assumes "read_filtered c env s = Some (Inr fr, s1)" and "sync_pass c env mode s = Some (Inr (Some n), s')"
    and "inj_on (op_hash (yc_prims c)) (set (ops_of (fr_members_view fr)))" and "in_some_order env"
  shows "\<exists>d. \<forall>i. installed_slot c env (fr_members_view fr) (fr_retain_baseline fr) (apply_of fr mode) (sy_store (set_disk d s1)) s' i"
proof -
  from assms(1,2) obtain redacted snapshot s2 out s3 where
    load: "load_checkpoint_with c env MemoryAndDisk redacted s1 = (Inr snapshot, s2)"
    and rebuild: "rebuild_pass c env fr (apply_of fr mode) snapshot s2 = (Inr (Some out), s3)"
    and index: "st_index (sy_store s') = st_index (sy_store s3)"
    by (rule sync_pass_indexed) (rule that)
  from load_checkpoint_disk [OF load] obtain d where d: "sy_store s2 = sy_store (set_disk d s1)" ..
  from rebuild_pass_slots [OF assms(3,4) rebuild] obtain st0 where
    st0: "st0 = sy_store s2 \<or> (\<exists>k. st0 = sy_store (put_cache k s2))"
    and slots: "\<forall>i. installed_slot c env (fr_members_view fr) (fr_retain_baseline fr) (apply_of fr mode) st0 s3 i" by blast
  have "\<exists>d. st0 = sy_store (set_disk d s1)"
    using st0 d set_disk_congr [OF d] set_disk_twice unfolding put_cache_store by metis
  with slots installed_slot_index [OF index] show ?thesis by metis
qed

theorem sync_pass_installs_witness:
  "locate (st_index (sy_store demo_synced)) (NoteId 3) \<noteq> None \<and>
   (\<exists>n s'. sync_pass (demo_sync demo_decoded) demo_sync_env InstallAuthoritative demo_synced = Some (Inr (Some n), s') \<and>
     locate (st_index (sy_store s')) (NoteId 3) = None)"
proof -
  let ?c = "demo_sync demo_decoded" and ?i = "NoteId 3"
  obtain fr s1 where read: "read_filtered ?c demo_sync_env demo_synced = Some (Inr fr, s1)" and fr: "fr_members_view fr = VerifiedOps []" "fr_retain_baseline fr = 0"
      and s1: "st_index (sy_store s1) = st_index demo_holding" and own_view: "fr_own_view fr = Complete"
      and pass: "\<exists>n s'. sync_view ?c demo_sync_env InstallAuthoritative fr s1 = (Inr (Some n), s')"
    by (rule demo_pass)
  from pass read obtain n s' where run: "sync_pass ?c demo_sync_env InstallAuthoritative demo_synced = Some (Inr (Some n), s')"
    by (auto simp: sync_pass_def)
  have "inj_on (op_hash (yc_prims ?c)) (set (ops_of (fr_members_view fr)))" by (simp add: fr)
  from sync_pass_installs [OF read run this demo_sync_sel(5)] obtain d where
    "installed_slot ?c demo_sync_env (VerifiedOps []) 0 (apply_of fr InstallAuthoritative) (sy_store (set_disk d s1)) s' ?i" unfolding fr by blast
  moreover have "live_at demo_prims (VerifiedOps []) j = None" for j by (simp add: live_at_def lookup_converge)
  ultimately have "sl_live (slot_of (st_index (sy_store s')) ?i) = None"
    using demo_holding_slot s1 own_view by (auto simp: installed_slot_def Let_def apply_of_def kept_ids_def)
  with run demo_holding_at show ?thesis by (auto simp: locate_None demo_synced_def)
qed

text \<open>The checkpoint a sync writes holds the index: the envelope stored under the view's Lamport time opens under the
  current epoch's key to a snapshot that is also kept in memory, and its records open, each under its own epoch's key, to the
  very records handed over, with their vectors, the ones that came out of an earlier checkpoint included. The stored object can
  only be missing when the retention sweep deleted it.\<close>

theorem checkpoint_holds_records:
  assumes "persist_snapshot c env records last_lamport s = (Inr (), s')" and "\<not> list_ex lacks_embedding records"
    and "formats_ok c env (sy_store s) last_lamport records"
  shows "\<exists>sealed key blob.
    sy_memory s' = Some \<lparr>ca_object_key = snapshot_key (yc_team c) last_lamport, ca_epoch = st_epoch (sy_store s), ca_snapshot = written_snapshot c last_lamport sealed\<rparr> \<and>
    key_for_epoch (sy_store s) (st_epoch (sy_store s)) = Inr key \<and>
    open_snapshot (yc_aead c) (yc_codec c) key (yc_team c) (snapshot_key (yc_team c) last_lamport) blob = Some (written_snapshot c last_lamport sealed) \<and>
    Mapping.lookup (bucket_of (sy_store s')) (snapshot_key (yc_team c) last_lamport) \<in> {Some blob, None} \<and>
    list_all2 (\<lambda>sr r. opened_body c (sy_store s) sr = Inr r) sealed records"
  using assms by (rule persist_result)

theorem checkpoint_holds_records_witness:
  "\<exists>s' cs. persist_snapshot demo_writing demo_sync_env [demo_decoded\<lparr>ir_embedding := Some [7]\<rparr>] 1 demo_synced = (Inr (), s') \<and>
     sy_memory s' = Some cs \<and> length (sn_records (ca_snapshot cs)) = 1"
proof -
  let ?r = "demo_decoded\<lparr>ir_embedding := Some [7]\<rparr>"
  have dense: "\<not> list_ex lacks_embedding [?r]" by (simp add: lacks_embedding_def)
  have "aead_law demo_aead" by (simp add: aead_law_def demo_aead_def)
  then have ok: "formats_ok demo_writing demo_sync_env (sy_store demo_synced) 1 [?r]"
    unfolding formats_ok_def demo_writing_sel(1) demo_store_sel demo_seals
    by (auto simp: demo_writing_sel NONCE_LEN_def written_snapshot_def demo_point_def demo_embedder_def)
  obtain s' where run: "persist_snapshot demo_writing demo_sync_env [?r] 1 demo_synced = (Inr (), s')"
    using dense
    by (simp add: persist_snapshot_def attach_embeddings_def demo_writing_sel(1) demo_seals Let_def del: seal_records.simps)
      (simp add: demo_writing_sel seal_snapshot_def seal_def demo_aead_def faulty_put_def key_for_epoch_def demo_synced_def lookup_update' Let_def)
  from checkpoint_holds_records [OF run dense ok] show ?thesis
    using run by (auto simp: written_snapshot_def dest: list_all2_lengthD)
qed

text \<open>C38. The author a replay indexes is the one the note's blob claims, not the signer of the op: a member who seals a note
  that names another author and signs the op for it has the index, recall and get show the other as author, while a
  checkpoint's record with that same body is refused as contradicting the log.\<close>

theorem replay_indexes_claimed_author:
  assumes "key_for_epoch st (np_key_epoch p) = Inr key" and "ye_get env (np_object_key p) = Inr blob"
    and "content_hash (yc_prims c) blob = np_cid p"
    and "seal (yc_aead c) nonce key (as_bytes (sc_enc_note (yc_store c) n)) (as_bytes (np_object_key p)) = Inr blob"
    and "length nonce = NONCE_LEN" and "codec_ok (yc_store c) n" and "note_matches_object n i (yc_team c) (np_object_key p)"
    and "nt_author n \<noteq> np_author p" and "sr_note_id sr = i"
  shows "\<exists>r. decode_pointer c env st i p = Inr r \<and> ir_author r = nt_author n \<and> ir_author r \<noteq> np_author p \<and>
    snapshot_body_disagreement r sr (Some p) = Some ''author''"
proof -
  have "aead_law (yc_aead c)" and utf8: "from_utf8 (as_bytes (sc_enc_note (yc_store c) n)) = Some (sc_enc_note (yc_store c) n)"
    and dec: "sc_dec_note (yc_store c) (sc_enc_note (yc_store c) n) = Some n"
    using assms(6) by (simp_all add: codec_ok_def from_utf8_as_bytes)
  from open_sealed [OF this(1) assms(5,4)] utf8 dec assms(1-3,7)
  obtain r where r: "decode_pointer c env st i p = Inr r" "ir_author r = nt_author n"
    by (simp add: decode_pointer_def split_beta)
  with decode_pointer_fields [OF r(1)] assms(8,9) show ?thesis by (simp add: snapshot_body_disagreement_def)
qed

theorem replay_indexes_claimed_author_witness:
  "\<exists>r. decode_pointer (demo_sync demo_decoded) demo_sync_env demo_start (NoteId 3) (pointer_of (demo_told ''b'')) = Inr r \<and> ir_author r = ''a''"
proof -
  let ?n = "new_note demo_store (demo_weather 3) demo_input" and ?p = "pointer_of (demo_told ''b'')"
  have place: "np_object_key ?p = demo_key" "np_key_epoch ?p = 0" by (simp_all add: pointer_of_def demo_told_def)
  have "nt_author ?n = ''a''" "sc_enc_note demo_store ?n = ''the body''" by (simp_all add: new_note_def demo_input_def)
  moreover have "note_matches_object ?n (NoteId 3) ''t'' demo_key"
    by (simp add: note_matches_object_def demo_key_parts new_note_def demo_weather_def demo_input_def)
  moreover have "seal demo_aead (replicate 24 9) (replicate 32 4) (as_bytes ''the body'') k = Inr demo_blob" for k
    by (simp add: seal_def demo_aead_def demo_blob_def)
  ultimately show ?thesis
    using replay_indexes_claimed_author [of demo_start ?p "replicate 32 4" demo_sync_env demo_blob "demo_sync demo_decoded" "replicate 24 9" ?n "NoteId 3"
      "\<lparr>sr_note_id = NoteId 3, sr_lamport = 1, sr_object_key = demo_key, sr_key_epoch = 0, sr_sealed = []\<rparr>"]
    by (auto simp: place demo_codec_ok NONCE_LEN_def)
qed

end
