(* ===== verification/Teamkey.thy ===== *)
theory Teamkey
  imports Checkpoint Manifest
begin

text \<open>
  Team keys (\<^verbatim>\<open>identity/teamkey.rs\<close> and the key operations of \<^verbatim>\<open>store/mod.rs\<close>): the published encryption key of a
  member, the team key wrapped to it and signed by who wrapped it, provisioning, rotation, and what a member
  fetches back. X25519, the cipher and the JSON codec are parameters.
\<close>

section \<open>Definitions\<close>

text \<open>\<open>kl_public\<close> is the public key of a secret, \<open>kl_shared\<close> the Diffie-Hellman function, \<open>kl_contributory\<close> the test on its result.\<close>

record key_lib =
  kl_prims :: prims
  kl_aead :: aead
  kl_public :: "bytes \<Rightarrow> bytes"
  kl_shared :: "bytes \<Rightarrow> bytes \<Rightarrow> bytes"
  kl_contributory :: "bytes \<Rightarrow> bool"

definition X25519_KDF_INFO :: bytes where "X25519_KDF_INFO = as_bytes ''hippius-memory-x25519''"
definition KDF_DOMAIN :: bytes where "KDF_DOMAIN = as_bytes ''hippius-memory-teamkey-kdf-v1''"
definition WRAP_AAD_DOMAIN :: bytes where "WRAP_AAD_DOMAIN = as_bytes ''hippius-memory-teamkey-wrap-v1''"
definition WRAP_SIGN_DOMAIN :: bytes where "WRAP_SIGN_DOMAIN = as_bytes ''hippius-memory-teamkey-wrap-sign/v2''"
definition MEMBERKEY_DOMAIN :: bytes where "MEMBERKEY_DOMAIN = as_bytes ''hippius-memory-memberkey-v1''"

record user_identity =
  ui_ss58 :: ss58
  ui_verifying_key :: verifying_key
  ui_sr25519_seed :: bytes

definition x25519_secret :: "prims \<Rightarrow> user_identity \<Rightarrow> bytes" where
  "x25519_secret P u = take 32 (blake2b512 P (X25519_KDF_INFO @ ui_sr25519_seed u))"

definition x25519_public :: "key_lib \<Rightarrow> user_identity \<Rightarrow> bytes" where
  "x25519_public K u = kl_public K (x25519_secret (kl_prims K) u)"

subsection \<open>A member's encryption key\<close>

record member_key =
  mk_ss58 :: ss58
  mk_x25519_public :: bytes
  mk_key_owner :: verifying_key
  mk_sig :: signature

definition member_key_signing_bytes :: "member_key \<Rightarrow> bytes" where
  "member_key_signing_bytes m =
     (let buf = MEMBERKEY_DOMAIN;
          buf = push_framed buf (as_bytes (mk_ss58 m));
          buf = buf @ mk_x25519_public m;
          buf = buf @ mk_key_owner m
      in buf)"

definition member_key_create_signed :: "key_lib \<Rightarrow> signer \<Rightarrow> user_identity \<Rightarrow> member_key" where
  "member_key_create_signed K sg u =
     (let m = \<lparr>mk_ss58 = signer_author_ss58 sg, mk_x25519_public = x25519_public K u,
               mk_key_owner = signer_verifying_key sg, mk_sig = replicate 64 0\<rparr>
      in m\<lparr>mk_sig := signer_sign sg (member_key_signing_bytes m)\<rparr>)"

definition member_key_verify :: "prims \<Rightarrow> member_key \<Rightarrow> bool" where
  "member_key_verify P m \<longleftrightarrow>
     verify P (mk_key_owner m) (member_key_signing_bytes m) (mk_sig m) \<and>
     address_names_key P (mk_ss58 m) (mk_key_owner m)"

subsection \<open>A wrapped team key\<close>

record wrapped_key =
  wk_epoch :: u64
  wk_ephemeral_public :: bytes
  wk_ciphertext :: bytes
  wk_provisioner :: verifying_key
  wk_sig :: signature

definition wrapped_signing_bytes :: "wrapped_key \<Rightarrow> bytes" where
  "wrapped_signing_bytes w =
     (let buf = WRAP_SIGN_DOMAIN;
          buf = push_framed buf (u64_le_bytes (wk_epoch w));
          buf = push_framed buf (wk_ephemeral_public w);
          buf = push_framed buf (wk_ciphertext w);
          buf = push_framed buf (wk_provisioner w)
      in buf)"

definition wrapped_verify :: "prims \<Rightarrow> wrapped_key \<Rightarrow> bool" where
  "wrapped_verify P w = verify P (wk_provisioner w) (wrapped_signing_bytes w) (wk_sig w)"

definition derive_aead_key :: "prims \<Rightarrow> bytes \<Rightarrow> bytes \<Rightarrow> bytes \<Rightarrow> bytes" where
  "derive_aead_key P shared_secret ephemeral_public recipient_public =
     take 32 (blake2b512 P (KDF_DOMAIN @ shared_secret @ ephemeral_public @ recipient_public))"

definition wrap_aad :: "string \<Rightarrow> u64 \<Rightarrow> bytes \<Rightarrow> bytes \<Rightarrow> bytes" where
  "wrap_aad team epoch ephemeral_public recipient_public =
     push_framed WRAP_AAD_DOMAIN (as_bytes team) @ u64_le_bytes epoch @ ephemeral_public @ recipient_public"

text \<open>The ephemeral secret and the nonce are the draws of the call.\<close>

definition wrap_team_key ::
    "key_lib \<Rightarrow> bytes \<Rightarrow> bytes \<Rightarrow> string \<Rightarrow> bytes \<Rightarrow> bytes \<Rightarrow> u64 \<Rightarrow> signer \<Rightarrow> mem_error + wrapped_key" where
  "wrap_team_key K ephemeral nonce team team_key recipient_public epoch sg =
     (let ephemeral_public = kl_public K ephemeral;
          shared = kl_shared K ephemeral recipient_public
      in if \<not> kl_contributory K shared then Inl Crypto
         else
           r_bind (seal (kl_aead K) nonce (derive_aead_key (kl_prims K) shared ephemeral_public recipient_public) team_key
                     (wrap_aad team epoch ephemeral_public recipient_public)) (\<lambda>ciphertext.
             let w = \<lparr>wk_epoch = epoch, wk_ephemeral_public = ephemeral_public, wk_ciphertext = ciphertext,
                      wk_provisioner = signer_verifying_key sg, wk_sig = replicate 64 0\<rparr>
             in Inr (w\<lparr>wk_sig := signer_sign sg (wrapped_signing_bytes w)\<rparr>)))"

definition unwrap_team_key :: "key_lib \<Rightarrow> string \<Rightarrow> wrapped_key \<Rightarrow> bytes \<Rightarrow> u64 \<Rightarrow> mem_error + bytes" where
  "unwrap_team_key K team w recipient_secret expected_epoch =
     (if \<not> wrapped_verify (kl_prims K) w then Inl Crypto
      else if wk_epoch w \<noteq> expected_epoch then Inl Crypto
      else
        let recipient_public = kl_public K recipient_secret;
            shared = kl_shared K recipient_secret (wk_ephemeral_public w)
        in if \<not> kl_contributory K shared then Inl Crypto
           else
             r_bind (open_blob (kl_aead K) (derive_aead_key (kl_prims K) shared (wk_ephemeral_public w) recipient_public)
                       (wk_ciphertext w) (wrap_aad team expected_epoch (wk_ephemeral_public w) recipient_public)) (\<lambda>plaintext.
               if length plaintext = 32 then Inr plaintext else Inl Crypto))"

subsection \<open>Object keys\<close>

definition member_key_key :: "string \<Rightarrow> ss58 \<Rightarrow> string" where
  "member_key_key team a = team @ ''/_memberkeys/'' @ a"

definition member_keys_prefix :: "string \<Rightarrow> string" where
  "member_keys_prefix team = team @ ''/_memberkeys/''"

definition wrapped_keys_prefix :: "string \<Rightarrow> string" where
  "wrapped_keys_prefix team = team @ ''/_keys/''"

definition wrapped_key_key :: "string \<Rightarrow> u64 \<Rightarrow> ss58 \<Rightarrow> string" where
  "wrapped_key_key team epoch a = wrapped_keys_prefix team @ pad20 (unat epoch) @ ''/'' @ a"

text \<open>\<^verbatim>\<open>u64::from_str\<close>: an optional plus sign, then at least one digit.\<close>

definition u64_from_str :: "string \<Rightarrow> u64 option" where
  "u64_from_str s =
     (let digits = (if s \<noteq> [] \<and> hd s = CHR ''+'' then tl s else s)
      in if digits = [] \<or> \<not> list_all is_digit digits then None else parse_u64 digits)"

definition parse_epoch_segment :: "string \<Rightarrow> string \<Rightarrow> u64 option" where
  "parse_epoch_segment team k =
     (case strip_prefix (wrapped_keys_prefix team) k of
        None \<Rightarrow> None
      | Some rest \<Rightarrow> u64_from_str (takeWhile (\<lambda>ch. ch \<noteq> CHR ''/'') rest))"

definition highest_published_epoch :: "blob_view \<Rightarrow> string \<Rightarrow> mem_error + u64" where
  "highest_published_epoch bv team =
     r_bind (bv_list bv (wrapped_keys_prefix team)) (\<lambda>keys.
       Inr (fold max (List.map_filter (parse_epoch_segment team) keys) 0))"

definition wrapped_key_epoch_prefix :: "string \<Rightarrow> u64 \<Rightarrow> string" where
  "wrapped_key_epoch_prefix team epoch = wrapped_keys_prefix team @ pad20 (unat epoch) @ ''/''"

definition wrapped_key_recipients :: "blob_view \<Rightarrow> string \<Rightarrow> u64 \<Rightarrow> mem_error + ss58 set" where
  "wrapped_key_recipients bv team epoch =
     (let pre = wrapped_key_epoch_prefix team epoch in
      r_bind (bv_list bv pre) (\<lambda>keys.
        Inr (set (List.map_filter (\<lambda>k. Option.bind (strip_prefix pre k) (\<lambda>a. case ss58_new a of Inl _ \<Rightarrow> None | Inr x \<Rightarrow> Some x)) keys))))"

subsection \<open>Publishing and loading member keys\<close>

record key_codec =
  kc_enc_wrap :: "wrapped_key \<Rightarrow> bytes"
  kc_dec_wrap :: "bytes \<Rightarrow> wrapped_key option"
  kc_enc_member :: "member_key \<Rightarrow> bytes"
  kc_dec_member :: "bytes \<Rightarrow> member_key option"
  kc_dec_manifest :: "bytes \<Rightarrow> team_manifest option"

definition publish_member_key ::
    "key_lib \<Rightarrow> key_codec \<Rightarrow> fate \<Rightarrow> string \<Rightarrow> member_key \<Rightarrow> memory_blob_store \<Rightarrow> (mem_error + unit) \<times> memory_blob_store" where
  "publish_member_key K cc put team m b =
     (if \<not> member_key_verify (kl_prims K) m then (Inl (Unauthorized ''refusing to publish an unverifiable member key''), b)
      else faulty_put put b (member_key_key team (mk_ss58 m)) (kc_enc_member cc m))"

text \<open>The fetches are one after the other; the first that fails ends the load.\<close>

fun member_keys_loop :: "prims \<Rightarrow> key_codec \<Rightarrow> blob_view \<Rightarrow> string list \<Rightarrow> mem_error + member_key list" where
  "member_keys_loop P cc bv [] = Inr []"
| "member_keys_loop P cc bv (k # ks) =
     r_bind (bv_get bv k) (\<lambda>bytes.
     r_bind (member_keys_loop P cc bv ks) (\<lambda>verified.
       case kc_dec_member cc bytes of
         None \<Rightarrow> Inr verified
       | Some m \<Rightarrow> if member_key_verify P m then Inr (m # verified) else Inr verified))"

definition load_member_keys :: "key_lib \<Rightarrow> key_codec \<Rightarrow> blob_view \<Rightarrow> string \<Rightarrow> mem_error + member_key list" where
  "load_member_keys K cc bv team =
     r_bind (bv_list bv (member_keys_prefix team)) (member_keys_loop (kl_prims K) cc bv)"

subsection \<open>Provisioning and fetching\<close>

text \<open>What one provisioning meets: the manifests served, the draws and the fate of the put for each entry of the list.\<close>

record provision_env =
  pe_manifests :: blob_view
  pe_draw :: "nat \<Rightarrow> bytes \<times> bytes"
  pe_put :: "nat \<Rightarrow> fate"

definition may_receive :: "team_manifest option \<Rightarrow> ss58 option \<Rightarrow> member_key \<Rightarrow> bool" where
  "may_receive manifest expected_founder m =
     (case manifest of Some tm \<Rightarrow> mk_ss58 m |\<in>| tm_members tm | None \<Rightarrow> expected_founder = None)"

fun provision_loop ::
    "key_lib \<Rightarrow> key_codec \<Rightarrow> provision_env \<Rightarrow> team_manifest option \<Rightarrow> string \<Rightarrow> bytes \<Rightarrow> u64 \<Rightarrow> ss58 option \<Rightarrow> signer
      \<Rightarrow> nat \<Rightarrow> member_key list \<Rightarrow> memory_blob_store \<Rightarrow> (mem_error + ss58 set) \<times> memory_blob_store" where
  "provision_loop K cc env manifest team team_key epoch pin sg n [] b = (Inr {}, b)"
| "provision_loop K cc env manifest team team_key epoch pin sg n (m # ms) b =
     (if \<not> member_key_verify (kl_prims K) m then provision_loop K cc env manifest team team_key epoch pin sg (Suc n) ms b
      else if \<not> may_receive manifest pin m then provision_loop K cc env manifest team team_key epoch pin sg (Suc n) ms b
      else
        case wrap_team_key K (fst (pe_draw env n)) (snd (pe_draw env n)) team team_key (mk_x25519_public m) epoch sg of
          Inl e \<Rightarrow> (Inl e, b)
        | Inr w \<Rightarrow>
            let (put, b1) = faulty_put (pe_put env n) b (wrapped_key_key team epoch (mk_ss58 m)) (kc_enc_wrap cc w)
            in case put of
                 Inl e \<Rightarrow> (Inl e, b1)
               | Inr _ \<Rightarrow>
                   let (r, b2) = provision_loop K cc env manifest team team_key epoch pin sg (Suc n) ms b1
                   in (r_bind r (\<lambda>wrapped_to. Inr (insert (mk_ss58 m) wrapped_to)), b2))"

definition provision_team_key ::
    "key_lib \<Rightarrow> key_codec \<Rightarrow> provision_env \<Rightarrow> string \<Rightarrow> bytes \<Rightarrow> u64 \<Rightarrow> member_key list \<Rightarrow> ss58 option \<Rightarrow> signer
      \<Rightarrow> memory_blob_store \<Rightarrow> (mem_error + ss58 set) \<times> memory_blob_store" where
  "provision_team_key K cc env team team_key epoch member_keys pin sg b =
     (case load_manifest (kl_prims K) (kc_dec_manifest cc) (pe_manifests env) team pin of
        Inl e \<Rightarrow> (Inl e, b)
      | Inr manifest \<Rightarrow> provision_loop K cc env manifest team team_key epoch pin sg 0 member_keys b)"

definition rotate_team_key ::
    "key_lib \<Rightarrow> key_codec \<Rightarrow> provision_env \<Rightarrow> string \<Rightarrow> bytes \<Rightarrow> u64 \<Rightarrow> member_key list \<Rightarrow> ss58 option \<Rightarrow> signer
      \<Rightarrow> memory_blob_store \<Rightarrow> (mem_error + ss58 set) \<times> memory_blob_store" where
  "rotate_team_key K cc env team new_team_key new_epoch current_member_keys pin sg b =
     provision_team_key K cc env team new_team_key new_epoch current_member_keys pin sg b"

definition read_wrapped_key :: "key_codec \<Rightarrow> blob_view \<Rightarrow> string \<Rightarrow> u64 \<Rightarrow> ss58 \<Rightarrow> mem_error + wrapped_key" where
  "read_wrapped_key cc bv team epoch recipient =
     r_bind (bv_get bv (wrapped_key_key team epoch recipient)) (\<lambda>bytes.
       case kc_dec_wrap cc bytes of None \<Rightarrow> Inl Serialize | Some w \<Rightarrow> Inr w)"

definition fetch_team_key ::
    "key_lib \<Rightarrow> key_codec \<Rightarrow> blob_view \<Rightarrow> string \<Rightarrow> u64 \<Rightarrow> ss58 \<Rightarrow> bytes \<Rightarrow> ss58 option \<Rightarrow> mem_error + bytes" where
  "fetch_team_key K cc bv team epoch recipient recipient_secret pin =
     r_bind (read_wrapped_key cc bv team epoch recipient) (\<lambda>w.
     r_bind (unwrap_team_key K team w recipient_secret epoch) (\<lambda>secret.
     r_bind (load_manifest (kl_prims K) (kc_dec_manifest cc) bv team pin) (\<lambda>manifest.
       let ok = (case manifest of Some m \<Rightarrow> authorizes_provisioner m (wk_provisioner w) | None \<Rightarrow> pin = None)
       in if \<not> ok then Inl (Unauthorized ''sealed by a provisioner the current manifest does not authorize'') else Inr secret)))"

subsection \<open>The operations of the store\<close>

text \<open>The bucket may answer differently for every epoch asked for.\<close>

fun bootstrap_epoch_keys ::
    "key_lib \<Rightarrow> key_codec \<Rightarrow> (u64 \<Rightarrow> blob_view) \<Rightarrow> string \<Rightarrow> ss58 option \<Rightarrow> user_identity \<Rightarrow> u64 list \<Rightarrow> 'f store_state \<Rightarrow> nat \<times> 'f store_state" where
  "bootstrap_epoch_keys K cc views team pin u [] s = (0, s)"
| "bootstrap_epoch_keys K cc views team pin u (epoch # epochs) s =
     (case fetch_team_key K cc (views epoch) team epoch (ui_ss58 u) (x25519_secret (kl_prims K) u) pin of
        Inr key \<Rightarrow>
          let (added, s1) = bootstrap_epoch_keys K cc views team pin u epochs (add_epoch_key epoch key s) in (Suc added, s1)
      | Inl _ \<Rightarrow> bootstrap_epoch_keys K cc views team pin u epochs s)"

definition provision_members ::
    "key_lib \<Rightarrow> key_codec \<Rightarrow> 'f store_config \<Rightarrow> ss58 option \<Rightarrow> blob_view \<Rightarrow> provision_env \<Rightarrow> 'f store_state \<Rightarrow> (mem_error + nat) \<times> 'f store_state" where
  "provision_members K cc c pin members_at env s =
     (let team = wc_team (sc_writer c) in
      case load_member_keys K cc members_at team of
        Inl e \<Rightarrow> (Inl e, s)
      | Inr member_keys \<Rightarrow>
          let epoch = st_epoch s in
          case key_for_epoch s epoch of
            Inl e \<Rightarrow> (Inl e, s)
          | Inr team_key \<Rightarrow>
              let (r, b) = provision_team_key K cc env team team_key epoch member_keys pin (wc_signer (sc_writer c)) (bucket_of s)
              in (r_bind r (\<lambda>_. Inr (length member_keys)), set_bucket b s))"

record rotation_outcome =
  ro_new_epoch :: u64
  ro_wrapped :: "ss58 set"

text \<open>Other calls of the process run before the new epoch is chosen and while the wraps are published (\<open>ke_others\<close>).\<close>

record 'f rotation_env =
  ke_before :: blob_view
  ke_provision :: provision_env
  ke_new_key :: bytes
  ke_others :: "nat \<Rightarrow> 'f store_state \<Rightarrow> 'f store_state"

definition rotation_refusal :: "ss58 \<Rightarrow> string \<Rightarrow> team_manifest option \<Rightarrow> ss58 option \<Rightarrow> mem_error option" where
  "rotation_refusal author team manifest pin =
     (case manifest of
        Some m \<Rightarrow> if tm_founder m \<noteq> author then Some (Unauthorized ''only the team founder may rotate the team key'') else None
      | None \<Rightarrow>
          (case pin of
             None \<Rightarrow> None
           | Some pinned \<Rightarrow>
               Some (if author \<noteq> pinned then Unauthorized ''only the pinned team founder may rotate the team key'' else ManifestUnavailable team)))"

definition new_epoch_of :: "'f store_state \<Rightarrow> u64 \<Rightarrow> u64" where
  "new_epoch_of s known_max_epoch =
     u64_saturating_succ (max (case highest_epoch s of Some e \<Rightarrow> e | None \<Rightarrow> 0) known_max_epoch)"

definition rotate_key ::
    "key_lib \<Rightarrow> key_codec \<Rightarrow> 'f store_config \<Rightarrow> ss58 option \<Rightarrow> 'f rotation_env \<Rightarrow> u64 \<Rightarrow> 'f store_state
      \<Rightarrow> (mem_error + rotation_outcome) \<times> 'f store_state" where
  "rotate_key K cc c pin env known_max_epoch s =
     (let team = wc_team (sc_writer c) in
      case load_manifest (kl_prims K) (kc_dec_manifest cc) (ke_before env) team pin of
        Inl e \<Rightarrow> (Inl e, s)
      | Inr manifest \<Rightarrow>
          (case rotation_refusal (sc_author c) team manifest pin of
             Some e \<Rightarrow> (Inl e, s)
           | None \<Rightarrow>
               (case load_member_keys K cc (ke_before env) team of
                  Inl e \<Rightarrow> (Inl e, s)
                | Inr member_keys \<Rightarrow>
                    let s1 = ke_others env 0 s;
                        new_epoch = new_epoch_of s1 known_max_epoch;
                        (r, b) = rotate_team_key K cc (ke_provision env) team (ke_new_key env) new_epoch member_keys pin
                                   (wc_signer (sc_writer c)) (bucket_of s1);
                        s2 = ke_others env 1 (set_bucket b s1)
                    in case r of
                         Inl e \<Rightarrow> (Inl e, s2)
                       | Inr wrapped \<Rightarrow>
                           if wrapped = {} then (Inl (NothingToRotate team), s2)
                           else (Inr \<lparr>ro_new_epoch = new_epoch, ro_wrapped = wrapped\<rparr>,
                                 set_current_epoch new_epoch (add_epoch_key new_epoch (ke_new_key env) s2)))))"

definition join_as_member ::
    "key_lib \<Rightarrow> key_codec \<Rightarrow> fate \<Rightarrow> 'f store_config \<Rightarrow> user_identity \<Rightarrow> 'f store_state \<Rightarrow> (mem_error + unit) \<times> 'f store_state" where
  "join_as_member K cc put c u s =
     (let (r, b) = publish_member_key K cc put (wc_team (sc_writer c)) (member_key_create_signed K (wc_signer (sc_writer c)) u) (bucket_of s)
      in (r, set_bucket b s))"


section \<open>Signed and authenticated bytes\<close>

lemma wrapped_signing_bytes_sig [simp]: "wrapped_signing_bytes (w\<lparr>wk_sig := sg\<rparr>) = wrapped_signing_bytes w"
  by (simp add: wrapped_signing_bytes_def)

lemma member_key_signing_bytes_sig [simp]: "member_key_signing_bytes (m\<lparr>mk_sig := sg\<rparr>) = member_key_signing_bytes m"
  by (simp add: member_key_signing_bytes_def)

definition wrap_wf :: "wrapped_key \<Rightarrow> bool" where
  "wrap_wf w \<longleftrightarrow> length (wk_ephemeral_public w) = 32 \<and> length (wk_provisioner w) = 32 \<and> length (wk_ciphertext w) < 2 ^ 64"

lemma wrapped_signing_bytes_unique:
  assumes "wrap_wf a" and "wrap_wf b" and "wrapped_signing_bytes a = wrapped_signing_bytes b"
  shows "a = b\<lparr>wk_sig := wk_sig a\<rparr>"
proof -
  have le: "length (u64_le_bytes x) < 2 ^ 64" for x :: u64 by simp
  have 32: "length bs < 2 ^ 64" if "length bs = 32" for bs :: bytes using that by simp
  have "wk_epoch a = wk_epoch b \<and> wk_ephemeral_public a = wk_ephemeral_public b \<and> wk_ciphertext a = wk_ciphertext b \<and>
      wk_provisioner a = wk_provisioner b"
    using assms unfolding wrapped_signing_bytes_def push_framed_eq Let_def wrap_wf_def
    by (simp add: frame.enc_append_iff [OF le le] frame.enc_append_iff 32 frame.enc_inject)
  then show ?thesis by (cases a; cases b) simp
qed

lemma wrap_aad_inject:
  assumes "length t < 2 ^ 64" and "length t' < 2 ^ 64"
  shows "wrap_aad t e p r = wrap_aad t' e' p r \<longleftrightarrow> t = t' \<and> e = e'"
  using assms by (simp add: wrap_aad_def push_framed_eq frame.enc_append_iff frame.enc_inject le64.enc_append_iff)

section \<open>One wrap\<close>

text \<open>The documented behaviour of X25519, of an AEAD (what was sealed opens, and under no other additional data), and of
  a signer whose signatures verify.\<close>

definition dh_agrees :: "key_lib \<Rightarrow> bool" where
  "dh_agrees K \<longleftrightarrow> (\<forall>a b. kl_shared K a (kl_public K b) = kl_shared K b (kl_public K a))"

definition aead_binds :: "aead \<Rightarrow> bool" where
  "aead_binds A \<longleftrightarrow> aead_law A \<and>
     (\<forall>key nonce m aad ct aad' m'. ae_encrypt A key nonce m aad = Some ct \<and> ae_decrypt A key nonce ct aad' = Some m' \<longrightarrow> aad' = aad)"

definition signs :: "prims \<Rightarrow> signer \<Rightarrow> bool" where
  "signs P sg \<longleftrightarrow> (\<forall>msg. verify P (signer_verifying_key sg) msg (signer_sign sg msg))"

lemma sealed_other_aad:
  assumes "aead_binds A" and "length nonce = NONCE_LEN" and "seal A nonce key m aad = Inr ct" and "aad' \<noteq> aad"
  shows "open_blob A key ct aad' = Inl Crypto"
  using assms unfolding aead_binds_def seal_def open_blob_def by (fastforce split: option.splits)

lemma wrap_cases:
  assumes "wrap_team_key K eph nonce team key recipient epoch sg = Inr w"
  obtains ct where "kl_contributory K (kl_shared K eph recipient)"
    and "seal (kl_aead K) nonce (derive_aead_key (kl_prims K) (kl_shared K eph recipient) (kl_public K eph) recipient) key
           (wrap_aad team epoch (kl_public K eph) recipient) = Inr ct"
    and "wk_epoch w = epoch" "wk_ephemeral_public w = kl_public K eph" "wk_ciphertext w = ct" "wk_provisioner w = signer_verifying_key sg"
    and "wk_sig w = signer_sign sg (wrapped_signing_bytes w)"
  using assms by (auto simp: wrap_team_key_def wrapped_signing_bytes_def Let_def r_bind_Inr_iff split: if_splits)

lemma wrap_opens:
  assumes "dh_agrees K" and "aead_binds (kl_aead K)" and "length nonce = NONCE_LEN" and "signs (kl_prims K) sg"
    and "length team < 2 ^ 64" and "length team' < 2 ^ 64" and "length key = 32"
    and "wrap_team_key K eph nonce team key (kl_public K secret) epoch sg = Inr w"
  shows "unwrap_team_key K team' w secret epoch' = (if team' = team \<and> epoch' = epoch then Inr key else Inl Crypto)"
proof -
  let ?pub = "kl_public K secret"
  from assms(8) obtain ct where w: "kl_contributory K (kl_shared K eph ?pub)"
      "seal (kl_aead K) nonce (derive_aead_key (kl_prims K) (kl_shared K eph ?pub) (kl_public K eph) ?pub) key
         (wrap_aad team epoch (kl_public K eph) ?pub) = Inr ct"
      "wk_epoch w = epoch" "wk_ephemeral_public w = kl_public K eph" "wk_ciphertext w = ct" "wk_provisioner w = signer_verifying_key sg"
      "wk_sig w = signer_sign sg (wrapped_signing_bytes w)" by (rule wrap_cases)
  have ok: "wrapped_verify (kl_prims K) w" using assms(4) by (simp add: wrapped_verify_def signs_def w)
  have shared: "kl_shared K secret (kl_public K eph) = kl_shared K eph ?pub" using assms(1) by (simp add: dh_agrees_def)
  have "open_blob (kl_aead K) (derive_aead_key (kl_prims K) (kl_shared K eph ?pub) (kl_public K eph) ?pub) ct
      (wrap_aad team' epoch (kl_public K eph) ?pub) = (if team' = team then Inr key else Inl Crypto)"
    using open_sealed [OF _ assms(3) w(2)] sealed_other_aad [OF assms(2,3) w(2)] assms(2) wrap_aad_inject [OF assms(6,5)]
    by (auto simp: aead_binds_def)
  then show ?thesis
    using ok w(1) assms(7) by (auto simp: unwrap_team_key_def Let_def w(3-5) shared)
qed

section \<open>A provisioning\<close>

definition wraps_to :: "key_lib \<Rightarrow> string \<Rightarrow> bytes \<Rightarrow> u64 \<Rightarrow> signer \<Rightarrow> member_key \<Rightarrow> wrapped_key \<Rightarrow> bool" where
  "wraps_to K team key epoch sg m w \<longleftrightarrow> wk_provisioner w = signer_verifying_key sg \<and>
     (\<forall>secret. kl_public K secret = mk_x25519_public m \<longrightarrow> unwrap_team_key K team w secret epoch = Inr key)"

text \<open>The entries of the list the key is to be wrapped to.\<close>

definition entitled :: "prims \<Rightarrow> team_manifest option \<Rightarrow> ss58 option \<Rightarrow> member_key list \<Rightarrow> member_key set" where
  "entitled P manifest pin ms =
     {m \<in> set ms. member_key_verify P m \<and> (if manifest = None then pin = None else mk_ss58 m |\<in>| tm_members (the manifest))}"

lemma entitled_may: "entitled P manifest pin ms = {m \<in> set ms. member_key_verify P m \<and> may_receive manifest pin m}"
  by (auto simp: entitled_def may_receive_def split: option.splits)

lemma wrapped_key_key_inject: "wrapped_key_key team e a = wrapped_key_key team e' a' \<longleftrightarrow> e = e' \<and> a = a'"
  by (auto simp: wrapped_key_key_def pad20_inject append_eq_append_conv)

lemma provision_touches:
  assumes "provision_loop K cc env manifest team key epoch pin sg n ms b = (r, b')"
    and "\<forall>m\<in>entitled (kl_prims K) manifest pin ms. k \<noteq> wrapped_key_key team epoch (mk_ss58 m)"
  shows "Mapping.lookup b' k = Mapping.lookup b k"
  using assms
proof (induction ms arbitrary: n b r)
  case (Cons m ms)
  have rest: "\<forall>m\<in>entitled (kl_prims K) manifest pin ms. k \<noteq> wrapped_key_key team epoch (mk_ss58 m)"
    using Cons.prems(2) by (simp add: entitled_may)
  show ?case
  proof (cases "member_key_verify (kl_prims K) m \<and> may_receive manifest pin m")
    case False
    with Cons.prems(1) have "provision_loop K cc env manifest team key epoch pin sg (Suc n) ms b = (r, b')"
      by (auto split: if_splits)
    from Cons.IH [OF this rest] show ?thesis .
  next
    case True
    with Cons.prems(2) have k: "k \<noteq> wrapped_key_key team epoch (mk_ss58 m)" by (simp add: entitled_may)
    from Cons.prems(1) True consider "b' = b" | x where "b' = Mapping.update (wrapped_key_key team epoch (mk_ss58 m)) x b"
      | x r1 where "provision_loop K cc env manifest team key epoch pin sg (Suc n) ms (Mapping.update (wrapped_key_key team epoch (mk_ss58 m)) x b) = (r1, b')"
      by (auto simp: faulty_put_def split: sum.splits fate.splits prod.splits)
    then show ?thesis by cases (use k Cons.IH [OF _ rest] in \<open>auto simp: lookup_update'\<close>)
  qed
qed simp

text \<open>A run that succeeds wrapped the key to every entitled entry; the slot of each address holds a wrap for one of them.\<close>

lemma provision_reaches:
  assumes "provision_loop K cc env manifest team key epoch pin sg n ms b = (Inr wrapped, b')"
    and wraps: "\<And>n m w. wrap_team_key K (fst (pe_draw env n)) (snd (pe_draw env n)) team key (mk_x25519_public m) epoch sg = Inr w \<Longrightarrow>
      wraps_to K team key epoch sg m w"
    and "\<And>w. kc_dec_wrap cc (kc_enc_wrap cc w) = Some w"
  shows "wrapped = mk_ss58 ` entitled (kl_prims K) manifest pin ms \<and>
    (\<forall>a\<in>wrapped. \<exists>m\<in>entitled (kl_prims K) manifest pin ms. mk_ss58 m = a \<and>
       (\<exists>bs w. Mapping.lookup b' (wrapped_key_key team epoch a) = Some bs \<and> kc_dec_wrap cc bs = Some w \<and> wraps_to K team key epoch sg m w))"
  using assms(1)
proof (induction ms arbitrary: n b wrapped)
  case (Cons m ms)
  let ?E = "entitled (kl_prims K) manifest pin"
  show ?case
  proof (cases "member_key_verify (kl_prims K) m \<and> may_receive manifest pin m")
    case False
    then have "provision_loop K cc env manifest team key epoch pin sg (Suc n) ms b = (Inr wrapped, b')" and E: "?E (m # ms) = ?E ms"
      using Cons.prems by (auto simp: entitled_may split: if_splits)
    from Cons.IH [OF this(1)] show ?thesis unfolding E .
  next
    case True
    then have E: "?E (m # ms) = insert m (?E ms)" by (auto simp: entitled_may)
    let ?slot = "wrapped_key_key team epoch (mk_ss58 m)"
    from Cons.prems True obtain w rest where w: "wrap_team_key K (fst (pe_draw env n)) (snd (pe_draw env n)) team key (mk_x25519_public m) epoch sg = Inr w"
      and rest: "provision_loop K cc env manifest team key epoch pin sg (Suc n) ms (Mapping.update ?slot (kc_enc_wrap cc w) b) = (Inr rest, b')"
      and wrapped: "wrapped = insert (mk_ss58 m) rest"
      by (auto simp: faulty_put_def r_bind_Inr_iff split: sum.splits fate.splits prod.splits)
    note IH = Cons.IH [OF rest]
    show ?thesis
    proof (cases "mk_ss58 m \<in> rest")
      case True
      with IH show ?thesis unfolding E wrapped by (auto simp: insert_absorb)
    next
      case False
      then have "Mapping.lookup b' ?slot = Some (kc_enc_wrap cc w)"
        using provision_touches [OF rest, of ?slot] IH by (auto simp: wrapped_key_key_inject lookup_update')
      with wraps [OF w] assms(3) IH show ?thesis unfolding E wrapped by auto
    qed
  qed
qed (simp add: entitled_may)

lemma wrap_wraps:
  assumes "dh_agrees K" and "aead_binds (kl_aead K)" and "length nonce = NONCE_LEN" and "signs (kl_prims K) sg"
    and "length team < 2 ^ 64" and "length key = 32"
    and "wrap_team_key K eph nonce team key (mk_x25519_public m) epoch sg = Inr w"
  shows "wraps_to K team key epoch sg m w"
proof -
  have "wk_provisioner w = signer_verifying_key sg" using assms(7) by (rule wrap_cases)
  with wrap_opens [OF assms(1-5) assms(5,6), where epoch' = epoch] assms(7) show ?thesis by (auto simp: wraps_to_def)
qed

section \<open>Fetching\<close>

lemma fetch_Inr:
  "fetch_team_key K cc bv team epoch a secret pin = Inr key \<longleftrightarrow>
     (\<exists>bs w manifest. bv_get bv (wrapped_key_key team epoch a) = Inr bs \<and> kc_dec_wrap cc bs = Some w \<and>
        unwrap_team_key K team w secret epoch = Inr key \<and>
        load_manifest (kl_prims K) (kc_dec_manifest cc) bv team pin = Inr manifest \<and>
        (case manifest of Some m \<Rightarrow> authorizes_provisioner m (wk_provisioner w) | None \<Rightarrow> pin = None))"
proof -
  have "read_wrapped_key cc bv team epoch a = Inr w \<longleftrightarrow>
      (\<exists>bs. bv_get bv (wrapped_key_key team epoch a) = Inr bs \<and> kc_dec_wrap cc bs = Some w)" for w
    by (auto simp: read_wrapped_key_def r_bind_Inr_iff split: option.splits)
  then show ?thesis unfolding fetch_team_key_def r_bind_Inr_iff Let_def by auto
qed

lemma unwrap_Inr:
  "unwrap_team_key K team w secret epoch = Inr key \<Longrightarrow> wrapped_verify (kl_prims K) w \<and> wk_epoch w = epoch"
  by (auto simp: unwrap_team_key_def split: if_splits)

text \<open>Keys closed under custody hold every provisioner the elected manifest authorizes.\<close>

lemma governing_provisioner:
  assumes "bv_list bv (manifest_prefix team) = Inr keys" and "load_manifest P dec bv team (Some f) = Inr (Some m)"
    and "\<And>k. address_names_key P f k \<Longrightarrow> k \<in> Ks" and "closed_keys (served_manifests P dec bv team keys) Ks"
    and "authorizes_provisioner m k"
  shows "k \<in> Ks"
proof -
  let ?S = "served_manifests P dec bv team keys"
  have S: "c \<in> ?S \<Longrightarrow> can_anchor f c \<Longrightarrow> tm_founder_key c \<in> Ks" for c
    using assms(3) by (auto simp: can_anchor_def served_manifests_def manifest_at_Some manifest_verify_def)
  have "governs ?S f m"
    using load_manifest_governs [OF assms(1), of P dec "Some f"] assms(2) by (auto simp: anchored_on_def)
  then have "governs {c \<in> ?S. tm_founder_key c \<in> Ks} f m" using governs_insiders [OF assms(4) S] by blast
  then have "m \<in> ?S" "tm_founder_key m \<in> Ks" unfolding governs_def anchors_def by (auto dest: succeeds_mem)
  with assms(4,5) show ?thesis unfolding closed_keys_def authorizes_provisioner_def by auto
qed

text \<open>The ring after a bootstrap.\<close>

lemma bootstrap_only_ring:
  "bootstrap_epoch_keys K cc views team pin u epochs s = (n, s') \<Longrightarrow> \<exists>ring. s' = s\<lparr>st_keys := ring\<rparr>"
proof (induction epochs arbitrary: s n)
  case Nil
  then show ?case by (metis (no_types, lifting) bootstrap_epoch_keys.simps(1) prod.inject store_state.surjective store_state.update_convs(5))
next
  case (Cons e es)
  then show ?case
    by (fastforce simp: add_epoch_key_def split: sum.splits prod.splits)
qed

lemma bootstrap_ring:
  assumes "bootstrap_epoch_keys K cc views team pin u epochs s = (n, s')"
  shows "Mapping.lookup (st_keys s') e =
    (case fetch_team_key K cc (views e) team e (ui_ss58 u) (x25519_secret (kl_prims K) u) pin of
       Inr key \<Rightarrow> if e \<in> set epochs then Some key else Mapping.lookup (st_keys s) e
     | Inl _ \<Rightarrow> Mapping.lookup (st_keys s) e)"
  using assms
proof (induction epochs arbitrary: s n)
  case Nil
  then show ?case by (simp split: sum.split)
next
  case (Cons x xs)
  show ?case
  proof (cases "fetch_team_key K cc (views x) team x (ui_ss58 u) (x25519_secret (kl_prims K) u) pin")
    case (Inl a)
    with Cons.prems have "bootstrap_epoch_keys K cc views team pin u xs s = (n, s')" by simp
    from Cons.IH [OF this] Inl show ?thesis by (auto split: sum.split)
  next
    case (Inr key)
    with Cons.prems obtain n1 where "bootstrap_epoch_keys K cc views team pin u xs (add_epoch_key x key s) = (n1, s')"
      by (auto split: prod.splits)
    from Cons.IH [OF this] Inr show ?thesis by (auto simp: add_epoch_key_def lookup_update' split: sum.split)
  qed
qed

section \<open>A rotation\<close>

lemma sorted_rev_hd: "sorted xs \<Longrightarrow> rev xs = e # r \<Longrightarrow> x \<in> set xs \<Longrightarrow> x \<le> e"
  by (drule arg_cong [where f = rev]) (auto simp: sorted_append)

lemma highest_epoch_ge:
  assumes "finite_map (st_keys s)" and "Mapping.lookup (st_keys s) e \<noteq> None"
  shows "\<exists>h. highest_epoch s = Some h \<and> e \<le> h"
proof -
  have e: "e \<in> set (Mapping.ordered_keys (st_keys s))" using assms(2) unfolding in_ordered_keys [OF assms(1)] .
  then obtain h r where hr: "rev (Mapping.ordered_keys (st_keys s)) = h # r" by (metis empty_iff empty_set neq_Nil_conv rev.simps(1) rev_rev_ident)
  have "sorted (Mapping.ordered_keys (st_keys s))" by (simp add: Mapping.ordered_keys_def)
  from sorted_rev_hd [OF this hr e] hr show ?thesis by (simp add: highest_epoch_def)
qed

lemma new_epoch_above:
  assumes "finite_map (st_keys s)" and "Mapping.lookup (st_keys s) e \<noteq> None \<or> e = known"
  shows "e < new_epoch_of s known \<or> new_epoch_of s known = - 1"
proof -
  let ?f = "max (case highest_epoch s of Some e \<Rightarrow> e | None \<Rightarrow> 0) known"
  have "e \<le> ?f" using assms(2) highest_epoch_ge [OF assms(1), of e] by (auto simp: le_max_iff_disj)
  moreover have "?f < u64_saturating_succ ?f \<or> u64_saturating_succ ?f = - 1"
    using u64_saturating_succ_gt [of ?f] by (cases "?f = - 1") (simp_all add: u64_saturating_succ_def)
  ultimately show ?thesis unfolding new_epoch_of_def by (meson le_less_trans)
qed

definition rotated ::
    "key_lib \<Rightarrow> key_codec \<Rightarrow> 'f store_config \<Rightarrow> ss58 option \<Rightarrow> 'f rotation_env \<Rightarrow> 'f store_state \<Rightarrow> rotation_outcome \<Rightarrow> member_key set \<Rightarrow> memory_blob_store \<Rightarrow> bool" where
  "rotated K cc c pin env s0 out E b \<longleftrightarrow>
     (let team = wc_team (sc_writer c); e = ro_new_epoch out in
      ro_wrapped out = mk_ss58 ` E \<and> E \<noteq> {} \<and>
      (\<forall>k. (\<forall>a\<in>ro_wrapped out. k \<noteq> wrapped_key_key team e a) \<longrightarrow> Mapping.lookup b k = Mapping.lookup (bucket_of s0) k) \<and>
      (\<forall>a\<in>ro_wrapped out. \<exists>m\<in>E. mk_ss58 m = a \<and>
         (\<exists>bs w. Mapping.lookup b (wrapped_key_key team e a) = Some bs \<and> kc_dec_wrap cc bs = Some w \<and>
            wraps_to K team (ke_new_key env) e (wc_signer (sc_writer c)) m w)))"

definition key_laws :: "key_lib \<Rightarrow> key_codec \<Rightarrow> 'f store_config \<Rightarrow> provision_env \<Rightarrow> bool" where
  "key_laws K cc c env \<longleftrightarrow> dh_agrees K \<and> aead_binds (kl_aead K) \<and> signs (kl_prims K) (wc_signer (sc_writer c)) \<and>
     length (wc_team (sc_writer c)) < 2 ^ 64 \<and> (\<forall>n. length (snd (pe_draw env n)) = NONCE_LEN) \<and> (\<forall>w. kc_dec_wrap cc (kc_enc_wrap cc w) = Some w)"

lemma rotation_result:
  assumes "rotate_key K cc c pin env known s = (Inr out, s')" and "key_laws K cc c (ke_provision env)" and "length (ke_new_key env) = 32"
  shows "\<exists>before manifest ms b.
    load_manifest (kl_prims K) (kc_dec_manifest cc) (ke_before env) (wc_team (sc_writer c)) pin = Inr before \<and>
    rotation_refusal (sc_author c) (wc_team (sc_writer c)) before pin = None \<and>
    load_manifest (kl_prims K) (kc_dec_manifest cc) (pe_manifests (ke_provision env)) (wc_team (sc_writer c)) pin = Inr manifest \<and>
    load_member_keys K cc (ke_before env) (wc_team (sc_writer c)) = Inr ms \<and>
    ro_new_epoch out = new_epoch_of (ke_others env 0 s) known \<and>
    s' = set_current_epoch (ro_new_epoch out) (add_epoch_key (ro_new_epoch out) (ke_new_key env) (ke_others env 1 (set_bucket b (ke_others env 0 s)))) \<and>
    rotated K cc c pin env (ke_others env 0 s) out (entitled (kl_prims K) manifest pin ms) b"
proof -
  let ?P = "kl_prims K" and ?team = "wc_team (sc_writer c)" and ?s0 = "ke_others env 0 s" and ?sg = "wc_signer (sc_writer c)"
  define e where "e = new_epoch_of ?s0 known"
  from assms(1) obtain before ms wrapped b where run:
      "load_manifest ?P (kc_dec_manifest cc) (ke_before env) ?team pin = Inr before"
      "rotation_refusal (sc_author c) ?team before pin = None"
      "load_member_keys K cc (ke_before env) ?team = Inr ms"
      "rotate_team_key K cc (ke_provision env) ?team (ke_new_key env) e ms pin ?sg (bucket_of ?s0) = (Inr wrapped, b)"
      "wrapped \<noteq> {}" "out = \<lparr>ro_new_epoch = e, ro_wrapped = wrapped\<rparr>"
      "s' = set_current_epoch e (add_epoch_key e (ke_new_key env) (ke_others env 1 (set_bucket b ?s0)))"
    by (auto simp: rotate_key_def Let_def e_def [symmetric] split: sum.splits option.splits prod.splits if_splits)
  from run(4) obtain manifest where m: "load_manifest ?P (kc_dec_manifest cc) (pe_manifests (ke_provision env)) ?team pin = Inr manifest"
      "provision_loop K cc (ke_provision env) manifest ?team (ke_new_key env) e pin ?sg 0 ms (bucket_of ?s0) = (Inr wrapped, b)"
    by (auto simp: rotate_team_key_def provision_team_key_def split: sum.splits)
  have laws: "dh_agrees K" "aead_binds (kl_aead K)" "signs ?P ?sg" "length ?team < 2 ^ 64"
      "length (snd (pe_draw (ke_provision env) n)) = NONCE_LEN" "kc_dec_wrap cc (kc_enc_wrap cc w) = Some w" for n w
    using assms(2) by (auto simp: key_laws_def)
  note reach = provision_reaches [OF m(2) wrap_wraps [OF laws(1,2,5,3,4) assms(3)] laws(6)]
  have "rotated K cc c pin env ?s0 out (entitled ?P manifest pin ms) b"
    using reach run(5) provision_touches [OF m(2)] unfolding rotated_def run(6) Let_def by auto
  then show ?thesis using run m(1) by (auto simp: e_def)
qed

section \<open>Published epochs\<close>

lemma not_slash: "is_digit ch \<Longrightarrow> ch \<noteq> CHR ''/'' \<and> ch \<noteq> CHR ''+''"
  by (auto simp: is_digit_def)

lemma parse_minted_epoch: "parse_epoch_segment team (wrapped_key_key team e a) = Some e"
proof -
  have digits: "list_all is_digit (pad20 (unat e))" by (simp add: u64_pad20 digits_fixed)
  then have seg: "takeWhile (\<lambda>ch. ch \<noteq> CHR ''/'') (pad20 (unat e) @ CHR ''/'' # a) = pad20 (unat e)"
    by (subst takeWhile_append2) (auto simp: list_all_iff dest: not_slash)
  have ne: "pad20 (unat e) \<noteq> []" by (metis length_pad20 list.size(3) zero_neq_numeral)
  then have "is_digit (hd (pad20 (unat e)))" using digits by (cases "pad20 (unat e)") auto
  then have "hd (pad20 (unat e)) \<noteq> CHR ''+''" by (simp add: not_slash)
  moreover have "dec_value (pad20 (unat e)) = unat e" using u64_lt_10_20 [of e] by (simp add: u64_pad20 dec_value_fixed)
  moreover have "unat e < 2 ^ 64" using unsigned_less [of e] by simp
  ultimately have "u64_from_str (pad20 (unat e)) = Some e"
    using digits ne by (simp add: u64_from_str_def parse_u64_def)
  then show ?thesis by (simp add: parse_epoch_segment_def wrapped_key_key_def strip_prefix_def seg)
qed

text \<open>What is reported is at least every epoch a wrap was published at, and zero or the epoch of some listed key.\<close>

lemma highest_published:
  assumes "bv_list bv (wrapped_keys_prefix team) = Inr keys"
  shows "\<exists>h. highest_published_epoch bv team = Inr h \<and> (\<forall>e a. wrapped_key_key team e a \<in> set keys \<longrightarrow> e \<le> h) \<and>
    (h = 0 \<or> (\<exists>k\<in>set keys. parse_epoch_segment team k = Some h))"
proof -
  let ?es = "List.map_filter (parse_epoch_segment team) keys"
  have "fold max ?es 0 = Max (set (0 # ?es))" by (simp only: Max.set_eq_fold)
  then have "e \<in> set ?es \<Longrightarrow> e \<le> fold max ?es 0" and "fold max ?es 0 \<in> set (0 # ?es)" for e
    using Max_in [of "set (0 # ?es)"] by auto
  moreover have "e \<in> set ?es" if "wrapped_key_key team e a \<in> set keys" for e a
    using that parse_minted_epoch [of team e a] by (auto simp: in_map_filter)
  ultimately show ?thesis using assms by (auto simp: highest_published_epoch_def in_map_filter)
qed

section \<open>A concrete team\<close>

definition binding_aead :: aead where
  "binding_aead = \<lparr>ae_encrypt = (\<lambda>key nonce m aad. Some (enc_bytes aad @ m)),
     ae_decrypt = (\<lambda>key nonce ct aad. let (a, r) = dec_bytes ct in if a = aad then Some r else None)\<rparr>"

definition demo_keys :: key_lib where
  "demo_keys = \<lparr>kl_prims = demo_prims, kl_aead = binding_aead, kl_public = (\<lambda>a. a), kl_shared = map2 (+), kl_contributory = (\<lambda>s. s \<noteq> replicate 32 0)\<rparr>"

definition wrap_enc :: "wrapped_key \<Rightarrow> bytes" where
  "wrap_enc w = enc_word (wk_epoch w) @ enc_bytes (wk_ephemeral_public w) @ enc_bytes (wk_ciphertext w) @ enc_bytes (wk_provisioner w) @ enc_bytes (wk_sig w)"

definition wrap_dec :: "bytes \<Rightarrow> wrapped_key option" where
  "wrap_dec bs =
     (let (e, b1) = dec_word bs; (p, b2) = dec_bytes b1; (ct, b3) = dec_bytes b2; (k, b4) = dec_bytes b3; (sg, _) = dec_bytes b4
      in Some \<lparr>wk_epoch = e, wk_ephemeral_public = p, wk_ciphertext = ct, wk_provisioner = k, wk_sig = sg\<rparr>)"

lemma wrap_dec_enc: "wrap_dec (wrap_enc w) = Some w"
proof -
  have "dec_bytes (enc_bytes b) = (b, [])" for b using dec_enc_bytes [of b "[]"] by simp
  then show ?thesis by (cases w) (simp add: wrap_dec_def wrap_enc_def codec_simps)
qed

text \<open>A member key is kept as its owner's byte; its encryption key repeats the byte.\<close>

definition demo_member :: "byte \<Rightarrow> member_key" where
  "demo_member a = \<lparr>mk_ss58 = demo_addr a, mk_x25519_public = replicate 32 a, mk_key_owner = replicate 32 a, mk_sig = replicate 64 a\<rparr>"

definition demo_key_codec :: key_codec where
  "demo_key_codec = \<lparr>kc_enc_wrap = wrap_enc, kc_dec_wrap = wrap_dec, kc_enc_member = (\<lambda>m. take 1 (mk_key_owner m)),
     kc_dec_member = (\<lambda>bs. case bs of [a] \<Rightarrow> Some (demo_member a) | _ \<Rightarrow> None), kc_dec_manifest = man_dec\<rparr>"

lemma demo_key_codec_sel [simp]: "kc_dec_manifest demo_key_codec = man_dec"
  by (simp add: demo_key_codec_def)

lemma demo_keys_sel [simp]: "kl_prims demo_keys = demo_prims" "kl_aead demo_keys = binding_aead" "kl_public demo_keys a = a"
  by (simp_all add: demo_keys_def)

lemma demo_dh: "dh_agrees demo_keys"
  unfolding dh_agrees_def demo_keys_def
proof (simp, intro allI)
  fix a b :: bytes
  show "map2 (+) a b = map2 (+) b a" by (induction a b rule: list_induct2') (simp_all add: add.commute)
qed

lemma binding_aead_binds: "aead_binds binding_aead"
  by (auto simp: aead_binds_def aead_law_def binding_aead_def dec_enc_bytes split: if_splits)

lemma demo_signs: "a \<noteq> 0 \<Longrightarrow> signs demo_prims (demo_signer a)"
  by (simp add: signs_def verify_def is_identity_point_def demo_signer_def) (simp add: demo_prims_def)

lemma demo_member_ok: "a \<noteq> 0 \<Longrightarrow> member_key_verify demo_prims (demo_member a)"
  by (simp add: member_key_verify_def verify_def is_identity_point_def demo_member_def demo_addr_names) (simp add: demo_prims_def)

lemma demo_member_fields [simp]: "mk_ss58 (demo_member a) = demo_addr a" "mk_x25519_public (demo_member a) = replicate 32 a"
  by (simp_all add: demo_member_def)

lemma demo_may_receive [simp]: "may_receive (Some (demo_manifest b n r)) pin (demo_member a) \<longleftrightarrow> a = b"
  by (simp add: may_receive_def demo_manifest_def)

text \<open>A bucket that serves manifests and one wrap.\<close>

definition serving :: "team_manifest list \<Rightarrow> string \<Rightarrow> wrapped_key \<Rightarrow> blob_view" where
  "serving ms k w = (demo_bucket ms)\<lparr>bv_get := (\<lambda>x. if x = k then Inr (wrap_enc w) else bv_get (demo_bucket ms) x)\<rparr>"

definition demo_user :: "byte \<Rightarrow> user_identity" where
  "demo_user a = \<lparr>ui_ss58 = demo_addr a, ui_verifying_key = replicate 32 a, ui_sr25519_seed = replicate 32 a\<rparr>"

lemma demo_user_fields [simp]: "ui_ss58 (demo_user a) = demo_addr a" "x25519_secret demo_prims (demo_user a) = replicate 32 a"
  by (simp_all add: demo_user_def x25519_secret_def demo_prims_def demo_digest_def Let_def)

lemma wrapped_not_manifest: "wrapped_key_key t e a \<noteq> manifest_key t v"
  by (simp add: wrapped_key_key_def wrapped_keys_prefix_def manifest_key_def)

lemma serving_manifests:
  "load_manifest P dec (serving ms (wrapped_key_key ''t'' e a) w) ''t'' pin = load_manifest P dec (demo_bucket ms) ''t'' pin"
proof -
  have "manifest_at P dec (serving ms (wrapped_key_key ''t'' e a) w) ''t'' = manifest_at P dec (demo_bucket ms) ''t''"
  proof
    fix k
    show "manifest_at P dec (serving ms (wrapped_key_key ''t'' e a) w) ''t'' k = manifest_at P dec (demo_bucket ms) ''t'' k"
    proof (cases "k = wrapped_key_key ''t'' e a")
      case True
      then have "manifest_at P dec bv ''t'' k \<noteq> Some m" for bv m using wrapped_not_manifest [of "''t''" e a] by (auto simp: manifest_at_Some)
      then show ?thesis by (metis not_Some_eq)
    qed (simp add: manifest_at_def serving_def)
  qed
  then show ?thesis by (simp add: load_manifest_def serving_def)
qed

lemma demo_wrap:
  obtains w where "wrap_team_key demo_keys (replicate 32 6) (replicate 24 0) ''t'' (replicate 32 4) (replicate 32 1) 3 (demo_signer 1) = Inr w"
    and "unwrap_team_key demo_keys ''t'' w (replicate 32 1) 3 = Inr (replicate 32 4)" and "wk_provisioner w = replicate 32 1"
proof -
  have "map2 (+) (replicate 32 6) (replicate 32 1) \<noteq> (replicate 32 0 :: bytes)" by code_simp
  then obtain w where w: "wrap_team_key demo_keys (replicate 32 6) (replicate 24 0) ''t'' (replicate 32 4) (replicate 32 1) 3 (demo_signer 1) = Inr w"
    by (simp add: wrap_team_key_def demo_keys_def seal_def binding_aead_def Let_def)
  then have "wraps_to demo_keys ''t'' (replicate 32 4) 3 (demo_signer 1) (demo_member 1) w"
    using wrap_wraps [OF demo_dh, of "replicate 24 0" "demo_signer 1" "''t''" "replicate 32 4" "replicate 32 6" "demo_member 1" 3 w]
    by (simp add: binding_aead_binds demo_signs NONCE_LEN_def)
  then have "unwrap_team_key demo_keys ''t'' w (replicate 32 1) 3 = Inr (replicate 32 4)" "wk_provisioner w = replicate 32 1"
    by (auto simp: wraps_to_def demo_signer_def)
  with w show thesis by (rule that)
qed

text \<open>A founder's store, and a bucket with his manifest and his member key.\<close>

definition founder_store :: "int store_config" where
  "founder_store = demo_store\<lparr>sc_author := demo_addr 1, sc_writer := (sc_writer demo_store)\<lparr>wc_signer := demo_signer 1\<rparr>\<rparr>"

definition founder_view :: blob_view where
  "founder_view = \<lparr>bv_list = (\<lambda>pre. if pre = member_keys_prefix ''t'' then Inr [''m''] else bv_list (demo_bucket [demo_founding]) pre),
     bv_get = (\<lambda>k. if k = ''m'' then Inr [1] else bv_get (demo_bucket [demo_founding]) k), bv_order = id\<rparr>"

definition founder_env :: "int rotation_env" where
  "founder_env = \<lparr>ke_before = founder_view, ke_provision = \<lparr>pe_manifests = founder_view, pe_draw = (\<lambda>_. (replicate 32 6, replicate 24 0)), pe_put = (\<lambda>_. Done)\<rparr>,
     ke_new_key = replicate 32 8, ke_others = (\<lambda>_ s. s)\<rparr>"

lemma founder_sel [simp]:
  "sc_author founder_store = demo_addr 1" "wc_team (sc_writer founder_store) = ''t''" "wc_signer (sc_writer founder_store) = demo_signer 1"
  by (simp_all add: founder_store_def demo_store_def demo_config_def)

lemma founder_env_sel [simp]:
  "ke_before founder_env = founder_view" "ke_new_key founder_env = replicate 32 8" "ke_others founder_env n s = s"
  "pe_manifests (ke_provision founder_env) = founder_view" "pe_draw (ke_provision founder_env) n = (replicate 32 6, replicate 24 0)"
  "pe_put (ke_provision founder_env) n = Done"
  by (simp_all add: founder_env_def)

lemma founder_manifest: "load_manifest demo_prims man_dec founder_view ''t'' (Some (demo_addr 1)) = Inr (Some demo_founding)"
proof -
  have names: "manifest_key ''t'' v \<noteq> ''m''" "manifest_prefix ''t'' \<noteq> member_keys_prefix ''t''" for v
    by (simp_all add: manifest_key_def manifest_prefix_def member_keys_prefix_def)
  have "manifest_at demo_prims man_dec founder_view ''t'' (manifest_key ''t'' 0) =
      manifest_at demo_prims man_dec (demo_bucket [demo_founding]) ''t'' (manifest_key ''t'' 0)"
    by (simp add: manifest_at_def founder_view_def names)
  moreover have "bv_list founder_view (manifest_prefix ''t'') = Inr [manifest_key ''t'' 0]"
      "bv_list (demo_bucket [demo_founding]) (manifest_prefix ''t'') = Inr [manifest_key ''t'' 0]"
    by (simp_all add: founder_view_def demo_bucket_list names)
  ultimately have "load_manifest demo_prims man_dec founder_view ''t'' (Some (demo_addr 1)) =
      load_manifest demo_prims man_dec (demo_bucket [demo_founding]) ''t'' (Some (demo_addr 1))"
    by (simp add: load_manifest_def List.map_filter_def)
  with demo_load_one [of 1 0 "Some 2"] show ?thesis by simp
qed

lemma founder_members: "load_member_keys demo_keys demo_key_codec founder_view ''t'' = Inr [demo_member 1]"
  by (simp add: load_member_keys_def founder_view_def demo_key_codec_def demo_member_ok)

lemma founder_laws: "key_laws demo_keys demo_key_codec founder_store (ke_provision founder_env)"
  by (simp add: key_laws_def demo_dh binding_aead_binds demo_signs NONCE_LEN_def demo_key_codec_def wrap_dec_enc)

lemma founder_rotates:
  obtains s' where "rotate_key demo_keys demo_key_codec founder_store (Some (demo_addr 1)) founder_env 4 demo_start =
    (Inr \<lparr>ro_new_epoch = 5, ro_wrapped = {demo_addr 1}\<rparr>, s')"
proof -
  have "map2 (+) (replicate 32 6) (replicate 32 1) \<noteq> (replicate 32 0 :: bytes)" by code_simp
  then obtain w where "wrap_team_key demo_keys (replicate 32 6) (replicate 24 0) ''t'' (replicate 32 8) (replicate 32 1) 5 (demo_signer 1) = Inr w"
    by (simp add: wrap_team_key_def demo_keys_def seal_def binding_aead_def Let_def)
  moreover have "new_epoch_of demo_start 4 = 5"
    by (simp add: new_epoch_of_def highest_epoch_def demo_start_def Mapping.ordered_keys_def u64_saturating_succ_def)
  ultimately show thesis
    using that founder_manifest founder_members demo_member_ok [of 1]
    by (simp add: rotate_key_def rotation_refusal_def rotate_team_key_def provision_team_key_def demo_key_codec_def faulty_put_def)
qed

section \<open>Properties\<close>

text \<open>C25. The wrapped key opens in its own slot and nowhere else: what \<open>wrap_team_key\<close> seals for a member's public key opens with
  the member's secret to exactly the team key when it is read for the team and epoch it was made for, and is refused for any
  other team or epoch, wherever the bucket moved it.\<close>

theorem wrap_opens_in_its_slot:
  assumes "dh_agrees K" and "aead_binds (kl_aead K)" and "length nonce = NONCE_LEN" and "signs (kl_prims K) sg"
    and "length team < 2 ^ 64" and "length team' < 2 ^ 64" and "length key = 32"
    and "wrap_team_key K eph nonce team key (kl_public K secret) epoch sg = Inr w"
  shows "unwrap_team_key K team' w secret epoch' = (if team' = team \<and> epoch' = epoch then Inr key else Inl Crypto)"
  using assms by (rule wrap_opens)

theorem wrap_opens_in_its_slot_witness:
  "\<exists>w. wrap_team_key demo_keys (replicate 32 6) (replicate 24 0) ''t'' (replicate 32 4) (replicate 32 5) 3 (demo_signer 1) = Inr w \<and>
     unwrap_team_key demo_keys ''t'' w (replicate 32 5) 3 = Inr (replicate 32 4) \<and>
     unwrap_team_key demo_keys ''t'' w (replicate 32 5) 2 = Inl Crypto \<and> unwrap_team_key demo_keys ''u'' w (replicate 32 5) 3 = Inl Crypto"
proof -
  have "map2 (+) (replicate 32 6) (replicate 32 5) \<noteq> (replicate 32 0 :: bytes)" by code_simp
  then obtain w where w: "wrap_team_key demo_keys (replicate 32 6) (replicate 24 0) ''t'' (replicate 32 4) (replicate 32 5) 3 (demo_signer 1) = Inr w"
    by (simp add: wrap_team_key_def demo_keys_def seal_def binding_aead_def Let_def)
  then have w': "wrap_team_key demo_keys (replicate 32 6) (replicate 24 0) ''t'' (replicate 32 4) (kl_public demo_keys (replicate 32 5)) 3
      (demo_signer 1) = Inr w" by simp
  have "length (replicate 24 (0 :: byte)) = NONCE_LEN" by (simp add: NONCE_LEN_def)
  note all = wrap_opens_in_its_slot [OF demo_dh _ this _ _ _ _ w']
  have "unwrap_team_key demo_keys team' w (replicate 32 5) e = (if team' = ''t'' \<and> e = 3 then Inr (replicate 32 4) else Inl Crypto)"
    if "length team' = 1" for team' e
    by (rule all) (use that in \<open>simp_all add: binding_aead_binds demo_signs\<close>)
  with w show ?thesis by auto
qed

text \<open>C26. Provisioning reaches exactly the members. Whatever the bucket does with the writes, the only objects that change are
  the slots, at this epoch, of addresses in the list whose entry verifies and which the manifest in force names (of every
  verified entry in an open team; of none under a pinned founder without a manifest). A run that reports success returns
  exactly those addresses, and the slot of each holds a wrap, signed by the provisioner, that the holder of the member's
  encryption secret opens to the team key.\<close>

theorem provision_exact:
  assumes "provision_team_key K cc env team key epoch ms pin sg b = (r, b')"
    and "load_manifest (kl_prims K) (kc_dec_manifest cc) (pe_manifests env) team pin = Inr manifest"
    and "dh_agrees K" and "aead_binds (kl_aead K)" and "\<And>n. length (snd (pe_draw env n)) = NONCE_LEN" and "signs (kl_prims K) sg"
    and "length team < 2 ^ 64" and "length key = 32" and "\<And>w. kc_dec_wrap cc (kc_enc_wrap cc w) = Some w"
  shows "(\<forall>k. Mapping.lookup b' k = Mapping.lookup b k \<or> (\<exists>m\<in>entitled (kl_prims K) manifest pin ms. k = wrapped_key_key team epoch (mk_ss58 m))) \<and>
    (case r of Inl e \<Rightarrow> True | Inr wrapped \<Rightarrow>
       wrapped = mk_ss58 ` entitled (kl_prims K) manifest pin ms \<and>
       (\<forall>a\<in>wrapped. \<exists>m\<in>entitled (kl_prims K) manifest pin ms. mk_ss58 m = a \<and>
          (\<exists>bs w. Mapping.lookup b' (wrapped_key_key team epoch a) = Some bs \<and> kc_dec_wrap cc bs = Some w \<and> wraps_to K team key epoch sg m w)))"
proof -
  have run: "provision_loop K cc env manifest team key epoch pin sg 0 ms b = (r, b')"
    using assms(1,2) by (simp add: provision_team_key_def)
  note touches = provision_touches [OF run]
  show ?thesis
  proof (cases r)
    case (Inr wrapped)
    from provision_reaches [OF run [unfolded Inr] wrap_wraps [OF assms(3,4,5,6,7,8)] assms(9)] touches Inr show ?thesis by auto
  qed (use touches in auto)
qed

theorem provision_exact_witness:
  "\<exists>b'. provision_team_key demo_keys demo_key_codec
       \<lparr>pe_manifests = demo_bucket [demo_founding], pe_draw = (\<lambda>_. (replicate 32 6, replicate 24 0)), pe_put = (\<lambda>_. Done)\<rparr>
       ''t'' (replicate 32 4) 3 [demo_member 3, demo_member 1] (Some (demo_addr 1)) (demo_signer 1) Mapping.empty = (Inr {demo_addr 1}, b') \<and>
     Mapping.lookup b' (wrapped_key_key ''t'' 3 (demo_addr 3)) = None \<and> Mapping.lookup b' (wrapped_key_key ''t'' 3 (demo_addr 1)) \<noteq> None"
proof -
  let ?env = "\<lparr>pe_manifests = demo_bucket [demo_founding], pe_draw = (\<lambda>_. (replicate 32 6, replicate 24 0)), pe_put = (\<lambda>_. Done)\<rparr>"
  let ?ms = "[demo_member 3, demo_member 1]"
  have load: "load_manifest (kl_prims demo_keys) (kc_dec_manifest demo_key_codec) (pe_manifests ?env) ''t'' (Some (demo_addr 1)) = Inr (Some demo_founding)"
    using demo_load_one [of 1 0 "Some 2"] by (simp add: demo_key_codec_def)
  have E: "entitled demo_prims (Some demo_founding) (Some (demo_addr 1)) ?ms = {demo_member 1}"
    using demo_member_ok [of 1] by (auto simp: entitled_may demo_may_receive)
  have "map2 (+) (replicate 32 6) (replicate 32 1) \<noteq> (replicate 32 0 :: bytes)" by code_simp
  then obtain w where "wrap_team_key demo_keys (replicate 32 6) (replicate 24 0) ''t'' (replicate 32 4) (replicate 32 1) 3 (demo_signer 1) = Inr w"
    by (simp add: wrap_team_key_def demo_keys_def seal_def binding_aead_def Let_def)
  then obtain b' where run: "provision_team_key demo_keys demo_key_codec ?env ''t'' (replicate 32 4) 3 ?ms (Some (demo_addr 1)) (demo_signer 1) Mapping.empty =
      (Inr {demo_addr 1}, b')"
    using demo_member_ok [of 1] demo_member_ok [of 3] load
    by (simp add: provision_team_key_def demo_may_receive faulty_put_def)
  have "kc_dec_wrap demo_key_codec (kc_enc_wrap demo_key_codec w) = Some w" for w by (simp add: demo_key_codec_def wrap_dec_enc)
  from provision_exact [OF run load demo_dh _ _ _ _ _ this] binding_aead_binds demo_signs E
  have all: "Mapping.lookup b' k = None \<or> k = wrapped_key_key ''t'' 3 (demo_addr 1)" "Mapping.lookup b' (wrapped_key_key ''t'' 3 (demo_addr 1)) \<noteq> None" for k
    by (auto simp: NONCE_LEN_def demo_member_def lookup_empty)
  with run show ?thesis using all(1) [of "wrapped_key_key ''t'' 3 (demo_addr 3)"] by (auto simp: wrapped_key_key_inject)
qed



text \<open>C28. A rotation is all or nothing for the writer. It runs only for the founder (the configured one, or the live manifest's; in
  an open team for anyone). When it fails, key ring and write epoch are what they were, up to other calls of the process.
  When it succeeds, the new epoch is above every epoch of the ring and the one the caller knew (unless those had reached the
  last number there is), new notes are sealed under the new key, that key was wrapped to every published member key the
  manifest entitles and to nobody else, and no other object changed.\<close>

theorem rotation_exact:
  assumes "rotate_key K cc c pin env known s = (r, s')" and "key_laws K cc c (ke_provision env)" and "length (ke_new_key env) = 32"
    and "finite_map (st_keys (ke_others env 0 s))"
  shows "case r of
      Inl e \<Rightarrow> s' = s \<or> (\<exists>b. s' = ke_others env 1 (set_bucket b (ke_others env 0 s)))
    | Inr out \<Rightarrow>
        (\<exists>before manifest ms b.
          load_manifest (kl_prims K) (kc_dec_manifest cc) (ke_before env) (wc_team (sc_writer c)) pin = Inr before \<and>
          rotation_refusal (sc_author c) (wc_team (sc_writer c)) before pin = None \<and>
          load_manifest (kl_prims K) (kc_dec_manifest cc) (pe_manifests (ke_provision env)) (wc_team (sc_writer c)) pin = Inr manifest \<and>
          load_member_keys K cc (ke_before env) (wc_team (sc_writer c)) = Inr ms \<and>
          rotated K cc c pin env (ke_others env 0 s) out (entitled (kl_prims K) manifest pin ms) b \<and>
          s' = set_current_epoch (ro_new_epoch out) (add_epoch_key (ro_new_epoch out) (ke_new_key env) (ke_others env 1 (set_bucket b (ke_others env 0 s))))) \<and>
        (\<forall>e. Mapping.lookup (st_keys (ke_others env 0 s)) e \<noteq> None \<or> e = known \<longrightarrow> e < ro_new_epoch out \<or> ro_new_epoch out = - 1) \<and>
        key_for_epoch s' (st_epoch s') = Inr (ke_new_key env)"
proof (cases r)
  case (Inl e)
  with assms(1) show ?thesis by (auto simp: rotate_key_def Let_def split: sum.splits option.splits prod.splits if_splits)
next
  case (Inr out)
  have ring: "key_for_epoch (set_current_epoch e (add_epoch_key e k t)) (st_epoch (set_current_epoch e (add_epoch_key e k t))) = Inr k" for e k and t :: "'a store_state"
    by (simp add: key_for_epoch_def set_current_epoch_def add_epoch_key_def lookup_update')
  from rotation_result [OF assms(1) [unfolded Inr] assms(2,3)] new_epoch_above [OF assms(4), where known = known] show ?thesis
    unfolding Inr sum.case by (metis ring)
qed

theorem rotation_exact_witness:
  "\<exists>s'. rotate_key demo_keys demo_key_codec founder_store (Some (demo_addr 1)) founder_env 4 demo_start =
      (Inr \<lparr>ro_new_epoch = 5, ro_wrapped = {demo_addr 1}\<rparr>, s') \<and> key_for_epoch s' (st_epoch s') = Inr (replicate 32 8)"
proof -
  obtain s' where run: "rotate_key demo_keys demo_key_codec founder_store (Some (demo_addr 1)) founder_env 4 demo_start =
      (Inr \<lparr>ro_new_epoch = 5, ro_wrapped = {demo_addr 1}\<rparr>, s')" by (rule founder_rotates)
  have "finite_map (st_keys (ke_others founder_env 0 demo_start))" by (simp add: demo_start_def finite_map_def)
  from rotation_exact [OF run founder_laws _ this] run show ?thesis by auto
qed



text \<open>A recovery orphans the wraps of the lost founder. What is authorized is the founder and the recovery key of the live
  manifest, also for wraps of older epochs: once the recovery key's holder has taken over, the wraps the first founder
  published, which every member still finds in the bucket, are refused, and a member that restarts loses the epochs sealed
  before, until they are wrapped again.\<close>

theorem recovery_orphans_wraps:
  "\<exists>w. fetch_team_key demo_keys demo_key_codec (serving [demo_founding] (wrapped_key_key ''t'' 3 (demo_addr 1)) w) ''t'' 3
      (demo_addr 1) (replicate 32 1) (Some (demo_addr 1)) = Inr (replicate 32 4) \<and>
    (\<exists>why. fetch_team_key demo_keys demo_key_codec (serving [demo_recovered, demo_founding] (wrapped_key_key ''t'' 3 (demo_addr 1)) w) ''t'' 3
      (demo_addr 1) (replicate 32 1) (Some (demo_addr 1)) = Inl (Unauthorized why))"
proof -
  obtain w where w: "unwrap_team_key demo_keys ''t'' w (replicate 32 1) 3 = Inr (replicate 32 4)" "wk_provisioner w = replicate 32 1"
    by (rule demo_wrap)
  note S = demo_governs [OF disjI2, OF refl]
  have new: "load_manifest demo_prims man_dec (demo_bucket [demo_recovered, demo_founding]) ''t'' (Some (demo_addr 1)) = Inr (Some demo_recovered)"
    by (rule load_manifest_unique [OF demo_bucket_list, where f = "demo_addr 1"], unfold S(1)) (use S(2) in \<open>simp_all add: anchored_on_def\<close>)
  have read: "read_wrapped_key demo_key_codec (serving ms (wrapped_key_key ''t'' 3 (demo_addr 1)) w) ''t'' 3 (demo_addr 1) = Inr w" for ms
    by (simp add: read_wrapped_key_def serving_def demo_key_codec_def wrap_dec_enc)
  have "kc_dec_manifest demo_key_codec = man_dec" by (simp add: demo_key_codec_def)
  then show ?thesis
    using w demo_load_one [of 1 0 "Some 2"] new
    by (intro exI [of _ w])
      (simp add: fetch_team_key_def read serving_manifests authorizes_provisioner_def trusted_recovery_key_def)
qed

text \<open>Publishing a member key does not check that the encryption key is the signer's own: with any identity a join publishes.\<close>

lemma join_ignores_identity:
  assumes "signs (kl_prims K) (wc_signer (sc_writer c))"
    and "address_names_key (kl_prims K) (signer_author_ss58 (wc_signer (sc_writer c))) (signer_verifying_key (wc_signer (sc_writer c)))"
  shows "fst (join_as_member K cc Done c u s) = Inr ()"
proof -
  have "member_key_verify (kl_prims K) (member_key_create_signed K (wc_signer (sc_writer c)) u)"
    using assms by (simp add: member_key_verify_def member_key_create_signed_def signs_def Let_def member_key_signing_bytes_def)
  then show ?thesis by (simp add: join_as_member_def publish_member_key_def faulty_put_def)
qed

text \<open>One listed member key that cannot be fetched (it is too large, or it vanished after the listing) ends the load, and with it
  provisioning and rotation.\<close>

lemma member_keys_loop_fails: "k \<in> set ks \<Longrightarrow> bv_get bv k = Inl e \<Longrightarrow> \<exists>e'. member_keys_loop P cc bv ks = Inl e'"
  by (induction ks) (auto simp: r_bind_def split: sum.splits)

lemma unreadable_member_key_blocks:
  assumes "bv_list bv (member_keys_prefix (wc_team (sc_writer c))) = Inr ks" and "k \<in> set ks" and "bv_get bv k = Inl e"
  shows "\<exists>e'. provision_members K cc c pin bv env s = (Inl e', s)" and "\<exists>e'. rotate_key K cc c pin (renv\<lparr>ke_before := bv\<rparr>) known s = (Inl e', s)"
proof -
  obtain e' where load: "load_member_keys K cc bv (wc_team (sc_writer c)) = Inl e'"
    using member_keys_loop_fails [OF assms(2,3), of "kl_prims K" cc] assms(1) by (auto simp: load_member_keys_def)
  then show "\<exists>e'. provision_members K cc c pin bv env s = (Inl e', s)" by (simp add: provision_members_def)
  show "\<exists>e'. rotate_key K cc c pin (renv\<lparr>ke_before := bv\<rparr>) known s = (Inl e', s)"
    using load by (simp add: rotate_key_def Let_def split: sum.split option.split)
qed

end
