(* ===== verification/Spec2Isabelle.thy ===== *)
theory Spec2Isabelle
  imports Hex Ulid Domain Objkey Op Converge Chain Blob Oplog_Store Oplog_Read Oplog_Quarantine
    Head Maps Atomic_File Demo_Codec Watermark Merkle Anchor Reconcile Manifest Writer Anchoring
    Index Search Notes Store Memory Editing Reclaim Checkpoint Sync Replay Syncing Teamkey
begin

text \<open>
  Verification of the core of Hippius Memory, the crate \<^verbatim>\<open>hippius-mem-core\<close>: a shared, encrypted memory
  for coding agents. Members of a team seal their notes into an object store nobody has to trust (an S3
  gateway, a directory, or memory), and every change is an op, signed by its author, hash-chained to the
  author's previous op, and appended to an op log in the same store. A machine reads the log, keeps the
  ops it can verify, converges them into one state per note, and indexes the live notes for search. Op
  hashes are batched into Merkle trees whose roots are anchored on a chain, so that an auditor can tell
  what a store has suppressed.

  All the code named here is under \<^verbatim>\<open>src/hippius-mem-core/src/\<close>. A theory models one source file, or one
  part of \<^verbatim>\<open>store/mod.rs\<close>; a definition bears the name of the function or type it translates (with a prefix
  where two would clash, as in \<^verbatim>\<open>memory_get\<close>), and the \<^verbatim>\<open>text\<close> in front of a group says what stands for
  what.

  \<^bold>\<open>The parts and their theories\<close>

  Values and encodings.

  \<^item> \<^verbatim>\<open>Prelude\<close>: words and bytes, the crate's error type (\<^verbatim>\<open>error.rs\<close>), linear orders on lists and records,
    the theorem collections. \<^verbatim>\<open>Maps\<close>: \<^verbatim>\<open>BTreeMap\<close>. \<^verbatim>\<open>Demo_Codec\<close>: a concrete codec used in witnesses only.
  \<^item> \<^verbatim>\<open>Hex\<close> (\<^verbatim>\<open>hex.rs\<close> and the strict decoders of \<^verbatim>\<open>oplog/op.rs\<close> and \<^verbatim>\<open>domain.rs\<close>), \<^verbatim>\<open>Ulid\<close> (\<^verbatim>\<open>ulid.rs\<close>), \<^verbatim>\<open>Domain\<close>
    (\<^verbatim>\<open>domain.rs\<close>, and the SS58 codec of \<^verbatim>\<open>identity/mod.rs\<close>), \<^verbatim>\<open>Objkey\<close> (\<^verbatim>\<open>objkey.rs\<close>).

  The op log.

  \<^item> \<^verbatim>\<open>Op\<close> (\<^verbatim>\<open>oplog/op.rs\<close>, \<^verbatim>\<open>framing.rs\<close>): the op record, the bytes it is signed over, its hash, its checks.
  \<^item> \<^verbatim>\<open>Converge\<close> (\<^verbatim>\<open>oplog/converge.rs\<close>, \<^verbatim>\<open>oplog/verified.rs\<close>): the fold of an op set into the note states.
  \<^item> \<^verbatim>\<open>Chain\<close> (\<^verbatim>\<open>longest_rooted_chain\<close>, \<^verbatim>\<open>quarantine_broken_chains\<close> of \<^verbatim>\<open>oplog/store.rs\<close>): which ops of an author
    survive a fork or a gap.
  \<^item> \<^verbatim>\<open>Blob\<close> (\<^verbatim>\<open>store/blob.rs\<close>, \<^verbatim>\<open>store/fs.rs\<close>): the backends; the \<^verbatim>\<open>BlobStore\<close> trait is the locale \<^verbatim>\<open>blob_store\<close>.
  \<^item> \<^verbatim>\<open>Oplog_Store\<close>, \<^verbatim>\<open>Oplog_Read\<close>, \<^verbatim>\<open>Oplog_Quarantine\<close> (\<^verbatim>\<open>oplog/store.rs\<close>): keys, append, the verifying read
    with its cache and its outage guard, the promises of that read, and the removal of quarantined ops.
  \<^item> \<^verbatim>\<open>Head\<close>, \<^verbatim>\<open>Atomic_File\<close>, \<^verbatim>\<open>Watermark\<close> (\<^verbatim>\<open>oplog/head.rs\<close>, \<^verbatim>\<open>atomic_file.rs\<close>, \<^verbatim>\<open>oplog/watermark.rs\<close>): signed head
    pointers, crash-safe small files, and the highest head this machine has seen of every author.

  Trust and audit.

  \<^item> \<^verbatim>\<open>Merkle\<close>, \<^verbatim>\<open>Anchor\<close>, \<^verbatim>\<open>Reconcile\<close> (\<^verbatim>\<open>audit/merkle.rs\<close>, \<^verbatim>\<open>audit/anchor.rs\<close>, \<^verbatim>\<open>audit/batch.rs\<close>,
    \<^verbatim>\<open>audit/reconcile.rs\<close>): trees and proofs, anchor records and their scan, the audit.
  \<^item> \<^verbatim>\<open>Manifest\<close> (\<^verbatim>\<open>identity/manifest.rs\<close>, \<^verbatim>\<open>identity/marker.rs\<close>, the membership part of \<^verbatim>\<open>store/mod.rs\<close>): the
    election of the live manifest and the marker that keeps a machine from being rolled back.
  \<^item> \<^verbatim>\<open>Teamkey\<close> (\<^verbatim>\<open>identity/teamkey.rs\<close>, the key operations of \<^verbatim>\<open>store/mod.rs\<close>): the encryption key a member publishes,
    the team key wrapped to it, and \<^verbatim>\<open>join_as_member\<close>, \<^verbatim>\<open>provision_members\<close>, \<^verbatim>\<open>rotate_key\<close>, \<^verbatim>\<open>bootstrap_epoch_keys\<close>.

  The memory store, \<^verbatim>\<open>store/mod.rs\<close> with \<^verbatim>\<open>index/mod.rs\<close>, \<^verbatim>\<open>domain.rs\<close> and \<^verbatim>\<open>crypto.rs\<close>.

  \<^item> \<^verbatim>\<open>Writer\<close> (also \<^verbatim>\<open>oplog/writer_lock.rs\<close>): the lock, the shared tip file and the write path every op goes
    through. \<^verbatim>\<open>Anchoring\<close>: the scheduler that anchors the ops written.
  \<^item> \<^verbatim>\<open>Index\<close> and \<^verbatim>\<open>Search\<close>: the index as a state with its removal watermarks and redaction marks, and
    retrieval over it. \<^verbatim>\<open>Notes\<close>: the note, its sealed frame, its checks.
  \<^item> \<^verbatim>\<open>Store\<close>: \<^verbatim>\<open>remember\<close>, \<^verbatim>\<open>edit\<close>, \<^verbatim>\<open>recall\<close>, \<^verbatim>\<open>get\<close>, \<^verbatim>\<open>forget\<close>, \<^verbatim>\<open>redact\<close>, \<^verbatim>\<open>relate\<close>, the orphan sweep, as steps on
    the bucket, the index and the writer. \<^verbatim>\<open>Memory\<close>, \<^verbatim>\<open>Editing\<close> and \<^verbatim>\<open>Reclaim\<close> prove what they promise: the
    round trip of a note, concurrent edits, and what is deleted and what is left.
  \<^item> \<^verbatim>\<open>Checkpoint\<close> (\<^verbatim>\<open>store/snapshot.rs\<close>, \<^verbatim>\<open>store/checkpoint_cache.rs\<close>): sealed index checkpoints, their keys and
    retention, the newest-first fetch, the cache in memory and on disk.
  \<^item> \<^verbatim>\<open>Sync\<close>: the filtered read, the replay of the converged state into the index, in full or over a checkpoint,
    the ledger of vectors, the install, the checkpoint written at the end, the retries. \<^verbatim>\<open>Replay\<close> proves what a
    replay builds, \<^verbatim>\<open>Syncing\<close> what a whole pass leaves.

  Calls run downwards: \<^verbatim>\<open>Sync\<close> calls \<^verbatim>\<open>Checkpoint\<close>, \<^verbatim>\<open>Manifest\<close>, \<^verbatim>\<open>Oplog_Store\<close>, \<^verbatim>\<open>Converge\<close> and \<^verbatim>\<open>Index\<close>;
  \<^verbatim>\<open>Teamkey\<close> calls \<^verbatim>\<open>Manifest\<close> and writes the key ring of \<^verbatim>\<open>Store\<close>; \<^verbatim>\<open>Store\<close> calls \<^verbatim>\<open>Notes\<close>, \<^verbatim>\<open>Search\<close>, \<^verbatim>\<open>Index\<close>, \<^verbatim>\<open>Writer\<close> and \<^verbatim>\<open>Anchoring\<close>; \<^verbatim>\<open>Writer\<close> and
  \<^verbatim>\<open>Anchoring\<close> call \<^verbatim>\<open>Oplog_Store\<close>, \<^verbatim>\<open>Head\<close>, \<^verbatim>\<open>Watermark\<close>, \<^verbatim>\<open>Anchor\<close>; \<^verbatim>\<open>Oplog_Store\<close> calls \<^verbatim>\<open>Chain\<close>, \<^verbatim>\<open>Op\<close> and \<^verbatim>\<open>Blob\<close>.

  \<^bold>\<open>How the model corresponds to the code\<close>

  A struct is a \<^verbatim>\<open>record\<close>, an enum a \<^verbatim>\<open>datatype\<close>, an integer a \<^verbatim>\<open>word\<close> of the code's width, a \<^verbatim>\<open>String\<close> or a
  \<^verbatim>\<open>Vec\<close> of bytes a list. An error is a value of \<^verbatim>\<open>mem_error\<close> and a fallible function returns a sum. A
  \<^verbatim>\<open>&mut self\<close> method takes the state and returns it.

  An \<^verbatim>\<open>async\<close> method that shares its state is split where it can be interrupted: \<^verbatim>\<open>Editing\<close> interleaves the
  calls of one process between their awaits; \<^verbatim>\<open>Writer\<close> interleaves the processes of one machine; \<^verbatim>\<open>Anchoring\<close>
  drops the future of a call at any of its awaits; \<^verbatim>\<open>Watermark\<close> interleaves whole calls of several
  processes; \<^verbatim>\<open>Sync\<close> runs any function on the store's state at each of its awaits. Concurrent gets are a
  permutation of their results (\<^verbatim>\<open>Oplog_Read\<close>, \<^verbatim>\<open>Sync\<close>).

  The outside world is a parameter, and nothing is assumed of it that a theorem does not state:

  \<^item> the bucket answers each request as it likes, through a \<^verbatim>\<open>blob_view\<close> (what it serves) or a fate per
    request (done, lost reply, refused). \<^verbatim>\<open>fair\<close> says that the gets of a batch each complete once, in some
    order, and \<^verbatim>\<open>in_some_order\<close> the same of the concurrent decodes of a sync; \<^verbatim>\<open>honest_views\<close> says that an anchor record that exists is not reported missing. Only the theorems
    that name them need them;
  \<^item> the hash and the signature scheme are the record \<^verbatim>\<open>prims\<close>. \<^verbatim>\<open>hash_ok\<close> says the hash tells apart the ops
    of the set at hand and the genesis marker, \<^verbatim>\<open>wide_hash\<close> that digests have 32 bytes; both have instances;
  \<^item> the JSON wire formats are functions that read back what they wrote (\<^verbatim>\<open>codec_ok\<close>, \<^verbatim>\<open>formats_ok\<close> and their siblings), the
    AEAD cipher opens what it sealed (\<^verbatim>\<open>aead_law\<close>) and, for team keys, only with the additional data it was sealed with
    (\<^verbatim>\<open>aead_binds\<close>), the two sides of an X25519 exchange agree (\<^verbatim>\<open>dh_agrees\<close>), a signer's signatures verify (\<^verbatim>\<open>signs\<close>); the embedder
    is any function and may fail. \<^verbatim>\<open>key_laws\<close> bundles those a rotation needs;
  \<^item> floating-point scores are values of an abstract type with the operations the code uses, and Unicode
    case folding and word splitting are functions, because search only compares and orders their results;
  \<^item> clocks, random bits and file systems are arguments of each step.

  Loops. Recursion is structural or has a measure wherever the code's loop ends. Five loops end only if
  the data is right, and are \<^verbatim>\<open>partial_function (option)\<close>s in which \<^verbatim>\<open>None\<close> is a loop that never ends: the
  height and walk of a chain, the reachability loop of a quarantine (for these the theories show that they
  always return when \<^verbatim>\<open>hash_ok\<close> holds, because a parent is never reached again), the wait for the writer
  lock (returns by its deadline), and the reservation of an anchor key, for which
  \<^verbatim>\<open>Anchoring\<close> shows that it can run for ever. Pagination carries the code's own page and key bounds, so no fuel
  is needed anywhere.

  Arithmetic is at the code's width where it can wrap or saturate: Lamport times and sequence numbers
  (64 bits), ULIDs (128), network prefixes (16), the lengths in frames.

  \<^bold>\<open>Interfaces\<close>

  Contracts that several parts share are locales, each interpreted on the model's own definitions.
  \<^verbatim>\<open>blob_store\<close> is the backend trait (\<^verbatim>\<open>memory\<close>); \<^verbatim>\<open>small_file\<close> and its extension \<^verbatim>\<open>framed_file\<close> are the
  replace-atomically contract of the watermark, the tip and the manifest marker files; \<^verbatim>\<open>nibble_decoder\<close> and
  \<^verbatim>\<open>canonical_nibble_decoder\<close> carry the round trips of the three hex decoders; \<^verbatim>\<open>prefix_free\<close> carries the
  injectivity of everything signed or hashed (op frames, leaves, batch references); \<^verbatim>\<open>set_fold\<close> is a fold
  whose result depends only on the set of its inputs, and gives the order independence of convergence and
  of last-writer-wins; \<^verbatim>\<open>rank_choice\<close> is the tie-broken maximum a chain election takes.

  \<^bold>\<open>What the theorems show\<close>

  \<^item> Notes. A note accepted is what the next \<^verbatim>\<open>get\<close> returns; an op never points at a blob that is not
    there; no answer of the bucket makes \<^verbatim>\<open>get\<close> return another note; conditional edits lose no
    update in any interleaving; a redaction leaves no version, a sweep deletes the orphans and nothing
    else. \<^verbatim>\<open>Index\<close> and \<^verbatim>\<open>Search\<close> are refined to a small automaton per note, to an exact
    characterisation of the results and of the relations shown.
  \<^item> Sync. A pass installs the members' view: every slot of the index is pruned and offered exactly what the
    winning signed ops attest. A checkpoint can neither forge what the log attests nor hide a note;
    over an honest one (\<^verbatim>\<open>honest_snapshot\<close>: its bodies are what a decode of the signed blobs gives, vectors aside) the
    incremental replay is the full one. A written checkpoint opens to its records, the newest one that
    opens is the one loaded, retention deletes exactly the superseded.
  \<^item> The log. What a verifying read hands out is verified and chained whatever the bucket served, its
    chain election keeps a longest rooted path, the converged state depends on the op set only,
    a removal touches only a losing leaf, honest appends read back.
  \<^item> Writers and memory of the machine. The processes of one machine keep one chain; the watermarks
    are the peaks seen and never fall.
  \<^item> Membership. The elected manifest is the one custody gives, no outsider governs, and the
    machine never falls back.
  \<^item> Team keys. A wrap opens in its own slot only; provisioning reaches exactly the members the manifest
    names; no outsider installs a key in a member's ring; a rotation is all or nothing for the writer, takes
    an epoch above every known one, and leaves no wrap for the removed.
  \<^item> Anchors. No leaf is lost, a flush ends with every leaf recorded, records are well formed,
    proofs are sound, and the audit reports exactly what is missing.
  \<^item> Encodings and bounds: the lemmas of \<^verbatim>\<open>Hex\<close>, \<^verbatim>\<open>Ulid\<close>, \<^verbatim>\<open>Domain\<close>, \<^verbatim>\<open>Objkey\<close>, \<^verbatim>\<open>Op\<close>, and the bound of the listing in \<^verbatim>\<open>Blob\<close>.

  The remaining theorems are of kind error: each proves that the code as written does something its
  documentation or its callers do not expect, on a concrete state. \<^verbatim>\<open>Writer\<close>: a tip file that
  another author key left orphans the chain. \<^verbatim>\<open>Anchoring\<close>: a planted last sequence number hangs the flush, and
  a planted unsigned record is signed over a signed one. \<^verbatim>\<open>Manifest\<close>: the marker is not believed after a
  recovery. \<^verbatim>\<open>Teamkey\<close>: a recovery orphans the wraps of the lost founder. \<^verbatim>\<open>Reconcile\<close>: a
  record of another team fails the audit. \<^verbatim>\<open>Oplog_Read\<close>: a warm cache hides an outage.
  \<^verbatim>\<open>Index\<close>: a late removal hides a newer edit. \<^verbatim>\<open>Reclaim\<close>: a listing that omits an op costs a live blob, and a
  repeated redaction scrubs whatever note its op names. \<^verbatim>\<open>Domain\<close>: two addresses decode to one key. \<^verbatim>\<open>Checkpoint\<close>: three planted
  keys evict every checkpoint. \<^verbatim>\<open>Syncing\<close>: a replay shows the author a note claims, not the one who signed.

  \<^bold>\<open>Not modelled\<close>

  \<^item> In \<^verbatim>\<open>store/mod.rs\<close>: the history view and the probes that decide whether a sync runs (\<^verbatim>\<open>refresh_if_stale\<close>).
  \<^item> Decorators and pure input and output: the caching, counting and copying wrappers around a blob store
    (\<^verbatim>\<open>store/cache.rs\<close>, \<^verbatim>\<open>store/instrumented.rs\<close>, \<^verbatim>\<open>store/copy.rs\<close>), the S3 client itself, the HTTP embedder.
  \<^item> Formats that a library defines: \<^verbatim>\<open>serde\<close> and base64 shapes, the AEAD cipher, sr25519, X25519, BLAKE3, and BIP-39
    with \<^verbatim>\<open>identity/mnemonic.rs\<close>.
  \<^item> The console identity, which signs a login for a web service.
  \<^item> The binary crate \<^verbatim>\<open>hippius-mem\<close>: configuration, the MCP server, the dashboard, doctor, admin and setup
    commands, which parse, print and call the operations above.
\<close>

end
